(* ===== verification/YAM_Prelude.thy ===== *)
theory YAM_Prelude
  imports Main "HOL-Library.Word"
begin

text \<open>
  Shared foundations of the YAMemcached development: the result type that makes every
  \<open>abort()\<close>, out-of-range memory access and endless spin of the C++ code a value, checked
  array accesses, and the list lemmas the component theories share. Nothing here models a
  source file; the component theories do.
\<close>

section \<open>Results of C++ code\<close>

text \<open>
  A C++ function of the server either returns, or calls \<open>abort()\<close>, or touches memory outside
  the array it indexes (undefined behaviour), or divides by zero, or keeps spinning in a loop
  that nothing ends.
\<close>

datatype fault = Aborted | OutOfBounds | Spins | DivByZero | IntOverflow

type_synonym 'a res = "fault + 'a"

definition bind_res :: "'a res \<Rightarrow> ('a \<Rightarrow> 'b res) \<Rightarrow> 'b res" where
  "bind_res m f = (case m of Inl e \<Rightarrow> Inl e | Inr x \<Rightarrow> f x)"

lemma bind_res_simps [simp]:
  "bind_res (Inl e) f = Inl e"
  "bind_res (Inr x) f = f x"
  by (simp_all add: bind_res_def)

lemma bind_res_cong [fundef_cong]:
  "m = m' \<Longrightarrow> (\<And>x. m' = Inr x \<Longrightarrow> f x = g x) \<Longrightarrow> bind_res m f = bind_res m' g"
  by (cases m') auto

lemma bind_res_assoc: "bind_res (bind_res m f) g = bind_res m (\<lambda>x. bind_res (f x) g)"
  by (cases m) auto

lemma bind_res_Inr_iff:
  "bind_res m f = Inr y \<longleftrightarrow> (\<exists>x. m = Inr x \<and> f x = Inr y)"
  by (cases m) auto

text \<open>Steps over a list, until one fails.\<close>

fun fold_res :: "('a \<Rightarrow> 'b \<Rightarrow> 'b res) \<Rightarrow> 'a list \<Rightarrow> 'b \<Rightarrow> 'b res" where
  "fold_res f [] b = Inr b"
| "fold_res f (a # as) b = bind_res (f a b) (fold_res f as)"

text \<open>
  A loop that may never end is a \<open>partial_function (option)\<close>: \<open>None\<close> is its least fixed point
  when no iteration exits. \<open>diverge\<close> turns that into the fault \<^const>\<open>Spins\<close>.
\<close>

definition diverge :: "'a res option \<Rightarrow> 'a res" where
  "diverge r = (case r of None \<Rightarrow> Inl Spins | Some x \<Rightarrow> x)"

lemma diverge_simps [simp]:
  "diverge None = Inl Spins"
  "diverge (Some x) = x"
  by (simp_all add: diverge_def)

section \<open>Checked arrays\<close>

definition arr_get :: "'a list \<Rightarrow> nat \<Rightarrow> 'a res" where
  "arr_get xs i = (if i < length xs then Inr (xs ! i) else Inl OutOfBounds)"

definition arr_set :: "'a list \<Rightarrow> nat \<Rightarrow> 'a \<Rightarrow> 'a list res" where
  "arr_set xs i v = (if i < length xs then Inr (xs[i := v]) else Inl OutOfBounds)"

lemma arr_get_Inr [simp]: "i < length xs \<Longrightarrow> arr_get xs i = Inr (xs ! i)"
  by (simp add: arr_get_def)

lemma arr_get_Inl [simp]: "\<not> i < length xs \<Longrightarrow> arr_get xs i = Inl OutOfBounds"
  by (simp add: arr_get_def)

lemma arr_set_Inr [simp]: "i < length xs \<Longrightarrow> arr_set xs i v = Inr (xs[i := v])"
  by (simp add: arr_set_def)

lemma arr_set_Inl [simp]: "\<not> i < length xs \<Longrightarrow> arr_set xs i v = Inl OutOfBounds"
  by (simp add: arr_set_def)

lemma arr_get_eq_Inr: "arr_get xs i = Inr v \<longleftrightarrow> i < length xs \<and> v = xs ! i"
  by (auto simp: arr_get_def)

lemma arr_set_eq_Inr: "arr_set xs i v = Inr ys \<longleftrightarrow> i < length xs \<and> ys = xs[i := v]"
  by (auto simp: arr_set_def)

lemma nth_list_update_if: "xs[i := v] ! j = (if i = j \<and> i < length xs then v else xs ! j)"
  by (cases "i < length xs") (auto simp: nth_list_update list_update_beyond)

section \<open>Cyclic runs of an array\<close>

text \<open>
  Linear probing walks positions \<open>p, p + 1, \<dots>\<close> modulo the table size. \<open>cyc_upd xs p vs\<close>
  stores the values \<open>vs\<close> from position \<open>p\<close> on, wrapping round.
\<close>

fun cyc_upd :: "'a list \<Rightarrow> nat \<Rightarrow> 'a list \<Rightarrow> 'a list" where
  "cyc_upd xs p [] = xs"
| "cyc_upd xs p (v # vs) = cyc_upd (xs[p := v]) ((p + 1) mod length xs) vs"

lemma length_cyc_upd [simp]: "length (cyc_upd xs p vs) = length xs"
  by (induction xs p vs rule: cyc_upd.induct) auto

lemma mod_add_cancel_less:
  fixes n :: nat
  assumes "(p + i) mod n = (p + j) mod n" and "i < n" and "j < n"
  shows "i = j"
proof (rule ccontr)
  assume "i \<noteq> j"
  then have "\<exists>a b. a < b \<and> b < n \<and> (p + a) mod n = (p + b) mod n"
    using assms by (metis nat_neq_iff)
  then obtain a b where ab: "a < b" "b < n" "(p + a) mod n = (p + b) mod n" by blast
  then have "n dvd (p + b) - (p + a)"
    by (metis mod_eq_dvd_iff_nat nat_add_left_cancel_le less_imp_le)
  with ab show False by (auto dest: dvd_imp_le)
qed

lemma nth_cyc_upd_out:
  "(\<And>j. j < length vs \<Longrightarrow> (p + j) mod length xs \<noteq> q) \<Longrightarrow> p < length xs \<Longrightarrow>
   cyc_upd xs p vs ! q = xs ! q"
proof (induction xs p vs rule: cyc_upd.induct)
  case (2 xs p v vs)
  have "p \<noteq> q" using 2(2)[of 0] 2(3) by simp
  moreover have "cyc_upd (xs[p := v]) ((p + 1) mod length xs) vs ! q = xs[p := v] ! q"
  proof (rule 2(1))
    fix j assume "j < length vs"
    then show "((p + 1) mod length xs + j) mod length (xs[p := v]) \<noteq> q"
      using 2(2)[of "Suc j"] by (simp add: mod_simps)
  qed (use 2(3) in \<open>cases "length xs"; simp\<close>)
  ultimately show ?case by simp
qed simp

lemma nth_cyc_upd_in:
  "j < length vs \<Longrightarrow> length vs \<le> length xs \<Longrightarrow> p < length xs \<Longrightarrow>
   cyc_upd xs p vs ! ((p + j) mod length xs) = vs ! j"
proof (induction xs p vs arbitrary: j rule: cyc_upd.induct)
  case (2 xs p v vs)
  let ?q = "(p + 1) mod length xs"
  have q: "?q < length xs" using 2(4) by (cases "length xs") auto
  show ?case
  proof (cases j)
    case 0
    have "cyc_upd (xs[p := v]) ?q vs ! p = xs[p := v] ! p"
    proof (rule nth_cyc_upd_out)
      fix i assume i: "i < length vs"
      show "(?q + i) mod length (xs[p := v]) \<noteq> p"
      proof
        assume "(?q + i) mod length (xs[p := v]) = p"
        then have "(p + Suc i) mod length xs = (p + 0) mod length xs"
          using 2(4) by (simp add: mod_simps)
        moreover have "Suc i < length xs" and "0 < length xs" using i 2(3,4) by auto
        ultimately have "Suc i = 0" by (rule mod_add_cancel_less)
        then show False by simp
      qed
    qed (use q in simp)
    then show ?thesis using 0 2(4) by simp
  next
    case (Suc i)
    have "(?q + i) mod length xs = (p + j) mod length xs"
      using Suc by (simp add: mod_simps)
    moreover have "cyc_upd (xs[p := v]) ?q vs ! ((?q + i) mod length (xs[p := v])) = vs ! i"
      using 2(1)[of i] 2(2,3) q Suc by simp
    ultimately show ?thesis using Suc by simp
  qed
qed simp

lemma mod_lt: "s < n \<Longrightarrow> x mod n < (n :: nat)"
  by (cases n) auto

lemma cyc_upd_snoc:
  "p < length xs \<Longrightarrow> cyc_upd xs p (vs @ [v]) = (cyc_upd xs p vs)[(p + length vs) mod length xs := v]"
proof (induction xs p vs rule: cyc_upd.induct)
  case (2 xs p w ws)
  have "(p + 1) mod length xs < length (xs[p := w])" using 2(2) by (cases "length xs") auto
  from 2(1)[OF this] show ?case by (simp add: mod_simps)
qed simp

lemma cyc_pos: "p < n \<Longrightarrow> q < n \<Longrightarrow> \<exists>j < n. q = (p + j) mod (n :: nat)"
proof -
  assume "p < n" "q < n"
  then have "q = (p + (if p \<le> q then q - p else n - p + q)) mod n"
    and "(if p \<le> q then q - p else n - p + q) < n"
    by (auto simp: mod_simps)
  then show ?thesis by blast
qed

lemma cyc_upd_eqI:
  assumes "length ys = length xs" and "p < length xs" and "length vs \<le> length xs"
    and "\<And>j. j < length vs \<Longrightarrow> ys ! ((p + j) mod length xs) = vs ! j"
    and "\<And>j. length vs \<le> j \<Longrightarrow> j < length xs \<Longrightarrow> ys ! ((p + j) mod length xs) = xs ! ((p + j) mod length xs)"
  shows "ys = cyc_upd xs p vs"
proof (rule nth_equalityI)
  fix q assume "q < length ys"
  with assms(1,2) obtain j where j: "j < length xs" "q = (p + j) mod length xs"
    using cyc_pos[of p "length xs" q] by auto
  show "ys ! q = cyc_upd xs p vs ! q"
  proof (cases "j < length vs")
    case True
    then show ?thesis using assms nth_cyc_upd_in[OF True assms(3,2)] j by simp
  next
    case False
    have "cyc_upd xs p vs ! q = xs ! q"
    proof (rule nth_cyc_upd_out[OF _ assms(2)])
      fix i assume "i < length vs"
      then show "(p + i) mod length xs \<noteq> q"
        using mod_add_cancel_less[of p i "length xs" j] j False assms(3) by auto
    qed
    then show ?thesis using assms(5)[of j] j False by simp
  qed
qed (simp add: assms)

lemma nth_cyc_upd_after:
  assumes "p < length xs" and "length vs \<le> j" and "j < length xs"
  shows "cyc_upd xs p vs ! ((p + j) mod length xs) = xs ! ((p + j) mod length xs)"
proof (rule nth_cyc_upd_out[OF _ assms(1)])
  fix i assume "i < length vs"
  then show "(p + i) mod length xs \<noteq> (p + j) mod length xs"
    using mod_add_cancel_less[of p i "length xs" j] assms by auto
qed

lemma cyc_upd_overwrite:
  assumes "p < length xs" and "length us \<le> length vs" and "length vs \<le> length xs"
  shows "cyc_upd (cyc_upd xs p us) p vs = cyc_upd xs p vs"
proof (rule cyc_upd_eqI)
  fix j
  show "j < length vs \<Longrightarrow> cyc_upd (cyc_upd xs p us) p vs ! ((p + j) mod length xs) = vs ! j"
    using nth_cyc_upd_in[of j vs "cyc_upd xs p us" p] assms by simp
  show "length vs \<le> j \<Longrightarrow> j < length xs \<Longrightarrow>
      cyc_upd (cyc_upd xs p us) p vs ! ((p + j) mod length xs) = xs ! ((p + j) mod length xs)"
    using nth_cyc_upd_after[of p "cyc_upd xs p us" vs j] nth_cyc_upd_after[of p xs us j] assms by simp
qed (use assms in auto)

text \<open>The first \<open>d + 1\<close> values from position \<open>p\<close> on.\<close>

definition cyc_seq :: "'a list \<Rightarrow> nat \<Rightarrow> nat \<Rightarrow> 'a list" where
  "cyc_seq xs p d = map (\<lambda>j. xs ! ((p + j) mod length xs)) [0..<Suc d]"

lemma length_cyc_seq [simp]: "length (cyc_seq xs p d) = Suc d"
  by (simp add: cyc_seq_def)

lemma nth_cyc_seq [simp]: "j \<le> d \<Longrightarrow> cyc_seq xs p d ! j = xs ! ((p + j) mod length xs)"
  unfolding cyc_seq_def by (subst nth_map) (simp_all del: upt_Suc)

lemma cyc_seq_Suc: "cyc_seq xs p (Suc d) = cyc_seq xs p d @ [xs ! ((p + Suc d) mod length xs)]"
  by (simp add: cyc_seq_def)

lemma cyc_upd_seq:
  assumes "p < length xs" and "d < length xs"
  shows "cyc_upd xs p (cyc_seq xs p d) = xs"
  by (rule cyc_upd_eqI[symmetric]) (use assms in auto)

end
