(* ===== verification/LRU_Table.thy ===== *)
theory LRU_Table
  imports YAM_Prelude
begin

text \<open>
  The model of \<open>src/src/LFLRUHashTable.h\<close>: the open-addressing hash index over a fixed pool of
  elements, the doubly linked LRU list and the free list of each worker thread, and every
  operation of the class. The operations are the code's own, run by one thread at a time: an
  operation is not interleaved with another one, so a \<open>compare_exchange_weak\<close> succeeds exactly
  when the location holds the expected value, and a loop that waits for another thread is
  endless (\<^const>\<open>Spins\<close>). The class is a template over the key type, its \<open>operator==\<close> and
  the hash functor: they are the arguments \<open>keq\<close> and \<open>hasher\<close> here. The lemmas about these
  definitions are in the theories that import this one.
\<close>

section \<open>Data\<close>

definition HASH_MAX_LOCK_DEPTH :: nat where "HASH_MAX_LOCK_DEPTH = 246"

definition ACCESS_LOCK_MARK :: nat where "ACCESS_LOCK_MARK = 0xFFFFFFFF"

definition LIST_END_MARK :: nat where "LIST_END_MARK = 0xFFFFFFFE"

definition HASH_FREE_MARK :: nat where "HASH_FREE_MARK = 0xFFFFFFFF"

definition HASH_LOCK_MARK :: nat where "HASH_LOCK_MARK = 0xFFFFFFFE"

text \<open>A 64-bit value stored into an \<open>unsigned int\<close>.\<close>

definition to_uint :: "nat \<Rightarrow> nat" where "to_uint x = x mod 2 ^ 32"

record lru_links =
  left :: nat
  right :: nat

record ('k, 'v) lru_element =
  links :: lru_links
  key :: 'k
  val :: 'v

text \<open>\<open>expTimeMap\<close> is a multimap: its entries in iteration order (by expiry time, then by age).\<close>

record thread_lru =
  head :: nat
  tail :: nat
  freeListHead :: nat
  freeListSize :: nat
  moves :: nat
  inserts :: nat
  expTimeMap :: "(nat \<times> nat \<times> nat) list"
  locks :: "nat list"

record ('k, 'v) table =
  lruLists :: "thread_lru list"
  elementStorage :: "('k, 'v) lru_element list"
  elementLinks :: "nat list"
  numElements :: nat
  hashSize :: nat
  numThreads :: nat
  nextThreadId :: nat
  globalFreeListHead :: nat

section \<open>Memory accesses\<close>

definition links_at :: "('k, 'v) table \<Rightarrow> nat \<Rightarrow> lru_links" where
  "links_at t e = links (elementStorage t ! e)"

definition load_links :: "('k, 'v) table \<Rightarrow> nat \<Rightarrow> lru_links res" where
  "load_links t e = bind_res (arr_get (elementStorage t) e) (\<lambda>x. Inr (links x))"

definition put_links :: "nat \<Rightarrow> lru_links \<Rightarrow> ('k, 'v) table \<Rightarrow> ('k, 'v) table" where
  "put_links e l t =
     t\<lparr>elementStorage := (elementStorage t)[e := (elementStorage t ! e)\<lparr>links := l\<rparr>]\<rparr>"

definition store_links :: "nat \<Rightarrow> lru_links \<Rightarrow> ('k, 'v) table \<Rightarrow> ('k, 'v) table res" where
  "store_links e l t = bind_res (load_links t e) (\<lambda>_. Inr (put_links e l t))"

definition cas_links ::
    "nat \<Rightarrow> lru_links \<Rightarrow> lru_links \<Rightarrow> ('k, 'v) table \<Rightarrow> bool \<times> ('k, 'v) table" where
  "cas_links e expected new t =
     (if links_at t e = expected then (True, put_links e new t) else (False, t))"

definition upd_list ::
    "nat \<Rightarrow> (thread_lru \<Rightarrow> thread_lru) \<Rightarrow> ('k, 'v) table \<Rightarrow> ('k, 'v) table" where
  "upd_list tid f t = t\<lparr>lruLists := (lruLists t)[tid := f (lruLists t ! tid)]\<rparr>"

definition put_elem ::
    "nat \<Rightarrow> (('k, 'v) lru_element \<Rightarrow> ('k, 'v) lru_element) \<Rightarrow> ('k, 'v) table \<Rightarrow> ('k, 'v) table" where
  "put_elem e f t = t\<lparr>elementStorage := (elementStorage t)[e := f (elementStorage t ! e)]\<rparr>"

section \<open>Construction\<close>

text \<open>
  The constructor. \<open>garbage\<close> is what \<open>malloc\<close> leaves in a \<open>ThreadLRUList\<close>, and \<open>k0\<close>, \<open>v0\<close>
  are the key and value of an element filled with zero bytes by \<open>memset\<close>.
\<close>

definition init_elements :: "nat \<Rightarrow> 'k \<Rightarrow> 'v \<Rightarrow> ('k, 'v) lru_element list" where
  "init_elements n k0 v0 =
     map (\<lambda>i. \<lparr>links = \<lparr>left = LIST_END_MARK, right = to_uint (i + 1)\<rparr>, key = k0, val = v0\<rparr>) [0..<n]"

fun init_threads ::
    "thread_lru \<Rightarrow> nat \<Rightarrow> nat \<Rightarrow> nat \<Rightarrow> ('k, 'v) table \<Rightarrow> ('k, 'v) table res" where
  "init_threads garbage per tid 0 t = Inr t"
| "init_threads garbage per tid (Suc m) t =
     (let t1 = t\<lparr>lruLists := lruLists t @
                 [garbage\<lparr>head := LIST_END_MARK, tail := LIST_END_MARK,
                         freeListHead := to_uint (tid * per), expTimeMap := []\<rparr>]\<rparr>;
          last_one = (if (tid + 1) * per = 0 then 2 ^ 64 - 1 else (tid + 1) * per - 1)
      in bind_res (load_links t1 last_one) (\<lambda>l.
         if left l = last_one then Inl Aborted
         else bind_res (store_links last_one (l\<lparr>right := LIST_END_MARK\<rparr>) t1) (\<lambda>t2.
              init_threads garbage per (tid + 1) m t2)))"

definition LFLRUHashTable ::
    "thread_lru \<Rightarrow> 'k \<Rightarrow> 'v \<Rightarrow> nat \<Rightarrow> nat \<Rightarrow> nat \<Rightarrow> ('k, 'v) table res" where
  "LFLRUHashTable garbage k0 v0 inNumElements inHashSize inNumThreads =
     (if inNumElements \<ge> inHashSize then Inl Aborted
      else if inNumThreads = 0 then Inl DivByZero
      else bind_res
        (init_threads garbage (inNumElements div inNumThreads) 0 inNumThreads
          \<lparr>lruLists = [], elementStorage = init_elements inNumElements k0 v0, elementLinks = [],
           numElements = inNumElements, hashSize = inHashSize, numThreads = inNumThreads,
           nextThreadId = 0, globalFreeListHead = LIST_END_MARK\<rparr>)
        (\<lambda>t. Inr (t\<lparr>elementLinks := replicate inHashSize HASH_FREE_MARK\<rparr>)))"

definition getMyThreadId :: "('k, 'v) table \<Rightarrow> (nat \<times> ('k, 'v) table) res" where
  "getMyThreadId t =
     (let r = nextThreadId t; t' = t\<lparr>nextThreadId := (r + 1) mod 2 ^ 64\<rparr>
      in if r \<ge> numThreads t then Inl Aborted else Inr (r, t'))"

text \<open>
  The destructor aborts when a slot is still locked and destroys the key and value of every
  occupied slot; here the elements it destroys.
\<close>

fun destroy_slots :: "('k, 'v) table \<Rightarrow> nat list \<Rightarrow> nat list res" where
  "destroy_slots t [] = Inr []"
| "destroy_slots t (v # vs) =
     (if v = HASH_LOCK_MARK then Inl Aborted
      else if v \<noteq> HASH_FREE_MARK then
        bind_res (arr_get (elementStorage t) v) (\<lambda>_.
        bind_res (destroy_slots t vs) (\<lambda>es. Inr (v # es)))
      else destroy_slots t vs)"

definition destroy_table :: "('k, 'v) table \<Rightarrow> nat list res" where
  "destroy_table t = destroy_slots t (elementLinks t)"

section \<open>The LRU lists\<close>

text \<open>
  One pass of the retry loop of \<open>unlinkElement\<close>: \<open>None\<close> is \<open>continue\<close>, \<open>Some b\<close> is
  \<open>return b\<close>. The two \<open>do \<dots> while(true)\<close> loops that swing the neighbours' links reload the
  neighbour once when the first exchange fails.
\<close>

definition swing_right :: "nat \<Rightarrow> lru_links \<Rightarrow> lru_links \<Rightarrow> ('k, 'v) table \<Rightarrow> ('k, 'v) table" where
  "swing_right e lockLinks newLinks t =
     (case cas_links e lockLinks newLinks t of
        (True, t') \<Rightarrow> t'
      | (False, t') \<Rightarrow> put_links e (newLinks\<lparr>left := left (links_at t' e)\<rparr>) t')"

definition swing_left :: "nat \<Rightarrow> lru_links \<Rightarrow> lru_links \<Rightarrow> ('k, 'v) table \<Rightarrow> ('k, 'v) table" where
  "swing_left e lockLinks newLinks t =
     (case cas_links e lockLinks newLinks t of
        (True, t') \<Rightarrow> t'
      | (False, t') \<Rightarrow> put_links e (newLinks\<lparr>right := right (links_at t' e)\<rparr>) t')"

definition unlinkElement_iter ::
    "nat \<Rightarrow> ('k, 'v) table \<Rightarrow> (bool option \<times> ('k, 'v) table) res" where
  "unlinkElement_iter elementIdx t =
    bind_res (load_links t elementIdx) (\<lambda>targetLinks.
    if left targetLinks = LIST_END_MARK \<or> right targetLinks = LIST_END_MARK
    then Inr (Some False, t)
    else if left targetLinks = ACCESS_LOCK_MARK \<or> right targetLinks = ACCESS_LOCK_MARK
    then Inr (None, t)
    else
      let targetLockLinks = \<lparr>left = ACCESS_LOCK_MARK, right = ACCESS_LOCK_MARK\<rparr>;
          (ok0, t1) = cas_links elementIdx targetLinks targetLockLinks t
      in if \<not> ok0 then Inr (None, t1) else
      bind_res (load_links t1 (left targetLinks)) (\<lambda>leftLinks.
      bind_res (load_links t1 (right targetLinks)) (\<lambda>rightLinks.
      if left leftLinks = LIST_END_MARK
      then Inr (Some False, put_links elementIdx targetLinks t1)
      else if left leftLinks = ACCESS_LOCK_MARK \<or> right leftLinks \<noteq> elementIdx
      then Inr (None, put_links elementIdx targetLinks t1)
      else
        let leftLockLinks = leftLinks\<lparr>right := ACCESS_LOCK_MARK\<rparr>;
            (ok1, t2) = cas_links (left targetLinks) leftLinks leftLockLinks t1
        in if \<not> ok1 then Inr (None, put_links elementIdx targetLinks t2)
        else if right rightLinks = LIST_END_MARK
        then Inr (Some False, put_links (left targetLinks) leftLinks (put_links elementIdx targetLinks t2))
        else if right rightLinks = ACCESS_LOCK_MARK \<or> left rightLinks \<noteq> elementIdx
        then Inr (None, put_links (left targetLinks) leftLinks (put_links elementIdx targetLinks t2))
        else
          let rightLockLinks = rightLinks\<lparr>left := ACCESS_LOCK_MARK\<rparr>;
              (ok2, t3) = cas_links (right targetLinks) rightLinks rightLockLinks t2
          in if \<not> ok2
          then Inr (None, put_links (left targetLinks) leftLinks (put_links elementIdx targetLinks t3))
          else
            let t4 = swing_right (left targetLinks) leftLockLinks
                       (leftLockLinks\<lparr>right := right targetLinks\<rparr>) t3;
                t5 = swing_left (right targetLinks) rightLockLinks
                       (rightLockLinks\<lparr>left := left targetLinks\<rparr>) t4
            in Inr (Some True,
                 put_links elementIdx \<lparr>left = LIST_END_MARK, right = LIST_END_MARK\<rparr> t5))))"

partial_function (option) unlinkElement_loop ::
    "nat \<Rightarrow> ('k, 'v) table \<Rightarrow> (bool \<times> ('k, 'v) table) res option" where
  "unlinkElement_loop elementIdx t =
     (case unlinkElement_iter elementIdx t of
        Inl f \<Rightarrow> Some (Inl f)
      | Inr r \<Rightarrow> (case fst r of
                   None \<Rightarrow> unlinkElement_loop elementIdx (snd r)
                 | Some b \<Rightarrow> Some (Inr (b, snd r))))"

declare unlinkElement_loop.simps [code]

definition unlinkElement :: "nat \<Rightarrow> ('k, 'v) table \<Rightarrow> (bool \<times> ('k, 'v) table) res" where
  "unlinkElement elementIdx t = diverge (unlinkElement_loop elementIdx t)"

text \<open>The inner loop of \<open>unlinkTail\<close>: the left neighbour of the tail becomes the last element.\<close>

partial_function (option) unlinkTail_swing ::
    "nat \<Rightarrow> nat \<Rightarrow> lru_links \<Rightarrow> ('k, 'v) table \<Rightarrow> ('k, 'v) table option" where
  "unlinkTail_swing leftIdx oldTailIdx oldLeftLinks t =
     (if left oldLeftLinks \<noteq> ACCESS_LOCK_MARK \<and> right oldLeftLinks = oldTailIdx
         \<and> links_at t leftIdx = oldLeftLinks
      then Some (put_links leftIdx (oldLeftLinks\<lparr>right := LIST_END_MARK\<rparr>) t)
      else unlinkTail_swing leftIdx oldTailIdx (links_at t leftIdx) t)"

partial_function (option) unlinkTail_loop ::
    "nat \<Rightarrow> nat \<Rightarrow> ('k, 'v) table \<Rightarrow> ('k, 'v) table res option" where
  "unlinkTail_loop tid oldTailIdx t =
     (case load_links t oldTailIdx of
        Inl f \<Rightarrow> Some (Inl f)
      | Inr oldTailLinks \<Rightarrow>
          if left oldTailLinks = ACCESS_LOCK_MARK \<or> right oldTailLinks \<noteq> LIST_END_MARK
          then unlinkTail_loop tid oldTailIdx t
          else if left oldTailLinks \<noteq> LIST_END_MARK then
            (case load_links t (left oldTailLinks) of
               Inl f \<Rightarrow> Some (Inl f)
             | Inr oldLeftLinks \<Rightarrow>
                 if left oldLeftLinks = ACCESS_LOCK_MARK \<or> right oldLeftLinks \<noteq> oldTailIdx
                 then unlinkTail_loop tid oldTailIdx t
                 else (case unlinkTail_swing (left oldTailLinks) oldTailIdx oldLeftLinks t of
                         None \<Rightarrow> None
                       | Some t1 \<Rightarrow>
                           Some (store_links oldTailIdx \<lparr>left = LIST_END_MARK, right = LIST_END_MARK\<rparr>
                             (upd_list tid (\<lambda>l. l\<lparr>tail := left oldTailLinks\<rparr>) t1))))
          else Some (store_links oldTailIdx \<lparr>left = LIST_END_MARK, right = LIST_END_MARK\<rparr>
                 (upd_list tid (\<lambda>l. l\<lparr>tail := LIST_END_MARK, head := LIST_END_MARK\<rparr>) t)))"

declare unlinkTail_swing.simps [code] unlinkTail_loop.simps [code]

definition unlinkTail :: "nat \<Rightarrow> ('k, 'v) table \<Rightarrow> (nat \<times> ('k, 'v) table) res" where
  "unlinkTail tid t =
     bind_res (arr_get (lruLists t) tid) (\<lambda>l.
     bind_res (diverge (unlinkTail_loop tid (tail l) t)) (\<lambda>t'. Inr (tail l, t')))"

definition linkHead :: "nat \<Rightarrow> nat \<Rightarrow> ('k, 'v) table \<Rightarrow> ('k, 'v) table res" where
  "linkHead tid elementIdx t =
     bind_res (arr_get (lruLists t) tid) (\<lambda>l.
     let oldHead = head l in
     bind_res (store_links elementIdx \<lparr>left = LIST_END_MARK, right = oldHead\<rparr> t) (\<lambda>t1.
     if oldHead \<noteq> LIST_END_MARK then
       bind_res (load_links t1 oldHead) (\<lambda>oldHeadLinks.
       bind_res (store_links oldHead (oldHeadLinks\<lparr>left := elementIdx\<rparr>) t1) (\<lambda>t2.
       Inr (upd_list tid (\<lambda>l. l\<lparr>head := elementIdx\<rparr>) t2)))
     else
       Inr (upd_list tid (\<lambda>l. l\<lparr>head := elementIdx\<rparr>)
              (upd_list tid (\<lambda>l. l\<lparr>tail := elementIdx\<rparr>) t1))))"

definition linkTail :: "nat \<Rightarrow> nat \<Rightarrow> ('k, 'v) table \<Rightarrow> ('k, 'v) table res" where
  "linkTail tid elementIdx t =
     bind_res (arr_get (lruLists t) tid) (\<lambda>l.
     let oldTail = tail l in
     bind_res (store_links elementIdx \<lparr>left = oldTail, right = LIST_END_MARK\<rparr> t) (\<lambda>t1.
     if oldTail \<noteq> LIST_END_MARK then
       bind_res (load_links t1 oldTail) (\<lambda>oldTailLinks.
       bind_res (store_links oldTail (oldTailLinks\<lparr>right := elementIdx\<rparr>) t1) (\<lambda>t2.
       Inr (upd_list tid (\<lambda>l. l\<lparr>tail := elementIdx\<rparr>) t2)))
     else
       Inr (upd_list tid (\<lambda>l. l\<lparr>tail := elementIdx\<rparr>)
              (upd_list tid (\<lambda>l. l\<lparr>head := elementIdx\<rparr>) t1))))"

text \<open>
  The four lines with which every operation returns an element to the caller's free list, and
  the three with which the inserting operations take one.
\<close>

definition pushFree :: "nat \<Rightarrow> nat \<Rightarrow> ('k, 'v) table \<Rightarrow> ('k, 'v) table res" where
  "pushFree tid e t =
     bind_res (arr_get (lruLists t) tid) (\<lambda>l.
     bind_res (store_links e \<lparr>left = LIST_END_MARK, right = freeListHead l\<rparr> t) (\<lambda>t1.
     Inr (upd_list tid (\<lambda>l. l\<lparr>freeListHead := e\<rparr>) t1)))"

definition popFree :: "nat \<Rightarrow> ('k, 'v) table \<Rightarrow> (nat \<times> ('k, 'v) table) res" where
  "popFree tid t =
     bind_res (arr_get (lruLists t) tid) (\<lambda>l.
     bind_res (load_links t (freeListHead l)) (\<lambda>freeListHeadLinks.
     Inr (freeListHead l, upd_list tid (\<lambda>x. x\<lparr>freeListHead := right freeListHeadLinks\<rparr>) t)))"

text \<open>The lines after a hit: move the element to the front of the caller's list, if it can be unlinked.\<close>

definition touchElement :: "nat \<Rightarrow> nat \<Rightarrow> ('k, 'v) table \<Rightarrow> ('k, 'v) table res" where
  "touchElement tid e t =
     bind_res (unlinkElement e t) (\<lambda>(unlinked, t1).
     if unlinked
     then linkHead tid e (upd_list tid (\<lambda>l. l\<lparr>moves := (moves l + 1) mod 2 ^ 64\<rparr>) t1)
     else Inr t1)"

end
