(* ===== verification/LRU_Links.thy ===== *)
theory LRU_Links
  imports LRU_Table
begin

text \<open>
  The linked lists of \<open>LFLRUHashTable\<close> as lists. \<open>chain_inv t C\<close> says that the \<open>links\<close> words and
  the head, tail and free-list fields of the table \<open>t\<close> represent the lists \<open>C\<close>: one LRU list and
  one free list per thread, all disjoint. The lemmas show what \<open>unlinkElement\<close>, \<open>unlinkTail\<close>,
  \<open>linkHead\<close>, \<open>linkTail\<close>, \<open>popFree\<close> and \<open>pushFree\<close> do to \<open>C\<close>.
\<close>

section \<open>Views and frames\<close>

named_theorems frame_simps \<open>what an update of the table leaves alone\<close>

definition key_at :: "('k, 'v) table \<Rightarrow> nat \<Rightarrow> 'k" where
  "key_at t e = key (elementStorage t ! e)"

definition val_at :: "('k, 'v) table \<Rightarrow> nat \<Rightarrow> 'v" where
  "val_at t e = val (elementStorage t ! e)"

definition same_kv :: "('k, 'v) table \<Rightarrow> ('k, 'v) table \<Rightarrow> bool" where
  "same_kv t t' \<longleftrightarrow> length (elementStorage t') = length (elementStorage t) \<and>
     (\<forall>e < length (elementStorage t). key_at t' e = key_at t e \<and> val_at t' e = val_at t e)"

definition same_index :: "('k, 'v) table \<Rightarrow> ('k, 'v) table \<Rightarrow> bool" where
  "same_index t t' \<longleftrightarrow> elementLinks t' = elementLinks t \<and> hashSize t' = hashSize t \<and>
     numElements t' = numElements t \<and> numThreads t' = numThreads t \<and>
     nextThreadId t' = nextThreadId t \<and> globalFreeListHead t' = globalFreeListHead t \<and>
     length (lruLists t') = length (lruLists t) \<and>
     (\<forall>i < length (lruLists t). locks (lruLists t' ! i) = locks (lruLists t ! i) \<and>
        expTimeMap (lruLists t' ! i) = expTimeMap (lruLists t ! i))"

text \<open>The operations on the linked lists change neither the keys and values nor the index.\<close>

definition lists_only :: "('k, 'v) table \<Rightarrow> ('k, 'v) table \<Rightarrow> bool" where
  "lists_only t t' \<longleftrightarrow> same_kv t t' \<and> same_index t t'"

lemma lists_only_refl [simp]: "lists_only t t"
  by (simp add: lists_only_def same_kv_def same_index_def)

lemma lists_only_trans: "lists_only t t' \<Longrightarrow> lists_only t' t'' \<Longrightarrow> lists_only t t''"
  by (auto simp: lists_only_def same_kv_def same_index_def)

lemma put_links_frame [frame_simps, simp]:
  "lruLists (put_links e l t) = lruLists t"
  "elementLinks (put_links e l t) = elementLinks t"
  "hashSize (put_links e l t) = hashSize t"
  "length (elementStorage (put_links e l t)) = length (elementStorage t)"
  by (simp_all add: put_links_def)

lemma links_at_put_links [simp]:
  "e < length (elementStorage t) \<Longrightarrow> links_at (put_links e l t) = (links_at t)(e := l)"
  by (auto simp: links_at_def put_links_def fun_eq_iff nth_list_update)

lemma lists_only_put_links [simp]: "lists_only t (put_links e l t)"
  by (auto simp: lists_only_def same_kv_def same_index_def put_links_def key_at_def val_at_def
      nth_list_update_if)

lemma put_links_same [simp]:
  "e < length (elementStorage t) \<Longrightarrow> put_links e (links_at t e) t = t"
  by (simp add: put_links_def links_at_def)

lemma put_links_twice [simp]: "put_links e l (put_links e l' t) = put_links e l t"
proof (cases "e < length (elementStorage t)")
  case False
  then have "put_links e l (put_links e l' t) = t" and "put_links e l t = t"
    by (simp_all add: put_links_def list_update_beyond)
  then show ?thesis by simp
qed (simp add: put_links_def)

lemma put_links_swap: "e \<noteq> e' \<Longrightarrow> put_links e l (put_links e' l' t) = put_links e' l' (put_links e l t)"
  by (simp add: put_links_def list_update_swap)

lemma upd_list_frame [frame_simps, simp]:
  "elementStorage (upd_list tid f t) = elementStorage t"
  "elementLinks (upd_list tid f t) = elementLinks t"
  "hashSize (upd_list tid f t) = hashSize t"
  "length (lruLists (upd_list tid f t)) = length (lruLists t)"
  "links_at (upd_list tid f t) = links_at t"
  by (simp_all add: upd_list_def links_at_def fun_eq_iff)

lemma lruLists_upd_list:
  "tid < length (lruLists t) \<Longrightarrow>
   lruLists (upd_list tid f t) ! i = (if i = tid then f (lruLists t ! tid) else lruLists t ! i)"
  by (simp add: upd_list_def nth_list_update)

lemma lists_only_upd_list:
  "(\<And>l. locks (f l) = locks l \<and> expTimeMap (f l) = expTimeMap l) \<Longrightarrow> lists_only t (upd_list tid f t)"
  by (auto simp: lists_only_def same_kv_def same_index_def upd_list_def key_at_def val_at_def
      nth_list_update_if)

lemma load_links_Inr [simp]: "e < length (elementStorage t) \<Longrightarrow> load_links t e = Inr (links_at t e)"
  by (simp add: load_links_def links_at_def)

lemma store_links_Inr [simp]:
  "e < length (elementStorage t) \<Longrightarrow> store_links e l t = Inr (put_links e l t)"
  by (simp add: store_links_def)

section \<open>Doubly linked lists and free lists\<close>

definition first_or :: "nat list \<Rightarrow> nat" where
  "first_or xs = (case xs of [] \<Rightarrow> LIST_END_MARK | x # _ \<Rightarrow> x)"

definition last_or :: "nat list \<Rightarrow> nat" where
  "last_or xs = (if xs = [] then LIST_END_MARK else last xs)"

lemma first_or_simps [simp]: "first_or [] = LIST_END_MARK" "first_or (x # xs) = x"
  by (simp_all add: first_or_def)

lemma last_or_simps [simp]:
  "last_or [] = LIST_END_MARK" "last_or (xs @ [x]) = x" "last_or [x] = x"
  "last_or (x # y # ys) = last_or (y # ys)"
  by (simp_all add: last_or_def)

lemma last_or_mem: "last_or xs = LIST_END_MARK \<or> last_or xs \<in> set xs"
  by (simp add: last_or_def)

text \<open>\<open>dll L p xs n\<close>: the links \<open>L\<close> chain \<open>xs\<close>, with \<open>p\<close> to its left and \<open>n\<close> to its right.\<close>

fun dll :: "(nat \<Rightarrow> lru_links) \<Rightarrow> nat \<Rightarrow> nat list \<Rightarrow> nat \<Rightarrow> bool" where
  "dll L p [] n = True"
| "dll L p (x # xs) n =
     (left (L x) = p \<and> right (L x) = (case xs of [] \<Rightarrow> n | y # _ \<Rightarrow> y) \<and> dll L x xs n)"

fun freechain :: "(nat \<Rightarrow> lru_links) \<Rightarrow> nat \<Rightarrow> nat list \<Rightarrow> bool" where
  "freechain L h [] = (h = LIST_END_MARK)"
| "freechain L h (x # xs) = (h = x \<and> freechain L (right (L x)) xs)"

lemma dll_cong: "(\<And>x. x \<in> set xs \<Longrightarrow> L x = L' x) \<Longrightarrow> dll L p xs n = dll L' p xs n"
  by (induction xs arbitrary: p) auto

lemma freechain_cong: "(\<And>x. x \<in> set xs \<Longrightarrow> L x = L' x) \<Longrightarrow> freechain L h xs = freechain L' h xs"
  by (induction xs arbitrary: h) auto

lemma dll_append:
  "dll L p (xs @ ys) n \<longleftrightarrow>
   dll L p xs (case ys of [] \<Rightarrow> n | y # _ \<Rightarrow> y) \<and> dll L (if xs = [] then p else last xs) ys n"
  by (induction xs arbitrary: p) (auto split: list.splits)

datatype chain_id = Lru nat | Free nat

type_synonym chains = "chain_id \<Rightarrow> nat list"

definition lru_ok :: "('k, 'v) table \<Rightarrow> nat \<Rightarrow> nat list \<Rightarrow> bool" where
  "lru_ok t tid xs \<longleftrightarrow> head (lruLists t ! tid) = first_or xs \<and> tail (lruLists t ! tid) = last_or xs \<and>
     dll (links_at t) LIST_END_MARK xs LIST_END_MARK"

definition free_ok :: "('k, 'v) table \<Rightarrow> nat \<Rightarrow> nat list \<Rightarrow> bool" where
  "free_ok t tid fs \<longleftrightarrow> freechain (links_at t) (freeListHead (lruLists t ! tid)) fs"

definition chains_ok :: "nat \<Rightarrow> nat \<Rightarrow> chains \<Rightarrow> bool" where
  "chains_ok n m C \<longleftrightarrow>
     (\<forall>c. distinct (C c) \<and> (\<forall>e \<in> set (C c). e < n)) \<and>
     (\<forall>c c'. c \<noteq> c' \<longrightarrow> set (C c) \<inter> set (C c') = {}) \<and>
     (\<forall>i \<ge> m. C (Lru i) = [] \<and> C (Free i) = [])"

definition chain_inv :: "('k, 'v) table \<Rightarrow> chains \<Rightarrow> bool" where
  "chain_inv t C \<longleftrightarrow>
     length (elementStorage t) \<le> LIST_END_MARK \<and>
     chains_ok (length (elementStorage t)) (length (lruLists t)) C \<and>
     (\<forall>i < length (lruLists t). lru_ok t i (C (Lru i)) \<and> free_ok t i (C (Free i)))"

text \<open>An element can be unlinked when at least two others are on either side of it.\<close>

definition interior :: "nat \<Rightarrow> nat list \<Rightarrow> bool" where
  "interior e xs \<longleftrightarrow> (\<exists>as a b bs. xs = as @ [a, e, b] @ bs \<and> as \<noteq> [] \<and> bs \<noteq> [])"

lemma marks_neq [simp]:
  "LIST_END_MARK \<noteq> ACCESS_LOCK_MARK" "ACCESS_LOCK_MARK \<noteq> LIST_END_MARK"
  "HASH_FREE_MARK \<noteq> HASH_LOCK_MARK" "HASH_LOCK_MARK \<noteq> HASH_FREE_MARK"
  by (simp_all add: LIST_END_MARK_def ACCESS_LOCK_MARK_def HASH_FREE_MARK_def HASH_LOCK_MARK_def)

lemma elem_not_mark:
  "e < n \<Longrightarrow> n \<le> LIST_END_MARK \<Longrightarrow>
   e \<noteq> LIST_END_MARK \<and> e \<noteq> ACCESS_LOCK_MARK \<and> e \<noteq> HASH_FREE_MARK \<and> e \<noteq> HASH_LOCK_MARK"
  by (auto simp: LIST_END_MARK_def ACCESS_LOCK_MARK_def HASH_FREE_MARK_def HASH_LOCK_MARK_def)

lemma chains_ok_bound: "chains_ok n m C \<Longrightarrow> e \<in> set (C c) \<Longrightarrow> e < n"
  by (auto simp: chains_ok_def)

lemma chains_ok_owner: "chains_ok n m C \<Longrightarrow> e \<in> set (C c) \<Longrightarrow> e \<in> set (C c') \<Longrightarrow> c = c'"
  unfolding chains_ok_def by blast

lemma chains_ok_thread: "chains_ok n m C \<Longrightarrow> e \<in> set (C (Lru i)) \<Longrightarrow> i < m"
  by (force simp: chains_ok_def not_le[symmetric])

lemma chain_invD:
  assumes "chain_inv t C"
  shows "chains_ok (length (elementStorage t)) (length (lruLists t)) C"
    and "length (elementStorage t) \<le> LIST_END_MARK"
    and "i < length (lruLists t) \<Longrightarrow> lru_ok t i (C (Lru i))"
    and "i < length (lruLists t) \<Longrightarrow> free_ok t i (C (Free i))"
  using assms by (auto simp: chain_inv_def)

text \<open>
  An operation that rebuilds one list \<open>c\<close> and touches neither the links of the elements in the
  other lists nor the other threads' fields keeps the invariant.
\<close>

lemma chain_inv_local:
  assumes inv: "chain_inv t C"
    and len: "length (elementStorage t') = length (elementStorage t)"
      "length (lruLists t') = length (lruLists t)"
    and ok: "chains_ok (length (elementStorage t)) (length (lruLists t)) (C(c := ys))"
    and keep: "\<And>x d. d \<noteq> c \<Longrightarrow> x \<in> set (C d) \<Longrightarrow> links_at t' x = links_at t x"
    and lfields: "\<And>j. j < length (lruLists t) \<Longrightarrow> c \<noteq> Lru j \<Longrightarrow>
        head (lruLists t' ! j) = head (lruLists t ! j) \<and> tail (lruLists t' ! j) = tail (lruLists t ! j)"
    and ffields: "\<And>j. j < length (lruLists t) \<Longrightarrow> c \<noteq> Free j \<Longrightarrow>
        freeListHead (lruLists t' ! j) = freeListHead (lruLists t ! j)"
    and lnew: "\<And>j. c = Lru j \<Longrightarrow> lru_ok t' j ys"
    and fnew: "\<And>j. c = Free j \<Longrightarrow> free_ok t' j ys"
  shows "chain_inv t' (C(c := ys))"
  unfolding chain_inv_def
proof (intro conjI allI impI)
  fix j assume j: "j < length (lruLists t')"
  show "lru_ok t' j ((C(c := ys)) (Lru j))"
  proof (cases "c = Lru j")
    case False
    then have "dll (links_at t') p (C (Lru j)) n = dll (links_at t) p (C (Lru j)) n" for p n
      by (intro dll_cong keep[of "Lru j"]) auto
    then show ?thesis using False chain_invD(3)[OF inv, of j] lfields[of j] j len
      by (simp add: lru_ok_def)
  qed (use lnew in simp)
  show "free_ok t' j ((C(c := ys)) (Free j))"
  proof (cases "c = Free j")
    case False
    then have "freechain (links_at t') h (C (Free j)) = freechain (links_at t) h (C (Free j))" for h
      by (intro freechain_cong keep[of "Free j"]) auto
    then show ?thesis using False chain_invD(4)[OF inv, of j] ffields[of j] j len
      by (simp add: free_ok_def)
  qed (use fnew in simp)
qed (use inv len ok in \<open>auto simp: chain_inv_def\<close>)

section \<open>unlinkElement\<close>

lemma unlinkElement_exit:
  "unlinkElement_iter e t = Inr (Some b, t') \<Longrightarrow> unlinkElement e t = Inr (b, t')"
  by (simp add: unlinkElement_def unlinkElement_loop.simps)

lemma unlinkElement_iter_interior:
  assumes bounds: "e < length (elementStorage t)" "a < length (elementStorage t)"
      "b < length (elementStorage t)" "length (elementStorage t) \<le> LIST_END_MARK"
    and dist: "a \<noteq> e" "b \<noteq> e" "a \<noteq> b"
    and e: "links_at t e = \<lparr>left = a, right = b\<rparr>"
    and a: "right (links_at t a) = e" "left (links_at t a) \<noteq> LIST_END_MARK"
      "left (links_at t a) \<noteq> ACCESS_LOCK_MARK"
    and b: "left (links_at t b) = e" "right (links_at t b) \<noteq> LIST_END_MARK"
      "right (links_at t b) \<noteq> ACCESS_LOCK_MARK"
  shows "unlinkElement_iter e t = Inr (Some True,
     put_links e \<lparr>left = LIST_END_MARK, right = LIST_END_MARK\<rparr>
      (put_links b ((links_at t b)\<lparr>left := a\<rparr>) (put_links a ((links_at t a)\<lparr>right := b\<rparr>) t)))"
  using assms elem_not_mark[OF bounds(1,4)] elem_not_mark[OF bounds(2,4)] elem_not_mark[OF bounds(3,4)]
  by (simp add: unlinkElement_iter_def cas_links_def swing_right_def swing_left_def Let_def
      put_links_swap[of a b] put_links_swap[of a e] put_links_swap[of b e])

text \<open>An element with fewer than two neighbours on one side is left where it is.\<close>

lemma unlinkElement_iter_edge:
  assumes bounds: "e < length (elementStorage t)" "length (elementStorage t) \<le> LIST_END_MARK"
    and e: "links_at t e = \<lparr>left = a, right = b\<rparr>"
    and a: "a \<noteq> LIST_END_MARK \<Longrightarrow> b \<noteq> LIST_END_MARK \<Longrightarrow> a < length (elementStorage t) \<and> a \<noteq> e \<and>
        right (links_at t a) = e \<and> left (links_at t a) \<noteq> ACCESS_LOCK_MARK"
    and b: "a \<noteq> LIST_END_MARK \<Longrightarrow> b \<noteq> LIST_END_MARK \<Longrightarrow> b < length (elementStorage t) \<and> b \<noteq> e \<and> a \<noteq> b"
    and edge: "a = LIST_END_MARK \<or> b = LIST_END_MARK \<or> left (links_at t a) = LIST_END_MARK
        \<or> right (links_at t b) = LIST_END_MARK"
  shows "unlinkElement_iter e t = Inr (Some False, t)"
proof (cases "a = LIST_END_MARK \<or> b = LIST_END_MARK")
  case True
  then show ?thesis using assms by (auto simp: unlinkElement_iter_def)
next
  case False
  then have ab: "a < length (elementStorage t)" "b < length (elementStorage t)" "a \<noteq> e" "b \<noteq> e" "a \<noteq> b"
      "right (links_at t a) = e" "left (links_at t a) \<noteq> ACCESS_LOCK_MARK"
    using a b by auto
  have "put_links e \<lparr>left = a, right = b\<rparr> t = t"
    using put_links_same[OF bounds(1)] e by simp
  then show ?thesis
    using False ab e edge bounds elem_not_mark[OF ab(1) bounds(2)] elem_not_mark[OF ab(2) bounds(2)]
      elem_not_mark[OF bounds]
    by (auto simp: unlinkElement_iter_def cas_links_def Let_def put_links_swap[of a e])
qed

text \<open>
  A pass of the loop that ends in \<open>continue\<close> has put back every word it changed, so without
  another thread the loop repeats the same pass for ever.
\<close>

lemma unlinkElement_iter_retry:
  assumes "unlinkElement_iter e t = Inr (None, t')"
  shows "t' = t"
  using assms
  by (auto simp: unlinkElement_iter_def bind_res_Inr_iff cas_links_def Let_def load_links_def
      arr_get_eq_Inr links_at_def[symmetric] put_links_swap
      split: if_splits prod.splits)

lemma dll_unlink:
  assumes "dll L p (as @ [a, e, b] @ bs) n" and "distinct (as @ [a, e, b] @ bs)"
  shows "dll (L(a := (L a)\<lparr>right := b\<rparr>, b := (L b)\<lparr>left := a\<rparr>, e := x)) p (as @ [a, b] @ bs) n"
proof -
  let ?L = "L(a := (L a)\<lparr>right := b\<rparr>, b := (L b)\<lparr>left := a\<rparr>, e := x)"
  have "dll ?L p as a = dll L p as a" and "dll ?L b bs n = dll L b bs n"
    using assms(2) by (auto intro!: dll_cong)
  then show ?thesis using assms by (auto simp: dll_append split: list.splits)
qed

lemma dll_linked:
  assumes "dll L p (xs @ e # ys) n"
  shows "left (L e) = (if xs = [] then p else last xs)" "right (L e) = (case ys of [] \<Rightarrow> n | y # _ \<Rightarrow> y)"
  using assms by (auto simp: dll_append)

lemma chains_okI:
  assumes "\<And>c. distinct (C c)" and "\<And>c e. e \<in> set (C c) \<Longrightarrow> e < n"
    and "\<And>c c' e. e \<in> set (C c) \<Longrightarrow> e \<in> set (C c') \<Longrightarrow> c = c'"
    and "\<And>i e. e \<in> set (C (Lru i)) \<or> e \<in> set (C (Free i)) \<Longrightarrow> i < m"
  shows "chains_ok n m C"
  unfolding chains_ok_def
proof (intro conjI allI impI ballI)
  fix c c' :: chain_id
  assume "c \<noteq> c'"
  then show "set (C c) \<inter> set (C c') = {}" using assms(3) by blast
next
  fix i assume "m \<le> i"
  then have none: "\<not> (e \<in> set (C (Lru i)) \<or> e \<in> set (C (Free i)))" for e
    using assms(4)[of e i] by (auto simp: leD)
  show "C (Lru i) = []" using none[of "List.hd (C (Lru i))"] by (cases "C (Lru i)") auto
  show "C (Free i) = []" using none[of "List.hd (C (Free i))"] by (cases "C (Free i)") auto
qed (use assms(1,2) in auto)

lemma chains_okD:
  assumes "chains_ok n m C"
  shows "distinct (C c)" and "e \<in> set (C c) \<Longrightarrow> e < n"
    and "e \<in> set (C c) \<Longrightarrow> e \<in> set (C c') \<Longrightarrow> c = c'"
    and "e \<in> set (C (Lru i)) \<or> e \<in> set (C (Free i)) \<Longrightarrow> i < m"
proof -
  show "e \<in> set (C c) \<Longrightarrow> e \<in> set (C c') \<Longrightarrow> c = c'" by (rule chains_ok_owner[OF assms])
  show "e \<in> set (C (Lru i)) \<or> e \<in> set (C (Free i)) \<Longrightarrow> i < m"
    using assms unfolding chains_ok_def by (metis empty_iff linorder_not_le list.set(1))
qed (use assms in \<open>auto simp: chains_ok_def\<close>)

lemma chains_ok_upd:
  assumes "chains_ok n m C" and "set ys \<subseteq> set (C c)" and "distinct ys"
  shows "chains_ok n m (C(c := ys))"
proof (rule chains_okI)
  have sub: "set ((C(c := ys)) d) \<subseteq> set (C d)" for d using assms(2) by auto
  show "distinct ((C(c := ys)) d)" for d using chains_okD(1)[OF assms(1)] assms(3) by auto
  show "e < n" if "e \<in> set ((C(c := ys)) d)" for d e
    using chains_okD(2)[OF assms(1)] sub that by blast
  show "d = d'" if "e \<in> set ((C(c := ys)) d)" "e \<in> set ((C(c := ys)) d')" for d d' e
    using chains_okD(3)[OF assms(1)] sub that by blast
  show "i < m" if "e \<in> set ((C(c := ys)) (Lru i)) \<or> e \<in> set ((C(c := ys)) (Free i))" for i e
    using chains_okD(4)[OF assms(1)] sub that by blast
qed

lemma chains_ok_add:
  assumes "chains_ok n m C" and "\<And>d. e \<notin> set (C d)" and "e < n" and "i < m"
    and "c = Lru i \<or> c = Free i" and "set ys = insert e (set (C c))" and "distinct ys"
  shows "chains_ok n m (C(c := ys))"
proof (rule chains_okI)
  show "distinct ((C(c := ys)) d)" for d using chains_okD(1)[OF assms(1)] assms(7) by auto
  show "x < n" if "x \<in> set ((C(c := ys)) d)" for d x
    using chains_okD(2)[OF assms(1), of x d] chains_okD(2)[OF assms(1), of x c] assms(3,6) that
    by (auto split: if_splits)
  show "d = d'" if "x \<in> set ((C(c := ys)) d)" "x \<in> set ((C(c := ys)) d')" for d d' x
    using chains_okD(3)[OF assms(1), of x d d'] chains_okD(3)[OF assms(1), of x c d']
      chains_okD(3)[OF assms(1), of x d c] assms(2,6) that
    by (auto split: if_splits)
  show "j < m" if "x \<in> set ((C(c := ys)) (Lru j)) \<or> x \<in> set ((C(c := ys)) (Free j))" for j x
    using chains_okD(4)[OF assms(1), of x j] assms(4,5,6) that
    by (auto split: if_splits)
qed

text \<open>Every element of an LRU list sits between its neighbours.\<close>

lemma chain_inv_neighbours:
  assumes inv: "chain_inv t C" and i: "i < length (lruLists t)" and xs: "C (Lru i) = xs @ e # ys"
  shows "links_at t e = \<lparr>left = last_or xs, right = first_or ys\<rparr>"
    and "e < length (elementStorage t)" "distinct (xs @ e # ys)"
    and "\<forall>x \<in> set (xs @ ys). x < length (elementStorage t) \<and> x \<noteq> e"
proof -
  note ok = chain_invD[OF inv]
  have "dll (links_at t) LIST_END_MARK (xs @ e # ys) LIST_END_MARK"
    using ok(3)[OF i] xs by (simp add: lru_ok_def)
  from dll_linked[OF this] show "links_at t e = \<lparr>left = last_or xs, right = first_or ys\<rparr>"
    by (cases "links_at t e") (simp add: last_or_def first_or_def split: if_splits list.splits)
  have d: "distinct (C (Lru i))" and bound: "\<And>x. x \<in> set (C (Lru i)) \<Longrightarrow> x < length (elementStorage t)"
    using chains_okD(1,2)[OF ok(1)] by blast+
  show "distinct (xs @ e # ys)" using d xs by simp
  show "e < length (elementStorage t)" by (rule bound) (simp add: xs)
  show "\<forall>x \<in> set (xs @ ys). x < length (elementStorage t) \<and> x \<noteq> e"
  proof
    fix x assume x: "x \<in> set (xs @ ys)"
    then have "x < length (elementStorage t)" by (intro bound) (auto simp: xs)
    moreover have "x \<noteq> e" using d x xs by auto
    ultimately show "x < length (elementStorage t) \<and> x \<noteq> e" ..
  qed
qed

lemma unlinkElement_chain:
  assumes inv: "chain_inv t C" and xs: "C (Lru i) = as @ [a, e, b] @ bs" and ne: "as \<noteq> []" "bs \<noteq> []"
  shows "\<exists>t'. unlinkElement e t = Inr (True, t') \<and> lists_only t t' \<and> lruLists t' = lruLists t \<and>
     chain_inv t' (C(Lru i := as @ [a, b] @ bs))"
proof -
  note ok = chain_invD[OF inv]
  have i: "i < length (lruLists t)" using chains_ok_thread[OF ok(1), of e i] xs by simp
  let ?t = "put_links e \<lparr>left = LIST_END_MARK, right = LIST_END_MARK\<rparr>
      (put_links b ((links_at t b)\<lparr>left := a\<rparr>) (put_links a ((links_at t a)\<lparr>right := b\<rparr>) t))"
  have xsa: "C (Lru i) = as @ a # e # b # bs" and xse: "C (Lru i) = (as @ [a]) @ e # b # bs"
    and xsb: "C (Lru i) = (as @ [a, e]) @ b # bs" using xs by simp_all
  note na = chain_inv_neighbours[OF inv i xsa] and ne' = chain_inv_neighbours[OF inv i xse]
    and nb = chain_inv_neighbours[OF inv i xsb]
  have lens: "a < length (elementStorage t)" "b < length (elementStorage t)" "e < length (elementStorage t)"
    by (fact na(2) nb(2) ne'(2))+
  have ends: "last as < length (elementStorage t)" "hd bs < length (elementStorage t)"
    using na(4) ne by auto
  note lens = lens ends
  have d: "distinct (as @ [a, e, b] @ bs)" using na(3) by simp
  have la: "links_at t a = \<lparr>left = last as, right = e\<rparr>" using na(1) ne by (simp add: last_or_def)
  have lb: "links_at t b = \<lparr>left = e, right = hd bs\<rparr>"
    using nb(1) ne by (cases bs) (auto simp: last_or_def)
  have le: "links_at t e = \<lparr>left = a, right = b\<rparr>" using ne'(1) by simp
  have "unlinkElement_iter e t = Inr (Some True, ?t)"
    by (rule unlinkElement_iter_interior)
      (use lens d la lb le ok(2) elem_not_mark[OF lens(4) ok(2)] elem_not_mark[OF lens(5) ok(2)] in auto)
  then have "unlinkElement e t = Inr (True, ?t)" by (rule unlinkElement_exit)
  moreover have "lists_only t ?t" by (meson lists_only_put_links lists_only_trans)
  moreover have "chain_inv ?t (C(Lru i := as @ [a, b] @ bs))"
  proof (rule chain_inv_local[OF inv])
    show "chains_ok (length (elementStorage t)) (length (lruLists t)) (C(Lru i := as @ [a, b] @ bs))"
      by (rule chains_ok_upd[OF ok(1)]) (use xs d in auto)
    have L: "links_at ?t = (links_at t)(a := (links_at t a)\<lparr>right := b\<rparr>, b := (links_at t b)\<lparr>left := a\<rparr>,
        e := \<lparr>left = LIST_END_MARK, right = LIST_END_MARK\<rparr>)"
      using lens by simp
    show "links_at ?t x = links_at t x" if "c \<noteq> Lru i" "x \<in> set (C c)" for x c
    proof -
      have "x \<notin> {a, b, e}" using chains_ok_owner[OF ok(1) that(2), of "Lru i"] that(1) xs by auto
      then show ?thesis by (simp add: L)
    qed
    show "lru_ok ?t j (as @ [a, b] @ bs)" if "Lru i = Lru j" for j
    proof -
      have "dll (links_at t) LIST_END_MARK (as @ [a, e, b] @ bs) LIST_END_MARK"
        and h: "head (lruLists t ! i) = first_or (as @ [a, e, b] @ bs)"
          "tail (lruLists t ! i) = last_or (as @ [a, e, b] @ bs)"
        using ok(3)[OF i] xs by (auto simp: lru_ok_def)
      from dll_unlink[OF this(1) d] have "dll (links_at ?t) LIST_END_MARK (as @ [a, b] @ bs) LIST_END_MARK"
        unfolding L .
      then show ?thesis using that h ne by (cases as) (auto simp: lru_ok_def last_or_def)
    qed
  qed auto
  ultimately show ?thesis by auto
qed

lemma not_interior_cases:
  assumes "\<not> interior e (xs @ e # ys)"
  shows "xs = [] \<or> ys = [] \<or> (\<exists>a. xs = [a]) \<or> (\<exists>b. ys = [b])"
proof (rule ccontr)
  assume c: "\<not> ?thesis"
  then obtain as a where xs: "xs = as @ [a]" "as \<noteq> []" by (cases xs rule: rev_cases) auto
  from c obtain b bs where ys: "ys = b # bs" "bs \<noteq> []" by (cases ys) auto
  from xs ys have "xs @ e # ys = as @ [a, e, b] @ bs" by simp
  with xs ys assms show False unfolding interior_def by blast
qed

lemma unlinkElement_edge:
  assumes inv: "chain_inv t C" and e: "e \<in> set (C (Lru i))" and edge: "\<not> interior e (C (Lru i))"
  shows "unlinkElement e t = Inr (False, t)"
proof (rule unlinkElement_exit)
  note ok = chain_invD[OF inv]
  have i: "i < length (lruLists t)" by (rule chains_ok_thread[OF ok(1) e])
  obtain xs ys where xs: "C (Lru i) = xs @ e # ys" using e by (meson split_list)
  note n = chain_inv_neighbours[OF inv i xs]
  have left: "links_at t a = \<lparr>left = last_or as, right = e\<rparr> \<and> last_or xs = a"
    if "xs = as @ [a]" for as a
    using chain_inv_neighbours(1)[OF inv i, of as a "e # ys"] xs that by simp
  have right: "links_at t b = \<lparr>left = e, right = first_or bs\<rparr> \<and> first_or ys = b"
    if "ys = b # bs" for b bs
    using chain_inv_neighbours(1)[OF inv i, of "xs @ [e]" b bs] xs that by simp
  have bound: "last_or as = LIST_END_MARK \<or> last_or as < length (elementStorage t)" if "set as \<subseteq> set xs" for as
    using n(4) that last_or_mem[of as] by auto
  show "unlinkElement_iter e t = Inr (Some False, t)"
  proof (rule unlinkElement_iter_edge)
  show "links_at t e = \<lparr>left = last_or xs, right = first_or ys\<rparr>" "e < length (elementStorage t)"
      "length (elementStorage t) \<le> LIST_END_MARK"
    by (fact n(1) n(2) ok(2))+
  show "last_or xs < length (elementStorage t) \<and> last_or xs \<noteq> e \<and> right (links_at t (last_or xs)) = e \<and>
      left (links_at t (last_or xs)) \<noteq> ACCESS_LOCK_MARK" if "last_or xs \<noteq> LIST_END_MARK"
  proof -
    from that obtain as a where a: "xs = as @ [a]" by (cases xs rule: rev_cases) auto
    then have "last_or as = LIST_END_MARK \<or> last_or as < length (elementStorage t)"
      by (intro bound) auto
    then have "last_or as \<noteq> ACCESS_LOCK_MARK" using elem_not_mark[OF _ ok(2), of "last_or as"] by auto
    then show ?thesis using left[OF a] n(4) a by auto
  qed
  show "first_or ys < length (elementStorage t) \<and> first_or ys \<noteq> e \<and> last_or xs \<noteq> first_or ys"
    if "last_or xs \<noteq> LIST_END_MARK" "first_or ys \<noteq> LIST_END_MARK"
  proof -
    from that(2) obtain b bs where b: "ys = b # bs" by (cases ys) auto
    from that(1) obtain as a where a: "xs = as @ [a]" by (cases xs rule: rev_cases) auto
    show ?thesis using n(3,4) a b by auto
  qed
  show "last_or xs = LIST_END_MARK \<or> first_or ys = LIST_END_MARK \<or>
      left (links_at t (last_or xs)) = LIST_END_MARK \<or> right (links_at t (first_or ys)) = LIST_END_MARK"
    using not_interior_cases[of e xs ys] edge xs left[of "[]"] right[of _ "[]"] by auto
  qed
qed

section \<open>Linking and unlinking at the ends\<close>

lemma linkHead_chain:
  assumes inv: "chain_inv t C" and i: "i < length (lruLists t)" and e: "e < length (elementStorage t)"
    and detached: "\<And>c. e \<notin> set (C c)"
  shows "\<exists>t'. linkHead i e t = Inr t' \<and> lists_only t t' \<and>
     (\<forall>j < length (lruLists t). freeListHead (lruLists t' ! j) = freeListHead (lruLists t ! j)) \<and>
     chain_inv t' (C(Lru i := e # C (Lru i)))"
proof -
  note ok = chain_invD[OF inv]
  let ?xs = "C (Lru i)"
  have h: "head (lruLists t ! i) = first_or ?xs" and tl: "tail (lruLists t ! i) = last_or ?xs"
    and D: "dll (links_at t) LIST_END_MARK ?xs LIST_END_MARK"
    using ok(3)[OF i] by (auto simp: lru_ok_def)
  have d: "distinct (e # ?xs)" using chains_okD(1)[OF ok(1)] detached by auto
  have ok': "chains_ok (length (elementStorage t)) (length (lruLists t)) (C(Lru i := e # ?xs))"
    by (rule chains_ok_add[OF ok(1) detached e i]) (use d in auto)
  show ?thesis
  proof (cases ?xs)
    case Nil
    let ?t = "upd_list i (\<lambda>l. l\<lparr>head := e\<rparr>) (upd_list i (\<lambda>l. l\<lparr>tail := e\<rparr>)
        (put_links e \<lparr>left = LIST_END_MARK, right = LIST_END_MARK\<rparr> t))"
    have "linkHead i e t = Inr ?t" using i e h Nil by (simp add: linkHead_def)
    moreover have "lists_only t ?t"
      by (intro lists_only_trans[OF _ lists_only_upd_list] lists_only_put_links) simp_all
    moreover have "chain_inv ?t (C(Lru i := e # ?xs))"
      by (rule chain_inv_local[OF inv _ _ ok'])
        (use i e Nil detached in \<open>auto simp: lruLists_upd_list lru_ok_def\<close>)
    ultimately show ?thesis using i by (auto simp: lruLists_upd_list)
  next
    case (Cons x xs)
    have x: "x < length (elementStorage t)" "x \<noteq> LIST_END_MARK" "x \<noteq> e"
      using chains_okD(2)[OF ok(1), of x "Lru i"] elem_not_mark[OF _ ok(2), of x] Cons d by auto
    let ?t = "upd_list i (\<lambda>l. l\<lparr>head := e\<rparr>) (put_links x ((links_at t x)\<lparr>left := e\<rparr>)
        (put_links e \<lparr>left = LIST_END_MARK, right = x\<rparr> t))"
    have L: "links_at ?t = (links_at t)(e := \<lparr>left = LIST_END_MARK, right = x\<rparr>, x := (links_at t x)\<lparr>left := e\<rparr>)"
      using e x by simp
    have "linkHead i e t = Inr ?t" using i e h Cons x by (simp add: linkHead_def)
    moreover have "lists_only t ?t"
      by (rule lists_only_trans[OF _ lists_only_upd_list]) (meson lists_only_put_links lists_only_trans, simp)
    moreover have "chain_inv ?t (C(Lru i := e # ?xs))"
    proof (rule chain_inv_local[OF inv _ _ ok'])
      show "links_at ?t y = links_at t y" if "c \<noteq> Lru i" "y \<in> set (C c)" for y c
        unfolding L using chains_ok_owner[OF ok(1) that(2), of "Lru i"] that detached[of c] Cons by auto
      have "dll (links_at ?t) x xs LIST_END_MARK = dll (links_at t) x xs LIST_END_MARK"
        unfolding L using d Cons by (intro dll_cong) auto
      moreover have "dll (links_at ?t) LIST_END_MARK (e # ?xs) LIST_END_MARK \<longleftrightarrow>
          dll (links_at ?t) x xs LIST_END_MARK"
        unfolding L using D Cons x d by auto
      ultimately show "lru_ok ?t j (e # ?xs)" if "Lru i = Lru j" for j
        using that i D tl Cons unfolding lru_ok_def by (simp add: lruLists_upd_list last_or_def)
    qed (use i in \<open>auto simp: lruLists_upd_list\<close>)
    ultimately show ?thesis using i by (auto simp: lruLists_upd_list)
  qed
qed

lemma unlinkTail_swing_immediate:
  "left l \<noteq> ACCESS_LOCK_MARK \<Longrightarrow> right l = old \<Longrightarrow> links_at t p = l \<Longrightarrow>
   unlinkTail_swing p old l t = Some (put_links p (l\<lparr>right := LIST_END_MARK\<rparr>) t)"
  by (subst unlinkTail_swing.simps) simp

lemma dll_snoc:
  "dll L p (xs @ [x, y]) n \<Longrightarrow> distinct (xs @ [x, y]) \<Longrightarrow>
   dll (L(x := (L x)\<lparr>right := n\<rparr>, y := l)) p (xs @ [x]) n"
proof -
  assume a: "dll L p (xs @ [x, y]) n" and d: "distinct (xs @ [x, y])"
  have "dll (L(x := (L x)\<lparr>right := n\<rparr>, y := l)) p xs x = dll L p xs x"
    using d by (intro dll_cong) auto
  then show ?thesis using a d by (auto simp: dll_append)
qed

lemma unlinkTail_chain:
  assumes inv: "chain_inv t C" and i: "i < length (lruLists t)" and ne: "C (Lru i) \<noteq> []"
  shows "\<exists>t'. unlinkTail i t = Inr (last (C (Lru i)), t') \<and> lists_only t t' \<and>
     (\<forall>j < length (lruLists t). freeListHead (lruLists t' ! j) = freeListHead (lruLists t ! j)) \<and>
     chain_inv t' (C(Lru i := butlast (C (Lru i))))"
proof -
  note ok = chain_invD[OF inv]
  have h: "head (lruLists t ! i) = first_or (C (Lru i))" and tl: "tail (lruLists t ! i) = last (C (Lru i))"
    and D: "dll (links_at t) LIST_END_MARK (C (Lru i)) LIST_END_MARK"
    using ok(3)[OF i] ne by (auto simp: lru_ok_def last_or_def)
  obtain xs y where xs: "C (Lru i) = xs @ [y]" using ne by (cases "C (Lru i)" rule: rev_cases) auto
  note ny = chain_inv_neighbours[OF inv i, of xs y "[]", simplified, OF xs]
  have ok': "chains_ok (length (elementStorage t)) (length (lruLists t)) (C(Lru i := xs))"
    by (rule chains_ok_upd[OF ok(1)]) (use xs ny in auto)
  let ?fin = "\<lparr>left = LIST_END_MARK, right = LIST_END_MARK\<rparr>"
  have "\<exists>t'. unlinkTail_loop i y t = Some (Inr t') \<and> lists_only t t' \<and>
     (\<forall>j < length (lruLists t). freeListHead (lruLists t' ! j) = freeListHead (lruLists t ! j)) \<and>
     chain_inv t' (C(Lru i := xs))"
  proof (cases xs rule: rev_cases)
    case Nil
    let ?t = "put_links y ?fin (upd_list i (\<lambda>l. l\<lparr>tail := LIST_END_MARK, head := LIST_END_MARK\<rparr>) t)"
    have "unlinkTail_loop i y t = Some (Inr ?t)"
      using ny(1,2) Nil by (subst unlinkTail_loop.simps) simp
    moreover have "lists_only t ?t"
      by (rule lists_only_trans[OF lists_only_upd_list lists_only_put_links]) simp
    moreover have "chain_inv ?t (C(Lru i := xs))"
    proof (rule chain_inv_local[OF inv _ _ ok'])
      show "links_at ?t x = links_at t x" if "c \<noteq> Lru i" "x \<in> set (C c)" for x c
        using chains_ok_owner[OF ok(1) that(2), of "Lru i"] that xs ny(2) by auto
    qed (use i Nil in \<open>auto simp: lruLists_upd_list lru_ok_def\<close>)
    ultimately show ?thesis using i by (auto simp: lruLists_upd_list)
  next
    case (snoc ws x)
    have xs': "C (Lru i) = ws @ x # [y]" using xs snoc by simp
    note nx = chain_inv_neighbours[OF inv i xs']
    have lo: "last_or ws \<noteq> ACCESS_LOCK_MARK"
      using elem_not_mark[OF _ ok(2), of "last_or ws"] nx(4) last_or_mem[of ws] by auto
    let ?t = "put_links y ?fin (upd_list i (\<lambda>l. l\<lparr>tail := x\<rparr>)
        (put_links x ((links_at t x)\<lparr>right := LIST_END_MARK\<rparr>) t))"
    have x: "x \<noteq> LIST_END_MARK" "x \<noteq> ACCESS_LOCK_MARK" "x \<noteq> y"
      using elem_not_mark[OF nx(2) ok(2)] nx(3) by auto
    have L: "links_at ?t = (links_at t)(x := (links_at t x)\<lparr>right := LIST_END_MARK\<rparr>, y := ?fin)"
      using nx(2) ny(2) by simp
    have "unlinkTail_loop i y t = Some (Inr ?t)"
      using ny(1,2) nx(1,2) lo x snoc
      by (subst unlinkTail_loop.simps) (simp add: unlinkTail_swing_immediate)
    moreover have "lists_only t ?t"
      by (rule lists_only_trans[OF lists_only_trans[OF lists_only_put_links lists_only_upd_list] lists_only_put_links]) simp
    moreover have "chain_inv ?t (C(Lru i := xs))"
    proof (rule chain_inv_local[OF inv _ _ ok'])
      show "links_at ?t z = links_at t z" if "c \<noteq> Lru i" "z \<in> set (C c)" for z c
        unfolding L using chains_ok_owner[OF ok(1) that(2), of "Lru i"] that xs' by auto
      have "dll (links_at ?t) LIST_END_MARK xs LIST_END_MARK"
        unfolding L snoc using dll_snoc[of "links_at t" LIST_END_MARK ws x y LIST_END_MARK] D xs' nx(3) by simp
      then show "lru_ok ?t j xs" if "Lru i = Lru j" for j
        using that i h xs' snoc unfolding lru_ok_def
        by (cases ws) (simp_all add: lruLists_upd_list last_or_def)
    qed (use i in \<open>auto simp: lruLists_upd_list\<close>)
    ultimately show ?thesis using i by (auto simp: lruLists_upd_list)
  qed
  then show ?thesis using i tl xs by (auto simp: unlinkTail_def)
qed

section \<open>Free lists and the move to the front\<close>

lemma popFree_chain:
  assumes inv: "chain_inv t C" and i: "i < length (lruLists t)" and fs: "C (Free i) = f # fs"
  shows "popFree i t = Inr (f, upd_list i (\<lambda>x. x\<lparr>freeListHead := first_or fs\<rparr>) t)"
    and "chain_inv (upd_list i (\<lambda>x. x\<lparr>freeListHead := first_or fs\<rparr>) t) (C(Free i := fs))"
    and "f < length (elementStorage t)"
proof -
  note ok = chain_invD[OF inv]
  have fc: "freechain (links_at t) (freeListHead (lruLists t ! i)) (f # fs)"
    using ok(4)[OF i] fs by (simp add: free_ok_def)
  show f: "f < length (elementStorage t)" using chains_okD(2)[OF ok(1), of f "Free i"] fs by simp
  have nxt: "right (links_at t f) = first_or fs" using fc by (cases fs) auto
  then show "popFree i t = Inr (f, upd_list i (\<lambda>x. x\<lparr>freeListHead := first_or fs\<rparr>) t)"
    using fc i f by (simp add: popFree_def)
  show "chain_inv (upd_list i (\<lambda>x. x\<lparr>freeListHead := first_or fs\<rparr>) t) (C(Free i := fs))"
  proof (rule chain_inv_local[OF inv])
    show "chains_ok (length (elementStorage t)) (length (lruLists t)) (C(Free i := fs))"
      by (rule chains_ok_upd[OF ok(1)]) (use fs chains_okD(1)[OF ok(1), of "Free i"] in auto)
  qed (use i fc nxt in \<open>auto simp: lruLists_upd_list free_ok_def\<close>)
qed

lemma pushFree_chain:
  assumes inv: "chain_inv t C" and i: "i < length (lruLists t)" and e: "e < length (elementStorage t)"
    and detached: "\<And>c. e \<notin> set (C c)"
  shows "\<exists>t'. pushFree i e t = Inr t' \<and> lists_only t t' \<and> chain_inv t' (C(Free i := e # C (Free i)))"
proof -
  note ok = chain_invD[OF inv]
  let ?t = "upd_list i (\<lambda>l. l\<lparr>freeListHead := e\<rparr>)
      (put_links e \<lparr>left = LIST_END_MARK, right = freeListHead (lruLists t ! i)\<rparr> t)"
  have "pushFree i e t = Inr ?t" using i e by (simp add: pushFree_def)
  moreover have "lists_only t ?t"
    by (rule lists_only_trans[OF lists_only_put_links lists_only_upd_list]) simp
  moreover have "chain_inv ?t (C(Free i := e # C (Free i)))"
  proof (rule chain_inv_local[OF inv])
    show "chains_ok (length (elementStorage t)) (length (lruLists t)) (C(Free i := e # C (Free i)))"
      by (rule chains_ok_add[OF ok(1) detached e i])
        (use chains_okD(1)[OF ok(1), of "Free i"] detached[of "Free i"] in auto)
    show "links_at ?t x = links_at t x" if "x \<in> set (C c)" for x c
      using that detached[of c] e by auto
    have "freechain (links_at ?t) h (C (Free i)) = freechain (links_at t) h (C (Free i))" for h
      using detached[of "Free i"] e by (intro freechain_cong) auto
    then show "free_ok ?t j (e # C (Free i))" if "Free i = Free j" for j
      using that i e ok(4)[OF i] unfolding free_ok_def by (simp add: lruLists_upd_list)
  qed (use i in \<open>auto simp: lruLists_upd_list\<close>)
  ultimately show ?thesis by blast
qed

text \<open>
  What a hit does to the lists: an interior element moves to the front of the caller's list,
  any other element stays where it is.
\<close>

definition touch_chains :: "nat \<Rightarrow> nat \<Rightarrow> chains \<Rightarrow> chains" where
  "touch_chains tid e C =
     (if \<exists>i. interior e (C (Lru i))
      then (let C' = (\<lambda>c. removeAll e (C c)) in C'(Lru tid := e # C' (Lru tid)))
      else C)"

lemma removeAll_other: "chains_ok n m C \<Longrightarrow> e \<in> set (C c) \<Longrightarrow> d \<noteq> c \<Longrightarrow> removeAll e (C d) = C d"
  by (metis chains_ok_owner removeAll_id)

lemma interior_mem: "interior e xs \<Longrightarrow> e \<in> set xs"
  by (auto simp: interior_def)

lemma chain_inv_upd_list:
  assumes "\<And>l. head (f l) = head l" "\<And>l. tail (f l) = tail l" "\<And>l. freeListHead (f l) = freeListHead l"
  shows "chain_inv (upd_list i f t) C \<longleftrightarrow> chain_inv t C"
proof -
  have fields: "head (lruLists (upd_list i f t) ! j) = head (lruLists t ! j)"
    "tail (lruLists (upd_list i f t) ! j) = tail (lruLists t ! j)"
    "freeListHead (lruLists (upd_list i f t) ! j) = freeListHead (lruLists t ! j)" for j
    using assms by (auto simp: upd_list_def nth_list_update_if)
  then have "lru_ok (upd_list i f t) j xs = lru_ok t j xs"
    and "free_ok (upd_list i f t) j xs = free_ok t j xs" for j xs
    by (simp_all add: lru_ok_def free_ok_def)
  then show ?thesis by (simp add: chain_inv_def)
qed

lemma touchElement_chain:
  assumes inv: "chain_inv t C" and i: "i < length (lruLists t)" and e: "e \<in> set (C (Lru j))"
  shows "\<exists>t'. touchElement i e t = Inr t' \<and> lists_only t t' \<and> chain_inv t' (touch_chains i e C)"
proof (cases "interior e (C (Lru j))")
  case False
  have "\<not> interior e (C (Lru k))" for k
    using False interior_mem[of e "C (Lru k)"] chains_ok_owner[OF chain_invD(1)[OF inv] e, of "Lru k"] by auto
  then have "touch_chains i e C = C" by (simp add: touch_chains_def)
  moreover have "touchElement i e t = Inr t"
    using unlinkElement_edge[OF inv e False] by (simp add: touchElement_def)
  ultimately show ?thesis using inv by auto
next
  case True
  note ok = chain_invD[OF inv]
  from True obtain as a b bs where xs: "C (Lru j) = as @ [a, e, b] @ bs" "as \<noteq> []" "bs \<noteq> []"
    by (auto simp: interior_def)
  let ?C = "C(Lru j := as @ [a, b] @ bs)"
  have d: "distinct (as @ [a, e, b] @ bs)" using chains_okD(1)[OF ok(1), of "Lru j"] xs by simp
  have "removeAll e (C c) = ?C c" for c
    using removeAll_other[OF ok(1) e, of c] d xs by (cases "c = Lru j") auto
  then have tc: "touch_chains i e C = ?C(Lru i := e # ?C (Lru i))"
    using True by (auto simp: touch_chains_def Let_def)
  obtain t1 where t1: "unlinkElement e t = Inr (True, t1)" "lists_only t t1" "lruLists t1 = lruLists t"
      "chain_inv t1 ?C"
    using unlinkElement_chain[OF inv xs] by blast
  let ?t2 = "upd_list i (\<lambda>l. l\<lparr>moves := (moves l + 1) mod 2 ^ 64\<rparr>) t1"
  have inv2: "chain_inv ?t2 ?C" using t1(4) by (simp add: chain_inv_upd_list)
  have len: "length (elementStorage ?t2) = length (elementStorage t)" "length (lruLists ?t2) = length (lruLists t)"
    using t1(2) by (auto simp: lists_only_def same_kv_def same_index_def)
  have "e \<notin> set (?C c)" for c
    using chains_ok_owner[OF ok(1) e, of c] d by auto
  then obtain t3 where t3: "linkHead i e ?t2 = Inr t3" "lists_only ?t2 t3" "chain_inv t3 (?C(Lru i := e # ?C (Lru i)))"
    using linkHead_chain[OF inv2, of i e] i len chains_okD(2)[OF ok(1) e] by auto
  have "lists_only t ?t2" by (rule lists_only_trans[OF t1(2) lists_only_upd_list]) simp
  then have "lists_only t t3" using t3(2) by (rule lists_only_trans)
  then show ?thesis using t1(1) t3 tc by (simp add: touchElement_def)
qed

text \<open>A touch keeps every element in some LRU list and leaves the free lists alone.\<close>

definition lru_elems :: "chains \<Rightarrow> nat set" where
  "lru_elems C = (\<Union>i. set (C (Lru i)))"

lemma touch_chains_lru_elems:
  assumes "e \<in> lru_elems C"
  shows "lru_elems (touch_chains i e C) = lru_elems C"
proof (cases "\<exists>i. interior e (C (Lru i))")
  case True
  then have "touch_chains i e C = (\<lambda>c. removeAll e (C c))(Lru i := e # removeAll e (C (Lru i)))"
    by (simp add: touch_chains_def Let_def)
  then have "x \<in> lru_elems (touch_chains i e C) \<longleftrightarrow> x = e \<or> x \<in> lru_elems C" for x
    unfolding lru_elems_def by (auto split: if_splits) metis
  then show ?thesis using assms by auto
qed (simp add: touch_chains_def)

lemma touch_chains_free:
  "chains_ok n m C \<Longrightarrow> e \<in> set (C (Lru j)) \<Longrightarrow> touch_chains i e C (Free k) = C (Free k)"
  using removeAll_other[of n m C e "Lru j" "Free k"] by (simp add: touch_chains_def Let_def)

end
