(* ===== verification/LRU_Table_Ops.thy ===== *)
theory LRU_Table_Ops
  imports LRU_Table
begin

text \<open>
  The hash index of \<open>src/src/LFLRUHashTable.h\<close> and the public operations of the class:
  slot locking, linear probing, removal by backward shift, \<open>insertOrSet\<close>, \<open>insert\<close>, \<open>get\<close>,
  \<open>set\<close>, \<open>remove\<close>, \<open>lockElement\<close>, \<open>unlockElement\<close>, \<open>processHash\<close> and the expiry map.
\<close>

section \<open>Slot locks\<close>

partial_function (option) lockElementHash_loop ::
    "nat \<Rightarrow> nat \<Rightarrow> ('k, 'v) table \<Rightarrow> (nat \<times> ('k, 'v) table) res option" where
  "lockElementHash_loop pos idx t =
     (if idx = HASH_LOCK_MARK then lockElementHash_loop pos (elementLinks t ! pos) t
      else if elementLinks t ! pos = idx
      then Some (Inr (idx, t\<lparr>elementLinks := (elementLinks t)[pos := HASH_LOCK_MARK]\<rparr>))
      else lockElementHash_loop pos (elementLinks t ! pos) t)"

declare lockElementHash_loop.simps [code]

definition lockElementHash :: "nat \<Rightarrow> ('k, 'v) table \<Rightarrow> (nat \<times> ('k, 'v) table) res" where
  "lockElementHash pos t =
     bind_res (arr_get (elementLinks t) pos) (\<lambda>idx. diverge (lockElementHash_loop pos idx t))"

definition tryLockElementHash :: "nat \<Rightarrow> ('k, 'v) table \<Rightarrow> (nat \<times> ('k, 'v) table) res" where
  "tryLockElementHash pos t =
     bind_res (arr_get (elementLinks t) pos) (\<lambda>idx.
     if idx = HASH_LOCK_MARK then Inr (idx, t)
     else Inr (idx, t\<lparr>elementLinks := (elementLinks t)[pos := HASH_LOCK_MARK]\<rparr>))"

definition unlockElementHash :: "nat \<Rightarrow> nat \<Rightarrow> ('k, 'v) table \<Rightarrow> ('k, 'v) table res" where
  "unlockElementHash pos idx t =
     bind_res (arr_set (elementLinks t) pos idx) (\<lambda>ls. Inr (t\<lparr>elementLinks := ls\<rparr>))"

function unlock_loop :: "nat \<Rightarrow> nat \<Rightarrow> nat \<Rightarrow> nat list \<Rightarrow> ('k, 'v) table \<Rightarrow> ('k, 'v) table res" where
  "unlock_loop counter startIdx endIdx indexes t =
     bind_res (arr_get indexes counter) (\<lambda>v.
     bind_res (unlockElementHash startIdx v t) (\<lambda>t'.
     if endIdx \<noteq> startIdx
     then unlock_loop (counter + 1) (if startIdx + 1 = hashSize t then 0 else startIdx + 1) endIdx indexes t'
     else Inr t'))"
  by pat_completeness auto
termination
  by (relation "measure (\<lambda>(c, s, e, indexes, t). length indexes - c)")
    (auto simp: arr_get_eq_Inr)

definition unlockElementsHash :: "nat \<Rightarrow> nat \<Rightarrow> nat list \<Rightarrow> ('k, 'v) table \<Rightarrow> ('k, 'v) table res" where
  "unlockElementsHash startIdx endIdx indexes t = unlock_loop 0 startIdx endIdx indexes t"

section \<open>Linear probing\<close>

text \<open>
  \<open>probe matches locks idx lockDepth t\<close> is the loop \<open>while(locks[lockDepth] != HASH_FREE_MARK)\<close>
  that all operations share. It returns whether it left the loop on a match, the last position
  it locked (\<open>lockRangeEnd\<close>), the depth and the lock array. The depth check comes before the
  increment, as in the code, so the array is written at index 246 before \<open>abort()\<close> is reached.
\<close>

type_synonym ('k, 'v) probe_result = "bool \<times> nat \<times> nat \<times> nat list \<times> ('k, 'v) table"

definition lockNext ::
    "nat list \<Rightarrow> nat \<Rightarrow> nat \<Rightarrow> ('k, 'v) table \<Rightarrow> (nat \<times> nat list \<times> ('k, 'v) table) res" where
  "lockNext ls idx lockDepth t =
     (let idx' = (idx + 1) mod hashSize t in
      if lockDepth \<ge> HASH_MAX_LOCK_DEPTH then Inl Aborted
      else bind_res (lockElementHash idx' t) (\<lambda>(v, t').
           bind_res (arr_set ls (lockDepth + 1) v) (\<lambda>ls'. Inr (idx', ls', t'))))"

function probe ::
    "(nat \<Rightarrow> ('k, 'v) table \<Rightarrow> bool res) \<Rightarrow> nat list \<Rightarrow> nat \<Rightarrow> nat \<Rightarrow> ('k, 'v) table
     \<Rightarrow> ('k, 'v) probe_result res" where
  "probe matches ls idx lockDepth t =
     (if ls ! lockDepth = HASH_FREE_MARK then Inr (False, idx, lockDepth, ls, t)
      else bind_res (matches (ls ! lockDepth) t) (\<lambda>m.
        if m then Inr (True, idx, lockDepth, ls, t)
        else bind_res (lockNext ls idx lockDepth t) (\<lambda>(idx', ls', t').
             probe matches ls' idx' (lockDepth + 1) t')))"
  by pat_completeness auto
termination
  by (relation "measure (\<lambda>(m, ls, i, d, t). Suc HASH_MAX_LOCK_DEPTH - d)")
    (auto simp: lockNext_def Let_def split: if_splits)

definition probeStart ::
    "(nat \<Rightarrow> ('k, 'v) table \<Rightarrow> bool res) \<Rightarrow> nat list \<Rightarrow> nat \<Rightarrow> ('k, 'v) table
     \<Rightarrow> ('k, 'v) probe_result res" where
  "probeStart matches ls idx t =
     bind_res (lockElementHash idx t) (\<lambda>(v, t').
     bind_res (arr_set ls 0 v) (\<lambda>ls'. probe matches ls' idx 0 t'))"

definition keyMatch ::
    "('k \<Rightarrow> 'k \<Rightarrow> bool) \<Rightarrow> 'k \<Rightarrow> nat \<Rightarrow> ('k, 'v) table \<Rightarrow> bool res" where
  "keyMatch keq inKey e t =
     bind_res (arr_get (elementStorage t) e) (\<lambda>x. Inr (keq (key x) inKey))"

definition idxMatch :: "nat \<Rightarrow> nat \<Rightarrow> ('k, 'v) table \<Rightarrow> bool res" where
  "idxMatch inElementIdx e t = Inr (e = inElementIdx)"

text \<open>The lock array of a thread is scratch space inside its list record.\<close>

definition threadLocks :: "nat \<Rightarrow> ('k, 'v) table \<Rightarrow> nat list res" where
  "threadLocks tid t = bind_res (arr_get (lruLists t) tid) (\<lambda>l. Inr (locks l))"

definition saveLocks :: "nat \<Rightarrow> nat list \<Rightarrow> ('k, 'v) table \<Rightarrow> ('k, 'v) table" where
  "saveLocks tid ls t = upd_list tid (\<lambda>l. l\<lparr>locks := ls\<rparr>) t"

section \<open>Removal\<close>

text \<open>
  The second loop of \<open>removeFromHashPos\<close> and \<open>removeFromHashIdx\<close>: walk forward to the next
  hole and move records back. It returns the end of the lock range, the lock array and the depth
  of the final hole.
\<close>

function shiftBack ::
    "('k \<Rightarrow> nat) \<Rightarrow> nat list \<Rightarrow> nat \<Rightarrow> nat \<Rightarrow> nat \<Rightarrow> nat \<Rightarrow> ('k, 'v) table
     \<Rightarrow> (nat \<times> nat list \<times> nat \<times> ('k, 'v) table) res" where
  "shiftBack hasher ls idx lockDepth lockDepthDeleted deletedIdx t =
     (if ls ! lockDepth = HASH_FREE_MARK then Inr (idx, ls, lockDepthDeleted, t)
      else bind_res (arr_get (elementStorage t) (ls ! lockDepth)) (\<lambda>x.
        let moved = hasher (key x) mod hashSize t \<le> deletedIdx;
            ls1 = (if moved then ls[lockDepthDeleted := ls ! lockDepth] else ls);
            lockDepthDeleted1 = (if moved then lockDepth else lockDepthDeleted);
            deletedIdx1 = (if moved then idx else deletedIdx)
        in bind_res (lockNext ls1 idx lockDepth t) (\<lambda>(idx', ls', t').
           shiftBack hasher ls' idx' (lockDepth + 1) lockDepthDeleted1 deletedIdx1 t')))"
  by pat_completeness auto
termination
  by (relation "measure (\<lambda>(h, ls, i, d, dd, di, t). Suc HASH_MAX_LOCK_DEPTH - d)")
    (auto simp: lockNext_def Let_def split: if_splits)

definition removeFromHash ::
    "('k \<Rightarrow> nat) \<Rightarrow> (nat \<Rightarrow> ('k, 'v) table \<Rightarrow> bool res) \<Rightarrow> nat \<Rightarrow> nat \<Rightarrow> ('k, 'v) table
     \<Rightarrow> (bool \<times> ('k, 'v) table) res" where
  "removeFromHash hasher matches tid start t =
     bind_res (threadLocks tid t) (\<lambda>ls0.
     bind_res (probeStart matches ls0 start t) (\<lambda>(found, idx, lockDepth, ls, t1).
     let lockDepthDeleted = (if found then lockDepth else HASH_MAX_LOCK_DEPTH) in
     if lockDepthDeleted = HASH_MAX_LOCK_DEPTH
     then bind_res (unlockElementsHash start idx ls t1) (\<lambda>t2. Inr (False, saveLocks tid ls t2))
     else bind_res (lockNext ls idx lockDepth t1) (\<lambda>(idx1, ls1, t2).
          bind_res (shiftBack hasher ls1 idx1 (lockDepth + 1) lockDepthDeleted idx t2)
            (\<lambda>(idx2, ls2, depthDeleted, t3).
          let ls3 = (if depthDeleted \<noteq> HASH_MAX_LOCK_DEPTH then ls2[depthDeleted := HASH_FREE_MARK] else ls2)
          in bind_res (unlockElementsHash start idx2 ls3 t3) (\<lambda>t4. Inr (True, saveLocks tid ls3 t4))))))"

definition removeFromHashPos ::
    "('k \<Rightarrow> nat) \<Rightarrow> ('k \<Rightarrow> 'k \<Rightarrow> bool) \<Rightarrow> nat \<Rightarrow> nat \<Rightarrow> ('k, 'v) table
     \<Rightarrow> (bool \<times> ('k, 'v) table) res" where
  "removeFromHashPos hasher keq tid storagePos t =
     bind_res (arr_get (elementStorage t) storagePos) (\<lambda>x.
     removeFromHash hasher (keyMatch keq (key x)) tid (hasher (key x) mod hashSize t) t)"

definition removeFromHashIdx ::
    "('k \<Rightarrow> nat) \<Rightarrow> nat \<Rightarrow> nat \<Rightarrow> nat \<Rightarrow> ('k, 'v) table \<Rightarrow> (bool \<times> ('k, 'v) table) res" where
  "removeFromHashIdx hasher tid inPos inElementIdx t =
     removeFromHash hasher (idxMatch inElementIdx) tid inPos t"

text \<open>
  \<open>removeFromHashKey\<close> differs from the two above in both loops. The first one is
  \<open>while(true)\<close>: a free slot does not end it, its mark is used as an element index. The second
  one does not advance after a record was moved back, so it may never end.
\<close>

function probeKey ::
    "('k \<Rightarrow> 'k \<Rightarrow> bool) \<Rightarrow> 'k \<Rightarrow> nat list \<Rightarrow> nat \<Rightarrow> nat \<Rightarrow> ('k, 'v) table
     \<Rightarrow> (nat \<times> nat \<times> nat list \<times> ('k, 'v) table) res" where
  "probeKey keq inKey ls idx lockDepth t =
     bind_res (keyMatch keq inKey (ls ! lockDepth) t) (\<lambda>m.
     if m then Inr (idx, lockDepth, ls, t)
     else bind_res (lockNext ls idx lockDepth t) (\<lambda>(idx', ls', t').
          probeKey keq inKey ls' idx' (lockDepth + 1) t'))"
  by pat_completeness auto
termination
  by (relation "measure (\<lambda>(q, k, ls, i, d, t). Suc HASH_MAX_LOCK_DEPTH - d)")
    (auto simp: lockNext_def Let_def split: if_splits)

partial_function (option) shiftBackKey ::
    "('k \<Rightarrow> nat) \<Rightarrow> nat list \<Rightarrow> nat \<Rightarrow> nat \<Rightarrow> nat \<Rightarrow> nat \<Rightarrow> ('k, 'v) table
     \<Rightarrow> (nat \<times> nat list \<times> nat \<times> ('k, 'v) table) res option" where
  "shiftBackKey hasher ls idx lockDepth lockDepthDeleted deletedIdx t =
     (if ls ! lockDepth = HASH_FREE_MARK then Some (Inr (idx, ls, lockDepthDeleted, t))
      else (case arr_get (elementStorage t) (ls ! lockDepth) of
          Inl f \<Rightarrow> Some (Inl f)
        | Inr x \<Rightarrow>
          if hasher (key x) mod hashSize t \<le> deletedIdx
          then shiftBackKey hasher (ls[lockDepthDeleted := ls ! lockDepth]) idx lockDepth lockDepth idx t
          else (case lockNext ls idx lockDepth t of
              Inl f \<Rightarrow> Some (Inl f)
            | Inr r \<Rightarrow> shiftBackKey hasher (fst (snd r)) (fst r) (lockDepth + 1)
                lockDepthDeleted deletedIdx (snd (snd r)))))"

declare shiftBackKey.simps [code]

definition removeFromHashKey ::
    "('k \<Rightarrow> nat) \<Rightarrow> ('k \<Rightarrow> 'k \<Rightarrow> bool) \<Rightarrow> nat \<Rightarrow> 'k \<Rightarrow> ('k, 'v) table
     \<Rightarrow> (bool \<times> nat \<times> ('k, 'v) table) res" where
  "removeFromHashKey hasher keq tid inKey t =
     (let start = hasher inKey mod hashSize t in
      bind_res (threadLocks tid t) (\<lambda>ls0.
      bind_res (lockElementHash start t) (\<lambda>(v, t0).
      bind_res (arr_set ls0 0 v) (\<lambda>ls00.
      bind_res (probeKey keq inKey ls00 start 0 t0) (\<lambda>(idx, lockDepth, ls, t1).
      let pos = ls ! lockDepth in
      bind_res (lockNext ls idx lockDepth t1) (\<lambda>(idx1, ls1, t2).
      bind_res (diverge (shiftBackKey hasher ls1 idx1 (lockDepth + 1) lockDepth idx t2))
        (\<lambda>(idx2, ls2, depthDeleted, t3).
      let ls3 = (if depthDeleted \<noteq> HASH_MAX_LOCK_DEPTH then ls2[depthDeleted := HASH_FREE_MARK] else ls2)
      in bind_res (unlockElementsHash start idx2 ls3 t3) (\<lambda>t4.
         Inr (True, pos, saveLocks tid ls3 t4)))))))))"

section \<open>Expiry times\<close>

definition emplace :: "nat \<Rightarrow> 'a \<Rightarrow> (nat \<times> 'a) list \<Rightarrow> (nat \<times> 'a) list" where
  "emplace k v m = takeWhile (\<lambda>p. fst p \<le> k) m @ (k, v) # dropWhile (\<lambda>p. fst p \<le> k) m"

definition addItemExpTime :: "nat \<Rightarrow> nat \<Rightarrow> nat \<Rightarrow> nat \<Rightarrow> ('k, 'v) table \<Rightarrow> ('k, 'v) table" where
  "addItemExpTime tid inPos inElementIdx expTime t =
     upd_list tid (\<lambda>l. l\<lparr>expTimeMap := emplace expTime (inPos, inElementIdx) (expTimeMap l)\<rparr>) t"

definition removeItemsExpTime :: "nat \<Rightarrow> nat \<Rightarrow> ('k, 'v) table \<Rightarrow> ('k, 'v) table" where
  "removeItemsExpTime tid expTime t =
     upd_list tid (\<lambda>l. l\<lparr>expTimeMap := filter (\<lambda>p. fst p \<noteq> expTime) (expTimeMap l)\<rparr>) t"

fun expireEach ::
    "('k \<Rightarrow> nat) \<Rightarrow> nat \<Rightarrow> (nat \<times> nat \<times> nat) list \<Rightarrow> ('k, 'v) table \<Rightarrow> ('k, 'v) table res" where
  "expireEach hasher tid [] t = Inr t"
| "expireEach hasher tid ((_, pos, e) # es) t =
     bind_res (removeFromHashIdx hasher tid pos e t) (\<lambda>(removed, t1).
     if removed then
       bind_res (unlinkElement e t1) (\<lambda>(unlinked, t2).
       bind_res (if unlinked then pushFree tid e t2 else Inr t2) (\<lambda>t3.
       expireEach hasher tid es t3))
     else expireEach hasher tid es t1)"

definition removeExpiredItems ::
    "('k \<Rightarrow> nat) \<Rightarrow> nat \<Rightarrow> nat \<Rightarrow> ('k, 'v) table \<Rightarrow> ('k, 'v) table res" where
  "removeExpiredItems hasher tid curTime t =
     bind_res (arr_get (lruLists t) tid) (\<lambda>l.
     let expired = takeWhile (\<lambda>p. fst p \<le> curTime) (expTimeMap l);
         rest = dropWhile (\<lambda>p. fst p \<le> curTime) (expTimeMap l)
     in if rest \<noteq> [] then
          bind_res (expireEach hasher tid expired t) (\<lambda>t1.
          Inr (upd_list tid (\<lambda>l. l\<lparr>expTimeMap := rest\<rparr>) t1))
        else Inr t)"

section \<open>Public operations\<close>

text \<open>
  \<open>insertOrSet\<close> and \<open>insert\<close> take an element off the free list before they know whether the
  key exists. When the free list becomes empty they evict the tail of the caller's list, and the
  local variable \<open>elementToInsert\<close>, which now names the evicted element, is what they pass to
  \<open>addItemExpTime\<close>.
\<close>

definition evictTail ::
    "('k \<Rightarrow> nat) \<Rightarrow> ('k \<Rightarrow> 'k \<Rightarrow> bool) \<Rightarrow> bool \<Rightarrow> nat \<Rightarrow> nat \<Rightarrow> ('k, 'v) table
     \<Rightarrow> (nat \<times> ('k, 'v) table) res" where
  "evictTail hasher keq abortOnMiss tid elementToInsert t =
     bind_res (arr_get (lruLists t) tid) (\<lambda>l.
     if freeListHead l = LIST_END_MARK then
       bind_res (unlinkTail tid t) (\<lambda>(victim, t1).
       bind_res (removeFromHashPos hasher keq tid victim t1) (\<lambda>(removed, t2).
       if abortOnMiss \<and> \<not> removed then Inl Aborted
       else bind_res (pushFree tid victim t2) (\<lambda>t3. Inr (victim, t3))))
     else Inr (elementToInsert, t))"

definition insertOrSet ::
    "('k \<Rightarrow> nat) \<Rightarrow> ('k \<Rightarrow> 'k \<Rightarrow> bool) \<Rightarrow> nat \<Rightarrow> 'k \<Rightarrow> 'v \<Rightarrow> nat \<Rightarrow> ('k, 'v) table
     \<Rightarrow> (bool \<times> ('k, 'v) table) res" where
  "insertOrSet hasher keq tid inKey inValue expTime t =
     bind_res (popFree tid t) (\<lambda>(elementToInsert, t0).
     let start = hasher inKey mod hashSize t0 in
     bind_res (threadLocks tid t0) (\<lambda>ls0.
     bind_res (probeStart (keyMatch keq inKey) ls0 start t0) (\<lambda>(found, idx, lockDepth, ls, t1).
     if found then
       bind_res (unlockElementsHash start idx ls (put_elem (ls ! lockDepth) (\<lambda>x. x\<lparr>val := inValue\<rparr>) t1)) (\<lambda>t2.
       bind_res (touchElement tid (ls ! lockDepth) (saveLocks tid ls t2)) (\<lambda>t3.
       bind_res (pushFree tid elementToInsert t3) (\<lambda>t4. Inr (False, t4))))
     else
       let ls' = ls[lockDepth := elementToInsert];
           t2 = put_elem elementToInsert (\<lambda>x. x\<lparr>key := inKey, val := inValue\<rparr>) t1 in
       bind_res (unlockElementsHash start idx ls' t2) (\<lambda>t3.
       bind_res (linkHead tid elementToInsert (saveLocks tid ls' t3)) (\<lambda>t4.
       bind_res (evictTail hasher keq True tid elementToInsert t4) (\<lambda>(e, t5).
       Inr (True, addItemExpTime tid start e expTime t5)))))))"

definition insert_kv ::
    "('k \<Rightarrow> nat) \<Rightarrow> ('k \<Rightarrow> 'k \<Rightarrow> bool) \<Rightarrow> nat \<Rightarrow> 'k \<Rightarrow> 'v \<Rightarrow> nat \<Rightarrow> ('k, 'v) table
     \<Rightarrow> (bool \<times> ('k, 'v) table) res" where
  "insert_kv hasher keq tid inKey inValue expTime t =
     bind_res (popFree tid t) (\<lambda>(elementToInsert, t0).
     let start = hasher inKey mod hashSize t0 in
     bind_res (threadLocks tid t0) (\<lambda>ls0.
     bind_res (probeStart (keyMatch keq inKey) ls0 start t0) (\<lambda>(found, idx, lockDepth, ls, t1).
     if found then
       bind_res (unlockElementsHash start idx ls t1) (\<lambda>t2.
       bind_res (pushFree tid elementToInsert (saveLocks tid ls t2)) (\<lambda>t3. Inr (False, t3)))
     else
       let ls' = ls[lockDepth := elementToInsert];
           t2 = put_elem elementToInsert (\<lambda>x. x\<lparr>key := inKey, val := inValue\<rparr>) t1 in
       bind_res (unlockElementsHash start idx ls' t2) (\<lambda>t3.
       bind_res (linkHead tid elementToInsert (saveLocks tid ls' t3)) (\<lambda>t4.
       bind_res (evictTail hasher keq False tid elementToInsert t4) (\<lambda>(e, t5).
       Inr (True, addItemExpTime tid start e expTime t5)))))))"

text \<open>
  \<open>get\<close>: the value read (\<open>None\<close> when the key is absent) and the caller's lock array. The
  parameters \<open>locksStart\<close> and \<open>locksEnd\<close> are passed by value, so what the function assigns to
  them is lost and they do not appear in the result.
\<close>

definition get ::
    "('k \<Rightarrow> nat) \<Rightarrow> ('k \<Rightarrow> 'k \<Rightarrow> bool) \<Rightarrow> nat \<Rightarrow> 'k \<Rightarrow> nat list option \<Rightarrow> ('k, 'v) table
     \<Rightarrow> ('v option \<times> nat list option \<times> ('k, 'v) table) res" where
  "get hasher keq tid inKey casLocks t =
     (let start = hasher inKey mod hashSize t in
      bind_res (case casLocks of Some ls \<Rightarrow> Inr ls | None \<Rightarrow> threadLocks tid t) (\<lambda>ls0.
      bind_res (probeStart (keyMatch keq inKey) ls0 start t) (\<lambda>(found, idx, lockDepth, ls, t1).
      if found then
        let e = ls ! lockDepth in
        bind_res (arr_get (elementStorage t1) e) (\<lambda>x.
        bind_res (case casLocks of
                    None \<Rightarrow> bind_res (unlockElementsHash start idx ls t1) (\<lambda>t2. Inr (saveLocks tid ls t2))
                  | Some _ \<Rightarrow> Inr t1) (\<lambda>t2.
        bind_res (touchElement tid e t2) (\<lambda>t3.
        Inr (Some (val x), map_option (\<lambda>_. ls) casLocks, t3))))
      else
        bind_res (case casLocks of
                    None \<Rightarrow> bind_res (unlockElementsHash start idx ls t1) (\<lambda>t2. Inr (saveLocks tid ls t2))
                  | Some _ \<Rightarrow> Inr t1) (\<lambda>t2.
        Inr (None, map_option (\<lambda>_. ls) casLocks, t2)))))"

definition set_kv ::
    "('k \<Rightarrow> nat) \<Rightarrow> ('k \<Rightarrow> 'k \<Rightarrow> bool) \<Rightarrow> nat \<Rightarrow> 'k \<Rightarrow> 'v \<Rightarrow> nat \<Rightarrow> ('k, 'v) table
     \<Rightarrow> (bool \<times> ('k, 'v) table) res" where
  "set_kv hasher keq tid inKey inValue expTime t =
     (let start = hasher inKey mod hashSize t in
      bind_res (threadLocks tid t) (\<lambda>ls0.
      bind_res (probeStart (keyMatch keq inKey) ls0 start t) (\<lambda>(found, idx, lockDepth, ls, t1).
      if found then
        bind_res (unlockElementsHash start idx ls (put_elem (ls ! lockDepth) (\<lambda>x. x\<lparr>val := inValue\<rparr>) t1)) (\<lambda>t2.
        bind_res (touchElement tid (ls ! lockDepth) (saveLocks tid ls t2)) (\<lambda>t3.
        Inr (True, addItemExpTime tid start (ls ! lockDepth) expTime t3)))
      else
        bind_res (unlockElementsHash start idx ls t1) (\<lambda>t2. Inr (False, saveLocks tid ls t2)))))"

text \<open>\<open>set\<close> with \<open>casLocks\<close>: the lock depth is computed from the range, in 64-bit arithmetic.\<close>

definition set_cas ::
    "nat \<Rightarrow> 'v \<Rightarrow> nat \<Rightarrow> nat list \<Rightarrow> nat \<Rightarrow> nat \<Rightarrow> ('k, 'v) table \<Rightarrow> (bool \<times> ('k, 'v) table) res" where
  "set_cas tid inValue expTime casLocks locksStart locksEnd t =
     (let lockDepth = (if locksEnd > locksStart then locksEnd - locksStart + 1
                       else (hashSize t + (2 ^ 64 - locksStart) + locksEnd) mod 2 ^ 64) in
      bind_res (arr_get casLocks lockDepth) (\<lambda>e.
      bind_res (arr_get (elementStorage t) e) (\<lambda>_.
      bind_res (unlockElementsHash locksStart locksEnd casLocks (put_elem e (\<lambda>x. x\<lparr>val := inValue\<rparr>) t)) (\<lambda>t1.
      bind_res (touchElement tid e t1) (\<lambda>t2.
      Inr (True, addItemExpTime tid locksStart e expTime t2))))))"

definition remove ::
    "('k \<Rightarrow> nat) \<Rightarrow> ('k \<Rightarrow> 'k \<Rightarrow> bool) \<Rightarrow> nat \<Rightarrow> 'k \<Rightarrow> ('k, 'v) table
     \<Rightarrow> (bool \<times> ('k, 'v) table) res" where
  "remove hasher keq tid inKey t =
     bind_res (removeFromHashKey hasher keq tid inKey t) (\<lambda>(removed, pos, t1).
     if removed then
       bind_res (unlinkElement pos t1) (\<lambda>(unlinked, t2).
       bind_res (if unlinked then pushFree tid pos t2 else Inr t2) (\<lambda>t3. Inr (True, t3)))
     else Inr (False, t1))"

definition lockElement ::
    "('k \<Rightarrow> nat) \<Rightarrow> ('k \<Rightarrow> 'k \<Rightarrow> bool) \<Rightarrow> nat \<Rightarrow> 'k \<Rightarrow> nat list option \<Rightarrow> ('k, 'v) table
     \<Rightarrow> (bool \<times> nat list option \<times> ('k, 'v) table) res" where
  "lockElement hasher keq tid inKey casLocks t =
     (let start = hasher inKey mod hashSize t in
      bind_res (case casLocks of Some ls \<Rightarrow> Inr ls | None \<Rightarrow> threadLocks tid t) (\<lambda>ls0.
      bind_res (probeStart (keyMatch keq inKey) ls0 start t) (\<lambda>(found, idx, lockDepth, ls, t1).
      Inr (found, map_option (\<lambda>_. ls) casLocks,
           (case casLocks of None \<Rightarrow> saveLocks tid ls t1 | Some _ \<Rightarrow> t1)))))"

definition unlockElement ::
    "nat list \<Rightarrow> nat \<Rightarrow> nat \<Rightarrow> ('k, 'v) table \<Rightarrow> (bool \<times> ('k, 'v) table) res" where
  "unlockElement casLocks locksStart locksEnd t =
     bind_res (unlockElementsHash locksStart locksEnd casLocks t) (\<lambda>t'. Inr (True, t'))"

text \<open>
  \<open>processHash\<close>: every slot is locked, its content passed to the processor and unlocked. The
  slot's content is used as an index even when the slot is free; the processor gets \<open>None\<close> for
  a reference outside the element array. \<open>acc\<close> is what the functor accumulates.
\<close>

fun processSlots ::
    "('acc \<Rightarrow> ('k, 'v) lru_element option \<Rightarrow> 'acc) \<Rightarrow> nat \<Rightarrow> nat \<Rightarrow> 'acc \<Rightarrow> ('k, 'v) table
     \<Rightarrow> ('acc \<times> ('k, 'v) table) res" where
  "processSlots f pos 0 acc t = Inr (acc, t)"
| "processSlots f pos (Suc m) acc t =
     bind_res (lockElementHash pos t) (\<lambda>(idx, t1).
     let acc' = f acc (if idx < length (elementStorage t1) then Some (elementStorage t1 ! idx) else None) in
     bind_res (unlockElementHash pos idx t1) (\<lambda>t2.
     processSlots f (pos + 1) m acc' t2))"

definition processHash ::
    "('acc \<Rightarrow> ('k, 'v) lru_element option \<Rightarrow> 'acc) \<Rightarrow> 'acc \<Rightarrow> ('k, 'v) table
     \<Rightarrow> ('acc \<times> ('k, 'v) table) res" where
  "processHash f acc t = processSlots f 0 (hashSize t) acc t"

declare unlock_loop.simps [simp del] probe.simps [simp del] shiftBack.simps [simp del]
  probeKey.simps [simp del]

end
