(* ===== verification/Hash_Probe.thy ===== *)
theory Hash_Probe
  imports LRU_Links LRU_Table_Ops
begin

text \<open>
  The slot index of \<open>LFLRUHashTable\<close>: what locking, unlocking and linear probing do to the
  array \<open>elementLinks\<close> and to the lock array, in closed form.
\<close>

section \<open>Locking one slot\<close>

lemma lockElementHash_loop_locked:
  assumes "elementLinks t ! pos = HASH_LOCK_MARK"
  shows "lockElementHash_loop pos HASH_LOCK_MARK t = None"
proof (rule ccontr)
  assume "lockElementHash_loop pos HASH_LOCK_MARK t \<noteq> None"
  then obtain r where r: "lockElementHash_loop pos HASH_LOCK_MARK t = Some r" by blast
  have "HASH_LOCK_MARK = HASH_LOCK_MARK \<and> elementLinks t ! pos = HASH_LOCK_MARK \<longrightarrow> False"
    by (rule lockElementHash_loop.raw_induct
        [where P = "\<lambda>pos idx t r. idx = HASH_LOCK_MARK \<and> elementLinks t ! pos = HASH_LOCK_MARK \<longrightarrow> False",
          OF _ r])
      (auto split: if_splits)
  with assms show False by simp
qed

text \<open>A thread that needs a slot which nobody will unlock spins for ever.\<close>

lemma lockElementHash_locked:
  "pos < length (elementLinks t) \<Longrightarrow> elementLinks t ! pos = HASH_LOCK_MARK \<Longrightarrow>
   lockElementHash pos t = Inl Spins"
  by (simp add: lockElementHash_def lockElementHash_loop_locked)

lemma lockElementHash_free:
  "pos < length (elementLinks t) \<Longrightarrow> elementLinks t ! pos \<noteq> HASH_LOCK_MARK \<Longrightarrow>
   lockElementHash pos t =
     Inr (elementLinks t ! pos, t\<lparr>elementLinks := (elementLinks t)[pos := HASH_LOCK_MARK]\<rparr>)"
  by (simp add: lockElementHash_def lockElementHash_loop.simps)

section \<open>Unlocking a range\<close>

lemma unlock_loop_run:
  assumes "hashSize t = length (elementLinks t)" and "s < length (elementLinks t)"
    and "D < length (elementLinks t)" and "D < length ls" and "c \<le> D"
  shows "unlock_loop c ((s + c) mod length (elementLinks t)) ((s + D) mod length (elementLinks t)) ls
      (t\<lparr>elementLinks := cyc_upd (elementLinks t) s (take c ls)\<rparr>) =
    Inr (t\<lparr>elementLinks := cyc_upd (elementLinks t) s (take (Suc D) ls)\<rparr>)"
  using \<open>c \<le> D\<close>
proof (induction "D - c" arbitrary: c)
  case 0
  let ?n = "length (elementLinks t)"
  have "c = D" using 0 by simp
  moreover have "(s + c) mod ?n < ?n" using assms(2) by (rule mod_lt)
  moreover have "take (Suc c) ls = take c ls @ [ls ! c]" using assms(4) \<open>c = D\<close> by (simp add: take_Suc_conv_app_nth)
  ultimately show ?case using assms
    by (subst unlock_loop.simps) (simp add: unlockElementHash_def cyc_upd_snoc min_def)
next
  case (Suc m)
  let ?n = "length (elementLinks t)"
  have c: "c < D" using Suc by simp
  have ne: "(s + D) mod ?n \<noteq> (s + c) mod ?n"
    using mod_add_cancel_less[of s D ?n c] assms(3) c by auto
  have lt: "(s + c) mod ?n < ?n" using assms(2) by (rule mod_lt)
  have nxt: "(if (s + c) mod ?n + 1 = ?n then 0 else (s + c) mod ?n + 1) = (s + Suc c) mod ?n"
    using lt by (simp add: mod_Suc)
  have tk: "take (Suc c) ls = take c ls @ [ls ! c]" using assms(4) c by (simp add: take_Suc_conv_app_nth)
  have "unlock_loop (Suc c) ((s + Suc c) mod ?n) ((s + D) mod ?n) ls
      (t\<lparr>elementLinks := cyc_upd (elementLinks t) s (take (Suc c) ls)\<rparr>) =
    Inr (t\<lparr>elementLinks := cyc_upd (elementLinks t) s (take (Suc D) ls)\<rparr>)"
    using Suc(1)[of "Suc c"] Suc(2) c by simp
  moreover have "(cyc_upd (elementLinks t) s (take c ls))[(s + c) mod ?n := ls ! c] =
      cyc_upd (elementLinks t) s (take (Suc c) ls)"
    using assms(2,4) c tk by (simp add: cyc_upd_snoc min_def)
  ultimately show ?case using assms c ne lt nxt
    by (subst unlock_loop.simps) (simp add: unlockElementHash_def)
qed

lemma unlockElementsHash_run:
  assumes "hashSize t = length (elementLinks t)" and "s < length (elementLinks t)"
    and "D < length (elementLinks t)" and "D < length ls"
  shows "unlockElementsHash s ((s + D) mod length (elementLinks t)) ls t =
    Inr (t\<lparr>elementLinks := cyc_upd (elementLinks t) s (take (Suc D) ls)\<rparr>)"
  using unlock_loop_run[OF assms, of 0] assms(2) by (simp add: unlockElementsHash_def)

section \<open>Probing\<close>

text \<open>The table while the first \<open>d + 1\<close> slots from \<open>s\<close> on are locked, and the lock array then.\<close>

definition locked :: "('k, 'v) table \<Rightarrow> nat \<Rightarrow> nat \<Rightarrow> ('k, 'v) table" where
  "locked t s d =
     t\<lparr>elementLinks := cyc_upd (elementLinks t) s (replicate (Suc d) HASH_LOCK_MARK)\<rparr>"

definition probed :: "('k, 'v) table \<Rightarrow> nat \<Rightarrow> nat \<Rightarrow> nat list \<Rightarrow> nat list" where
  "probed t s d ls = cyc_seq (elementLinks t) s d @ drop (Suc d) ls"

definition slot :: "('k, 'v) table \<Rightarrow> nat \<Rightarrow> nat \<Rightarrow> nat" where
  "slot t s j = elementLinks t ! ((s + j) mod hashSize t)"

text \<open>An index whose size fields agree and in which no slot is locked.\<close>

definition index_ok :: "('k, 'v) table \<Rightarrow> bool" where
  "index_ok t \<longleftrightarrow> 0 < hashSize t \<and> hashSize t = length (elementLinks t) \<and>
     HASH_LOCK_MARK \<notin> set (elementLinks t)"

lemma locked_simps [simp]:
  "elementStorage (locked t s d) = elementStorage t"
  "lruLists (locked t s d) = lruLists t"
  "hashSize (locked t s d) = hashSize t"
  "length (elementLinks (locked t s d)) = length (elementLinks t)"
  by (simp_all add: locked_def)

lemma length_probed [simp]: "d < length ls \<Longrightarrow> length (probed t s d ls) = length ls"
  by (simp add: probed_def)

lemma probed_nth [simp]:
  "hashSize t = length (elementLinks t) \<Longrightarrow> j \<le> d \<Longrightarrow> probed t s d ls ! j = slot t s j"
  by (simp add: probed_def slot_def nth_append)

lemma lockElementHash_start:
  assumes "index_ok t" and "s < hashSize t" and "0 < length ls"
  shows "lockElementHash s t = Inr (slot t s 0, locked t s 0)"
    and "arr_set ls 0 (slot t s 0) = Inr (probed t s 0 ls)"
proof -
  have "elementLinks t ! s \<noteq> HASH_LOCK_MARK"
    using assms by (metis index_ok_def nth_mem)
  then show "lockElementHash s t = Inr (slot t s 0, locked t s 0)"
    using assms by (simp add: lockElementHash_free index_ok_def slot_def locked_def)
  show "arr_set ls 0 (slot t s 0) = Inr (probed t s 0 ls)"
    using assms by (cases ls) (simp_all add: probed_def cyc_seq_def slot_def index_ok_def)
qed

lemma lockNext_run:
  assumes ok: "index_ok t" and s: "s < hashSize t" and d: "Suc d < hashSize t"
    and len: "length ls = HASH_MAX_LOCK_DEPTH" and dl: "Suc d < HASH_MAX_LOCK_DEPTH"
    and hd: "length hs = Suc d"
  shows "lockNext (hs @ drop (Suc d) ls) ((s + d) mod hashSize t) d (locked t s d) =
     Inr ((s + Suc d) mod hashSize t, hs @ slot t s (Suc d) # drop (Suc (Suc d)) ls, locked t s (Suc d))"
proof -
  let ?n = "hashSize t"
  have n: "length (elementLinks t) = ?n" using ok by (simp add: index_ok_def)
  have pos: "(s + Suc d) mod ?n < ?n" using s by (rule mod_lt)
  have same: "elementLinks (locked t s d) ! ((s + Suc d) mod ?n) = slot t s (Suc d)"
    using nth_cyc_upd_after[of s "elementLinks t" "replicate (Suc d) HASH_LOCK_MARK" "Suc d"] s d n
    by (simp add: locked_def slot_def)
  have "slot t s (Suc d) \<noteq> HASH_LOCK_MARK"
    using ok pos n by (metis index_ok_def nth_mem slot_def)
  then have "lockElementHash ((s + Suc d) mod ?n) (locked t s d) =
      Inr (slot t s (Suc d), (locked t s d)\<lparr>elementLinks :=
        (elementLinks (locked t s d))[(s + Suc d) mod ?n := HASH_LOCK_MARK]\<rparr>)"
    using same pos n by (subst lockElementHash_free) simp_all
  moreover have "(locked t s d)\<lparr>elementLinks :=
        (elementLinks (locked t s d))[(s + Suc d) mod ?n := HASH_LOCK_MARK]\<rparr> = locked t s (Suc d)"
  proof -
    have rep: "replicate (Suc (Suc d)) HASH_LOCK_MARK = replicate (Suc d) HASH_LOCK_MARK @ [HASH_LOCK_MARK]"
      by (simp add: replicate_append_same)
    show ?thesis unfolding locked_def rep
      using cyc_upd_snoc[of s "elementLinks t" "replicate (Suc d) HASH_LOCK_MARK" HASH_LOCK_MARK] s n
      by (simp del: replicate.simps cyc_upd.simps)
  qed
  moreover have "(hs @ drop (Suc d) ls)[Suc d := slot t s (Suc d)] =
      hs @ slot t s (Suc d) # drop (Suc (Suc d)) ls"
    using hd len dl by (simp add: list_update_append Cons_nth_drop_Suc[symmetric])
  moreover have "((s + d) mod ?n + 1) mod ?n = (s + Suc d) mod ?n" by (simp add: mod_simps)
  ultimately show ?thesis
    using hd len dl by (simp add: lockNext_def Let_def)
qed

text \<open>
  A loop that reaches its first free or matching slot after \<open>D\<close> steps has locked slots
  \<open>s \<dots> s + D\<close> and holds their contents in the lock array.
\<close>

lemma probe_run:
  assumes ok: "index_ok t" and s: "s < hashSize t" and D: "D < hashSize t"
    and len: "length ls = HASH_MAX_LOCK_DEPTH" and DL: "D < HASH_MAX_LOCK_DEPTH"
    and mt: "\<And>e d. mt e (locked t s d) = mt e t"
    and go: "\<And>j. j < D \<Longrightarrow> slot t s j \<noteq> HASH_FREE_MARK \<and> mt (slot t s j) t = Inr False"
    and stop: "slot t s D = HASH_FREE_MARK \<or> mt (slot t s D) t = Inr True"
    and d: "d \<le> D"
  shows "probe mt (probed t s d ls) ((s + d) mod hashSize t) d (locked t s d) =
    Inr (slot t s D \<noteq> HASH_FREE_MARK, (s + D) mod hashSize t, D, probed t s D ls, locked t s D)"
  using d
proof (induction "D - d" arbitrary: d)
  case 0
  then have "d = D" by simp
  then show ?case using stop ok mt
    by (subst probe.simps) (auto simp: index_ok_def)
next
  case (Suc m)
  have d: "d < D" using Suc by simp
  have n: "hashSize t = length (elementLinks t)" using ok by (simp add: index_ok_def)
  have "lockNext (probed t s d ls) ((s + d) mod hashSize t) d (locked t s d) =
     Inr ((s + Suc d) mod hashSize t, probed t s (Suc d) ls, locked t s (Suc d))"
    using lockNext_run[OF ok s _ len, of d "cyc_seq (elementLinks t) s d"] d D DL n
    by (simp add: probed_def cyc_seq_Suc slot_def)
  moreover have "probe mt (probed t s (Suc d) ls) ((s + Suc d) mod hashSize t) (Suc d) (locked t s (Suc d)) =
    Inr (slot t s D \<noteq> HASH_FREE_MARK, (s + D) mod hashSize t, D, probed t s D ls, locked t s D)"
    using Suc(1)[of "Suc d"] Suc(2) d by simp
  ultimately show ?case using go[OF d] n mt by (subst probe.simps) simp
qed

lemma probeStart_run:
  assumes ok: "index_ok t" and s: "s < hashSize t" and D: "D < hashSize t"
    and len: "length ls = HASH_MAX_LOCK_DEPTH" and DL: "D < HASH_MAX_LOCK_DEPTH"
    and mt: "\<And>e d. mt e (locked t s d) = mt e t"
    and go: "\<And>j. j < D \<Longrightarrow> slot t s j \<noteq> HASH_FREE_MARK \<and> mt (slot t s j) t = Inr False"
    and stop: "slot t s D = HASH_FREE_MARK \<or> mt (slot t s D) t = Inr True"
  shows "probeStart mt ls s t =
    Inr (slot t s D \<noteq> HASH_FREE_MARK, (s + D) mod hashSize t, D, probed t s D ls, locked t s D)"
  using probe_run[OF assms, of 0] lockElementHash_start[OF ok s, of ls] len DL s
  by (simp add: probeStart_def)

text \<open>Unlocking writes the lock array back; when it was not changed the index is as before.\<close>

lemma unlock_locked:
  assumes ok: "index_ok t" and s: "s < hashSize t" and D: "D < hashSize t" and len: "D < length ls"
  shows "unlockElementsHash s ((s + D) mod hashSize t) ls ((locked t s D)\<lparr>elementStorage := st\<rparr>) =
    Inr (t\<lparr>elementStorage := st, elementLinks := cyc_upd (elementLinks t) s (take (Suc D) ls)\<rparr>)"
proof -
  let ?t = "(locked t s D)\<lparr>elementStorage := st\<rparr>"
  have n: "hashSize t = length (elementLinks t)" using ok by (simp add: index_ok_def)
  have "unlockElementsHash s ((s + D) mod length (elementLinks ?t)) ls ?t =
      Inr (?t\<lparr>elementLinks := cyc_upd (elementLinks ?t) s (take (Suc D) ls)\<rparr>)"
    by (rule unlockElementsHash_run) (use n s D len in \<open>auto simp: locked_def\<close>)
  moreover have "cyc_upd (elementLinks ?t) s (take (Suc D) ls) = cyc_upd (elementLinks t) s (take (Suc D) ls)"
    using cyc_upd_overwrite[of s "elementLinks t" "replicate (Suc D) HASH_LOCK_MARK" "take (Suc D) ls"] n s D len
    by (simp add: locked_def)
  ultimately show ?thesis using n by (simp add: locked_def)
qed

lemma unlock_probed:
  assumes ok: "index_ok t" and s: "s < hashSize t" and D: "D < hashSize t" and len: "D < length ls"
  shows "unlockElementsHash s ((s + D) mod hashSize t) (probed t s D ls) ((locked t s D)\<lparr>elementStorage := st\<rparr>) =
    Inr (t\<lparr>elementStorage := st\<rparr>)"
proof -
  have "take (Suc D) (probed t s D ls) = cyc_seq (elementLinks t) s D" by (simp add: probed_def)
  then show ?thesis
    using unlock_locked[OF ok s D, of "probed t s D ls" st] len cyc_upd_seq[of s "elementLinks t" D] ok s D
    by (simp add: index_ok_def)
qed

lemma unlock_probed_same:
  assumes "index_ok t" and "s < hashSize t" and "D < hashSize t" and "D < length ls"
  shows "unlockElementsHash s ((s + D) mod hashSize t) (probed t s D ls) (locked t s D) = Inr t"
  using unlock_probed[OF assms, of "elementStorage t"] by (simp add: locked_def)

end
