(* ===== verification/Hash_Shift.thy ===== *)
theory Hash_Shift
  imports Hash_Probe "HOL-Library.Multiset"
begin

text \<open>
  Removal from the slot index by backward shift (\<open>removeFromHashPos\<close>, \<open>removeFromHashIdx\<close>).
  \<open>shift_from\<close> is the effect of the loop on a plain array, without locks; the loop of the code is
  shown to have that effect, and \<open>shift_from\<close> to keep every remaining element reachable by
  linear probing, provided the probe runs do not wrap round the end of the array.
\<close>

section \<open>The effect of the shift on a plain array\<close>

function shift_from :: "(nat \<Rightarrow> nat) \<Rightarrow> nat list \<Rightarrow> nat \<Rightarrow> nat \<Rightarrow> nat list" where
  "shift_from hm xs hole i =
     (if i < length xs \<and> xs ! i \<noteq> HASH_FREE_MARK
      then if hm (xs ! i) \<le> hole then shift_from hm (xs[hole := xs ! i]) i (i + 1)
           else shift_from hm xs hole (i + 1)
      else xs[hole := HASH_FREE_MARK])"
  by pat_completeness auto
termination
  by (relation "measure (\<lambda>(hm, xs, hole, i). length xs - i)") auto

declare shift_from.simps [simp del]

text \<open>The content of slot \<open>p\<close> has its home at or before \<open>p\<close> and no free slot in between.\<close>

definition run_ok :: "(nat \<Rightarrow> nat) \<Rightarrow> nat list \<Rightarrow> nat \<Rightarrow> bool" where
  "run_ok hm xs p \<longleftrightarrow> hm (xs ! p) \<le> p \<and> (\<forall>q \<in> {hm (xs ! p)..<p}. xs ! q \<noteq> HASH_FREE_MARK)"

definition lin_ok :: "(nat \<Rightarrow> nat) \<Rightarrow> nat list \<Rightarrow> bool" where
  "lin_ok hm xs \<longleftrightarrow> (\<forall>p < length xs. xs ! p \<noteq> HASH_FREE_MARK \<longrightarrow> run_ok hm xs p)"

text \<open>What holds while the hole at \<open>hole\<close> still shows its old content and \<open>i\<close> is scanned next.\<close>

definition shift_inv :: "(nat \<Rightarrow> nat) \<Rightarrow> nat list \<Rightarrow> nat \<Rightarrow> nat \<Rightarrow> bool" where
  "shift_inv hm xs hole i \<longleftrightarrow> hole < i \<and> i < length xs \<and> xs ! hole \<noteq> HASH_FREE_MARK \<and>
     xs ! (length xs - 1) = HASH_FREE_MARK \<and>
     (\<forall>p < length xs. p \<noteq> hole \<longrightarrow> xs ! p \<noteq> HASH_FREE_MARK \<longrightarrow> run_ok hm xs p) \<and>
     (\<forall>p \<in> {hole<..<i}. hole < hm (xs ! p))"

lemma shift_invD:
  assumes "shift_inv hm xs hole i"
  shows "hole < i" "i < length xs" "hole < length xs" "xs ! hole \<noteq> HASH_FREE_MARK"
    and "xs ! (length xs - 1) = HASH_FREE_MARK"
    and "p < length xs \<Longrightarrow> p \<noteq> hole \<Longrightarrow> xs ! p \<noteq> HASH_FREE_MARK \<Longrightarrow> run_ok hm xs p"
    and "hole < p \<Longrightarrow> p < i \<Longrightarrow> hole < hm (xs ! p)"
  using assms unfolding shift_inv_def by (auto simp del: nth_list_update_neq)

lemma run_okD:
  assumes "run_ok hm xs p"
  shows "hm (xs ! p) \<le> p" and "hm (xs ! p) \<le> q \<Longrightarrow> q < p \<Longrightarrow> xs ! q \<noteq> HASH_FREE_MARK"
  using assms unfolding run_ok_def by auto

text \<open>Overwriting slots by element references keeps the run of a slot whose own content is kept.\<close>

lemma run_ok_mono:
  assumes "run_ok hm xs p" and "ys ! p' = xs ! p" and "hm (xs ! p) \<le> p'" and "p' \<le> p"
    and "\<And>q. q < p' \<Longrightarrow> xs ! q \<noteq> HASH_FREE_MARK \<Longrightarrow> ys ! q \<noteq> HASH_FREE_MARK"
  shows "run_ok hm ys p'"
  unfolding run_ok_def
proof (intro conjI ballI)
  show "hm (ys ! p') \<le> p'" using assms by simp
  fix q assume "q \<in> {hm (ys ! p')..<p'}"
  then have "hm (xs ! p) \<le> q" "q < p'" "q < p" using assms by auto
  then show "ys ! q \<noteq> HASH_FREE_MARK" using run_okD(2)[OF assms(1)] assms(5) by blast
qed

lemma shift_inv_start:
  assumes "lin_ok hm xs" and "xs ! (length xs - 1) = HASH_FREE_MARK"
    and "hole < length xs" and "xs ! hole \<noteq> HASH_FREE_MARK"
  shows "shift_inv hm xs hole (Suc hole)"
proof -
  have "hole \<noteq> length xs - 1" using assms by metis
  then show ?thesis using assms unfolding lin_ok_def shift_inv_def by auto
qed

lemma shift_inv_next: "shift_inv hm xs hole i \<Longrightarrow> xs ! i \<noteq> HASH_FREE_MARK \<Longrightarrow> Suc i < length xs"
  using shift_invD(2,5) by (metis Suc_lessI diff_Suc_1)

lemma shift_inv_moved:
  assumes inv: "shift_inv hm xs hole i" and i: "xs ! i \<noteq> HASH_FREE_MARK" and le: "hm (xs ! i) \<le> hole"
  shows "shift_inv hm (xs[hole := xs ! i]) i (Suc i)"
proof -
  note hole = shift_invD[OF inv]
  let ?ys = "xs[hole := xs ! i]"
  have filled: "?ys ! q \<noteq> HASH_FREE_MARK" if "xs ! q \<noteq> HASH_FREE_MARK" for q
    using that i by (cases "q = hole") (simp_all add: nth_list_update_if)
  have ys: "?ys ! hole = xs ! i" "\<And>q. q \<noteq> hole \<Longrightarrow> ?ys ! q = xs ! q" using hole(3) by simp_all
  have run: "run_ok hm ?ys p" if p: "p < length xs" "p \<noteq> i" "?ys ! p \<noteq> HASH_FREE_MARK" for p
  proof (cases "p = hole")
    case True
    have "run_ok hm xs i" using hole(1,2) i by (intro hole(6)) simp_all
    then show ?thesis unfolding True
      by (rule run_ok_mono) (use ys(1) le hole(1) filled in simp_all)
  next
    case False
    then have x: "?ys ! p = xs ! p" by (rule ys(2))
    then have rx: "run_ok hm xs p" using hole(6)[OF p(1) False] p(3) by simp
    show ?thesis by (rule run_ok_mono[OF rx x run_okD(1)[OF rx] le_refl filled])
  qed
  show ?thesis unfolding shift_inv_def
  proof (intro conjI allI impI)
    show "?ys ! (length ?ys - 1) = HASH_FREE_MARK"
      using ys(2)[of "length xs - 1"] hole(4,5) by (metis length_list_update)
    show "?ys ! i \<noteq> HASH_FREE_MARK" using filled i by blast
    show "Suc i < length ?ys" using shift_inv_next[OF inv i] by simp
  qed (use run in simp_all)
qed

lemma shift_inv_kept:
  assumes inv: "shift_inv hm xs hole i" and i: "xs ! i \<noteq> HASH_FREE_MARK" and gt: "\<not> hm (xs ! i) \<le> hole"
  shows "shift_inv hm xs hole (Suc i)"
proof -
  note hole = shift_invD[OF inv]
  have "\<forall>p \<in> {hole<..<Suc i}. hole < hm (xs ! p)"
    using hole(7) gt by (auto simp: less_Suc_eq)
  then show ?thesis
    using hole(1-6) shift_inv_next[OF inv i] unfolding shift_inv_def by (intro conjI allI impI) simp_all
qed

lemma shift_inv_end:
  assumes inv: "shift_inv hm xs hole i" and i: "xs ! i = HASH_FREE_MARK"
  shows "lin_ok hm (xs[hole := HASH_FREE_MARK])"
  unfolding lin_ok_def
proof (intro allI impI)
  note hole = shift_invD[OF inv]
  fix p assume p: "p < length (xs[hole := HASH_FREE_MARK])" "xs[hole := HASH_FREE_MARK] ! p \<noteq> HASH_FREE_MARK"
  have ph: "p \<noteq> hole" "xs ! p \<noteq> HASH_FREE_MARK"
    using p hole(3) by (auto simp: nth_list_update_if split: if_splits)
  then have run: "run_ok hm xs p" using p hole(6) by simp
  have beyond: "\<not> (hm (xs ! p) \<le> hole \<and> hole < p)"
  proof
    assume le: "hm (xs ! p) \<le> hole \<and> hole < p"
    have "\<not> p < i" using hole(7)[of p] le by auto
    then have "i < p" using ph i by (metis linorder_neqE_nat)
    then show False using run_okD(2)[OF run, of i] i le hole(1) by simp
  qed
  show "run_ok hm (xs[hole := HASH_FREE_MARK]) p"
    unfolding run_ok_def
  proof (intro conjI ballI)
    show "hm (xs[hole := HASH_FREE_MARK] ! p) \<le> p" using run_okD(1)[OF run] ph(1) by simp
    fix q assume "q \<in> {hm (xs[hole := HASH_FREE_MARK] ! p)..<p}"
    then have q: "hm (xs ! p) \<le> q" "q < p" using ph(1) by simp_all
    then have "q \<noteq> hole" using beyond by blast
    then show "xs[hole := HASH_FREE_MARK] ! q \<noteq> HASH_FREE_MARK" using run_okD(2)[OF run q] by simp
  qed
qed

lemma shift_from_correct:
  assumes "shift_inv hm xs hole i"
  shows "lin_ok hm (shift_from hm xs hole i) \<and> length (shift_from hm xs hole i) = length xs \<and>
    mset (shift_from hm xs hole i) = mset (xs[hole := HASH_FREE_MARK]) \<and>
    shift_from hm xs hole i ! (length xs - 1) = HASH_FREE_MARK"
  using assms
proof (induction hm xs hole i rule: shift_from.induct)
  case (1 hm xs hole i)
  note inv = 1(3)
  have b: "hole < i" "i < length xs" "xs ! (length xs - 1) = HASH_FREE_MARK"
    using inv by (auto simp: shift_inv_def)
  show ?case
  proof (cases "xs ! i = HASH_FREE_MARK")
    case True
    then show ?thesis using shift_inv_end[OF inv True] b
      by (subst (1 2 3 4) shift_from.simps) (simp add: nth_list_update_if)
  next
    case i: False
    show ?thesis
    proof (cases "hm (xs ! i) \<le> hole")
      case True
      let ?ys = "xs[hole := HASH_FREE_MARK]"
      have "mset (xs[hole := xs ! i, i := HASH_FREE_MARK]) = mset (?ys[hole := ?ys ! i, i := ?ys ! hole])"
        using b by (simp add: nth_list_update_if list_update_swap)
      also have "\<dots> = mset ?ys" using b by (intro mset_swap) auto
      finally have m: "mset (xs[hole := xs ! i, i := HASH_FREE_MARK]) = mset ?ys" .
      have "shift_from hm xs hole i = shift_from hm (xs[hole := xs ! i]) i (i + 1)"
        using b i True by (subst shift_from.simps) simp
      then show ?thesis using 1(1) shift_inv_moved[OF inv i True] b i True m by simp
    next
      case False
      have "shift_from hm xs hole i = shift_from hm xs hole (i + 1)"
        using b i False by (subst shift_from.simps) simp
      then show ?thesis using 1(2) shift_inv_kept[OF inv i False] b i False by simp
    qed
  qed
qed

section \<open>The loop of the code has that effect\<close>

lemma cyc_upd_update:
  assumes "p < length xs" and "length vs \<le> length xs" and "j < length vs"
  shows "(cyc_upd xs p vs)[(p + j) mod length xs := v] = cyc_upd xs p (vs[j := v])"
proof (rule cyc_upd_eqI)
  have lt: "(p + j) mod length xs < length xs" using assms(1) by (rule mod_lt)
  fix i
  show "i < length (vs[j := v]) \<Longrightarrow>
      (cyc_upd xs p vs)[(p + j) mod length xs := v] ! ((p + i) mod length xs) = vs[j := v] ! i"
    using nth_cyc_upd_in[of i vs xs p] mod_add_cancel_less[of p j "length xs" i] assms lt
    by (cases "i = j") (auto simp: nth_list_update_if)
  show "length (vs[j := v]) \<le> i \<Longrightarrow> i < length xs \<Longrightarrow>
      (cyc_upd xs p vs)[(p + j) mod length xs := v] ! ((p + i) mod length xs) = xs ! ((p + i) mod length xs)"
    using nth_cyc_upd_after[of p xs vs i] mod_add_cancel_less[of p j "length xs" i] assms
    by (auto simp: nth_list_update_if)
qed (use assms in auto)

lemma cyc_upd_snoc_same:
  assumes "p < length xs" and "length vs < length xs"
  shows "cyc_upd xs p (vs @ [xs ! ((p + length vs) mod length xs)]) = cyc_upd xs p vs"
  using assms nth_cyc_upd_after[of p xs vs "length vs"]
  by (simp add: cyc_upd_snoc list_update_same_conv mod_lt[OF assms(1)])

definition home :: "('k \<Rightarrow> nat) \<Rightarrow> ('k, 'v) table \<Rightarrow> nat \<Rightarrow> nat" where
  "home hasher t e = hasher (key_at t e) mod hashSize t"

lemma shiftBack_run:
  assumes ok: "index_ok t" and nowrap: "s + E < hashSize t" and EL: "E < HASH_MAX_LOCK_DEPTH"
    and len: "length ls = HASH_MAX_LOCK_DEPTH"
    and stop: "slot t s E = HASH_FREE_MARK"
    and go: "\<And>j. j < E \<Longrightarrow> d \<le> j \<Longrightarrow> slot t s j < length (elementStorage t) \<and> slot t s j \<noteq> HASH_FREE_MARK"
    and hs: "length hs = Suc d" "hs ! d = slot t s d" and dd: "dd < d" and d: "d \<le> E"
  shows "\<exists>hs' dd'. shiftBack hasher (hs @ drop (Suc d) ls) (s + d) d dd (s + dd) (locked t s d) =
      Inr (s + E, hs' @ drop (Suc E) ls, dd', locked t s E) \<and> length hs' = Suc E \<and> dd' < E \<and>
      cyc_upd (elementLinks t) s (hs'[dd' := HASH_FREE_MARK]) =
        shift_from (home hasher t) (cyc_upd (elementLinks t) s hs) (s + dd) (s + d)"
  using d go hs dd
proof (induction "E - d" arbitrary: d hs dd)
  case 0
  let ?n = "hashSize t" and ?V = "cyc_upd (elementLinks t) s hs"
  have n: "length (elementLinks t) = ?n" using ok by (simp add: index_ok_def)
  have "d = E" using 0 by simp
  have "?V ! (s + d) = slot t s d"
    using nth_cyc_upd_in[of d hs "elementLinks t" s] 0 nowrap n \<open>d = E\<close> by simp
  then have "shift_from (home hasher t) ?V (s + dd) (s + d) = ?V[s + dd := HASH_FREE_MARK]"
    using stop \<open>d = E\<close> by (subst shift_from.simps) simp
  also have "\<dots> = cyc_upd (elementLinks t) s (hs[dd := HASH_FREE_MARK])"
    using cyc_upd_update[of s "elementLinks t" hs dd HASH_FREE_MARK] 0 nowrap n \<open>d = E\<close> by simp
  finally show ?case using stop 0 \<open>d = E\<close>
    by (subst shiftBack.simps) (auto simp: nth_append)
next
  case (Suc m)
  let ?n = "hashSize t" and ?V = "cyc_upd (elementLinks t) s hs" and ?v = "slot t s d"
  have n: "length (elementLinks t) = ?n" using ok by (simp add: index_ok_def)
  have d: "d < E" using Suc(2) by simp
  have v: "?v < length (elementStorage t)" "?v \<noteq> HASH_FREE_MARK" using Suc(4)[OF d] by auto
  have V: "?V ! (s + d) = ?v"
    using nth_cyc_upd_in[of d hs "elementLinks t" s] Suc(5,6) nowrap n d by simp
  define moved where "moved = (home hasher t ?v \<le> s + dd)"
  define hs1 where "hs1 = (if moved then hs[dd := ?v] else hs)"
  define dd1 where "dd1 = (if moved then d else dd)"
  have l1: "length hs1 = Suc d" using Suc(5) by (simp add: hs1_def)
  have V1: "cyc_upd (elementLinks t) s (hs1 @ [slot t s (Suc d)]) = (if moved then ?V[s + dd := ?v] else ?V)"
    using cyc_upd_snoc_same[of s "elementLinks t" hs1] cyc_upd_update[of s "elementLinks t" hs dd ?v]
      l1 Suc(5,7) nowrap n d by (simp add: slot_def hs1_def)
  have nxt: "lockNext (hs1 @ drop (Suc d) ls) (s + d) d (locked t s d) =
      Inr (s + Suc d, (hs1 @ [slot t s (Suc d)]) @ drop (Suc (Suc d)) ls, locked t s (Suc d))"
    using lockNext_run[OF ok _ _ len _ l1, of s] nowrap d EL by simp
  have sf: "shift_from (home hasher t) ?V (s + dd) (s + d) =
      shift_from (home hasher t) (cyc_upd (elementLinks t) s (hs1 @ [slot t s (Suc d)])) (s + dd1) (s + Suc d)"
    using V v nowrap n d unfolding V1 dd1_def by (subst shift_from.simps) (simp add: moved_def)
  have up: "(hs @ drop (Suc d) ls)[dd := ?v] = hs[dd := ?v] @ drop (Suc d) ls"
    using Suc(5,7) by (simp add: list_update_append)
  have "shiftBack hasher (hs @ drop (Suc d) ls) (s + d) d dd (s + dd) (locked t s d) =
      shiftBack hasher ((hs1 @ [slot t s (Suc d)]) @ drop (Suc (Suc d)) ls) (s + Suc d) (Suc d) dd1 (s + dd1)
        (locked t s (Suc d))"
    using nxt v up Suc(5,6)
    by (subst shiftBack.simps)
      (auto simp: nth_append home_def key_at_def hs1_def dd1_def moved_def Let_def)
  moreover have "\<exists>hs' dd'. shiftBack hasher ((hs1 @ [slot t s (Suc d)]) @ drop (Suc (Suc d)) ls)
        (s + Suc d) (Suc d) dd1 (s + dd1) (locked t s (Suc d)) =
      Inr (s + E, hs' @ drop (Suc E) ls, dd', locked t s E) \<and> length hs' = Suc E \<and> dd' < E \<and>
      cyc_upd (elementLinks t) s (hs'[dd' := HASH_FREE_MARK]) =
        shift_from (home hasher t) (cyc_upd (elementLinks t) s (hs1 @ [slot t s (Suc d)])) (s + dd1) (s + Suc d)"
    using Suc(2) Suc(4,7) d l1 by (intro Suc(1)) (auto simp: nth_append dd1_def)
  ultimately show ?case unfolding sf by simp
qed

lemma threadLocks_Inr [simp]:
  "tid < length (lruLists t) \<Longrightarrow> threadLocks tid t = Inr (locks (lruLists t ! tid))"
  by (simp add: threadLocks_def)

text \<open>Removal of the record found after \<open>D\<close> steps, when the run of full slots ends at depth \<open>E\<close>.\<close>

lemma removeFromHash_run:
  assumes ok: "index_ok t" and nowrap: "s + E < hashSize t" and EL: "E < HASH_MAX_LOCK_DEPTH"
    and tid: "tid < length (lruLists t)" "length (locks (lruLists t ! tid)) = HASH_MAX_LOCK_DEPTH"
    and mt: "\<And>e d. mt e (locked t s d) = mt e t"
    and before: "\<And>j. j < D \<Longrightarrow> slot t s j \<noteq> HASH_FREE_MARK \<and> mt (slot t s j) t = Inr False"
    and found: "slot t s D \<noteq> HASH_FREE_MARK" "mt (slot t s D) t = Inr True"
    and after: "\<And>j. D < j \<Longrightarrow> j < E \<Longrightarrow> slot t s j < length (elementStorage t) \<and> slot t s j \<noteq> HASH_FREE_MARK"
    and stop: "slot t s E = HASH_FREE_MARK" and DE: "D < E"
  shows "\<exists>ls'. length ls' = HASH_MAX_LOCK_DEPTH \<and> removeFromHash hasher mt tid s t =
    Inr (True, saveLocks tid ls'
      (t\<lparr>elementLinks := shift_from (home hasher t) (elementLinks t) (s + D) (Suc (s + D))\<rparr>))"
proof -
  let ?n = "hashSize t" and ?S = "elementLinks t" and ?ls = "locks (lruLists t ! tid)"
  have n: "length ?S = ?n" using ok by (simp add: index_ok_def)
  have seq: "cyc_upd ?S s (cyc_seq ?S s (Suc D)) = ?S" using n nowrap DE by (intro cyc_upd_seq) simp_all
  have pr: "probeStart mt ?ls s t = Inr (True, s + D, D, probed t s D ?ls, locked t s D)"
    using probeStart_run[where mt = mt and D = D, OF ok _ _ tid(2) _ mt before] nowrap EL DE found by simp
  have nx: "lockNext (probed t s D ?ls) (s + D) D (locked t s D) =
      Inr (s + Suc D, cyc_seq ?S s (Suc D) @ drop (Suc (Suc D)) ?ls, locked t s (Suc D))"
    using lockNext_run[OF ok _ _ tid(2), of s D "cyc_seq ?S s D"] nowrap EL DE n
    by (simp add: probed_def cyc_seq_Suc slot_def)
  obtain hs' dd' where sb: "shiftBack hasher (cyc_seq ?S s (Suc D) @ drop (Suc (Suc D)) ?ls) (s + Suc D) (Suc D)
        D (s + D) (locked t s (Suc D)) = Inr (s + E, hs' @ drop (Suc E) ?ls, dd', locked t s E)"
    and hs': "length hs' = Suc E" "dd' < E"
    and cu: "cyc_upd ?S s (hs'[dd' := HASH_FREE_MARK]) = shift_from (home hasher t) ?S (s + D) (s + Suc D)"
    using shiftBack_run[OF ok nowrap EL tid(2) stop, of "Suc D" "cyc_seq ?S s (Suc D)" D hasher]
      after DE seq n by (auto simp: slot_def)
  let ?l3 = "hs'[dd' := HASH_FREE_MARK] @ drop (Suc E) ?ls"
  have "unlockElementsHash s (s + E) ?l3 (locked t s E) =
      Inr (t\<lparr>elementLinks := shift_from (home hasher t) ?S (s + D) (Suc (s + D))\<rparr>)"
    using unlock_locked[OF ok, of s E ?l3 "elementStorage t"] nowrap hs' cu n
    by (simp add: locked_def)
  moreover have "(hs' @ drop (Suc E) ?ls)[dd' := HASH_FREE_MARK] = ?l3"
    using hs' by (simp add: list_update_append)
  moreover have "length ?l3 = HASH_MAX_LOCK_DEPTH" using hs' tid EL by simp
  moreover have "dd' \<noteq> HASH_MAX_LOCK_DEPTH" "D \<noteq> HASH_MAX_LOCK_DEPTH" using hs' EL DE by simp_all
  ultimately show ?thesis using pr nx sb tid by (intro exI[of _ ?l3]) (simp add: removeFromHash_def Let_def)
qed

end
