(* ===== verification/Table_Inv.thy ===== *)
theory Table_Inv
  imports Hash_Shift
begin

text \<open>
  The invariant of \<open>LFLRUHashTable\<close> and its abstraction to a finite map. \<open>contents t\<close> is the map
  from keys to values a table stands for; \<open>table_inv\<close> ties the slot index, the keys of the
  stored elements and the linked lists together.
\<close>

section \<open>The map a table stands for\<close>

definition occupied :: "('k, 'v) table \<Rightarrow> nat list" where
  "occupied t = filter (\<lambda>e. e \<noteq> HASH_FREE_MARK) (elementLinks t)"

definition contents :: "('k, 'v) table \<Rightarrow> 'k \<rightharpoonup> 'v" where
  "contents t = map_of (map (\<lambda>e. (key_at t e, val_at t e)) (occupied t))"

text \<open>The element that holds a key.\<close>

definition elem_of :: "('k, 'v) table \<Rightarrow> 'k \<Rightarrow> nat option" where
  "elem_of t k = map_of (map (\<lambda>e. (key_at t e, e)) (occupied t)) k"

text \<open>Every stored element is found by probing from the home slot of its key.\<close>

definition reach_ok :: "('k \<Rightarrow> nat) \<Rightarrow> ('k, 'v) table \<Rightarrow> bool" where
  "reach_ok hasher t \<longleftrightarrow> (\<forall>e \<in> set (occupied t).
     \<exists>D < hashSize t. slot t (home hasher t e) D = e \<and>
       (\<forall>j < D. slot t (home hasher t e) j \<noteq> HASH_FREE_MARK))"

definition keys_ok :: "('k \<Rightarrow> bool) \<Rightarrow> ('k, 'v) table \<Rightarrow> bool" where
  "keys_ok valid t \<longleftrightarrow> inj_on (key_at t) (set (occupied t)) \<and> (\<forall>e \<in> set (occupied t). valid (key_at t e))"

definition locks_ok :: "('k, 'v) table \<Rightarrow> bool" where
  "locks_ok t \<longleftrightarrow> (\<forall>l \<in> set (lruLists t). length (locks l) = HASH_MAX_LOCK_DEPTH)"

definition table_core ::
    "('k \<Rightarrow> nat) \<Rightarrow> ('k \<Rightarrow> bool) \<Rightarrow> ('k, 'v) table \<Rightarrow> chains \<Rightarrow> bool" where
  "table_core hasher valid t C \<longleftrightarrow>
     chain_inv t C \<and> index_ok t \<and> reach_ok hasher t \<and> keys_ok valid t \<and> locks_ok t \<and>
     distinct (occupied t) \<and> set (occupied t) \<subseteq> lru_elems C"

definition table_inv ::
    "('k \<Rightarrow> nat) \<Rightarrow> ('k \<Rightarrow> bool) \<Rightarrow> ('k, 'v) table \<Rightarrow> chains \<Rightarrow> bool" where
  "table_inv hasher valid t C \<longleftrightarrow>
     table_core hasher valid t C \<and> (\<forall>i < length (lruLists t). C (Free i) \<noteq> [])"

text \<open>
  Elements that are on an LRU list but not in the index: \<open>remove\<close> leaves an element behind when it
  cannot unlink it.
\<close>

definition orphans :: "('k, 'v) table \<Rightarrow> chains \<Rightarrow> nat set" where
  "orphans t C = lru_elems C - set (occupied t)"

lemmas table_defs = table_core_def reach_ok_def keys_ok_def locks_ok_def

lemma contents_Some:
  assumes "inj_on (key_at t) (set (occupied t))"
  shows "contents t k = Some v \<longleftrightarrow> (\<exists>e \<in> set (occupied t). key_at t e = k \<and> val_at t e = v)"
proof
  assume "contents t k = Some v"
  then show "\<exists>e \<in> set (occupied t). key_at t e = k \<and> val_at t e = v"
    unfolding contents_def by (auto dest!: map_of_SomeD)
next
  assume "\<exists>e \<in> set (occupied t). key_at t e = k \<and> val_at t e = v"
  then obtain e where e: "e \<in> set (occupied t)" "key_at t e = k" "val_at t e = v" by blast
  then have "contents t k \<noteq> None" unfolding contents_def map_of_eq_None_iff by force
  then obtain v' where v': "contents t k = Some v'" by blast
  then obtain e' where "e' \<in> set (occupied t)" "key_at t e' = k" "val_at t e' = v'"
    unfolding contents_def by (auto dest!: map_of_SomeD)
  then show "contents t k = Some v" using e v' assms by (metis inj_onD)
qed

lemma contents_None: "contents t k = None \<longleftrightarrow> k \<notin> key_at t ` set (occupied t)"
  unfolding contents_def map_of_eq_None_iff by force

lemma elem_of_Some:
  assumes "inj_on (key_at t) (set (occupied t))"
  shows "elem_of t k = Some e \<longleftrightarrow> e \<in> set (occupied t) \<and> key_at t e = k"
proof
  assume "elem_of t k = Some e"
  then show "e \<in> set (occupied t) \<and> key_at t e = k" unfolding elem_of_def by (auto dest!: map_of_SomeD)
next
  assume e: "e \<in> set (occupied t) \<and> key_at t e = k"
  then have "elem_of t k \<noteq> None" unfolding elem_of_def map_of_eq_None_iff by force
  then obtain e' where e': "elem_of t k = Some e'" by blast
  then have "e' \<in> set (occupied t) \<and> key_at t e' = k" unfolding elem_of_def by (auto dest!: map_of_SomeD)
  then show "elem_of t k = Some e" using e e' assms by (metis inj_onD)
qed

lemma elem_of_None: "elem_of t k = None \<longleftrightarrow> contents t k = None"
  unfolding contents_None elem_of_def map_of_eq_None_iff by force

text \<open>The map is determined by the occupied elements and what they hold.\<close>

lemma contents_cong:
  assumes "inj_on (key_at t) (set (occupied t))" and "set (occupied t') = set (occupied t)"
    and "\<And>e. e \<in> set (occupied t) \<Longrightarrow> key_at t' e = key_at t e \<and> val_at t' e = val_at t e"
  shows "contents t' = contents t"
proof (rule ext)
  fix k
  have "inj_on (key_at t') (set (occupied t'))" using assms by (metis (no_types, lifting) inj_on_cong)
  then have "contents t' k = Some v \<longleftrightarrow> contents t k = Some v" for v
    unfolding contents_Some[OF assms(1)] using contents_Some[of t' k v] assms(2,3) by auto
  then show "contents t' k = contents t k" by (metis option.exhaust)
qed

section \<open>Consequences of the invariant\<close>

lemma table_coreD:
  assumes "table_core hasher valid t C"
  shows "chain_inv t C" "index_ok t" "reach_ok hasher t" "keys_ok valid t" "locks_ok t"
    and "distinct (occupied t)" "set (occupied t) \<subseteq> lru_elems C"
    and "inj_on (key_at t) (set (occupied t))"
    and "e \<in> set (occupied t) \<Longrightarrow> valid (key_at t e)"
    and "hashSize t = length (elementLinks t)" "0 < hashSize t"
  using assms unfolding table_core_def keys_ok_def index_ok_def by auto

lemma table_core_elem:
  assumes core: "table_core hasher valid t C" and e: "e \<in> set (occupied t)"
  shows "e < length (elementStorage t)" and "e \<noteq> HASH_FREE_MARK"
    and "\<exists>i < length (lruLists t). e \<in> set (C (Lru i))"
proof -
  note inv = chain_invD[OF table_coreD(1)[OF core]]
  obtain i where i: "e \<in> set (C (Lru i))" using e table_coreD(7)[OF core] unfolding lru_elems_def by blast
  show "e < length (elementStorage t)" using chains_ok_bound[OF inv(1) i] .
  show "e \<noteq> HASH_FREE_MARK" using e by (auto simp: occupied_def)
  show "\<exists>i < length (lruLists t). e \<in> set (C (Lru i))" using chains_ok_thread[OF inv(1) i] i by blast
qed

lemma table_core_locks:
  "table_core hasher valid t C \<Longrightarrow> tid < length (lruLists t) \<Longrightarrow>
   length (locks (lruLists t ! tid)) = HASH_MAX_LOCK_DEPTH"
  unfolding table_core_def locks_ok_def by simp

lemma slot_occupied:
  assumes "index_ok t" and "slot t s j \<noteq> HASH_FREE_MARK"
  shows "slot t s j \<in> set (occupied t)"
  using assms by (auto simp: occupied_def slot_def index_ok_def)

lemma distinct_filter_nth:
  assumes "distinct (filter P xs)" and "i < length xs" and "j < length xs" and "P (xs ! i)" and "xs ! i = xs ! j"
  shows "i = j"
proof -
  have main: False if ij: "i < j" "j < length xs" and P: "P (xs ! i)" "xs ! i = xs ! j" for i j
  proof -
    have "filter P xs = filter P (take j xs) @ xs ! j # filter P (drop (Suc j) xs)"
      using P ij(2) by (subst id_take_nth_drop[OF ij(2)]) simp
    moreover have "xs ! j \<in> set (filter P (take j xs))"
      using ij P by (auto simp: in_set_conv_nth intro!: exI[of _ i])
    ultimately show False using assms(1) by simp
  qed
  show ?thesis using main[of i j] main[of j i] assms by (metis linorder_neqE_nat)
qed

lemma slot_inj:
  assumes "table_core hasher valid t C" and "slot t s i \<noteq> HASH_FREE_MARK" and "slot t s i = slot t s j"
    and "i < hashSize t" and "j < hashSize t"
  shows "i = j"
proof -
  note inv = table_coreD[OF assms(1)]
  have "(s + i) mod hashSize t = (s + j) mod hashSize t"
    using distinct_filter_nth[of "\<lambda>e. e \<noteq> HASH_FREE_MARK" "elementLinks t"
        "(s + i) mod hashSize t" "(s + j) mod hashSize t"] inv(6,10,11) assms(2,3)
    by (auto simp: occupied_def slot_def)
  then show ?thesis using assms(4,5) by (rule mod_add_cancel_less)
qed

section \<open>Looking a key up\<close>

text \<open>
  A probe for key \<open>k\<close> ends when a free slot lies within the 246 slots the lock array can hold.
\<close>

definition window_ok :: "('k \<Rightarrow> nat) \<Rightarrow> ('k, 'v) table \<Rightarrow> 'k \<Rightarrow> bool" where
  "window_ok hasher t k \<longleftrightarrow>
     (\<exists>D < hashSize t. D < HASH_MAX_LOCK_DEPTH \<and> slot t (hasher k mod hashSize t) D = HASH_FREE_MARK)"

lemma first_free:
  assumes "window_ok hasher t k"
  obtains D where "D < hashSize t" "D < HASH_MAX_LOCK_DEPTH" "slot t (hasher k mod hashSize t) D = HASH_FREE_MARK"
    "\<And>j. j < D \<Longrightarrow> slot t (hasher k mod hashSize t) j \<noteq> HASH_FREE_MARK"
proof -
  let ?P = "\<lambda>D. slot t (hasher k mod hashSize t) D = HASH_FREE_MARK"
  obtain D where D: "D < hashSize t" "D < HASH_MAX_LOCK_DEPTH" "?P D" using assms by (auto simp: window_ok_def)
  have "?P (LEAST D. ?P D)" using D(3) by (rule LeastI)
  moreover have "(LEAST D. ?P D) \<le> D" using D(3) by (rule Least_le)
  moreover have "\<And>j. j < (LEAST D. ?P D) \<Longrightarrow> \<not> ?P j" by (rule not_less_Least)
  ultimately show thesis using that[of "LEAST D. ?P D"] D(1,2) by (meson order.strict_trans1)
qed

text \<open>
  The contract of the key type: \<open>operator==\<close> decides equality on the keys the server stores.
  Everything the operations do with keys goes through it and the hash functor.
\<close>

locale key_ops =
  fixes hasher :: "'k \<Rightarrow> nat" and keq :: "'k \<Rightarrow> 'k \<Rightarrow> bool" and valid :: "'k \<Rightarrow> bool"
  assumes keq_iff: "valid a \<Longrightarrow> valid b \<Longrightarrow> keq a b \<longleftrightarrow> a = b"
begin

lemma keyMatch_slot:
  assumes core: "table_core hasher valid t C" and k: "valid k" and e: "e \<in> set (occupied t)"
  shows "keyMatch keq k e t = Inr (key_at t e = k)"
  using keq_iff[OF table_coreD(9)[OF core e] k] table_core_elem(1)[OF core e]
  by (simp add: keyMatch_def key_at_def)

lemma probe_hit:
  assumes core: "table_core hasher valid t C" and k: "valid k" and w: "window_ok hasher t k"
    and e: "elem_of t k = Some e"
  obtains D where "D < hashSize t" "D < HASH_MAX_LOCK_DEPTH" "slot t (hasher k mod hashSize t) D = e"
    "\<And>j. j < D \<Longrightarrow> slot t (hasher k mod hashSize t) j \<noteq> HASH_FREE_MARK \<and>
       keyMatch keq k (slot t (hasher k mod hashSize t) j) t = Inr False"
proof -
  let ?s = "hasher k mod hashSize t"
  note inv = table_coreD[OF core]
  have occ: "e \<in> set (occupied t)" "key_at t e = k" using e elem_of_Some[OF inv(8)] by auto
  then have "home hasher t e = ?s" by (simp add: home_def)
  then obtain D where D: "D < hashSize t" "slot t ?s D = e" "\<And>j. j < D \<Longrightarrow> slot t ?s j \<noteq> HASH_FREE_MARK"
    using inv(3) occ(1) unfolding reach_ok_def by (metis (no_types))
  obtain F where F: "F < HASH_MAX_LOCK_DEPTH" "slot t ?s F = HASH_FREE_MARK" using w by (auto simp: window_ok_def)
  have "D \<le> F" using D(3)[of F] F(2) by (metis not_le)
  have "keyMatch keq k (slot t ?s j) t = Inr False" if j: "j < D" for j
  proof -
    have ne: "slot t ?s j \<noteq> HASH_FREE_MARK" by (rule D(3)[OF j])
    have "slot t ?s j \<noteq> e" using slot_inj[OF core ne, of D] D(1,2) j by auto
    then have "key_at t (slot t ?s j) \<noteq> k"
      using inv(8) occ slot_occupied[OF inv(2) ne] by (metis inj_onD)
    then show ?thesis using keyMatch_slot[OF core k slot_occupied[OF inv(2) ne]] by simp
  qed
  then show thesis using that[of D] D F \<open>D \<le> F\<close> by auto
qed

lemma probe_miss:
  assumes core: "table_core hasher valid t C" and k: "valid k" and w: "window_ok hasher t k"
    and e: "contents t k = None"
  obtains D where "D < hashSize t" "D < HASH_MAX_LOCK_DEPTH" "slot t (hasher k mod hashSize t) D = HASH_FREE_MARK"
    "\<And>j. j < D \<Longrightarrow> slot t (hasher k mod hashSize t) j \<noteq> HASH_FREE_MARK \<and>
       keyMatch keq k (slot t (hasher k mod hashSize t) j) t = Inr False"
proof -
  let ?s = "hasher k mod hashSize t"
  note inv = table_coreD[OF core]
  obtain D where D: "D < hashSize t" "D < HASH_MAX_LOCK_DEPTH" "slot t ?s D = HASH_FREE_MARK"
    "\<And>j. j < D \<Longrightarrow> slot t ?s j \<noteq> HASH_FREE_MARK"
    by (rule first_free[OF w]) blast
  have "keyMatch keq k (slot t ?s j) t = Inr False" if j: "j < D" for j
  proof -
    note occ = slot_occupied[OF inv(2) D(4)[OF j]]
    have "key_at t (slot t ?s j) \<noteq> k" using e occ unfolding contents_None by (metis imageI)
    then show ?thesis using keyMatch_slot[OF core k occ] by simp
  qed
  then show thesis using that[of D] D by auto
qed

end

end
