(* ===== verification/Table_Map.thy ===== *)
theory Table_Map
  imports Table_Inv
begin

text \<open>
  The public operations of \<open>LFLRUHashTable\<close> refine those of a map: lookups return what the map
  holds, \<open>set\<close> and \<open>insertOrSet\<close> update it, and the LRU lists change as the cache policy says.
\<close>

section \<open>Updates that keep the invariant\<close>

lemma core_cong:
  assumes core: "table_core hasher valid t C" and ch: "chain_inv t' C'" and el: "lru_elems C' = lru_elems C"
    and idx: "elementLinks t' = elementLinks t" "hashSize t' = hashSize t"
    and keys: "\<And>e. e \<in> set (occupied t) \<Longrightarrow> key_at t' e = key_at t e" and lk: "locks_ok t'"
  shows "table_core hasher valid t' C'"
proof -
  note inv = table_coreD[OF core]
  have occ: "occupied t' = occupied t" using idx by (simp add: occupied_def)
  have sl: "slot t' = slot t" using idx by (intro ext) (simp add: slot_def)
  have hm: "home hasher t' e = home hasher t e" if "e \<in> set (occupied t)" for e
    using keys[OF that] idx by (simp add: home_def)
  have "reach_ok hasher t'" using inv(3) hm unfolding reach_ok_def occ sl idx by (metis (no_types, lifting))
  moreover have "keys_ok valid t'"
    using inv(8,9) keys unfolding keys_ok_def occ by (metis (no_types, lifting) inj_on_cong)
  moreover have "index_ok t'" using inv(2) idx by (metis index_ok_def)
  ultimately show ?thesis using ch lk inv(6,7) el occ by (simp add: table_core_def)
qed

lemma locks_ok_index: "same_index t t' \<Longrightarrow> locks_ok t \<Longrightarrow> locks_ok t'"
  unfolding same_index_def locks_ok_def all_set_conv_all_nth by simp

lemma core_lists:
  assumes core: "table_core hasher valid t C" and lo: "lists_only t t'"
    and ch: "chain_inv t' C'" and el: "lru_elems C' = lru_elems C"
  shows "table_core hasher valid t' C'" and "contents t' = contents t" and "occupied t' = occupied t"
proof -
  have kv: "key_at t' e = key_at t e \<and> val_at t' e = val_at t e" if "e \<in> set (occupied t)" for e
    using lo table_core_elem(1)[OF core that] by (simp add: lists_only_def same_kv_def)
  have idx: "elementLinks t' = elementLinks t" "hashSize t' = hashSize t"
    using lo by (simp_all add: lists_only_def same_index_def)
  show occ: "occupied t' = occupied t" using idx by (simp add: occupied_def)
  show "table_core hasher valid t' C'"
    by (rule core_cong[OF core ch el idx])
      (use kv locks_ok_index[of t t'] lo table_coreD(5)[OF core] in \<open>simp_all add: lists_only_def\<close>)
  show "contents t' = contents t"
    by (rule contents_cong[OF table_coreD(8)[OF core]]) (use kv occ in simp_all)
qed

lemma views_upd_list [simp]:
  "key_at (upd_list tid f t) = key_at t" "val_at (upd_list tid f t) = val_at t"
  "occupied (upd_list tid f t) = occupied t" "contents (upd_list tid f t) = contents t"
  "elem_of (upd_list tid f t) = elem_of t" "slot (upd_list tid f t) = slot t"
  by (simp_all add: fun_eq_iff key_at_def val_at_def occupied_def contents_def elem_of_def slot_def)

lemma set_lruLists_upd: "set (lruLists (upd_list tid f t)) \<subseteq> insert (f (lruLists t ! tid)) (set (lruLists t))"
  by (simp add: upd_list_def set_update_subset_insert)

lemma locks_ok_upd_list:
  "locks_ok t \<Longrightarrow> length (locks (f (lruLists t ! tid))) = HASH_MAX_LOCK_DEPTH \<Longrightarrow> locks_ok (upd_list tid f t)"
  using set_lruLists_upd[of tid f t] unfolding locks_ok_def by blast

lemma core_upd_list:
  assumes core: "table_core hasher valid t C" and tid: "tid < length (lruLists t)"
    and f: "\<And>l. head (f l) = head l" "\<And>l. tail (f l) = tail l" "\<And>l. freeListHead (f l) = freeListHead l"
    and lk: "length (locks (f (lruLists t ! tid))) = HASH_MAX_LOCK_DEPTH"
  shows "table_core hasher valid (upd_list tid f t) C"
proof (rule core_cong[OF core])
  show "chain_inv (upd_list tid f t) C" using table_coreD(1)[OF core] chain_inv_upd_list[of f, OF f] by blast
  show "locks_ok (upd_list tid f t)"
    using locks_ok_upd_list[of t f tid] lk table_coreD(5)[OF core] by blast
qed simp_all

lemma core_saveLocks:
  assumes "table_core hasher valid t C" and "tid < length (lruLists t)" and "length ls = HASH_MAX_LOCK_DEPTH"
  shows "table_core hasher valid (saveLocks tid ls t) C"
  unfolding saveLocks_def by (rule core_upd_list) (use assms in simp_all)

lemma core_addItemExpTime:
  assumes "table_core hasher valid t C" and "tid < length (lruLists t)"
  shows "table_core hasher valid (addItemExpTime tid p e x t) C"
  unfolding addItemExpTime_def by (rule core_upd_list) (use assms table_core_locks in simp_all)

lemma views_saveLocks [simp]:
  "contents (saveLocks tid ls t) = contents t" "elem_of (saveLocks tid ls t) = elem_of t"
  "length (lruLists (saveLocks tid ls t)) = length (lruLists t)"
  "occupied (saveLocks tid ls t) = occupied t"
  "elementStorage (saveLocks tid ls t) = elementStorage t" "hashSize (saveLocks tid ls t) = hashSize t"
  "elementLinks (saveLocks tid ls t) = elementLinks t" "key_at (saveLocks tid ls t) = key_at t"
  by (simp_all add: saveLocks_def)

lemma views_addItemExpTime [simp]:
  "contents (addItemExpTime tid p e x t) = contents t"
  "length (lruLists (addItemExpTime tid p e x t)) = length (lruLists t)"
  "elementLinks (addItemExpTime tid p e x t) = elementLinks t"
  "elementStorage (addItemExpTime tid p e x t) = elementStorage t"
  "occupied (addItemExpTime tid p e x t) = occupied t"
  "key_at (addItemExpTime tid p e x t) = key_at t"
  "hashSize (addItemExpTime tid p e x t) = hashSize t"
  by (simp_all add: addItemExpTime_def)

section \<open>Overwriting a value\<close>

abbreviation put_val :: "nat \<Rightarrow> 'v \<Rightarrow> ('k, 'v) table \<Rightarrow> ('k, 'v) table" where
  "put_val e v \<equiv> put_elem e (\<lambda>x. x\<lparr>val := v\<rparr>)"

lemma chain_inv_cong:
  assumes "lruLists t' = lruLists t" and "length (elementStorage t') = length (elementStorage t)"
    and "links_at t' = links_at t"
  shows "chain_inv t' C \<longleftrightarrow> chain_inv t C"
  using assms by (simp add: chain_inv_def lru_ok_def free_ok_def)

lemma put_elem_frame [simp]:
  "lruLists (put_elem e f t) = lruLists t" "elementLinks (put_elem e f t) = elementLinks t"
  "hashSize (put_elem e f t) = hashSize t" "occupied (put_elem e f t) = occupied t"
  "length (elementStorage (put_elem e f t)) = length (elementStorage t)"
  by (simp_all add: put_elem_def occupied_def)

lemma links_at_put_elem: "(\<And>x. links (f x) = links x) \<Longrightarrow> links_at (put_elem e f t) = links_at t"
  by (auto simp: fun_eq_iff links_at_def put_elem_def nth_list_update_if)

lemma kv_put_val [simp]:
  "key_at (put_val e v t) = key_at t"
  "e < length (elementStorage t) \<Longrightarrow> val_at (put_val e v t) = (val_at t)(e := v)"
  by (auto simp: fun_eq_iff key_at_def val_at_def put_elem_def nth_list_update_if)

lemma core_put_val:
  assumes core: "table_core hasher valid t C" and e: "e \<in> set (occupied t)"
  shows "table_core hasher valid (put_val e v t) C"
    and "contents (put_val e v t) = (contents t)(key_at t e \<mapsto> v)"
proof -
  note inv = table_coreD[OF core]
  have ch: "chain_inv (put_val e v t) C"
    using inv(1) by (subst chain_inv_cong[of _ t]) (simp_all add: links_at_put_elem)
  show "table_core hasher valid (put_val e v t) C"
    by (rule core_cong[OF core ch]) (use inv(5) in \<open>simp_all add: locks_ok_def\<close>)
  have inj: "inj_on (key_at (put_val e v t)) (set (occupied (put_val e v t)))" using inv(8) by simp
  have "contents (put_val e v t) k = Some w \<longleftrightarrow> ((contents t)(key_at t e \<mapsto> v)) k = Some w" for k w
    unfolding contents_Some[OF inj] using contents_Some[OF inv(8), of k w] e inv(8)
      table_core_elem(1)[OF core e] by (auto dest: inj_onD)
  then show "contents (put_val e v t) = (contents t)(key_at t e \<mapsto> v)"
    by (intro ext) (metis option.exhaust)
qed

section \<open>Moving an element to the front\<close>

lemma core_touch:
  assumes core: "table_core hasher valid t C" and tid: "tid < length (lruLists t)" and e: "e \<in> set (occupied t)"
  shows "\<exists>t'. touchElement tid e t = Inr t' \<and> lists_only t t' \<and>
    table_core hasher valid t' (touch_chains tid e C) \<and> contents t' = contents t \<and>
    orphans t' (touch_chains tid e C) = orphans t C"
proof -
  note inv = table_coreD[OF core]
  obtain i where "e \<in> set (C (Lru i))" using table_core_elem(3)[OF core e] by blast
  then obtain t' where "touchElement tid e t = Inr t'" "lists_only t t'" "chain_inv t' (touch_chains tid e C)"
    using touchElement_chain[OF inv(1) tid] by blast
  moreover have "lru_elems (touch_chains tid e C) = lru_elems C"
    using touch_chains_lru_elems e inv(7) by blast
  ultimately show ?thesis using core_lists[OF core] unfolding orphans_def by metis
qed

lemma touch_free:
  assumes core: "table_core hasher valid t C" and e: "e \<in> set (occupied t)"
  shows "touch_chains tid e C (Free k) = C (Free k)"
proof -
  obtain i where "e \<in> set (C (Lru i))" using table_core_elem(3)[OF core e] by blast
  then show ?thesis using touch_chains_free chain_invD(1)[OF table_coreD(1)[OF core]] by blast
qed

lemma lists_only_threads: "lists_only t t' \<Longrightarrow> length (lruLists t') = length (lruLists t)"
  by (simp add: lists_only_def same_index_def)

lemma lists_only_index:
  "lists_only t t' \<Longrightarrow> hashSize t' = hashSize t \<and> elementLinks t' = elementLinks t \<and>
   length (elementStorage t') = length (elementStorage t)"
  by (simp add: lists_only_def same_index_def same_kv_def)

text \<open>No operation changes the sizes of the table.\<close>

definition same_shape :: "('k, 'v) table \<Rightarrow> ('k, 'v) table \<Rightarrow> bool" where
  "same_shape t t' \<longleftrightarrow> hashSize t' = hashSize t \<and> length (lruLists t') = length (lruLists t) \<and>
     length (elementStorage t') = length (elementStorage t)"

lemma same_shape_refl [simp]: "same_shape t t" by (simp add: same_shape_def)

lemma same_shape_trans: "same_shape t t' \<Longrightarrow> same_shape t' t'' \<Longrightarrow> same_shape t t''" by (simp add: same_shape_def)

lemma lists_only_shape: "lists_only t t' \<Longrightarrow> same_shape t t'"
  using lists_only_index lists_only_threads by (auto simp: same_shape_def)

lemma shape_steps [simp]:
  "same_shape t (saveLocks tid ls t')  \<longleftrightarrow> same_shape t t'"
  "same_shape t (addItemExpTime tid p e x t') \<longleftrightarrow> same_shape t t'"
  "same_shape t (put_elem e f t') \<longleftrightarrow> same_shape t t'"
  "same_shape t (upd_list tid h t') \<longleftrightarrow> same_shape t t'"
  "same_shape t (t'\<lparr>elementLinks := ls\<rparr>) \<longleftrightarrow> same_shape t t'"
  by (simp_all add: same_shape_def saveLocks_def addItemExpTime_def)

section \<open>Lookups\<close>

text \<open>The chains after a lookup of \<open>k\<close> by thread \<open>tid\<close>.\<close>

definition lookup_chains :: "nat \<Rightarrow> nat option \<Rightarrow> chains \<Rightarrow> chains" where
  "lookup_chains tid r C = (case r of None \<Rightarrow> C | Some e \<Rightarrow> touch_chains tid e C)"

lemma keyMatch_locked [simp]: "keyMatch keq k e (locked t s d) = keyMatch keq k e t"
  by (simp add: keyMatch_def)

lemma put_elem_locked:
  "put_elem e f (locked t s D) = (locked t s D)\<lparr>elementStorage := elementStorage (put_elem e f t)\<rparr>"
  "t\<lparr>elementStorage := elementStorage (put_elem e f t)\<rparr> = put_elem e f t"
  by (simp_all add: put_elem_def)

context key_ops
begin

lemma probe_found:
  assumes core: "table_core hasher valid t C" and k: "valid k" and w: "window_ok hasher t k"
    and e: "elem_of t k = Some e" and tid: "tid < length (lruLists t)"
  obtains D ls where "probeStart (keyMatch keq k) (locks (lruLists t ! tid)) (hasher k mod hashSize t) t =
      Inr (True, (hasher k mod hashSize t + D) mod hashSize t, D, ls, locked t (hasher k mod hashSize t) D)"
    and "ls ! D = e" "length ls = HASH_MAX_LOCK_DEPTH"
    and "\<And>f. unlockElementsHash (hasher k mod hashSize t) ((hasher k mod hashSize t + D) mod hashSize t) ls
        (put_elem e f (locked t (hasher k mod hashSize t) D)) = Inr (put_elem e f t)"
    and "unlockElementsHash (hasher k mod hashSize t) ((hasher k mod hashSize t + D) mod hashSize t) ls
        (locked t (hasher k mod hashSize t) D) = Inr t"
proof -
  let ?s = "hasher k mod hashSize t" and ?ls = "locks (lruLists t ! tid)"
  note inv = table_coreD[OF core]
  have s: "?s < hashSize t" using inv(11) by simp
  have occ: "e \<in> set (occupied t)" "key_at t e = k" using e elem_of_Some[OF inv(8)] by auto
  obtain D where D: "D < hashSize t" "D < HASH_MAX_LOCK_DEPTH" "slot t ?s D = e"
    and go: "\<And>j. j < D \<Longrightarrow> slot t ?s j \<noteq> HASH_FREE_MARK \<and> keyMatch keq k (slot t ?s j) t = Inr False"
    by (rule probe_hit[OF core k w e]) blast
  have len: "length ?ls = HASH_MAX_LOCK_DEPTH" by (rule table_core_locks[OF core tid])
  have hit: "keyMatch keq k (slot t ?s D) t = Inr True" using keyMatch_slot[OF core k occ(1)] occ(2) D(3) by simp
  have pr: "probeStart (keyMatch keq k) ?ls ?s t =
      Inr (True, (?s + D) mod hashSize t, D, probed t ?s D ?ls, locked t ?s D)"
    using probeStart_run[where mt = "keyMatch keq k", OF inv(2) s D(1) len D(2) _ go] hit table_core_elem(2)[OF core occ(1)] D(3) by simp
  have un: "unlockElementsHash ?s ((?s + D) mod hashSize t) (probed t ?s D ?ls)
      ((locked t ?s D)\<lparr>elementStorage := st\<rparr>) = Inr (t\<lparr>elementStorage := st\<rparr>)" for st
    by (rule unlock_probed[OF inv(2) s D(1)]) (use len D in simp)
  show thesis
  proof (rule that[OF pr])
    show "probed t ?s D ?ls ! D = e" using inv(10) D by simp
    show "length (probed t ?s D ?ls) = HASH_MAX_LOCK_DEPTH" using len D by simp
    show "unlockElementsHash ?s ((?s + D) mod hashSize t) (probed t ?s D ?ls) (put_elem e f (locked t ?s D)) =
        Inr (put_elem e f t)" for f unfolding put_elem_locked(1) un put_elem_locked(2) ..
    show "unlockElementsHash ?s ((?s + D) mod hashSize t) (probed t ?s D ?ls) (locked t ?s D) = Inr t"
      using un[of "elementStorage t"] by (simp add: locked_def)
  qed
qed

lemma probe_absent:
  assumes core: "table_core hasher valid t C" and k: "valid k" and w: "window_ok hasher t k"
    and e: "contents t k = None" and tid: "tid < length (lruLists t)"
  obtains D where "D < hashSize t" "D < HASH_MAX_LOCK_DEPTH"
    and "slot t (hasher k mod hashSize t) D = HASH_FREE_MARK"
    and "\<And>j. j < D \<Longrightarrow> slot t (hasher k mod hashSize t) j \<noteq> HASH_FREE_MARK"
    and "probeStart (keyMatch keq k) (locks (lruLists t ! tid)) (hasher k mod hashSize t) t =
      Inr (False, (hasher k mod hashSize t + D) mod hashSize t, D,
        probed t (hasher k mod hashSize t) D (locks (lruLists t ! tid)), locked t (hasher k mod hashSize t) D)"
    and "unlockElementsHash (hasher k mod hashSize t) ((hasher k mod hashSize t + D) mod hashSize t)
        (probed t (hasher k mod hashSize t) D (locks (lruLists t ! tid)))
        (locked t (hasher k mod hashSize t) D) = Inr t"
proof -
  let ?s = "hasher k mod hashSize t" and ?ls = "locks (lruLists t ! tid)"
  note inv = table_coreD[OF core]
  have s: "?s < hashSize t" using inv(11) by simp
  obtain D where D: "D < hashSize t" "D < HASH_MAX_LOCK_DEPTH" "slot t ?s D = HASH_FREE_MARK"
    and go: "\<And>j. j < D \<Longrightarrow> slot t ?s j \<noteq> HASH_FREE_MARK \<and> keyMatch keq k (slot t ?s j) t = Inr False"
    by (rule probe_miss[OF core k w e]) blast
  have len: "length ?ls = HASH_MAX_LOCK_DEPTH" by (rule table_core_locks[OF core tid])
  have pr: "probeStart (keyMatch keq k) ?ls ?s t =
      Inr (False, (?s + D) mod hashSize t, D, probed t ?s D ?ls, locked t ?s D)"
    using probeStart_run[where mt = "keyMatch keq k", OF inv(2) s D(1) len D(2) _ go] D(3) by simp
  have "unlockElementsHash ?s ((?s + D) mod hashSize t) (probed t ?s D ?ls) (locked t ?s D) = Inr t"
    using unlock_probed_same[OF inv(2) s D(1), of ?ls] len D by simp
  then show thesis using that[OF D _ pr] go by blast
qed

lemma get_map_index:
  assumes tinv: "table_inv hasher valid t C" and tid: "tid < length (lruLists t)"
    and k: "valid k" and w: "window_ok hasher t k"
  shows "\<exists>t'. get hasher keq tid k None t = Inr (contents t k, None, t') \<and> contents t' = contents t \<and>
    same_shape t t' \<and> table_inv hasher valid t' (lookup_chains tid (elem_of t k) C) \<and>
    orphans t' (lookup_chains tid (elem_of t k) C) = orphans t C \<and> elementLinks t' = elementLinks t"
proof -
  have core: "table_core hasher valid t C" using tinv by (simp add: table_inv_def)
  note inv = table_coreD[OF core]
  let ?s = "hasher k mod hashSize t"
  show ?thesis
  proof (cases "elem_of t k")
    case None
    then have "contents t k = None" by (simp add: elem_of_None)
    then obtain D where D: "D < HASH_MAX_LOCK_DEPTH"
      "probeStart (keyMatch keq k) (locks (lruLists t ! tid)) ?s t = Inr (False, (?s + D) mod hashSize t, D,
        probed t ?s D (locks (lruLists t ! tid)), locked t ?s D)"
      "unlockElementsHash ?s ((?s + D) mod hashSize t) (probed t ?s D (locks (lruLists t ! tid))) (locked t ?s D) = Inr t"
      using probe_absent[OF core k w _ tid] by metis
    have "table_core hasher valid (saveLocks tid (probed t ?s D (locks (lruLists t ! tid))) t) C"
      by (rule core_saveLocks[OF core tid]) (use D(1) table_core_locks[OF core tid] in simp)
    then show ?thesis using None D tid \<open>contents t k = None\<close> tinv
      by (simp add: get_def Let_def lookup_chains_def table_inv_def orphans_def)
  next
    case (Some e)
    have occ: "e \<in> set (occupied t)" "key_at t e = k" using Some elem_of_Some[OF inv(8)] by auto
    have v: "contents t k = Some (val_at t e)" using contents_Some[OF inv(8)] occ by blast
    obtain D ls where D: "probeStart (keyMatch keq k) (locks (lruLists t ! tid)) ?s t =
        Inr (True, (?s + D) mod hashSize t, D, ls, locked t ?s D)" "ls ! D = e" "length ls = HASH_MAX_LOCK_DEPTH"
      "unlockElementsHash ?s ((?s + D) mod hashSize t) ls (locked t ?s D) = Inr t"
      using probe_found[OF core k w Some tid] by metis
    have core1: "table_core hasher valid (saveLocks tid ls t) C" by (rule core_saveLocks[OF core tid D(3)])
    obtain t' where t': "touchElement tid e (saveLocks tid ls t) = Inr t'" "lists_only (saveLocks tid ls t) t'"
      "table_core hasher valid t' (touch_chains tid e C)" "contents t' = contents t"
      "orphans t' (touch_chains tid e C) = orphans t C"
      using core_touch[OF core1, of tid e] tid occ by (auto simp: orphans_def)
    have "C (Free i) \<noteq> []" if "i < length (lruLists t')" for i
      using that tinv lists_only_threads[OF t'(2)] by (simp add: table_inv_def)
    then have "table_inv hasher valid t' (touch_chains tid e C)"
      using t'(3) touch_free[OF core occ(1)] by (simp add: table_inv_def)
    moreover have "same_shape t t'" using lists_only_shape[OF t'(2)] by (simp add: same_shape_def)
    moreover have "elementLinks t' = elementLinks t" using lists_only_index(1)[OF t'(2)] by simp
    ultimately show ?thesis using D t' tid v table_core_elem(1)[OF core occ(1)] Some
      by (simp add: get_def Let_def lookup_chains_def val_at_def)
  qed
qed

lemma get_map:
  assumes "table_inv hasher valid t C" and "tid < length (lruLists t)"
    and "valid k" and "window_ok hasher t k"
  shows "\<exists>t'. get hasher keq tid k None t = Inr (contents t k, None, t') \<and> contents t' = contents t \<and>
    same_shape t t' \<and> table_inv hasher valid t' (lookup_chains tid (elem_of t k) C) \<and>
    orphans t' (lookup_chains tid (elem_of t k) C) = orphans t C"
  using get_map_index[OF assms] by blast

end

end
