(* ===== verification/Table_Index.thy ===== *)
theory Table_Index
  imports Table_Map
begin

text \<open>
  The part of the table invariant that concerns the slot index alone, and what placing a record
  in a free slot and removing one by backward shift do to it and to the map.
\<close>

definition index_core ::
    "('k \<Rightarrow> nat) \<Rightarrow> ('k \<Rightarrow> bool) \<Rightarrow> ('k, 'v) table \<Rightarrow> nat set \<Rightarrow> bool" where
  "index_core hasher valid t E \<longleftrightarrow> index_ok t \<and> reach_ok hasher t \<and> keys_ok valid t \<and>
     distinct (occupied t) \<and> set (occupied t) = E"

lemma table_core_split:
  "table_core hasher valid t C \<longleftrightarrow> chain_inv t C \<and> locks_ok t \<and> set (occupied t) \<subseteq> lru_elems C \<and>
     index_core hasher valid t (set (occupied t))"
  by (auto simp: table_core_def index_core_def)

lemma index_core_cong:
  assumes core: "index_core hasher valid t E"
    and idx: "elementLinks t' = elementLinks t" "hashSize t' = hashSize t"
    and keys: "\<And>e. e \<in> E \<Longrightarrow> key_at t' e = key_at t e"
  shows "index_core hasher valid t' E"
proof -
  have E: "set (occupied t) = E" using core by (simp add: index_core_def)
  have occ: "occupied t' = occupied t" using idx by (simp add: occupied_def)
  have sl: "slot t' = slot t" using idx by (intro ext) (simp add: slot_def)
  have hm: "home hasher t' e = home hasher t e" if "e \<in> E" for e using keys[OF that] idx by (simp add: home_def)
  have "reach_ok hasher t'"
    using core hm unfolding reach_ok_def index_core_def occ sl idx E by (metis (no_types, lifting))
  moreover have "keys_ok valid t'"
    using core keys unfolding keys_ok_def index_core_def occ E by (metis (no_types, lifting) inj_on_cong)
  moreover have "index_ok t'" using core idx by (metis index_core_def index_ok_def)
  ultimately show ?thesis using core occ by (simp add: index_core_def)
qed

lemma index_core_lists:
  assumes core: "index_core hasher valid t E" and lo: "lists_only t t'" and E: "\<And>e. e \<in> E \<Longrightarrow> e < length (elementStorage t)"
  shows "index_core hasher valid t' E" and "contents t' = contents t"
proof -
  have kv: "key_at t' e = key_at t e \<and> val_at t' e = val_at t e" if "e \<in> E" for e
    using lo E[OF that] by (simp add: lists_only_def same_kv_def)
  have idx: "elementLinks t' = elementLinks t" "hashSize t' = hashSize t" using lists_only_index[OF lo] by auto
  show "index_core hasher valid t' E" by (rule index_core_cong[OF core idx]) (use kv in simp)
  show "contents t' = contents t"
    by (rule contents_cong) (use core kv idx in \<open>auto simp: index_core_def keys_ok_def occupied_def\<close>)
qed

lemma mset_occupied: "mset (occupied t) = filter_mset (\<lambda>e. e \<noteq> HASH_FREE_MARK) (mset (elementLinks t))"
  by (simp add: occupied_def mset_filter)

section \<open>Placing a record\<close>

definition place :: "nat \<Rightarrow> nat \<Rightarrow> 'k \<Rightarrow> 'v \<Rightarrow> ('k, 'v) table \<Rightarrow> ('k, 'v) table" where
  "place p f k v t =
     (put_elem f (\<lambda>x. x\<lparr>key := k, val := v\<rparr>) t)\<lparr>elementLinks := (elementLinks t)[p := f]\<rparr>"

lemma place_frame [simp]:
  "lruLists (place p f k v t) = lruLists t" "hashSize (place p f k v t) = hashSize t"
  "elementLinks (place p f k v t) = (elementLinks t)[p := f]"
  "length (elementStorage (place p f k v t)) = length (elementStorage t)"
  by (simp_all add: place_def)

lemma place_views:
  assumes "f < length (elementStorage t)"
  shows "key_at (place p f k v t) = (key_at t)(f := k)" "val_at (place p f k v t) = (val_at t)(f := v)"
    and "links_at (place p f k v t) = links_at t"
  using assms
  by (auto simp: fun_eq_iff key_at_def val_at_def links_at_def place_def put_elem_def nth_list_update_if)

lemma occupied_place:
  assumes "p < length (elementLinks t)" and "elementLinks t ! p = HASH_FREE_MARK" and "f \<noteq> HASH_FREE_MARK"
  shows "mset (occupied (place p f k v t)) = mset (f # occupied t)"
proof -
  have "HASH_FREE_MARK \<in># mset (elementLinks t)" using assms(1,2) by (metis nth_mem set_mset_mset)
  then have "filter_mset (\<lambda>e. e \<noteq> HASH_FREE_MARK) (mset (elementLinks t) - {#HASH_FREE_MARK#}) =
      filter_mset (\<lambda>e. e \<noteq> HASH_FREE_MARK) (mset (elementLinks t))"
    by (metis (mono_tags, lifting) filter_mset_add_mset insert_DiffM)
  then show ?thesis using assms unfolding mset_occupied by (simp add: mset_update mset_occupied)
qed

lemma slot_place:
  assumes "slot t s j \<noteq> HASH_FREE_MARK" and "elementLinks t ! p = HASH_FREE_MARK"
  shows "slot (place p f k v t) s j = slot t s j"
  using assms by (auto simp: slot_def nth_list_update_if)

text \<open>A new record in the first free slot of its probe sequence.\<close>

lemma index_core_place:
  fixes v :: 'v and t :: "('k, 'v) table"
  assumes core: "index_core hasher valid t E" and f: "f \<notin> E" "f \<noteq> HASH_FREE_MARK" "f \<noteq> HASH_LOCK_MARK"
      "f < length (elementStorage t)"
    and k: "valid k" "contents t k = None"
    and D: "D < hashSize t" "slot t (hasher k mod hashSize t) D = HASH_FREE_MARK"
      "\<And>j. j < D \<Longrightarrow> slot t (hasher k mod hashSize t) j \<noteq> HASH_FREE_MARK"
  defines "t' \<equiv> place ((hasher k mod hashSize t + D) mod hashSize t) f k v t"
  shows "index_core hasher valid t' (insert f E)" and "contents t' = (contents t)(k \<mapsto> v)"
proof -
  let ?s = "hasher k mod hashSize t" and ?p = "(hasher k mod hashSize t + D) mod hashSize t"
  have ix: "index_ok t" and E: "set (occupied t) = E" "distinct (occupied t)"
    and ko: "inj_on (key_at t) E" "\<forall>e \<in> E. valid (key_at t e)" and re: "reach_ok hasher t"
    using core by (auto simp: index_core_def keys_ok_def)
  have n: "length (elementLinks t) = hashSize t" "?p < hashSize t" using ix by (auto simp: index_ok_def)
  have free: "elementLinks t ! ?p = HASH_FREE_MARK" using D(2) by (simp add: slot_def)
  have m: "mset (occupied t') = mset (f # occupied t)"
    unfolding t'_def by (rule occupied_place) (use n free f in auto)
  have occ: "set (occupied t') = insert f E" using mset_eq_setD[OF m] E(1) by simp
  have dist: "distinct (occupied t')" using mset_eq_imp_distinct_iff[OF m] E f(1) by simp
  have kv: "key_at t' = (key_at t)(f := k)" "val_at t' = (val_at t)(f := v)"
    unfolding t'_def using place_views[OF f(4)] by simp_all
  have hs: "hashSize t' = hashSize t" by (simp add: t'_def)
  have kE: "k \<notin> key_at t ` E" using k(2) E(1) by (simp add: contents_None)
  have inj: "inj_on (key_at t') (insert f E)"
    using ko(1) kE f(1) unfolding kv by (auto simp: inj_on_def)
  have keep: "slot t' s j = slot t s j" if "slot t s j \<noteq> HASH_FREE_MARK" for s j
    unfolding t'_def by (rule slot_place[OF that free])
  have "\<exists>D < hashSize t'. slot t' (home hasher t' e) D = e \<and>
      (\<forall>j < D. slot t' (home hasher t' e) j \<noteq> HASH_FREE_MARK)" if e: "e \<in> insert f E" for e
  proof (cases "e = f")
    case True
    have "slot t' ?s D = f" using n by (simp add: t'_def slot_def)
    then show ?thesis using True D(1,3) keep by (intro exI[of _ D]) (simp add: home_def kv hs)
  next
    case False
    then have h: "home hasher t' e = home hasher t e" by (simp add: home_def kv hs)
    obtain D' where "D' < hashSize t" "slot t (home hasher t e) D' = e"
      "\<forall>j < D'. slot t (home hasher t e) j \<noteq> HASH_FREE_MARK"
      using re e False E(1) unfolding reach_ok_def by blast
    moreover have "e \<noteq> HASH_FREE_MARK" using e False E(1) by (auto simp: occupied_def)
    ultimately show ?thesis unfolding h hs by (metis keep)
  qed
  then have "reach_ok hasher t'" unfolding reach_ok_def occ by blast
  moreover have "index_ok t'"
    using ix f(3) set_update_subset_insert[of "elementLinks t" ?p f] unfolding index_ok_def t'_def by auto
  moreover have "keys_ok valid t'" using inj ko(2) k(1) by (simp add: keys_ok_def occ kv)
  ultimately show "index_core hasher valid t' (insert f E)" using dist occ by (simp add: index_core_def)
  have "contents t' x = Some w \<longleftrightarrow> ((contents t)(k \<mapsto> v)) x = Some w" for x w
    using contents_Some[of t' x w] contents_Some[of t x w] inj ko(1) f(1) kE unfolding occ E(1) kv
    by (auto split: if_splits)
  then show "contents t' = (contents t)(k \<mapsto> v)" by (intro ext) (metis option.exhaust)
qed

section \<open>Removing a record\<close>

lemma lin_ok_of_reach:
  assumes core: "index_core hasher valid t E" and last: "elementLinks t ! (hashSize t - 1) = HASH_FREE_MARK"
  shows "lin_ok (home hasher t) (elementLinks t)"
  unfolding lin_ok_def
proof (intro allI impI)
  fix p assume p: "p < length (elementLinks t)" "elementLinks t ! p \<noteq> HASH_FREE_MARK"
  let ?e = "elementLinks t ! p" and ?n = "hashSize t"
  let ?h = "home hasher t ?e"
  have n: "length (elementLinks t) = ?n" "0 < ?n" and re: "reach_ok hasher t" and dist: "distinct (occupied t)"
    using core by (auto simp: index_core_def index_ok_def)
  have h: "?h < ?n" using n by (simp add: home_def)
  have "?e \<in> set (occupied t)" using p by (simp add: occupied_def)
  then obtain D where D: "D < ?n" "slot t ?h D = ?e" "\<And>j. j < D \<Longrightarrow> slot t ?h j \<noteq> HASH_FREE_MARK"
    using re unfolding reach_ok_def by blast
  have nowrap: "?h + D < ?n"
  proof (rule ccontr)
    assume "\<not> ?h + D < ?n"
    then have "?n - 1 - ?h < D" using h by simp
    moreover have "slot t ?h (?n - 1 - ?h) = HASH_FREE_MARK" using last h by (simp add: slot_def)
    ultimately show False using D(3) by blast
  qed
  have "(?h + D) mod ?n = p"
    using distinct_filter_nth[of "\<lambda>e. e \<noteq> HASH_FREE_MARK" "elementLinks t" "(?h + D) mod ?n" p]
      dist D(2) p n by (auto simp: occupied_def slot_def)
  then have hp: "p = ?h + D" using nowrap by simp
  have "elementLinks t ! q \<noteq> HASH_FREE_MARK" if "q \<in> {?h..<p}" for q
  proof -
    have "q - ?h < D" "?h + (q - ?h) = q" "q < ?n" using that hp nowrap by auto
    then show ?thesis using D(3)[of "q - ?h"] by (simp add: slot_def)
  qed
  then show "run_ok (home hasher t) (elementLinks t) p" using hp by (simp add: run_ok_def)
qed

lemma reach_of_lin_ok:
  assumes ix: "index_ok t" and lin: "lin_ok (home hasher t) (elementLinks t)"
  shows "reach_ok hasher t"
  unfolding reach_ok_def
proof
  fix e assume "e \<in> set (occupied t)"
  then obtain p where p: "p < hashSize t" "elementLinks t ! p = e" "e \<noteq> HASH_FREE_MARK"
    using ix by (auto simp: occupied_def index_ok_def in_set_conv_nth)
  let ?h = "home hasher t e"
  have run: "run_ok (home hasher t) (elementLinks t) p" using lin p ix by (auto simp: lin_ok_def index_ok_def)
  have le: "?h \<le> p" using run_okD(1)[OF run] p(2) by simp
  have "slot t ?h j \<noteq> HASH_FREE_MARK" if "j < p - ?h" for j
    using run_okD(2)[OF run, of "?h + j"] that p le by (simp add: slot_def)
  then show "\<exists>D < hashSize t. slot t ?h D = e \<and> (\<forall>j < D. slot t ?h j \<noteq> HASH_FREE_MARK)"
    using p le by (intro exI[of _ "p - ?h"]) (simp add: slot_def)
qed

lemma index_core_shift:
  assumes core: "index_core hasher valid t E" and last: "elementLinks t ! (hashSize t - 1) = HASH_FREE_MARK"
    and q: "q < hashSize t" "elementLinks t ! q = e" and e: "e \<in> E"
  defines "t' \<equiv> t\<lparr>elementLinks := shift_from (home hasher t) (elementLinks t) q (Suc q)\<rparr>"
  shows "index_core hasher valid t' (E - {e})" and "contents t' = (contents t)(key_at t e := None)"
    and "elementLinks t' ! (hashSize t - 1) = HASH_FREE_MARK"
proof -
  let ?S = "elementLinks t" and ?S' = "shift_from (home hasher t) (elementLinks t) q (Suc q)"
  have ix: "index_ok t" and E: "set (occupied t) = E" "distinct (occupied t)"
    and ko: "inj_on (key_at t) E" "\<forall>e \<in> E. valid (key_at t e)"
    using core by (auto simp: index_core_def keys_ok_def)
  have n: "length ?S = hashSize t" using ix by (simp add: index_ok_def)
  have ne: "e \<noteq> HASH_FREE_MARK" using e E(1) by (auto simp: occupied_def)
  have "shift_inv (home hasher t) ?S q (Suc q)"
    by (rule shift_inv_start) (use lin_ok_of_reach[OF core last] last q n ne in auto)
  note sc = shift_from_correct[OF this]
  have lin: "lin_ok (home hasher t) ?S'" and len: "length ?S' = length ?S"
    and m: "mset ?S' = mset (?S[q := HASH_FREE_MARK])" and la: "?S' ! (length ?S - 1) = HASH_FREE_MARK"
    using sc by auto
  show "elementLinks t' ! (hashSize t - 1) = HASH_FREE_MARK" using la n by (simp add: t'_def)
  have kv: "key_at t' = key_at t" "val_at t' = val_at t" "hashSize t' = hashSize t" "elementLinks t' = ?S'"
    by (simp_all add: t'_def fun_eq_iff key_at_def val_at_def)
  have "mset (occupied t') = mset (occupied t) - {#e#}"
    using q ne n unfolding mset_occupied kv(4) m by (simp add: mset_update)
  also have "\<dots> = mset (remove1 e (occupied t))" by simp
  finally have mo: "mset (occupied t') = mset (remove1 e (occupied t))" .
  have occ: "set (occupied t') = E - {e}" using mset_eq_setD[OF mo] E by (simp add: set_remove1_eq)
  have dist: "distinct (occupied t')" using mset_eq_imp_distinct_iff[OF mo] E by simp
  have "set ?S' = set (?S[q := HASH_FREE_MARK])" using m by (rule mset_eq_setD)
  then have "HASH_LOCK_MARK \<notin> set ?S'"
    using ix set_update_subset_insert[of ?S q HASH_FREE_MARK] by (auto simp: index_ok_def)
  then have ix': "index_ok t'" using ix len n kv by (simp add: index_ok_def)
  have "home hasher t' = home hasher t" by (simp add: fun_eq_iff home_def kv)
  then have "reach_ok hasher t'" using reach_of_lin_ok[OF ix'] lin kv(4) by simp
  moreover have "keys_ok valid t'"
    using ko inj_on_subset[OF ko(1), of "E - {e}"] by (auto simp: keys_ok_def occ kv)
  ultimately show "index_core hasher valid t' (E - {e})" using ix' dist occ by (simp add: index_core_def)
  have inj': "inj_on (key_at t') (set (occupied t'))" using ko(1) unfolding occ kv by (rule inj_on_diff)
  have "contents t' x = Some w \<longleftrightarrow> ((contents t)(key_at t e := None)) x = Some w" for x w
    unfolding contents_Some[OF inj'] using contents_Some[of t x w] ko(1) e unfolding occ E(1) kv
    by (auto dest: inj_onD)
  then show "contents t' = (contents t)(key_at t e := None)" by (intro ext) (metis option.exhaust)
qed

end
