(* ===== verification/Table_Write.thy ===== *)
theory Table_Write
  imports Table_Index
begin

text \<open>
  The writing operations of \<open>LFLRUHashTable\<close> against the map: \<open>set\<close>, \<open>insert\<close> and
  \<open>insertOrSet\<close>, on a hit, on a miss that leaves a spare element, and on a miss that evicts the
  least recently used element of the caller's list.
\<close>

section \<open>Taking and returning a free element\<close>

definition takeFree :: "nat \<Rightarrow> chains \<Rightarrow> ('k, 'v) table \<Rightarrow> ('k, 'v) table" where
  "takeFree tid C t = upd_list tid (\<lambda>x. x\<lparr>freeListHead := first_or (tl (C (Free tid)))\<rparr>) t"

lemma core_popFree:
  assumes inv: "table_inv hasher valid t C" and tid: "tid < length (lruLists t)"
  shows "popFree tid t = Inr (hd (C (Free tid)), takeFree tid C t)"
    and "table_core hasher valid (takeFree tid C t) (C(Free tid := tl (C (Free tid))))"
    and "hd (C (Free tid)) < length (elementStorage t)"
    and "hd (C (Free tid)) \<notin> set ((C(Free tid := tl (C (Free tid)))) c)"
    and "hd (C (Free tid)) \<notin> lru_elems C"
proof -
  have core: "table_core hasher valid t C" using inv by (simp add: table_inv_def)
  obtain f fs where fs: "C (Free tid) = f # fs"
    using inv tid by (cases "C (Free tid)") (auto simp: table_inv_def)
  note pc = popFree_chain[OF table_coreD(1)[OF core] tid fs]
  have ok: "chains_ok (length (elementStorage t)) (length (lruLists t)) C"
    by (rule chain_invD(1)[OF table_coreD(1)[OF core]])
  show "popFree tid t = Inr (hd (C (Free tid)), takeFree tid C t)" using pc(1) fs by (simp add: takeFree_def)
  show "hd (C (Free tid)) < length (elementStorage t)" using pc(3) fs by simp
  show "hd (C (Free tid)) \<notin> set ((C(Free tid := tl (C (Free tid)))) c)"
    using chains_okD(1)[OF ok, of "Free tid"] chains_okD(3)[OF ok, of f "Free tid" c] fs by auto
  show "hd (C (Free tid)) \<notin> lru_elems C"
    using chains_okD(3)[OF ok, of f "Free tid" "Lru _"] fs unfolding lru_elems_def by auto
  show "table_core hasher valid (takeFree tid C t) (C(Free tid := tl (C (Free tid))))"
  proof (rule core_cong[OF core])
    show "locks_ok (takeFree tid C t)" unfolding takeFree_def
      by (rule locks_ok_upd_list) (use table_coreD(5)[OF core] table_core_locks[OF core tid] in simp_all)
  qed (use pc(2) fs in \<open>simp_all add: takeFree_def lru_elems_def\<close>)
qed

lemma views_takeFree [simp]:
  "contents (takeFree tid C t) = contents t" "elem_of (takeFree tid C t) = elem_of t"
  "length (lruLists (takeFree tid C t)) = length (lruLists t)" "key_at (takeFree tid C t) = key_at t"
  "elementStorage (takeFree tid C t) = elementStorage t" "hashSize (takeFree tid C t) = hashSize t"
  "elementLinks (takeFree tid C t) = elementLinks t" "occupied (takeFree tid C t) = occupied t"
  "slot (takeFree tid C t) = slot t" "window_ok hasher (takeFree tid C t) k = window_ok hasher t k"
  by (simp_all add: takeFree_def window_ok_def)

lemma core_pushFree:
  assumes core: "table_core hasher valid t C" and tid: "tid < length (lruLists t)"
    and f: "f < length (elementStorage t)" "\<And>c. f \<notin> set (C c)"
  shows "\<exists>t'. pushFree tid f t = Inr t' \<and> lists_only t t' \<and> contents t' = contents t \<and> occupied t' = occupied t \<and>
    table_core hasher valid t' (C(Free tid := f # C (Free tid)))"
proof -
  obtain t' where t': "pushFree tid f t = Inr t'" "lists_only t t'" "chain_inv t' (C(Free tid := f # C (Free tid)))"
    using pushFree_chain[OF table_coreD(1)[OF core] tid f] by blast
  have "lru_elems (C(Free tid := f # C (Free tid))) = lru_elems C" by (simp add: lru_elems_def)
  then show ?thesis using core_lists[OF core t'(2,3)] t' by blast
qed

lemma interior_upd_free:
  "interior e ((C(Free i := ys)) (Lru j)) \<longleftrightarrow> interior e (C (Lru j))" by simp

lemma touch_chains_upd_free:
  assumes "e \<notin> set ys"
  shows "touch_chains tid e (C(Free i := ys)) = (touch_chains tid e C)(Free i := ys)"
  using assms by (auto simp: touch_chains_def Let_def fun_eq_iff removeAll_id)

lemma touch_chains_mem:
  "x \<in> set (touch_chains tid e C c) \<Longrightarrow> e \<in> set (C d) \<Longrightarrow> \<exists>c'. x \<in> set (C c')"
  by (auto simp: touch_chains_def Let_def split: if_splits)

section \<open>Overwriting the value of a key\<close>

context key_ops
begin

text \<open>The lines that \<open>set\<close> and \<open>insertOrSet\<close> share after a match.\<close>

lemma overwrite:
  assumes core: "table_core hasher valid t C" and e: "elem_of t k = Some e"
    and tid: "tid < length (lruLists t)" and ls: "length ls = HASH_MAX_LOCK_DEPTH"
  shows "\<exists>t'. touchElement tid e (saveLocks tid ls (put_val e v t)) = Inr t' \<and>
    table_core hasher valid t' (touch_chains tid e C) \<and> contents t' = (contents t)(k \<mapsto> v) \<and>
    same_shape t t' \<and> orphans t' (touch_chains tid e C) = orphans t C \<and> elementLinks t' = elementLinks t"
proof -
  have occ: "e \<in> set (occupied t)" "key_at t e = k" using e elem_of_Some[OF table_coreD(8)[OF core]] by auto
  let ?t = "saveLocks tid ls (put_val e v t)"
  have "table_core hasher valid ?t C"
    by (rule core_saveLocks[OF core_put_val(1)[OF core occ(1)]]) (use tid ls in simp_all)
  then obtain t' where t': "touchElement tid e ?t = Inr t'" "lists_only ?t t'"
    "table_core hasher valid t' (touch_chains tid e C)" "contents t' = contents ?t"
    "orphans t' (touch_chains tid e C) = orphans t C"
    using core_touch[of hasher valid ?t C tid e] occ(1) tid by (auto simp: orphans_def)
  moreover have "elementLinks t' = elementLinks t" using t'(2) by (simp add: lists_only_def same_index_def)
  ultimately show ?thesis
    using t' core_put_val(2)[OF core occ(1)] occ(2) same_shape_trans[OF _ lists_only_shape[OF t'(2)], of t] by auto
qed

lemma set_map:
  assumes tinv: "table_inv hasher valid t C" and tid: "tid < length (lruLists t)"
    and k: "valid k" and w: "window_ok hasher t k"
  shows "\<exists>t'. set_kv hasher keq tid k v expTime t = Inr (contents t k \<noteq> None, t') \<and>
    contents t' = (if contents t k = None then contents t else (contents t)(k \<mapsto> v)) \<and>
    same_shape t t' \<and> table_inv hasher valid t' (lookup_chains tid (elem_of t k) C) \<and>
    orphans t' (lookup_chains tid (elem_of t k) C) = orphans t C"
proof -
  have core: "table_core hasher valid t C" using tinv by (simp add: table_inv_def)
  let ?s = "hasher k mod hashSize t"
  show ?thesis
  proof (cases "elem_of t k")
    case None
    then have c: "contents t k = None" by (simp add: elem_of_None)
    obtain D where D: "D < HASH_MAX_LOCK_DEPTH"
      "probeStart (keyMatch keq k) (locks (lruLists t ! tid)) ?s t = Inr (False, (?s + D) mod hashSize t, D,
        probed t ?s D (locks (lruLists t ! tid)), locked t ?s D)"
      "unlockElementsHash ?s ((?s + D) mod hashSize t) (probed t ?s D (locks (lruLists t ! tid))) (locked t ?s D) = Inr t"
      using probe_absent[OF core k w c tid] by metis
    have "table_core hasher valid (saveLocks tid (probed t ?s D (locks (lruLists t ! tid))) t) C"
      by (rule core_saveLocks[OF core tid]) (use D(1) table_core_locks[OF core tid] in simp)
    then show ?thesis using None D tid c tinv
      by (simp add: set_kv_def Let_def lookup_chains_def table_inv_def orphans_def)
  next
    case (Some e)
    then obtain w where c: "contents t k = Some w" using elem_of_None[of t k] by fastforce
    obtain D ls where D: "probeStart (keyMatch keq k) (locks (lruLists t ! tid)) ?s t =
        Inr (True, (?s + D) mod hashSize t, D, ls, locked t ?s D)" "ls ! D = e" "length ls = HASH_MAX_LOCK_DEPTH"
      "unlockElementsHash ?s ((?s + D) mod hashSize t) ls (put_val e v (locked t ?s D)) = Inr (put_val e v t)"
      using probe_found[OF core k w Some tid] by metis
    obtain t' where t': "touchElement tid e (saveLocks tid ls (put_val e v t)) = Inr t'"
      "table_core hasher valid t' (touch_chains tid e C)" "contents t' = (contents t)(k \<mapsto> v)" "same_shape t t'"
      "orphans t' (touch_chains tid e C) = orphans t C"
      using overwrite[OF core Some tid D(3)] by blast
    have "e \<in> set (occupied t)" using Some elem_of_Some[OF table_coreD(8)[OF core]] by auto
    then have "touch_chains tid e C (Free i) \<noteq> []" if "i < length (lruLists t)" for i
      using that tinv touch_free[OF core] by (simp add: table_inv_def)
    then show ?thesis using D t' tid c Some core_addItemExpTime[OF t'(2), of tid]
      by (simp add: set_kv_def Let_def lookup_chains_def table_inv_def same_shape_def orphans_def)
  qed
qed

lemma insertOrSet_hit_map:
  assumes tinv: "table_inv hasher valid t C" and tid: "tid < length (lruLists t)"
    and k: "valid k" and w: "window_ok hasher t k" and e: "elem_of t k = Some e"
  shows "\<exists>t'. insertOrSet hasher keq tid k v expTime t = Inr (False, t') \<and>
    contents t' = (contents t)(k \<mapsto> v) \<and> same_shape t t' \<and>
    table_inv hasher valid t' (touch_chains tid e C) \<and> orphans t' (touch_chains tid e C) = orphans t C \<and>
    elementLinks t' = elementLinks t"
proof -
  let ?t0 = "takeFree tid C t" and ?f = "hd (C (Free tid))" and ?C0 = "C(Free tid := tl (C (Free tid)))"
  let ?s = "hasher k mod hashSize t"
  have core: "table_core hasher valid t C" using tinv by (simp add: table_inv_def)
  note pf = core_popFree[OF tinv tid]
  have ne: "C (Free tid) \<noteq> []" using tinv tid by (simp add: table_inv_def)
  have e0: "elem_of ?t0 k = Some e" "window_ok hasher ?t0 k" "tid < length (lruLists ?t0)" using e w tid by simp_all
  obtain D ls where D: "probeStart (keyMatch keq k) (locks (lruLists ?t0 ! tid)) ?s ?t0 =
      Inr (True, (?s + D) mod hashSize t, D, ls, locked ?t0 ?s D)" "ls ! D = e" "length ls = HASH_MAX_LOCK_DEPTH"
    "unlockElementsHash ?s ((?s + D) mod hashSize t) ls (put_val e v (locked ?t0 ?s D)) = Inr (put_val e v ?t0)"
    using probe_found[OF pf(2) k e0(2,1,3)] unfolding views_takeFree(6) by metis
  obtain t1 where t1: "touchElement tid e (saveLocks tid ls (put_val e v ?t0)) = Inr t1"
    "table_core hasher valid t1 (touch_chains tid e ?C0)" "contents t1 = (contents t)(k \<mapsto> v)"
    "length (lruLists t1) = length (lruLists t)" "length (elementStorage t1) = length (elementStorage t)"
    "hashSize t1 = hashSize t" "orphans t1 (touch_chains tid e ?C0) = orphans ?t0 ?C0"
    "elementLinks t1 = elementLinks ?t0"
    using overwrite[OF pf(2) e0(1,3) D(3)] by (auto simp: same_shape_def)
  have occ: "e \<in> set (occupied t)" using e elem_of_Some[OF table_coreD(8)[OF core]] by auto
  obtain i where i: "e \<in> set (?C0 (Lru i))" using table_core_elem(3)[OF pf(2), of e] occ by auto
  have f: "?f \<notin> set (touch_chains tid e ?C0 c)" for c using touch_chains_mem[where C = ?C0 and d = "Lru i", OF _ i] pf(4) by metis
  obtain t' where t': "pushFree tid ?f t1 = Inr t'" "lists_only t1 t'" "contents t' = contents t1" "occupied t' = occupied t1"
    "table_core hasher valid t' ((touch_chains tid e ?C0)(Free tid := ?f # touch_chains tid e ?C0 (Free tid)))"
    using core_pushFree[OF t1(2) _ _ f, of tid] t1(4,5) tid pf(3) by auto
  have e_tl: "e \<notin> set (tl (C (Free tid)))"
    using i chains_okD(3)[OF chain_invD(1)[OF table_coreD(1)[OF pf(2)]], of e "Lru i" "Free tid"] by auto
  have "(touch_chains tid e ?C0)(Free tid := ?f # touch_chains tid e ?C0 (Free tid)) = touch_chains tid e C"
    using touch_free[OF core occ, of tid tid] ne
    unfolding touch_chains_upd_free[OF e_tl] by (auto simp: fun_eq_iff)
  moreover have "C (Free j) \<noteq> []" if "j < length (lruLists t')" for j
    using that tinv t1(4) lists_only_threads[OF t'(2)] by (simp add: table_inv_def)
  ultimately have "table_inv hasher valid t' (touch_chains tid e C)"
    using t'(5) touch_free[OF core occ] by (simp add: table_inv_def)
  moreover have "orphans t' (touch_chains tid e C) = orphans t C"
    using t1(7) t'(4) unfolding touch_chains_upd_free[OF e_tl] by (simp add: orphans_def lru_elems_def)
  moreover have "same_shape t t'" using lists_only_shape[OF t'(2)] t1 by (simp add: same_shape_def)
  moreover have "elementLinks t' = elementLinks t" using t'(2) t1(8) by (simp add: lists_only_def same_index_def)
  ultimately show ?thesis using pf(1) D t1 t' tid by (simp add: insertOrSet_def Let_def)
qed

text \<open>\<open>insert\<close> refuses a key that is present and changes nothing.\<close>

lemma insert_hit_map:
  assumes tinv: "table_inv hasher valid t C" and tid: "tid < length (lruLists t)"
    and k: "valid k" and w: "window_ok hasher t k" and c: "contents t k \<noteq> None"
  shows "\<exists>t'. insert_kv hasher keq tid k v expTime t = Inr (False, t') \<and>
    contents t' = contents t \<and> same_shape t t' \<and> table_inv hasher valid t' C \<and> orphans t' C = orphans t C"
proof -
  let ?t0 = "takeFree tid C t" and ?f = "hd (C (Free tid))" and ?C0 = "C(Free tid := tl (C (Free tid)))"
  let ?s = "hasher k mod hashSize t"
  note pf = core_popFree[OF tinv tid]
  have ne: "C (Free tid) \<noteq> []" using tinv tid by (simp add: table_inv_def)
  obtain e where e: "elem_of t k = Some e" using c elem_of_None[of t k] by (cases "elem_of t k") simp_all
  have e0: "elem_of ?t0 k = Some e" "window_ok hasher ?t0 k" "tid < length (lruLists ?t0)" using e w tid by simp_all
  obtain D ls where D: "probeStart (keyMatch keq k) (locks (lruLists ?t0 ! tid)) ?s ?t0 =
      Inr (True, (?s + D) mod hashSize t, D, ls, locked ?t0 ?s D)" "length ls = HASH_MAX_LOCK_DEPTH"
    "unlockElementsHash ?s ((?s + D) mod hashSize t) ls (locked ?t0 ?s D) = Inr ?t0"
    using probe_found[OF pf(2) k e0(2,1,3)] unfolding views_takeFree(6) by metis
  have core1: "table_core hasher valid (saveLocks tid ls ?t0) ?C0"
    by (rule core_saveLocks[OF pf(2) e0(3) D(2)])
  obtain t' where t': "pushFree tid ?f (saveLocks tid ls ?t0) = Inr t'" "lists_only (saveLocks tid ls ?t0) t'"
    "contents t' = contents t" "occupied t' = occupied t"
    "table_core hasher valid t' (?C0(Free tid := ?f # ?C0 (Free tid)))"
    using core_pushFree[where C = ?C0, OF core1 _ _ pf(4), of tid] tid pf(3) by auto
  have "?C0(Free tid := ?f # ?C0 (Free tid)) = C" using ne by auto
  moreover have "C (Free j) \<noteq> []" if "j < length (lruLists t')" for j
    using that tinv lists_only_threads[OF t'(2)] by (simp add: table_inv_def)
  ultimately have "table_inv hasher valid t' C" using t'(5) by (simp add: table_inv_def)
  moreover have "orphans t' C = orphans t C" using t'(4) by (simp add: orphans_def)
  moreover have "same_shape t t'" using lists_only_shape[OF t'(2)] by (simp add: same_shape_def)
  ultimately show ?thesis using pf(1) D t' tid by (simp add: insert_kv_def Let_def)
qed

end

end
