(* ===== verification/Table_Evict.thy ===== *)
theory Table_Evict
  imports Table_Write
begin

text \<open>
  \<open>insert\<close> and \<open>insertOrSet\<close> for a key that is absent: the record is placed and linked at the head
  of the caller's list and, when that used up the caller's free list, the tail of the list is
  evicted from the index and becomes the only free element.
\<close>

section \<open>Placing the new record\<close>

lemma first_or_eq_mark:
  "\<forall>e \<in> set xs. e < n \<Longrightarrow> n \<le> LIST_END_MARK \<Longrightarrow> first_or xs = LIST_END_MARK \<longleftrightarrow> xs = []"
  by (cases xs) auto

lemma freeListHead_chain:
  assumes "chain_inv t C" and "tid < length (lruLists t)"
  shows "freeListHead (lruLists t ! tid) = first_or (C (Free tid))"
  using chain_invD(4)[OF assms] by (cases "C (Free tid)") (simp_all add: free_ok_def)

lemma freeListHead_empty:
  assumes inv: "chain_inv t C" and tid: "tid < length (lruLists t)"
  shows "freeListHead (lruLists t ! tid) = LIST_END_MARK \<longleftrightarrow> C (Free tid) = []"
  unfolding freeListHead_chain[OF assms]
  by (rule first_or_eq_mark[OF _ chain_invD(2)[OF inv]]) (use chains_okD(2)[OF chain_invD(1)[OF inv]] in blast)

lemma unlock_placed:
  assumes ix: "index_ok t" and s: "s < hashSize t" and D: "D < hashSize t" "D < length ls"
  shows "unlockElementsHash s ((s + D) mod hashSize t) ((probed t s D ls)[D := f])
      (put_elem f (\<lambda>x. x\<lparr>key := k, val := v\<rparr>) (locked t s D)) =
    Inr (place ((s + D) mod hashSize t) f k v t)"
proof -
  have n: "length (elementLinks t) = hashSize t" using ix by (simp add: index_ok_def)
  have "take (Suc D) ((probed t s D ls)[D := f]) = (cyc_seq (elementLinks t) s D)[D := f]"
    by (simp add: probed_def list_update_append)
  moreover have "cyc_upd (elementLinks t) s ((cyc_seq (elementLinks t) s D)[D := f]) =
      (elementLinks t)[(s + D) mod hashSize t := f]"
    using cyc_upd_update[of s "elementLinks t" "cyc_seq (elementLinks t) s D" D f]
      cyc_upd_seq[of s "elementLinks t" D] n s D by simp
  ultimately show ?thesis
    unfolding put_elem_locked(1) using unlock_locked[OF ix s D(1), of "(probed t s D ls)[D := f]"] D
    by (simp add: place_def put_elem_def)
qed

lemma lru_elems_add: "lru_elems (C(Lru i := e # C (Lru i))) = insert e (lru_elems C)"
  by (auto simp: lru_elems_def split: if_splits)

definition inserted :: "nat \<Rightarrow> chains \<Rightarrow> chains" where
  "inserted tid C = C(Free tid := tl (C (Free tid)), Lru tid := hd (C (Free tid)) # C (Lru tid))"

context key_ops
begin

lemma insert_new:
  assumes tinv: "table_inv hasher valid t C" and tid: "tid < length (lruLists t)"
    and k: "valid k" and w: "window_ok hasher t k" and c: "contents t k = None"
  obtains D t' where "D < hashSize t" "D < HASH_MAX_LOCK_DEPTH"
    and "slot t (hasher k mod hashSize t) D = HASH_FREE_MARK"
      "\<And>j. j < D \<Longrightarrow> slot t (hasher k mod hashSize t) j \<noteq> HASH_FREE_MARK"
    and "table_core hasher valid t' (inserted tid C)" "contents t' = (contents t)(k \<mapsto> v)"
    and "same_shape t t'" "set (occupied t') = insert (hd (C (Free tid))) (set (occupied t))"
    and "elementLinks t' = (elementLinks t)[(hasher k mod hashSize t + D) mod hashSize t := hd (C (Free tid))]"
    and "\<And>e. e < length (elementStorage t) \<Longrightarrow> key_at t' e = (if e = hd (C (Free tid)) then k else key_at t e)"
    and "insertOrSet hasher keq tid k v expTime t =
      bind_res (evictTail hasher keq True tid (hd (C (Free tid))) t') (\<lambda>(e, t5).
      Inr (True, addItemExpTime tid (hasher k mod hashSize t) e expTime t5))"
    and "insert_kv hasher keq tid k v expTime t =
      bind_res (evictTail hasher keq False tid (hd (C (Free tid))) t') (\<lambda>(e, t5).
      Inr (True, addItemExpTime tid (hasher k mod hashSize t) e expTime t5))"
proof -
  let ?t0 = "takeFree tid C t" and ?f = "hd (C (Free tid))" and ?C0 = "C(Free tid := tl (C (Free tid)))"
  let ?s = "hasher k mod hashSize t" and ?ls = "locks (lruLists (takeFree tid C t) ! tid)"
  note pf = core_popFree[OF tinv tid]
  note inv0 = table_coreD[OF pf(2)]
  have c0: "contents ?t0 k = None" "window_ok hasher ?t0 k" "tid < length (lruLists ?t0)" using c w tid by simp_all
  obtain D where D: "D < hashSize t" "D < HASH_MAX_LOCK_DEPTH" "slot t ?s D = HASH_FREE_MARK"
      "\<And>j. j < D \<Longrightarrow> slot t ?s j \<noteq> HASH_FREE_MARK"
    and pr: "probeStart (keyMatch keq k) ?ls ?s ?t0 =
      Inr (False, (?s + D) mod hashSize t, D, probed ?t0 ?s D ?ls, locked ?t0 ?s D)"
    using probe_absent[OF pf(2) k c0(2,1,3)] unfolding views_takeFree by metis
  have len: "length ?ls = HASH_MAX_LOCK_DEPTH" by (rule table_core_locks[OF pf(2) c0(3)])
  let ?p = "(?s + D) mod hashSize t" and ?ls' = "(probed ?t0 ?s D ?ls)[D := ?f]"
  let ?t3 = "place ?p ?f k v ?t0"
  let ?t4 = "saveLocks tid ?ls' ?t3"
  have un: "unlockElementsHash ?s ?p ?ls' (put_elem ?f (\<lambda>x. x\<lparr>key := k, val := v\<rparr>) (locked ?t0 ?s D)) = Inr ?t3"
    using unlock_placed[OF inv0(2), of ?s D ?ls ?f v k] inv0(11) D len by simp
  have nm: "?f \<noteq> HASH_FREE_MARK" "?f \<noteq> HASH_LOCK_MARK"
    using elem_not_mark[OF pf(3)] chain_invD(2)[OF inv0(1)] by simp_all
  have ic0: "index_core hasher valid ?t0 (set (occupied t))" using pf(2) by (simp add: table_core_split)
  have fE: "?f \<notin> set (occupied t)" using pf(5) inv0(7) by (auto simp: lru_elems_def)
  have ic: "index_core hasher valid ?t3 (insert ?f (set (occupied t)))"
    and cc: "contents ?t3 = (contents t)(k \<mapsto> v)"
    using index_core_place[OF ic0 fE nm _ k c0(1), of D v] D pf(3) by simp_all
  have ch4: "chain_inv ?t4 ?C0"
    unfolding saveLocks_def using inv0(1)
    by (subst chain_inv_upd_list) (simp_all, subst chain_inv_cong[of _ ?t0], simp_all add: place_views(3) pf(3))
  obtain t' where lh: "linkHead tid ?f ?t4 = Inr t'" and lo: "lists_only ?t4 t'"
    and ch: "chain_inv t' (?C0(Lru tid := ?f # ?C0 (Lru tid)))"
    using linkHead_chain[where C = ?C0, OF ch4 _ _ pf(4), of tid] tid pf(3) by auto
  have C': "?C0(Lru tid := ?f # ?C0 (Lru tid)) = inserted tid C" by (simp add: inserted_def)
  have E: "e < length (elementStorage ?t4)" if "e \<in> insert ?f (set (occupied t))" for e
    using that pf(3) table_core_elem(1)[OF pf(2)] by auto
  have ic4: "index_core hasher valid ?t4 (insert ?f (set (occupied t)))"
    by (rule index_core_cong[OF ic]) simp_all
  note ic' = index_core_lists[OF ic4 lo E]
  have "locks_ok ?t3" using inv0(5) by (simp add: locks_ok_def)
  then have "locks_ok ?t4" unfolding saveLocks_def by (rule locks_ok_upd_list) (use len D in simp)
  then have "locks_ok t'" using locks_ok_index lo by (auto simp: lists_only_def)
  moreover have occ': "set (occupied t') = insert ?f (set (occupied t))" using ic'(1) by (simp add: index_core_def)
  ultimately have core': "table_core hasher valid t' (inserted tid C)"
    using ch ic'(1) inv0(7) lru_elems_add[of ?C0 tid ?f] unfolding table_core_split C' by auto
  have key': "key_at t' e = (if e = ?f then k else key_at t e)" if "e < length (elementStorage t)" for e
    using lo that pf(3) by (simp add: lists_only_def same_kv_def place_views(1))
  show thesis
  proof (rule that[OF D core' _ _ occ' _ key'])
    show "contents t' = (contents t)(k \<mapsto> v)" using ic'(2) cc by simp
    show "same_shape t t'" using lists_only_shape[OF lo] by (simp add: same_shape_def)
    show "elementLinks t' = (elementLinks t)[?p := ?f]" using lists_only_index[OF lo] by simp
    show "insertOrSet hasher keq tid k v expTime t = bind_res (evictTail hasher keq True tid ?f t') (\<lambda>(e, t5).
        Inr (True, addItemExpTime tid ?s e expTime t5))"
      using pf(1) pr un lh tid by (simp add: insertOrSet_def Let_def)
    show "insert_kv hasher keq tid k v expTime t = bind_res (evictTail hasher keq False tid ?f t') (\<lambda>(e, t5).
        Inr (True, addItemExpTime tid ?s e expTime t5))"
      using pf(1) pr un lh tid by (simp add: insert_kv_def Let_def)
  qed
qed

end

section \<open>Evicting the tail\<close>

lemma lru_elems_butlast:
  assumes "chains_ok n m C" and "C (Lru i) \<noteq> []"
  shows "lru_elems (C(Lru i := butlast (C (Lru i)))) = lru_elems C - {last (C (Lru i))}"
proof -
  let ?e = "last (C (Lru i))"
  have split: "C (Lru i) = butlast (C (Lru i)) @ [?e]" using assms(2) by simp
  have d: "distinct (butlast (C (Lru i)) @ [?e])" using chains_okD(1)[OF assms(1), of "Lru i"] split by metis
  have s: "set (C (Lru i)) = insert ?e (set (butlast (C (Lru i))))"
    using arg_cong[OF split, of set] by simp
  have o: "?e \<notin> set (C (Lru j))" if "j \<noteq> i" for j
    using chains_okD(3)[OF assms(1), of ?e "Lru i" "Lru j"] assms(2) that by auto
  have "x \<in> lru_elems (C(Lru i := butlast (C (Lru i)))) \<longleftrightarrow> x \<in> lru_elems C - {?e}" for x
    using d s o unfolding lru_elems_def by (auto split: if_splits) (metis insertE)
  then show ?thesis by blast
qed

lemma nowrap_free:
  assumes "elementLinks t ! (hashSize t - 1) = HASH_FREE_MARK" and "s < hashSize t"
    and "\<And>j. j < F \<Longrightarrow> slot t s j \<noteq> HASH_FREE_MARK"
  shows "s + F < hashSize t"
proof (rule ccontr)
  assume "\<not> s + F < hashSize t"
  then have "hashSize t - 1 - s < F" using assms(2) by simp
  moreover have "slot t s (hashSize t - 1 - s) = HASH_FREE_MARK" using assms(1,2) by (simp add: slot_def)
  ultimately show False using assms(3) by blast
qed

lemma lists_only_views:
  assumes "lists_only t t'"
  shows "slot t' = slot t" and "locks_ok t \<Longrightarrow> locks_ok t'" and "index_ok t' \<longleftrightarrow> index_ok t"
    and "e < length (elementStorage t) \<Longrightarrow> keyMatch keq k e t' = keyMatch keq k e t"
    and "e < length (elementStorage t) \<Longrightarrow> home hasher t' e = home hasher t e"
  using assms lists_only_index[OF assms] locks_ok_index[of t t']
  by (auto simp: fun_eq_iff slot_def index_ok_def keyMatch_def lists_only_def same_kv_def key_at_def home_def)

lemma shift_from_cong:
  assumes "\<And>e. e \<in> set xs \<Longrightarrow> e \<noteq> HASH_FREE_MARK \<Longrightarrow> hm e = hm' e"
  shows "shift_from hm xs hole i = shift_from hm' xs hole i"
  using assms
proof (induction hm xs hole i rule: shift_from.induct)
  case (1 hm xs hole i)
  have sub: "set (xs[hole := xs ! i]) \<subseteq> set xs" if "i < length xs"
    using set_update_subset_insert[of xs hole "xs ! i"] that by auto
  show ?case
  proof (cases "i < length xs \<and> xs ! i \<noteq> HASH_FREE_MARK")
    case True
    then have "hm (xs ! i) = hm' (xs ! i)" using 1(3) by simp
    then show ?thesis using True 1 sub
      by (subst (1 2) shift_from.simps) (auto simp: subset_iff)
  next
    case False
    then show ?thesis by (subst (1 2) shift_from.simps) auto
  qed
qed

definition evicted :: "nat \<Rightarrow> chains \<Rightarrow> chains" where
  "evicted tid C = C(Lru tid := butlast (C (Lru tid)), Free tid := last (C (Lru tid)) # C (Free tid))"

context key_ops
begin

text \<open>The index entry of a stored element is removed even after the element has left its list.\<close>

lemma removeFromHashPos_run:
  assumes core: "table_core hasher valid t C" and lo: "lists_only t t1" and tid: "tid < length (lruLists t)"
    and e: "e \<in> set (occupied t)" and last: "elementLinks t ! (hashSize t - 1) = HASH_FREE_MARK"
    and w: "window_ok hasher t (key_at t e)"
  shows "\<exists>ls q. length ls = HASH_MAX_LOCK_DEPTH \<and> q < hashSize t \<and> elementLinks t ! q = e \<and>
    removeFromHashPos hasher keq tid e t1 = Inr (True, saveLocks tid ls
      (t1\<lparr>elementLinks := shift_from (home hasher t) (elementLinks t) q (Suc q)\<rparr>))"
proof -
  let ?k = "key_at t e" and ?n = "hashSize t"
  let ?s = "hasher ?k mod ?n"
  note inv = table_coreD[OF core] and v = lists_only_views[OF lo] and ix = lists_only_index[OF lo]
  have el: "e < length (elementStorage t)" by (rule table_core_elem(1)[OF core e])
  have s: "?s < ?n" using inv(11) by simp
  have k: "valid ?k" by (rule inv(9)[OF e])
  have eo: "elem_of t ?k = Some e" using elem_of_Some[OF inv(8)] e by blast
  obtain D where D: "D < ?n" "slot t ?s D = e"
    and go: "\<And>j. j < D \<Longrightarrow> slot t ?s j \<noteq> HASH_FREE_MARK \<and> keyMatch keq ?k (slot t ?s j) t = Inr False"
    by (rule probe_hit[OF core k w eo]) blast
  obtain F where F: "F < HASH_MAX_LOCK_DEPTH" "slot t ?s F = HASH_FREE_MARK"
    "\<And>j. j < F \<Longrightarrow> slot t ?s j \<noteq> HASH_FREE_MARK"
    by (rule first_free[OF w]) blast
  have nowrap: "?s + F < ?n" by (rule nowrap_free[OF last s F(3)])
  have DF: "D < F" using go F(2) D(2) table_core_elem(2)[OF core e] by (metis linorder_neqE_nat)
  have bnd: "slot t ?s j < length (elementStorage t)" if "j < F" for j
    by (rule table_core_elem(1)[OF core slot_occupied[OF inv(2) F(3)[OF that]]])
  have km: "keyMatch keq ?k (slot t ?s j) t1 = keyMatch keq ?k (slot t ?s j) t" if "j < F" for j
    by (rule v(4)[OF bnd[OF that]])
  have hit: "keyMatch keq ?k e t1 = Inr True" using v(4)[OF el] keyMatch_slot[OF core k e] by simp
  have sh: "shift_from (home hasher t1) (elementLinks t) q (Suc q) = shift_from (home hasher t) (elementLinks t) q (Suc q)" for q
    by (rule shift_from_cong, rule v(5), rule table_core_elem(1)[OF core]) (simp add: occupied_def)
  have lk: "length (locks (lruLists t1 ! tid)) = HASH_MAX_LOCK_DEPTH"
    using v(2) inv(5) tid lists_only_threads[OF lo] by (simp add: locks_ok_def)
  have "\<exists>ls. length ls = HASH_MAX_LOCK_DEPTH \<and> removeFromHash hasher (keyMatch keq ?k) tid ?s t1 =
      Inr (True, saveLocks tid ls
        (t1\<lparr>elementLinks := shift_from (home hasher t1) (elementLinks t1) (?s + D) (Suc (?s + D))\<rparr>))"
    using inv(2) nowrap F ix tid lists_only_threads[OF lo] lk go km DF hit D(2) table_core_elem(2)[OF core e] bnd
    by (intro removeFromHash_run[where E = F]) (simp_all add: v(1,3))
  then obtain ls where ls: "length ls = HASH_MAX_LOCK_DEPTH" "removeFromHash hasher (keyMatch keq ?k) tid ?s t1 =
      Inr (True, saveLocks tid ls
        (t1\<lparr>elementLinks := shift_from (home hasher t) (elementLinks t) (?s + D) (Suc (?s + D))\<rparr>))"
    using ix sh by auto
  have "elementLinks t ! (?s + D) = e" using D(2) nowrap DF by (simp add: slot_def)
  moreover have "key_at t1 e = ?k" using lo el by (simp add: lists_only_def same_kv_def)
  ultimately show ?thesis using ls nowrap DF el ix
    by (intro exI[of _ ls] exI[of _ "?s + D"]) (simp add: removeFromHashPos_def key_at_def)
qed

lemma evictTail_map:
  assumes core: "table_core hasher valid t C" and tid: "tid < length (lruLists t)"
    and fr: "C (Free tid) = []" and ne: "C (Lru tid) \<noteq> []" and e: "last (C (Lru tid)) \<in> set (occupied t)"
    and last: "elementLinks t ! (hashSize t - 1) = HASH_FREE_MARK"
    and w: "window_ok hasher t (key_at t (last (C (Lru tid))))"
  shows "\<exists>t'. evictTail hasher keq b tid e0 t = Inr (last (C (Lru tid)), t') \<and>
    table_core hasher valid t' (evicted tid C) \<and> same_shape t t' \<and>
    contents t' = (contents t)(key_at t (last (C (Lru tid))) := None) \<and>
    set (occupied t') = set (occupied t) - {last (C (Lru tid))}"
proof -
  let ?e = "last (C (Lru tid))" and ?C1 = "C(Lru tid := butlast (C (Lru tid)))"
  note inv = table_coreD[OF core]
  have ok: "chains_ok (length (elementStorage t)) (length (lruLists t)) C" by (rule chain_invD(1)[OF inv(1)])
  obtain t1 where t1: "unlinkTail tid t = Inr (?e, t1)" "lists_only t t1" "chain_inv t1 ?C1"
    using unlinkTail_chain[OF inv(1) tid ne] by blast
  obtain ls q where rm: "length ls = HASH_MAX_LOCK_DEPTH" "q < hashSize t" "elementLinks t ! q = ?e"
    "removeFromHashPos hasher keq tid ?e t1 = Inr (True, saveLocks tid ls
      (t1\<lparr>elementLinks := shift_from (home hasher t) (elementLinks t) q (Suc q)\<rparr>))"
    using removeFromHashPos_run[OF core t1(2) tid e last w] by blast
  let ?S' = "shift_from (home hasher t) (elementLinks t) q (Suc q)"
  let ?t2 = "t1\<lparr>elementLinks := ?S'\<rparr>"
  let ?t3 = "saveLocks tid ls ?t2"
  have ch3: "chain_inv ?t3 ?C1"
    unfolding saveLocks_def using t1(3)
    by (subst chain_inv_upd_list) (simp_all, subst chain_inv_cong[of _ t1], simp_all add: fun_eq_iff links_at_def)
  have det: "?e \<notin> set (?C1 c)" for c
  proof (cases "c = Lru tid")
    case True
    have "distinct (butlast (C (Lru tid)) @ [?e])" using chains_okD(1)[OF ok, of "Lru tid"] ne by simp
    then show ?thesis using True by simp
  next
    case False
    then show ?thesis using chains_okD(3)[OF ok, of ?e "Lru tid" c] ne by auto
  qed
  have el: "?e < length (elementStorage t)" by (rule table_core_elem(1)[OF core e])
  obtain t' where t': "pushFree tid ?e ?t3 = Inr t'" "lists_only ?t3 t'"
      "chain_inv t' (?C1(Free tid := ?e # ?C1 (Free tid)))"
    using pushFree_chain[where C = ?C1, OF ch3 _ _ det, of tid] tid el lists_only_threads[OF t1(2)]
      lists_only_index[OF t1(2)] by auto
  let ?E = "set (occupied t)"
  have ic: "index_core hasher valid t ?E" using core by (simp add: table_core_split)
  note sh = index_core_shift[OF ic last rm(2,3) e]
  have kv: "key_at t1 x = key_at t x \<and> val_at t1 x = val_at t x" if "x \<in> ?E" for x
    using t1(2) table_core_elem(1)[OF core, of x] that by (simp add: lists_only_def same_kv_def)
  have ic3: "index_core hasher valid ?t3 (?E - {?e})"
    by (rule index_core_cong[OF sh(1)])
      (use lists_only_index[OF t1(2)] kv in \<open>simp_all add: key_at_def\<close>)
  have E: "x < length (elementStorage ?t3)" if "x \<in> ?E - {?e}" for x
    using that table_core_elem(1)[OF core, of x] lists_only_index[OF t1(2)] by simp
  have c3: "contents ?t3 = contents (t\<lparr>elementLinks := ?S'\<rparr>)"
    by (rule contents_cong)
      (use sh(1) kv in \<open>auto simp: index_core_def keys_ok_def occupied_def key_at_def val_at_def saveLocks_def upd_list_def\<close>)
  have "locks_ok ?t2" using lists_only_views(2)[OF t1(2) inv(5)] by (simp add: locks_ok_def)
  then have "locks_ok ?t3" unfolding saveLocks_def by (rule locks_ok_upd_list) (use rm(1) in simp)
  then have "locks_ok t'" using lists_only_views(2)[OF t'(2)] by blast
  moreover have "lru_elems (evicted tid C) = lru_elems C - {?e}"
    using lru_elems_butlast[OF ok ne] by (simp add: evicted_def lru_elems_def)
  moreover have occ': "set (occupied t') = ?E - {?e}"
    using index_core_lists(1)[OF ic3 t'(2) E] by (simp add: index_core_def)
  ultimately have "table_core hasher valid t' (evicted tid C)"
    using t'(3) index_core_lists(1)[OF ic3 t'(2) E] fr inv(7)
    unfolding table_core_split by (auto simp: evicted_def)
  moreover have "contents t' = (contents t)(key_at t ?e := None)"
    using index_core_lists(2)[OF ic3 t'(2) E] c3 sh(2) by simp
  moreover have "evictTail hasher keq b tid e0 t = Inr (?e, t')"
    using t1(1) rm(4) t'(1) tid freeListHead_empty[OF inv(1) tid] fr by (simp add: evictTail_def)
  moreover have "same_shape t t'"
    using lists_only_shape[OF t'(2)] lists_only_shape[OF t1(2)] by (simp add: same_shape_def)
  ultimately show ?thesis using occ' by blast
qed

lemma evictTail_spare:
  assumes "table_core hasher valid t C" and "tid < length (lruLists t)" and "C (Free tid) \<noteq> []"
  shows "evictTail hasher keq b tid e0 t = Inr (e0, t)"
  using freeListHead_empty[OF table_coreD(1)[OF assms(1)] assms(2)] assms by (simp add: evictTail_def)

end

section \<open>Insertion of an absent key\<close>

text \<open>
  Room for an eviction: the last slot of the index is free and stays free, and every window of
  the lock array's size has two free slots, one of which the new record may take.
\<close>

definition evict_room :: "('k \<Rightarrow> nat) \<Rightarrow> ('k, 'v) table \<Rightarrow> 'k \<Rightarrow> bool" where
  "evict_room hasher t k \<longleftrightarrow>
     elementLinks t ! (hashSize t - 1) = HASH_FREE_MARK \<and>
     (\<exists>D < hashSize t. hasher k mod hashSize t + D < hashSize t - 1 \<and>
        slot t (hasher k mod hashSize t) D = HASH_FREE_MARK) \<and>
     (\<forall>s < hashSize t. \<exists>a b. a < b \<and> b < hashSize t \<and> b < HASH_MAX_LOCK_DEPTH \<and>
        slot t s a = HASH_FREE_MARK \<and> slot t s b = HASH_FREE_MARK)"

lemma evict_room_window: "evict_room hasher t k \<Longrightarrow> 0 < hashSize t \<Longrightarrow> window_ok hasher t k"
  unfolding evict_room_def window_ok_def using mod_less_divisor by blast

lemma evict_room_placed:
  assumes room: "evict_room hasher t k" and n: "hashSize t = length (elementLinks t)" "0 < hashSize t"
    and D: "D < hashSize t" "slot t (hasher k mod hashSize t) D = HASH_FREE_MARK"
      "\<And>j. j < D \<Longrightarrow> slot t (hasher k mod hashSize t) j \<noteq> HASH_FREE_MARK"
    and t': "elementLinks t' = (elementLinks t)[(hasher k mod hashSize t + D) mod hashSize t := f]"
      "hashSize t' = hashSize t"
  shows "elementLinks t' ! (hashSize t' - 1) = HASH_FREE_MARK" and "window_ok hasher t' k'"
proof -
  let ?s = "hasher k mod hashSize t" and ?n = "hashSize t"
  let ?p = "(?s + D) mod ?n"
  obtain D' where D': "?s + D' < ?n - 1" "slot t ?s D' = HASH_FREE_MARK" using room by (auto simp: evict_room_def)
  have "D \<le> D'" using D(3) D'(2) by (metis not_le)
  then have "?p \<noteq> ?n - 1" using D'(1) by simp
  then show "elementLinks t' ! (hashSize t' - 1) = HASH_FREE_MARK"
    using room unfolding t' evict_room_def by (simp add: nth_list_update_if)
  let ?h = "hasher k' mod ?n"
  obtain a b where ab: "a < b" "b < ?n" "b < HASH_MAX_LOCK_DEPTH" "slot t ?h a = HASH_FREE_MARK"
    "slot t ?h b = HASH_FREE_MARK" using room n(2) unfolding evict_room_def by (metis mod_less_divisor)
  have "(?h + a) mod ?n \<noteq> (?h + b) mod ?n" using mod_add_cancel_less[of ?h a ?n b] ab by auto
  then have "\<exists>j. (j = a \<or> j = b) \<and> (?h + j) mod ?n \<noteq> ?p" by metis
  then obtain j where j: "j = a \<or> j = b" "(?h + j) mod ?n \<noteq> ?p" by blast
  then have "slot t' ?h j = HASH_FREE_MARK" using ab unfolding slot_def t' by (auto simp: nth_list_update_if)
  then show "window_ok hasher t' k'" using j(1) ab unfolding window_ok_def t'(2) by (intro exI[of _ j]) auto
qed

text \<open>The key that leaves the cache when thread \<open>tid\<close> inserts \<open>k\<close> with its last free element.\<close>

definition victim_key :: "nat \<Rightarrow> 'k \<Rightarrow> ('k, 'v) table \<Rightarrow> chains \<Rightarrow> 'k" where
  "victim_key tid k t C = (if C (Lru tid) = [] then k else key_at t (last (C (Lru tid))))"

context key_ops
begin

lemma inserted_orphans:
  assumes tinv: "table_inv hasher valid t C" and tid: "tid < length (lruLists t)"
    and oc: "set (occupied t') = insert (hd (C (Free tid))) (set (occupied t))"
  shows "orphans t' (inserted tid C) = orphans t C"
proof -
  let ?C0 = "C(Free tid := tl (C (Free tid)))"
  have "lru_elems (inserted tid C) = insert (hd (C (Free tid))) (lru_elems C)"
    using lru_elems_add[of ?C0 tid "hd (C (Free tid))"] by (simp add: inserted_def lru_elems_def)
  moreover have "hd (C (Free tid)) \<notin> lru_elems C"
    by (rule core_popFree(5)[OF tinv tid])
  ultimately show ?thesis using oc by (auto simp: orphans_def)
qed

text \<open>On a key that is absent the two inserting operations do the same.\<close>

lemma insert_spare_map:
  assumes tinv: "table_inv hasher valid t C" and tid: "tid < length (lruLists t)"
    and k: "valid k" and w: "window_ok hasher t k" and c: "contents t k = None" and sp: "tl (C (Free tid)) \<noteq> []"
  shows "\<exists>t'. insertOrSet hasher keq tid k v expTime t = Inr (True, t') \<and>
    insert_kv hasher keq tid k v expTime t = Inr (True, t') \<and>
    contents t' = (contents t)(k \<mapsto> v) \<and> same_shape t t' \<and> table_inv hasher valid t' (inserted tid C) \<and>
    orphans t' (inserted tid C) = orphans t C \<and>
    (\<forall>e < length (elementStorage t). key_at t' e = (if e = hd (C (Free tid)) then k else key_at t e)) \<and>
    (\<exists>D < hashSize t. slot t (hasher k mod hashSize t) D = HASH_FREE_MARK \<and>
       (\<forall>j < D. slot t (hasher k mod hashSize t) j \<noteq> HASH_FREE_MARK) \<and>
       elementLinks t' = (elementLinks t)[(hasher k mod hashSize t + D) mod hashSize t := hd (C (Free tid))])"
proof -
  obtain D t' where D: "D < hashSize t" "slot t (hasher k mod hashSize t) D = HASH_FREE_MARK"
      "\<And>j. j < D \<Longrightarrow> slot t (hasher k mod hashSize t) j \<noteq> HASH_FREE_MARK"
    and core: "table_core hasher valid t' (inserted tid C)" and c': "contents t' = (contents t)(k \<mapsto> v)"
    and el: "elementLinks t' = (elementLinks t)[(hasher k mod hashSize t + D) mod hashSize t := hd (C (Free tid))]"
    and ky: "\<And>e. e < length (elementStorage t) \<Longrightarrow> key_at t' e = (if e = hd (C (Free tid)) then k else key_at t e)"
    and l: "same_shape t t'" and oc: "set (occupied t') = insert (hd (C (Free tid))) (set (occupied t))"
    and ops: "insertOrSet hasher keq tid k v expTime t =
        bind_res (evictTail hasher keq True tid (hd (C (Free tid))) t') (\<lambda>(e, t5).
        Inr (True, addItemExpTime tid (hasher k mod hashSize t) e expTime t5))"
      "insert_kv hasher keq tid k v expTime t =
        bind_res (evictTail hasher keq False tid (hd (C (Free tid))) t') (\<lambda>(e, t5).
        Inr (True, addItemExpTime tid (hasher k mod hashSize t) e expTime t5))"
    by (rule insert_new[OF tinv tid k w c, where v = v and expTime = expTime]) blast
  have "inserted tid C (Free tid) \<noteq> []" using sp by (simp add: inserted_def)
  then have "evictTail hasher keq b tid e0 t' = Inr (e0, t')" for b e0
    using evictTail_spare[OF core] tid l by (simp add: same_shape_def)
  moreover have "inserted tid C (Free i) \<noteq> []" if "i < length (lruLists t)" for i
    using that sp tinv by (auto simp: inserted_def table_inv_def)
  moreover have "orphans t' (inserted tid C) = orphans t C"
    using inserted_orphans[OF tinv tid oc] .
  ultimately show ?thesis using ops c' l el ky core_addItemExpTime[OF core, of tid] tid
    by (auto simp: table_inv_def same_shape_def orphans_def intro!: exI[of _ D] D)
qed

lemma insert_evict_map:
  assumes tinv: "table_inv hasher valid t C" and tid: "tid < length (lruLists t)"
    and k: "valid k" and room: "evict_room hasher t k" and c: "contents t k = None" and sp: "tl (C (Free tid)) = []"
    and tail: "C (Lru tid) \<noteq> [] \<longrightarrow> last (C (Lru tid)) \<notin> orphans t C"
  shows "\<exists>t'. insertOrSet hasher keq tid k v expTime t = Inr (True, t') \<and>
    insert_kv hasher keq tid k v expTime t = Inr (True, t') \<and>
    contents t' = (contents t)(k \<mapsto> v, victim_key tid k t C := None) \<and> same_shape t t' \<and>
    table_inv hasher valid t' (evicted tid (inserted tid C)) \<and>
    orphans t' (evicted tid (inserted tid C)) = orphans t C"
proof -
  have core0: "table_core hasher valid t C" using tinv by (simp add: table_inv_def)
  note inv = table_coreD[OF core0]
  have w: "window_ok hasher t k" by (rule evict_room_window[OF room inv(11)])
  obtain D t' where D: "D < hashSize t" "slot t (hasher k mod hashSize t) D = HASH_FREE_MARK"
      "\<And>j. j < D \<Longrightarrow> slot t (hasher k mod hashSize t) j \<noteq> HASH_FREE_MARK"
    and core: "table_core hasher valid t' (inserted tid C)" and c': "contents t' = (contents t)(k \<mapsto> v)"
    and sh: "same_shape t t'" and oc: "set (occupied t') = insert (hd (C (Free tid))) (set (occupied t))"
    and el: "elementLinks t' = (elementLinks t)[(hasher k mod hashSize t + D) mod hashSize t := hd (C (Free tid))]"
    and ky: "\<And>e. e < length (elementStorage t) \<Longrightarrow> key_at t' e = (if e = hd (C (Free tid)) then k else key_at t e)"
    and ops: "insertOrSet hasher keq tid k v expTime t =
        bind_res (evictTail hasher keq True tid (hd (C (Free tid))) t') (\<lambda>(e, t5).
        Inr (True, addItemExpTime tid (hasher k mod hashSize t) e expTime t5))"
      "insert_kv hasher keq tid k v expTime t =
        bind_res (evictTail hasher keq False tid (hd (C (Free tid))) t') (\<lambda>(e, t5).
        Inr (True, addItemExpTime tid (hasher k mod hashSize t) e expTime t5))"
    by (rule insert_new[OF tinv tid k w c, where v = v and expTime = expTime]) blast
  let ?C' = "inserted tid C" and ?e = "last (inserted tid C (Lru tid))"
  have l: "length (lruLists t') = length (lruLists t)" "hashSize t' = hashSize t" using sh by (simp_all add: same_shape_def)
  note placed = evict_room_placed[OF room inv(10,11) D el l(2)]
  have fr: "?C' (Free tid) = []" and ne: "?C' (Lru tid) \<noteq> []" using sp by (simp_all add: inserted_def)
  have tid': "tid < length (lruLists t')" using tid l by simp
  have vk: "key_at t' ?e = victim_key tid k t C"
  proof (cases "C (Lru tid) = []")
    case True
    then show ?thesis using ky core_popFree(3)[OF tinv tid] by (simp add: inserted_def victim_key_def)
  next
    case False
    then have "?e = last (C (Lru tid))" "?e \<in> set (C (Lru tid))" by (simp_all add: inserted_def)
    moreover have "?e < length (elementStorage t)"
      using chains_okD(2)[OF chain_invD(1)[OF inv(1)]] \<open>?e \<in> set (C (Lru tid))\<close> .
    moreover have "?e \<noteq> hd (C (Free tid))"
      using core_popFree(4)[OF tinv tid, of "Lru tid"] \<open>?e \<in> set (C (Lru tid))\<close> by auto
    ultimately show ?thesis using ky False by (simp add: victim_key_def)
  qed
  have eo: "?e \<in> set (occupied t')"
  proof (cases "C (Lru tid) = []")
    case False
    then have "last (C (Lru tid)) \<in> lru_elems C" using last_in_set unfolding lru_elems_def by blast
    then have "last (C (Lru tid)) \<in> set (occupied t)" using False tail by (simp add: orphans_def)
    then show ?thesis using False oc by (simp add: inserted_def)
  qed (use oc in \<open>simp add: inserted_def\<close>)
  have ev: "\<exists>t5. evictTail hasher keq b tid e0 t' = Inr (?e, t5) \<and>
      table_core hasher valid t5 (evicted tid ?C') \<and> same_shape t' t5 \<and>
      contents t5 = (contents t')(key_at t' ?e := None) \<and> set (occupied t5) = set (occupied t') - {?e}" for b e0
    by (rule evictTail_map[OF core tid' fr ne eo placed])
  obtain t5 where t5: "evictTail hasher keq True tid (hd (C (Free tid))) t' = Inr (?e, t5)"
      "table_core hasher valid t5 (evicted tid ?C')" "same_shape t' t5"
      "contents t5 = (contents t')(key_at t' ?e := None)" "set (occupied t5) = set (occupied t') - {?e}" using ev by blast
  have same: "evictTail hasher keq False tid (hd (C (Free tid))) t' = Inr (?e, t5)"
    using ev[of False "hd (C (Free tid))"] t5(1)
    by (auto simp: evictTail_def bind_res_Inr_iff split: if_splits prod.splits)
  have "evicted tid ?C' (Free i) \<noteq> []" if "i < length (lruLists t)" for i
    using that tinv by (auto simp: evicted_def inserted_def table_inv_def)
  moreover have "orphans t5 (evicted tid ?C') = orphans t C"
  proof -
    have "lru_elems (evicted tid ?C') = lru_elems ?C' - {?e}"
      using lru_elems_butlast[OF chain_invD(1)[OF table_coreD(1)[OF core]] ne] by (simp add: evicted_def lru_elems_def)
    then have "orphans t5 (evicted tid ?C') = orphans t' ?C'" using t5(5) eo by (auto simp: orphans_def)
    then show ?thesis using inserted_orphans[OF tinv tid oc] by simp
  qed
  ultimately show ?thesis using ops t5 same c' l sh vk core_addItemExpTime[OF t5(2), of tid] tid
    by (simp add: table_inv_def same_shape_def orphans_def)
qed

end

end
