(* ===== verification/Table_Init.thy ===== *)
theory Table_Init
  imports Table_Evict
begin

text \<open>
  The constructor of \<open>LFLRUHashTable\<close> establishes the table invariant: every thread owns an equal
  contiguous share of the elements as its free list, and the index is empty.
\<close>

definition init_right :: "nat \<Rightarrow> nat \<Rightarrow> nat \<Rightarrow> nat" where
  "init_right per done i = (if i < done * per \<and> Suc i mod per = 0 then LIST_END_MARK else Suc i)"

definition init_store :: "nat \<Rightarrow> nat \<Rightarrow> nat \<Rightarrow> 'k \<Rightarrow> 'v \<Rightarrow> ('k, 'v) lru_element list" where
  "init_store per done n k0 v0 =
     map (\<lambda>i. \<lparr>links = \<lparr>left = LIST_END_MARK, right = init_right per done i\<rparr>, key = k0, val = v0\<rparr>) [0..<n]"

definition init_lru :: "thread_lru \<Rightarrow> nat \<Rightarrow> nat \<Rightarrow> thread_lru" where
  "init_lru garbage per i =
     garbage\<lparr>head := LIST_END_MARK, tail := LIST_END_MARK, freeListHead := i * per, expTimeMap := []\<rparr>"

lemma init_elements_store:
  "n \<le> LIST_END_MARK \<Longrightarrow> init_elements n k0 v0 = init_store per 0 n k0 v0"
  by (auto simp: init_elements_def init_store_def init_right_def to_uint_def LIST_END_MARK_def)

lemma init_store_next:
  assumes "0 < per" and "Suc done * per \<le> n"
  shows "(init_store per done n k0 v0)[Suc done * per - 1 :=
      \<lparr>links = \<lparr>left = LIST_END_MARK, right = LIST_END_MARK\<rparr>, key = k0, val = v0\<rparr>] =
    init_store per (Suc done) n k0 v0"
proof (rule nth_equalityI)
  fix i assume "i < length ((init_store per done n k0 v0)[Suc done * per - 1 :=
      \<lparr>links = \<lparr>left = LIST_END_MARK, right = LIST_END_MARK\<rparr>, key = k0, val = v0\<rparr>])"
  then have i: "i < n" by (simp add: init_store_def)
  have "init_right per (Suc done) i = (if i = Suc done * per - 1 then LIST_END_MARK else init_right per done i)"
  proof (cases "done * per \<le> i \<and> i < Suc done * per \<and> Suc i mod per = 0")
    case True
    then obtain q where q: "Suc i = q * per" by (metis mod_eq_0_iff_dvd dvd_def mult.commute)
    have "done * per < q * per" "q * per \<le> Suc done * per" using True q by linarith+
    then have "q = Suc done" using assms(1) by (metis le_antisym less_eq_Suc_le mult_le_cancel2 mult_less_cancel2)
    then show ?thesis using True q assms(1) by (auto simp: init_right_def)
  next
    case False
    have last: "Suc (Suc done * per - 1) mod per = 0" "Suc done * per - 1 < Suc done * per"
      "done * per \<le> Suc done * per - 1" using assms(1) by simp_all
    then have "i \<noteq> Suc done * per - 1" using False by metis
    then show ?thesis using False by (auto simp: init_right_def)
  qed
  then show "(init_store per done n k0 v0)[Suc done * per - 1 :=
      \<lparr>links = \<lparr>left = LIST_END_MARK, right = LIST_END_MARK\<rparr>, key = k0, val = v0\<rparr>] ! i =
    init_store per (Suc done) n k0 v0 ! i"
    using i by (simp add: init_store_def nth_list_update_if)
qed (simp add: init_store_def)

lemma init_threads_run:
  assumes per: "0 < per" and n: "n \<le> LIST_END_MARK" and fits: "(tid + m) * per \<le> n"
    and t: "elementStorage t = init_store per tid n k0 v0" "lruLists t = map (init_lru garbage per) [0..<tid]"
  shows "init_threads garbage per tid m t = Inr (t\<lparr>lruLists := map (init_lru garbage per) [0..<tid + m],
      elementStorage := init_store per (tid + m) n k0 v0\<rparr>)"
  using fits t
proof (induction m arbitrary: tid t)
  case 0
  then show ?case by simp
next
  case (Suc m)
  let ?last = "Suc tid * per - 1"
  have le: "Suc tid * per \<le> n" using Suc.prems(1) by (metis add_Suc_right le_add1 mult_le_mono1 order_trans add_Suc)
  have last: "?last < n" "?last < LIST_END_MARK" "Suc tid * per \<noteq> 0" using le per n by simp_all
  have small: "to_uint (tid * per) = tid * per"
    using le n unfolding to_uint_def LIST_END_MARK_def by simp
  let ?t1 = "t\<lparr>lruLists := map (init_lru garbage per) [0..<Suc tid]\<rparr>"
  have l: "links_at ?t1 ?last = \<lparr>left = LIST_END_MARK, right = Suc ?last\<rparr>"
  proof -
    have "\<not> ?last < tid * per" using per by simp
    then show ?thesis using last Suc.prems(2) by (simp add: links_at_def init_store_def init_right_def)
  qed
  let ?t2 = "t\<lparr>lruLists := map (init_lru garbage per) [0..<Suc tid], elementStorage := init_store per (Suc tid) n k0 v0\<rparr>"
  have "put_links ?last \<lparr>left = LIST_END_MARK, right = LIST_END_MARK\<rparr> ?t1 = ?t2"
    using init_store_next[OF per le, of k0 v0] Suc.prems(2) last
    by (simp add: put_links_def init_store_def)
  moreover have "init_threads garbage per (Suc tid) m ?t2 = Inr (?t2\<lparr>lruLists := map (init_lru garbage per) [0..<Suc tid + m],
      elementStorage := init_store per (Suc tid + m) n k0 v0\<rparr>)"
    by (rule Suc.IH) (use Suc.prems in simp_all)
  moreover have "length (elementStorage ?t1) = n" using Suc.prems(2) by (simp add: init_store_def)
  moreover have "lruLists t @ [garbage\<lparr>head := LIST_END_MARK, tail := LIST_END_MARK,
      freeListHead := to_uint (tid * per), expTimeMap := []\<rparr>] = map (init_lru garbage per) [0..<Suc tid]"
    using Suc.prems(3) small by (simp add: init_lru_def)
  ultimately show ?case using l last per by (simp add: Let_def del: upt_Suc)
qed

lemma freechain_upt:
  assumes "\<And>x. a \<le> x \<Longrightarrow> x < b \<Longrightarrow> right (L x) = (if Suc x = b then LIST_END_MARK else Suc x)" and "a < b"
  shows "freechain L a [a..<b]"
  using assms
proof (induction "b - a" arbitrary: a)
  case (Suc m)
  show ?case
  proof (cases "Suc a = b")
    case True
    then show ?thesis using Suc.prems by (simp add: upt_rec)
  next
    case False
    then have "freechain L (Suc a) [Suc a..<b]" using Suc by simp
    then show ?thesis using Suc.prems False by (simp add: upt_rec[of a b])
  qed
qed simp

definition init_chains :: "nat \<Rightarrow> nat \<Rightarrow> chains" where
  "init_chains per threads c = (case c of Lru i \<Rightarrow> [] | Free i \<Rightarrow> if i < threads then [i * per..<Suc i * per] else [])"

lemma init_chains_ok:
  assumes "threads * per \<le> n"
  shows "chains_ok n threads (init_chains per threads)"
proof (rule chains_okI)
  fix c e assume e: "e \<in> set (init_chains per threads c)"
  then obtain i where i: "c = Free i" "i < threads" "i * per \<le> e" "e < Suc i * per"
    by (cases c) (auto simp: init_chains_def split: if_splits)
  have "Suc i * per \<le> threads * per" using i(2) by (intro mult_le_mono1) simp
  then show "e < n" using i(4) assms by simp
  fix c' assume "e \<in> set (init_chains per threads c')"
  then obtain j where j: "c' = Free j" "j * per \<le> e" "e < Suc j * per"
    by (cases c') (auto simp: init_chains_def split: if_splits)
  have "i * per < Suc j * per" "j * per < Suc i * per" using i j by linarith+
  then have "i < Suc j" "j < Suc i" by (simp_all only: mult_less_cancel2)
  then show "c = c'" using i(1) j(1) by simp
qed (auto simp: init_chains_def split: chain_id.splits if_splits)

lemma constructor_inv:
  fixes k0 :: 'k and v0 :: 'v
  assumes T: "0 < T" "T \<le> N" and NH: "N < H" and N: "N \<le> LIST_END_MARK"
    and g: "length (locks garbage) = HASH_MAX_LOCK_DEPTH"
  shows "\<exists>t. LFLRUHashTable garbage k0 v0 N H T = Inr t \<and> contents t = Map.empty \<and>
    hashSize t = H \<and> length (lruLists t) = T \<and> length (elementStorage t) = N \<and>
    elementLinks t = replicate H HASH_FREE_MARK \<and>
    table_inv hasher valid t (init_chains (N div T) T) \<and> orphans t (init_chains (N div T) T) = {}"
proof -
  let ?per = "N div T"
  have per: "0 < ?per" using T by (simp add: div_greater_zero_iff)
  have fits: "(0 + T) * ?per \<le> N" by simp
  define t0 :: "('k, 'v) table" where "t0 =
    \<lparr>lruLists = [], elementStorage = init_elements N k0 v0, elementLinks = [],
     numElements = N, hashSize = H, numThreads = T, nextThreadId = 0, globalFreeListHead = LIST_END_MARK\<rparr>"
  define t where "t = t0\<lparr>lruLists := map (init_lru garbage ?per) [0..<T],
      elementStorage := init_store ?per T N k0 v0, elementLinks := replicate H HASH_FREE_MARK\<rparr>"
  have "init_threads garbage ?per 0 T t0 =
      Inr (t0\<lparr>lruLists := map (init_lru garbage ?per) [0..<0 + T], elementStorage := init_store ?per (0 + T) N k0 v0\<rparr>)"
    by (rule init_threads_run[OF per N fits]) (simp_all add: t0_def init_elements_store[OF N])
  then have run: "LFLRUHashTable garbage k0 v0 N H T = Inr t"
    using T NH by (simp add: LFLRUHashTable_def t_def t0_def)
  have len: "length (elementStorage t) = N" "length (lruLists t) = T" by (simp_all add: t_def init_store_def)
  have la: "links_at t e = \<lparr>left = LIST_END_MARK, right = init_right ?per T e\<rparr>" if "e < N" for e
    using that by (simp add: links_at_def t_def init_store_def)
  have free: "free_ok t i (init_chains ?per T (Free i))" if i: "i < T" for i
  proof -
    have top: "Suc i * ?per \<le> T * ?per" "T * ?per \<le> N" using i mult_le_mono1[of "Suc i" T ?per] by auto
    have "freechain (links_at t) (i * ?per) [i * ?per..<Suc i * ?per]"
    proof (rule freechain_upt)
      fix x assume x: "i * ?per \<le> x" "x < Suc i * ?per"
      have "Suc x mod ?per = 0 \<longleftrightarrow> Suc x = Suc i * ?per"
      proof
        assume "Suc x mod ?per = 0"
        then obtain q where q: "Suc x = q * ?per" by (metis mod_eq_0_iff_dvd dvd_def mult.commute)
        have "i * ?per < q * ?per" "q * ?per \<le> Suc i * ?per" using x q by linarith+
        then have "q = Suc i" using per by (metis le_antisym less_eq_Suc_le mult_le_cancel2 mult_less_cancel2)
        then show "Suc x = Suc i * ?per" using q by simp
      qed simp
      moreover have "x < T * ?per" "x < N" using x top by linarith+
      ultimately show "right (links_at t x) = (if Suc x = Suc i * ?per then LIST_END_MARK else Suc x)"
        by (simp add: la init_right_def)
    qed (use per in simp)
    then show ?thesis using i by (simp add: free_ok_def init_chains_def t_def init_lru_def)
  qed
  have chain: "chain_inv t (init_chains ?per T)"
    unfolding chain_inv_def len using N free init_chains_ok[of T ?per N]
    by (auto simp: lru_ok_def init_chains_def t_def init_lru_def)
  have occ: "occupied t = []" by (simp add: occupied_def t_def)
  have "table_core hasher valid t (init_chains ?per T)"
    using chain NH g occ by (auto simp: table_defs index_ok_def t_def t0_def init_lru_def lru_elems_def init_chains_def)
  moreover have "init_chains ?per T (Free i) \<noteq> []" if "i < T" for i using that per by (simp add: init_chains_def)
  ultimately have "table_inv hasher valid t (init_chains ?per T)" using len by (simp add: table_inv_def)
  moreover have "orphans t (init_chains ?per T) = {}" by (auto simp: orphans_def lru_elems_def init_chains_def)
  ultimately show ?thesis using run len occ by (simp add: contents_def t_def t0_def)
qed

end
