(* ===== verification/Table_Remove.thy ===== *)
theory Table_Remove
  imports Table_Evict
begin

text \<open>
  \<open>remove\<close>, the operation behind \<open>DELETE\<close>. It works on a key whose run of full slots holds nothing
  that could move back, it reads outside the element array for a key that is absent, and it spins
  for ever when the record behind the removed one has to move.
\<close>

section \<open>The first loop of removeFromHashKey\<close>

lemma probeKey_steps:
  assumes ok: "index_ok t" and s: "s < hashSize t" and D: "D < hashSize t"
    and len: "length ls = HASH_MAX_LOCK_DEPTH" and DL: "D < HASH_MAX_LOCK_DEPTH"
    and go: "\<And>j. j < D \<Longrightarrow> keyMatch keq k (slot t s j) t = Inr False" and d: "d \<le> D"
  shows "probeKey keq k (probed t s d ls) ((s + d) mod hashSize t) d (locked t s d) =
    probeKey keq k (probed t s D ls) ((s + D) mod hashSize t) D (locked t s D)"
  using d
proof (induction "D - d" arbitrary: d)
  case 0
  then show ?case by simp
next
  case (Suc m)
  have d: "d < D" using Suc by simp
  have n: "hashSize t = length (elementLinks t)" using ok by (simp add: index_ok_def)
  have nx: "lockNext (probed t s d ls) ((s + d) mod hashSize t) d (locked t s d) =
     Inr ((s + Suc d) mod hashSize t, probed t s (Suc d) ls, locked t s (Suc d))"
    using lockNext_run[OF ok s _ len, of d "cyc_seq (elementLinks t) s d"] d D DL n
    by (simp add: probed_def cyc_seq_Suc slot_def)
  have "probeKey keq k (probed t s d ls) ((s + d) mod hashSize t) d (locked t s d) =
      probeKey keq k (probed t s (Suc d) ls) ((s + Suc d) mod hashSize t) (Suc d) (locked t s (Suc d))"
    using nx go[OF d] n d by (subst probeKey.simps) simp
  also have "\<dots> = probeKey keq k (probed t s D ls) ((s + D) mod hashSize t) D (locked t s D)"
    using Suc(1)[of "Suc d"] Suc(2) d by simp
  finally show ?case .
qed

lemma probeKey_found:
  assumes "hashSize t = length (elementLinks t)" and "keyMatch keq k (slot t s D) t = Inr True"
  shows "probeKey keq k (probed t s D ls) ((s + D) mod hashSize t) D (locked t s D) =
    Inr ((s + D) mod hashSize t, D, probed t s D ls, locked t s D)"
  using assms by (subst probeKey.simps) simp

lemma probeKey_free:
  assumes "hashSize t = length (elementLinks t)" and "slot t s D = HASH_FREE_MARK"
    and "length (elementStorage t) \<le> LIST_END_MARK"
  shows "probeKey keq k (probed t s D ls) ((s + D) mod hashSize t) D (locked t s D) = Inl OutOfBounds"
proof -
  have "\<not> HASH_FREE_MARK < length (elementStorage t)"
    using assms(3) by (simp add: HASH_FREE_MARK_def LIST_END_MARK_def)
  then show ?thesis using assms(1,2) by (subst probeKey.simps) (simp add: keyMatch_def)
qed

section \<open>The second loop\<close>

text \<open>
  Once the scanned record may move, the loop overwrites the hole with it again and again: the
  index it scans does not change.
\<close>

lemma shiftBackKey_stuck:
  assumes "ls ! d = e" and "e \<noteq> HASH_FREE_MARK" and "e < length (elementStorage t)"
    and "home hasher t e \<le> deletedIdx" and "home hasher t e \<le> idx"
  shows "shiftBackKey hasher ls idx d dd deletedIdx t = None"
proof (rule ccontr)
  assume "shiftBackKey hasher ls idx d dd deletedIdx t \<noteq> None"
  then obtain r where r: "shiftBackKey hasher ls idx d dd deletedIdx t = Some r" by blast
  let ?P = "\<lambda>hasher ls idx d dd deletedIdx t r. ls ! d = e \<and> e < length (elementStorage t) \<and>
    home hasher t e \<le> deletedIdx \<and> home hasher t e \<le> idx \<longrightarrow> False"
  have "?P hasher ls idx d dd deletedIdx t r"
    by (rule shiftBackKey.raw_induct[where P = ?P, OF _ r])
      (use assms(2) in \<open>fastforce simp: home_def key_at_def nth_list_update_if split: if_splits\<close>)
  then show False using assms by blast
qed

lemma home_locked [simp]: "home hasher (locked t s d) e = home hasher t e"
  by (simp add: home_def key_at_def)

lemma shiftBackKey_quiet:
  assumes ok: "index_ok t" and nowrap: "s + E < hashSize t" and EL: "E < HASH_MAX_LOCK_DEPTH"
    and len: "length ls = HASH_MAX_LOCK_DEPTH" and stop: "slot t s E = HASH_FREE_MARK"
    and go: "\<And>j. j < E \<Longrightarrow> d \<le> j \<Longrightarrow> slot t s j < length (elementStorage t) \<and>
      slot t s j \<noteq> HASH_FREE_MARK \<and> s + dd < home hasher t (slot t s j)"
    and d: "d \<le> E"
  shows "shiftBackKey hasher (probed t s d ls) (s + d) d dd (s + dd) (locked t s d) =
    Some (Inr (s + E, probed t s E ls, dd, locked t s E))"
  using d go
proof (induction "E - d" arbitrary: d)
  case 0
  have n: "hashSize t = length (elementLinks t)" using ok by (simp add: index_ok_def)
  show ?case using 0 stop n by (subst shiftBackKey.simps) simp
next
  case (Suc m)
  have n: "hashSize t = length (elementLinks t)" using ok by (simp add: index_ok_def)
  have d: "d < E" using Suc(2) by simp
  have nx: "lockNext (probed t s d ls) (s + d) d (locked t s d) =
     Inr (s + Suc d, probed t s (Suc d) ls, locked t s (Suc d))"
    using lockNext_run[OF ok _ _ len, of s d "cyc_seq (elementLinks t) s d"] d nowrap EL n
    by (simp add: probed_def cyc_seq_Suc slot_def)
  have e: "slot t s d < length (elementStorage t)" "slot t s d \<noteq> HASH_FREE_MARK"
    "s + dd < home hasher t (slot t s d)" using Suc(4)[OF d] by auto
  have "shiftBackKey hasher (probed t s d ls) (s + d) d dd (s + dd) (locked t s d) =
      shiftBackKey hasher (probed t s (Suc d) ls) (s + Suc d) (Suc d) dd (s + dd) (locked t s (Suc d))"
    using nx e n by (subst shiftBackKey.simps) (simp add: home_def key_at_def)
  also have "\<dots> = Some (Inr (s + E, probed t s E ls, dd, locked t s E))"
    by (rule Suc(1)) (use Suc(2,4) d in auto)
  finally show ?case .
qed

lemma shift_from_quiet:
  assumes "\<And>j. i \<le> j \<Longrightarrow> j < E \<Longrightarrow> xs ! j \<noteq> HASH_FREE_MARK \<and> hole < hm (xs ! j)"
    and "i \<le> E" and "E < length xs" and "xs ! E = HASH_FREE_MARK"
  shows "shift_from hm xs hole i = xs[hole := HASH_FREE_MARK]"
  using assms(1,2)
proof (induction "E - i" arbitrary: i)
  case 0
  then show ?case using assms(3,4) by (subst shift_from.simps) simp
next
  case (Suc m)
  have "shift_from hm xs hole (Suc i) = xs[hole := HASH_FREE_MARK]"
    by (rule Suc(1)) (use Suc(2,3,4) in auto)
  moreover have "i < E" using Suc(2) by simp
  moreover have "xs ! i \<noteq> HASH_FREE_MARK \<and> hole < hm (xs ! i)" using Suc(3)[of i] \<open>i < E\<close> by simp
  ultimately show ?case using assms(3) by (subst shift_from.simps) simp
qed

section \<open>The operation\<close>

text \<open>Nothing in the run of full slots behind slot \<open>q\<close> could move to \<open>q\<close>.\<close>

definition quiet_run :: "('k \<Rightarrow> nat) \<Rightarrow> ('k, 'v) table \<Rightarrow> nat \<Rightarrow> bool" where
  "quiet_run hasher t q \<longleftrightarrow>
     (\<forall>p. q < p \<and> p < hashSize t \<and> (\<forall>j. q \<le> j \<and> j \<le> p \<longrightarrow> elementLinks t ! j \<noteq> HASH_FREE_MARK) \<longrightarrow>
        q < home hasher t (elementLinks t ! p))"

text \<open>The lists after element \<open>e\<close> moved to the free list of thread \<open>tid\<close>.\<close>

definition removed :: "nat \<Rightarrow> nat \<Rightarrow> chains \<Rightarrow> chains" where
  "removed tid e C = (\<lambda>c. removeAll e (C c))(Free tid := e # C (Free tid))"

context key_ops
begin

lemma remove_absent_map:
  assumes core: "table_core hasher valid t C" and tid: "tid < length (lruLists t)"
    and k: "valid k" and w: "window_ok hasher t k" and c: "contents t k = None"
  shows "remove hasher keq tid k t = Inl OutOfBounds"
proof -
  let ?s = "hasher k mod hashSize t" and ?ls = "locks (lruLists t ! tid)"
  note inv = table_coreD[OF core]
  have s: "?s < hashSize t" using inv(11) by simp
  obtain D where D: "D < hashSize t" "D < HASH_MAX_LOCK_DEPTH" "slot t ?s D = HASH_FREE_MARK"
    and go: "\<And>j. j < D \<Longrightarrow> slot t ?s j \<noteq> HASH_FREE_MARK \<and> keyMatch keq k (slot t ?s j) t = Inr False"
    by (rule probe_miss[OF core k w c]) blast
  have len: "length ?ls = HASH_MAX_LOCK_DEPTH" by (rule table_core_locks[OF core tid])
  have "probeKey keq k (probed t ?s 0 ?ls) ((?s + 0) mod hashSize t) 0 (locked t ?s 0) = Inl OutOfBounds"
    using probeKey_steps[OF inv(2) s D(1) len D(2), of keq k 0] go
      probeKey_free[OF inv(10) D(3) chain_invD(2)[OF inv(1)], of keq k ?ls] by simp
  then show ?thesis using lockElementHash_start[OF inv(2) s, of ?ls] len D(2) tid
    by (simp add: remove_def removeFromHashKey_def Let_def)
qed

lemma removeFromHashKey_prefix:
  assumes core: "table_core hasher valid t C" and tid: "tid < length (lruLists t)"
    and k: "valid k" and w: "window_ok hasher t k" and e: "elem_of t k = Some e"
    and last: "elementLinks t ! (hashSize t - 1) = HASH_FREE_MARK"
  obtains D F where "D < F" "F < HASH_MAX_LOCK_DEPTH" "hasher k mod hashSize t + F < hashSize t"
    and "slot t (hasher k mod hashSize t) D = e" "slot t (hasher k mod hashSize t) F = HASH_FREE_MARK"
    and "\<And>j. j < F \<Longrightarrow> slot t (hasher k mod hashSize t) j \<noteq> HASH_FREE_MARK \<and>
       slot t (hasher k mod hashSize t) j < length (elementStorage t)"
    and "removeFromHashKey hasher keq tid k t =
      bind_res (diverge (shiftBackKey hasher
          (probed t (hasher k mod hashSize t) (Suc D) (locks (lruLists t ! tid))) (hasher k mod hashSize t + Suc D)
          (Suc D) D (hasher k mod hashSize t + D) (locked t (hasher k mod hashSize t) (Suc D))))
        (\<lambda>(idx2, ls2, depthDeleted, t3).
          let ls3 = (if depthDeleted \<noteq> HASH_MAX_LOCK_DEPTH then ls2[depthDeleted := HASH_FREE_MARK] else ls2)
          in bind_res (unlockElementsHash (hasher k mod hashSize t) idx2 ls3 t3) (\<lambda>t4.
             Inr (True, e, saveLocks tid ls3 t4)))"
proof -
  let ?n = "hashSize t" and ?ls = "locks (lruLists t ! tid)"
  let ?s = "hasher k mod ?n"
  note inv = table_coreD[OF core]
  have s: "?s < ?n" using inv(11) by simp
  have occ: "e \<in> set (occupied t)" "key_at t e = k" using e elem_of_Some[OF inv(8)] by auto
  obtain D where D: "D < ?n" "D < HASH_MAX_LOCK_DEPTH" "slot t ?s D = e"
    and go: "\<And>j. j < D \<Longrightarrow> slot t ?s j \<noteq> HASH_FREE_MARK \<and> keyMatch keq k (slot t ?s j) t = Inr False"
    by (rule probe_hit[OF core k w e]) blast
  obtain F where F: "F < HASH_MAX_LOCK_DEPTH" "slot t ?s F = HASH_FREE_MARK"
    "\<And>j. j < F \<Longrightarrow> slot t ?s j \<noteq> HASH_FREE_MARK" by (rule first_free[OF w]) blast
  have nowrap: "?s + F < ?n" by (rule nowrap_free[OF last s F(3)])
  have DF: "D < F" using go F(2) D(3) table_core_elem(2)[OF core occ(1)] by (metis linorder_neqE_nat)
  have bnd: "slot t ?s j < length (elementStorage t)" if "j < F" for j
    by (rule table_core_elem(1)[OF core slot_occupied[OF inv(2) F(3)[OF that]]])
  have len: "length ?ls = HASH_MAX_LOCK_DEPTH" by (rule table_core_locks[OF core tid])
  have hit: "keyMatch keq k (slot t ?s D) t = Inr True" using keyMatch_slot[OF core k occ(1)] occ(2) D(3) by simp
  have pk: "probeKey keq k (probed t ?s 0 ?ls) ((?s + 0) mod ?n) 0 (locked t ?s 0) =
      Inr (?s + D, D, probed t ?s D ?ls, locked t ?s D)"
    using probeKey_steps[OF inv(2) s D(1) len D(2), of keq k 0] go probeKey_found[OF inv(10) hit, of ?ls]
      nowrap DF by simp
  have nx: "lockNext (probed t ?s D ?ls) (?s + D) D (locked t ?s D) =
      Inr (?s + Suc D, probed t ?s (Suc D) ?ls, locked t ?s (Suc D))"
    using lockNext_run[OF inv(2) _ _ len, of ?s D "cyc_seq (elementLinks t) ?s D"] nowrap F(1) DF inv(10)
    by (simp add: probed_def cyc_seq_Suc slot_def)
  show thesis
  proof (rule that[OF DF F(1) nowrap D(3) F(2)])
    show "slot t ?s j \<noteq> HASH_FREE_MARK \<and> slot t ?s j < length (elementStorage t)" if "j < F" for j
      using F(3) bnd that by blast
  qed (use pk nx lockElementHash_start[OF inv(2) s, of ?ls] len D tid inv(10) in
      \<open>simp add: removeFromHashKey_def Let_def\<close>)
qed

text \<open>The record behind the removed one has to move: the loop never ends.\<close>

lemma remove_spins_map:
  assumes core: "table_core hasher valid t C" and tid: "tid < length (lruLists t)"
    and k: "valid k" and w: "window_ok hasher t k" and e: "elem_of t k = Some e"
    and last: "elementLinks t ! (hashSize t - 1) = HASH_FREE_MARK"
    and q: "q < hashSize t" "elementLinks t ! q = e"
    and nxt: "elementLinks t ! Suc q \<noteq> HASH_FREE_MARK" "home hasher t (elementLinks t ! Suc q) \<le> q"
  shows "remove hasher keq tid k t = Inl Spins"
proof -
  let ?s = "hasher k mod hashSize t"
  obtain D F where DF: "D < F" "F < HASH_MAX_LOCK_DEPTH" "?s + F < hashSize t" "slot t ?s D = e"
      "slot t ?s F = HASH_FREE_MARK"
    and sl: "\<And>j. j < F \<Longrightarrow> slot t ?s j \<noteq> HASH_FREE_MARK \<and> slot t ?s j < length (elementStorage t)"
    and run: "removeFromHashKey hasher keq tid k t =
      bind_res (diverge (shiftBackKey hasher (probed t ?s (Suc D) (locks (lruLists t ! tid))) (?s + Suc D)
          (Suc D) D (?s + D) (locked t ?s (Suc D))))
        (\<lambda>(idx2, ls2, depthDeleted, t3).
          let ls3 = (if depthDeleted \<noteq> HASH_MAX_LOCK_DEPTH then ls2[depthDeleted := HASH_FREE_MARK] else ls2)
          in bind_res (unlockElementsHash ?s idx2 ls3 t3) (\<lambda>t4. Inr (True, e, saveLocks tid ls3 t4)))"
    by (rule removeFromHashKey_prefix[OF core tid k w e last]) blast
  note inv = table_coreD[OF core]
  have occ: "e \<in> set (occupied t)" using e elem_of_Some[OF inv(8)] by auto
  have sq: "?s + D = q"
    using distinct_filter_nth[of "\<lambda>e. e \<noteq> HASH_FREE_MARK" "elementLinks t" "?s + D" q] inv(6,10) DF q
      table_core_elem(2)[OF core occ] by (simp add: occupied_def slot_def)
  have next_slot: "slot t ?s (Suc D) = elementLinks t ! Suc q" using sq DF by (auto simp: slot_def)
  have "Suc D < F" using next_slot nxt(1) DF by (metis Suc_lessI)
  then have b: "slot t ?s (Suc D) < length (elementStorage t)" using sl by blast
  have "shiftBackKey hasher (probed t ?s (Suc D) (locks (lruLists t ! tid))) (?s + Suc D)
          (Suc D) D (?s + D) (locked t ?s (Suc D)) = None"
    by (rule shiftBackKey_stuck[where e = "slot t ?s (Suc D)"])
      (use inv(10) next_slot nxt sq b in auto)
  then show ?thesis using run by (simp add: remove_def)
qed

lemma removeFromHashKey_quiet:
  assumes core: "table_core hasher valid t C" and tid: "tid < length (lruLists t)"
    and k: "valid k" and w: "window_ok hasher t k" and e: "elem_of t k = Some e"
    and last: "elementLinks t ! (hashSize t - 1) = HASH_FREE_MARK"
    and q: "q < hashSize t" "elementLinks t ! q = e" and qr: "quiet_run hasher t q"
  shows "\<exists>ls. length ls = HASH_MAX_LOCK_DEPTH \<and> removeFromHashKey hasher keq tid k t =
    Inr (True, e, saveLocks tid ls (t\<lparr>elementLinks := shift_from (home hasher t) (elementLinks t) q (Suc q)\<rparr>))"
proof -
  let ?s = "hasher k mod hashSize t" and ?ls = "locks (lruLists t ! tid)" and ?S = "elementLinks t"
  obtain D F where DF: "D < F" "F < HASH_MAX_LOCK_DEPTH" "?s + F < hashSize t" "slot t ?s D = e"
      "slot t ?s F = HASH_FREE_MARK"
    and sl: "\<And>j. j < F \<Longrightarrow> slot t ?s j \<noteq> HASH_FREE_MARK \<and> slot t ?s j < length (elementStorage t)"
    and run: "removeFromHashKey hasher keq tid k t =
      bind_res (diverge (shiftBackKey hasher (probed t ?s (Suc D) ?ls) (?s + Suc D)
          (Suc D) D (?s + D) (locked t ?s (Suc D))))
        (\<lambda>(idx2, ls2, depthDeleted, t3).
          let ls3 = (if depthDeleted \<noteq> HASH_MAX_LOCK_DEPTH then ls2[depthDeleted := HASH_FREE_MARK] else ls2)
          in bind_res (unlockElementsHash ?s idx2 ls3 t3) (\<lambda>t4. Inr (True, e, saveLocks tid ls3 t4)))"
    by (rule removeFromHashKey_prefix[OF core tid k w e last]) blast
  note inv = table_coreD[OF core]
  have occ: "e \<in> set (occupied t)" using e elem_of_Some[OF inv(8)] by auto
  have sq: "?s + D = q"
    using distinct_filter_nth[of "\<lambda>e. e \<noteq> HASH_FREE_MARK" "elementLinks t" "?s + D" q] inv(6,10) DF q
      table_core_elem(2)[OF core occ] by (simp add: occupied_def slot_def)
  have at: "slot t ?s j = ?S ! (?s + j)" if "j \<le> F" for j using that DF by (simp add: slot_def)
  have full: "?S ! j \<noteq> HASH_FREE_MARK" if "q \<le> j" "j < ?s + F" for j
  proof -
    have "j - ?s < F" "?s + (j - ?s) = j" using that sq by linarith+
    then show ?thesis using sl[of "j - ?s"] at[of "j - ?s"] by simp
  qed
  have far: "q < home hasher t (?S ! p)" if p: "q < p" "p < ?s + F" for p
  proof -
    have "?S ! j \<noteq> HASH_FREE_MARK" if "q \<le> j \<and> j \<le> p" for j
      by (rule full) (use that p in auto)
    then show ?thesis using qr p DF unfolding quiet_run_def by (meson less_trans)
  qed
  have len: "length ?ls = HASH_MAX_LOCK_DEPTH" by (rule table_core_locks[OF core tid])
  have "shiftBackKey hasher (probed t ?s (Suc D) ?ls) (?s + Suc D) (Suc D) D (?s + D) (locked t ?s (Suc D)) =
      Some (Inr (?s + F, probed t ?s F ?ls, D, locked t ?s F))"
  proof (rule shiftBackKey_quiet[OF inv(2) DF(3) DF(2) len DF(5)])
    show "slot t ?s j < length (elementStorage t) \<and> slot t ?s j \<noteq> HASH_FREE_MARK \<and>
        ?s + D < home hasher t (slot t ?s j)" if "j < F" "Suc D \<le> j" for j
      using sl[OF that(1)] far[of "?s + j"] that at[of j] sq by auto
  qed (use DF in simp)
  moreover have "unlockElementsHash ?s (?s + F) ((probed t ?s F ?ls)[D := HASH_FREE_MARK]) (locked t ?s F) =
      Inr (t\<lparr>elementLinks := ?S[q := HASH_FREE_MARK]\<rparr>)"
  proof -
    have "take (Suc F) ((probed t ?s F ?ls)[D := HASH_FREE_MARK]) = (cyc_seq ?S ?s F)[D := HASH_FREE_MARK]"
      using DF by (simp add: probed_def list_update_append take_update_swap)
    moreover have "cyc_upd ?S ?s ((cyc_seq ?S ?s F)[D := HASH_FREE_MARK]) = ?S[q := HASH_FREE_MARK]"
      using cyc_upd_update[of ?s ?S "cyc_seq ?S ?s F" D HASH_FREE_MARK] cyc_upd_seq[of ?s ?S F] DF inv(10) sq by simp
    ultimately show ?thesis
      using unlock_locked[OF inv(2), of ?s F "(probed t ?s F ?ls)[D := HASH_FREE_MARK]" "elementStorage t"] DF len
      by (simp add: locked_def)
  qed
  moreover have "shift_from (home hasher t) ?S q (Suc q) = ?S[q := HASH_FREE_MARK]"
  proof (rule shift_from_quiet[where E = "?s + F"])
    show "?S ! j \<noteq> HASH_FREE_MARK \<and> q < home hasher t (?S ! j)" if "Suc q \<le> j" "j < ?s + F" for j
      using full[of j] far[of j] that by auto
  qed (use DF sq inv(10) at[of F] in auto)
  moreover have "length ((probed t ?s F ?ls)[D := HASH_FREE_MARK]) = HASH_MAX_LOCK_DEPTH" using len DF by simp
  moreover have "D \<noteq> HASH_MAX_LOCK_DEPTH" using DF by simp
  ultimately show ?thesis using run by (intro exI[of _ "(probed t ?s F ?ls)[D := HASH_FREE_MARK]"]) simp
qed

lemma remove_index:
  fixes tid :: nat
  assumes core: "table_core hasher valid t C" and q: "q < hashSize t" "elementLinks t ! q = e"
    and last: "elementLinks t ! (hashSize t - 1) = HASH_FREE_MARK" and occ: "e \<in> set (occupied t)"
    and ls: "length ls = HASH_MAX_LOCK_DEPTH"
  defines "t1 \<equiv> saveLocks tid ls (t\<lparr>elementLinks := shift_from (home hasher t) (elementLinks t) q (Suc q)\<rparr>)"
  shows "chain_inv t1 C" "locks_ok t1" "index_core hasher valid t1 (set (occupied t) - {e})"
    "contents t1 = (contents t)(key_at t e := None)" "same_shape t t1" "key_at t1 = key_at t"
proof -
  let ?t0 = "t\<lparr>elementLinks := shift_from (home hasher t) (elementLinks t) q (Suc q)\<rparr>"
  note inv = table_coreD[OF core]
  have ic: "index_core hasher valid t (set (occupied t))" using core by (simp add: table_core_split)
  note sh = index_core_shift[OF ic last q occ]
  show "chain_inv t1 C" unfolding t1_def saveLocks_def using inv(1)
    by (subst chain_inv_upd_list) (simp_all, subst chain_inv_cong[of _ t], simp_all add: fun_eq_iff links_at_def)
  have "locks_ok ?t0" using inv(5) by (simp add: locks_ok_def)
  then show "locks_ok t1" unfolding t1_def saveLocks_def by (rule locks_ok_upd_list) (use ls in simp)
  show "index_core hasher valid t1 (set (occupied t) - {e})" unfolding t1_def
    by (rule index_core_cong[OF sh(1)]) simp_all
  show "contents t1 = (contents t)(key_at t e := None)" using sh(2) by (simp add: t1_def)
  show "same_shape t t1" by (simp add: t1_def)
  show "key_at t1 = key_at t" by (simp add: t1_def fun_eq_iff key_at_def)
qed

text \<open>An element inside its list is unlinked and returned to the caller's free list.\<close>

lemma remove_interior_map:
  assumes tinv: "table_inv hasher valid t C" and tid: "tid < length (lruLists t)"
    and k: "valid k" and w: "window_ok hasher t k" and e: "elem_of t k = Some e"
    and last: "elementLinks t ! (hashSize t - 1) = HASH_FREE_MARK"
    and q: "q < hashSize t" "elementLinks t ! q = e" and qr: "quiet_run hasher t q"
    and int: "interior e (C (Lru i))"
  shows "\<exists>t'. remove hasher keq tid k t = Inr (True, t') \<and> contents t' = (contents t)(k := None) \<and>
    same_shape t t' \<and> table_inv hasher valid t' (removed tid e C) \<and> orphans t' (removed tid e C) = orphans t C"
proof -
  have core: "table_core hasher valid t C" using tinv by (simp add: table_inv_def)
  note inv = table_coreD[OF core]
  have occ: "e \<in> set (occupied t)" "key_at t e = k" using e elem_of_Some[OF inv(8)] by auto
  obtain ls where ls: "length ls = HASH_MAX_LOCK_DEPTH" and rm: "removeFromHashKey hasher keq tid k t =
      Inr (True, e, saveLocks tid ls (t\<lparr>elementLinks := shift_from (home hasher t) (elementLinks t) q (Suc q)\<rparr>))"
    using removeFromHashKey_quiet[OF core tid k w e last q qr] by blast
  let ?t1 = "saveLocks tid ls (t\<lparr>elementLinks := shift_from (home hasher t) (elementLinks t) q (Suc q)\<rparr>)"
  note ri = remove_index[OF core q last occ(1) ls, of tid]
  have ok: "chains_ok (length (elementStorage t)) (length (lruLists t)) C" by (rule chain_invD(1)[OF inv(1)])
  obtain as a b bs where xs: "C (Lru i) = as @ [a, e, b] @ bs" "as \<noteq> []" "bs \<noteq> []"
    using int by (auto simp: interior_def)
  have ra: "removeAll e (C c) = (C(Lru i := as @ [a, b] @ bs)) c" for c
    using removeAll_other[OF ok, of e "Lru i" c] chains_okD(1)[OF ok, of "Lru i"] xs(1)
    by (cases "c = Lru i") (auto simp: removeAll_id)
  then have C1: "(\<lambda>c. removeAll e (C c)) = C(Lru i := as @ [a, b] @ bs)" by (rule ext)
  obtain t2 where t2: "unlinkElement e ?t1 = Inr (True, t2)" "lists_only ?t1 t2"
    "chain_inv t2 (\<lambda>c. removeAll e (C c))"
    unfolding C1 using unlinkElement_chain[OF ri(1) xs] by blast
  have el: "e < length (elementStorage t)" by (rule table_core_elem(1)[OF core occ(1)])
  have sh2: "same_shape t t2" using same_shape_trans[OF ri(5) lists_only_shape[OF t2(2)]] .
  obtain t3 where t3: "pushFree tid e t2 = Inr t3" "lists_only t2 t3" "chain_inv t3 (removed tid e C)"
  proof -
    have "removeAll e (C (Free tid)) = C (Free tid)" using C1 by (simp add: fun_eq_iff)
    then show thesis
      using that pushFree_chain[OF t2(3), of tid e] tid el sh2 by (auto simp: removed_def same_shape_def)
  qed
  have lo: "lists_only ?t1 t3" by (rule lists_only_trans[OF t2(2) t3(2)])
  have bnd: "x < length (elementStorage ?t1)" if "x \<in> set (occupied t) - {e}" for x
    using table_core_elem(1)[OF core, of x] that by simp
  note ic = index_core_lists[OF ri(3) lo bnd]
  have le: "lru_elems (removed tid e C) = lru_elems C - {e}" by (auto simp: removed_def lru_elems_def)
  have oc: "set (occupied t3) = set (occupied t) - {e}" using ic(1) by (simp add: index_core_def)
  have "table_core hasher valid t3 (removed tid e C)"
    using t3(3) ic(1) lists_only_views(2)[OF lo ri(2)] inv(7) oc le unfolding table_core_split by auto
  moreover have "removed tid e C (Free j) \<noteq> []" if "j < length (lruLists t)" for j
    using that tinv C1 by (auto simp: removed_def table_inv_def fun_eq_iff)
  moreover have sh: "same_shape t t3" using same_shape_trans[OF ri(5) lists_only_shape[OF lo]] .
  ultimately have "table_inv hasher valid t3 (removed tid e C)" by (simp add: table_inv_def same_shape_def)
  moreover have "orphans t3 (removed tid e C) = orphans t C" using le oc occ(1) by (auto simp: orphans_def)
  ultimately show ?thesis using rm t2(1) t3(1) ic(2) ri(4) occ(2) sh by (simp add: remove_def)
qed

text \<open>An element near an end of its list stays on the list: it becomes an orphan.\<close>

lemma remove_edge_map:
  assumes tinv: "table_inv hasher valid t C" and tid: "tid < length (lruLists t)"
    and k: "valid k" and w: "window_ok hasher t k" and e: "elem_of t k = Some e"
    and last: "elementLinks t ! (hashSize t - 1) = HASH_FREE_MARK"
    and q: "q < hashSize t" "elementLinks t ! q = e" and qr: "quiet_run hasher t q"
    and mem: "e \<in> set (C (Lru i))" and edge: "\<not> interior e (C (Lru i))"
  shows "\<exists>t'. remove hasher keq tid k t = Inr (True, t') \<and> contents t' = (contents t)(k := None) \<and>
    same_shape t t' \<and> table_inv hasher valid t' C \<and> orphans t' C = insert e (orphans t C) \<and> key_at t' e = k \<and>
    (\<exists>q. elementLinks t' = shift_from (home hasher t) (elementLinks t) q (Suc q) \<and>
       q < hashSize t \<and> elementLinks t ! q = e)"
proof -
  have core: "table_core hasher valid t C" using tinv by (simp add: table_inv_def)
  note inv = table_coreD[OF core]
  have occ: "e \<in> set (occupied t)" "key_at t e = k" using e elem_of_Some[OF inv(8)] by auto
  obtain ls where ls: "length ls = HASH_MAX_LOCK_DEPTH" and rm: "removeFromHashKey hasher keq tid k t =
      Inr (True, e, saveLocks tid ls (t\<lparr>elementLinks := shift_from (home hasher t) (elementLinks t) q (Suc q)\<rparr>))"
    using removeFromHashKey_quiet[OF core tid k w e last q qr] by blast
  let ?t1 = "saveLocks tid ls (t\<lparr>elementLinks := shift_from (home hasher t) (elementLinks t) q (Suc q)\<rparr>)"
  note ri = remove_index[OF core q last occ(1) ls, of tid]
  have un: "unlinkElement e ?t1 = Inr (False, ?t1)" by (rule unlinkElement_edge[OF ri(1) mem edge])
  have oc: "set (occupied ?t1) = set (occupied t) - {e}" using ri(3) by (simp add: index_core_def)
  have "table_core hasher valid ?t1 C" using ri inv(7) oc unfolding table_core_split by auto
  then have "table_inv hasher valid ?t1 C" using tinv by (simp add: table_inv_def)
  moreover have "orphans ?t1 C = insert e (orphans t C)" unfolding orphans_def oc using inv(7) occ(1) by blast
  ultimately show ?thesis using rm un ri(4,5,6) occ(2) q by (auto simp: remove_def intro!: exI[of _ ?t1])
qed

section \<open>Evicting an orphan\<close>

lemma removeFromHashPos_miss:
  assumes core: "table_core hasher valid t C" and lo: "lists_only t t1" and tid: "tid < length (lruLists t)"
    and e: "e < length (elementStorage t)" and k: "valid (key_at t e)" and c: "contents t (key_at t e) = None"
    and w: "window_ok hasher t (key_at t e)"
  shows "\<exists>ls. length ls = HASH_MAX_LOCK_DEPTH \<and> removeFromHashPos hasher keq tid e t1 = Inr (False, saveLocks tid ls t1)"
proof -
  let ?k = "key_at t e" and ?n = "hashSize t" and ?ls = "locks (lruLists t1 ! tid)"
  let ?s = "hasher ?k mod ?n"
  note inv = table_coreD[OF core] and v = lists_only_views[OF lo] and ix = lists_only_index[OF lo]
  obtain D where D: "D < ?n" "D < HASH_MAX_LOCK_DEPTH" "slot t ?s D = HASH_FREE_MARK"
    and go: "\<And>j. j < D \<Longrightarrow> slot t ?s j \<noteq> HASH_FREE_MARK \<and> keyMatch keq ?k (slot t ?s j) t = Inr False"
    by (rule probe_miss[OF core k w c]) blast
  have s: "?s < hashSize t1" using inv(11) ix by simp
  have km: "slot t1 ?s j \<noteq> HASH_FREE_MARK \<and> keyMatch keq ?k (slot t1 ?s j) t1 = Inr False" if "j < D" for j
    using go[OF that] v(1) v(4)[of "slot t ?s j"] table_core_elem(1)[OF core slot_occupied[OF inv(2), of ?s j]] by simp
  have lk: "length ?ls = HASH_MAX_LOCK_DEPTH"
    using v(2) inv(5) tid lists_only_threads[OF lo] by (simp add: locks_ok_def)
  have ix1: "index_ok t1" using v(3) inv(2) by simp
  have pr: "probeStart (keyMatch keq ?k) ?ls ?s t1 =
      Inr (False, (?s + D) mod hashSize t1, D, probed t1 ?s D ?ls, locked t1 ?s D)"
    using probeStart_run[where mt = "keyMatch keq ?k", OF ix1 s _ lk D(2) _ km] D ix v(1) by simp
  have "unlockElementsHash ?s ((?s + D) mod hashSize t1) (probed t1 ?s D ?ls) (locked t1 ?s D) = Inr t1"
    using unlock_probed_same[OF ix1 s, of D ?ls] lk D ix by simp
  moreover have "key_at t1 e = ?k" using lo e by (simp add: lists_only_def same_kv_def)
  ultimately show ?thesis using pr lk D e ix tid lists_only_threads[OF lo]
    by (intro exI[of _ "probed t1 ?s D ?ls"]) (simp add: removeFromHashPos_def removeFromHash_def key_at_def)
qed

lemma insert_orphan_aborts:
  assumes tinv: "table_inv hasher valid t C" and tid: "tid < length (lruLists t)"
    and k: "valid k" and room: "evict_room hasher t k" and c: "contents t k = None" and sp: "tl (C (Free tid)) = []"
    and ne: "C (Lru tid) \<noteq> []" and o: "last (C (Lru tid)) \<in> orphans t C"
    and ko: "valid (key_at t (last (C (Lru tid))))" "contents t (key_at t (last (C (Lru tid)))) = None"
      "key_at t (last (C (Lru tid))) \<noteq> k"
  shows "insertOrSet hasher keq tid k v expTime t = Inl Aborted"
proof -
  have core0: "table_core hasher valid t C" using tinv by (simp add: table_inv_def)
  note inv = table_coreD[OF core0]
  have w: "window_ok hasher t k" by (rule evict_room_window[OF room inv(11)])
  obtain D t' where D: "D < hashSize t" "slot t (hasher k mod hashSize t) D = HASH_FREE_MARK"
      "\<And>j. j < D \<Longrightarrow> slot t (hasher k mod hashSize t) j \<noteq> HASH_FREE_MARK"
    and core: "table_core hasher valid t' (inserted tid C)" and c': "contents t' = (contents t)(k \<mapsto> v)"
    and sh: "same_shape t t'"
    and el: "elementLinks t' = (elementLinks t)[(hasher k mod hashSize t + D) mod hashSize t := hd (C (Free tid))]"
    and ky: "\<And>e. e < length (elementStorage t) \<Longrightarrow> key_at t' e = (if e = hd (C (Free tid)) then k else key_at t e)"
    and op: "insertOrSet hasher keq tid k v expTime t =
        bind_res (evictTail hasher keq True tid (hd (C (Free tid))) t') (\<lambda>(e, t5).
        Inr (True, addItemExpTime tid (hasher k mod hashSize t) e expTime t5))"
    by (rule insert_new[OF tinv tid k w c, where v = v and expTime = expTime]) blast
  let ?C' = "inserted tid C" and ?e = "last (C (Lru tid))"
  have l: "tid < length (lruLists t')" "hashSize t' = hashSize t" "length (elementStorage t') = length (elementStorage t)"
    using sh tid by (simp_all add: same_shape_def)
  note placed = evict_room_placed[OF room inv(10,11) D el l(2)]
  have fr: "?C' (Free tid) = []" and ne': "?C' (Lru tid) \<noteq> []" and le: "last (?C' (Lru tid)) = ?e"
    using sp ne by (simp_all add: inserted_def)
  have e: "?e < length (elementStorage t)" "?e \<noteq> hd (C (Free tid))"
    using chains_okD(2)[OF chain_invD(1)[OF inv(1)], of ?e "Lru tid"] ne core_popFree(5)[OF tinv tid] o
    by (auto simp: orphans_def)
  have key': "key_at t' ?e = key_at t ?e" using ky e by simp
  obtain t1 where t1: "unlinkTail tid t' = Inr (?e, t1)" "lists_only t' t1"
    using unlinkTail_chain[OF table_coreD(1)[OF core] l(1) ne'] le by auto
  obtain ls where "removeFromHashPos hasher keq tid ?e t1 = Inr (False, saveLocks tid ls t1)"
    using removeFromHashPos_miss[OF core t1(2) l(1), of ?e] ko c' key' e l(3) placed(2) by auto
  then have "evictTail hasher keq True tid (hd (C (Free tid))) t' = Inl Aborted"
    using t1(1) l(1) freeListHead_empty[OF table_coreD(1)[OF core] l(1)] fr by (simp add: evictTail_def)
  then show ?thesis using op by simp
qed

end

end
