(* ===== verification/Table_Cas.thy ===== *)
theory Table_Cas
  imports Table_Init Table_Remove
begin

text \<open>
  Operations that hold slots across calls, and the walk over the whole index: \<open>get\<close> and
  \<open>lockElement\<close> with a caller's lock array, \<open>unlockElement\<close>, \<open>processHash\<close>, and the expiry map.
\<close>

section \<open>Walking the index\<close>

lemma processSlots_run:
  assumes "index_ok t" and "pos + m \<le> length (elementLinks t)"
  shows "processSlots f pos m acc t =
    Inr (foldl (\<lambda>a e. f a (if e < length (elementStorage t) then Some (elementStorage t ! e) else None)) acc
      (take m (drop pos (elementLinks t))), t)"
  using assms(2)
proof (induction m arbitrary: pos acc)
  case (Suc m)
  let ?S = "elementLinks t"
  have p: "pos < length ?S" using Suc.prems by simp
  then have "?S ! pos \<noteq> HASH_LOCK_MARK" using assms(1) by (metis index_ok_def nth_mem)
  then have "lockElementHash pos t = Inr (?S ! pos, t\<lparr>elementLinks := ?S[pos := HASH_LOCK_MARK]\<rparr>)"
    using p by (intro lockElementHash_free)
  moreover have "drop pos ?S = ?S ! pos # drop (Suc pos) ?S" using p by (rule Cons_nth_drop_Suc[symmetric])
  moreover have "t\<lparr>elementLinks := ?S\<rparr> = t" by simp
  ultimately show ?case using Suc.IH[of "Suc pos"] Suc.prems p by (simp add: unlockElementHash_def Let_def)
qed simp

lemma processHash_run:
  assumes "index_ok t"
  shows "processHash f acc t =
    Inr (foldl (\<lambda>a e. f a (if e < length (elementStorage t) then Some (elementStorage t ! e) else None)) acc
      (elementLinks t), t)"
  using processSlots_run[OF assms, of 0 "hashSize t"] assms by (simp add: processHash_def index_ok_def)

lemma foldl_count: "foldl (\<lambda>a e. Suc a) n xs = n + length xs"
  by (induction xs arbitrary: n) simp_all

section \<open>Slots that stay locked\<close>

text \<open>A slot that is still locked stops every later operation on a key whose home it is.\<close>

lemma probeStart_locked:
  "s < length (elementLinks t) \<Longrightarrow> elementLinks t ! s = HASH_LOCK_MARK \<Longrightarrow> probeStart mt ls s t = Inl Spins"
  by (simp add: probeStart_def lockElementHash_locked)

lemma locked_home:
  assumes "index_ok t" and "s < hashSize t" and "D < hashSize t"
  shows "elementLinks (locked t s D) ! s = HASH_LOCK_MARK"
  using nth_cyc_upd_in[of 0 "replicate (Suc D) HASH_LOCK_MARK" "elementLinks t" s] assms
  by (simp add: locked_def index_ok_def)

context key_ops
begin

lemma get_cas_map:
  assumes tinv: "table_inv hasher valid t C" and tid: "tid < length (lruLists t)"
    and k: "valid k" and w: "window_ok hasher t k" and ls: "length ls = HASH_MAX_LOCK_DEPTH"
  shows "\<exists>ls' t'. get hasher keq tid k (Some ls) t = Inr (contents t k, Some ls', t') \<and>
    elementLinks t' ! (hasher k mod hashSize t) = HASH_LOCK_MARK \<and> same_shape t t' \<and>
    length (elementLinks t') = hashSize t"
proof -
  have core: "table_core hasher valid t C" using tinv by (simp add: table_inv_def)
  note inv = table_coreD[OF core]
  let ?s = "hasher k mod hashSize t"
  have s: "?s < hashSize t" using inv(11) by simp
  show ?thesis
  proof (cases "elem_of t k")
    case None
    then have c: "contents t k = None" by (simp add: elem_of_None)
    obtain D where D: "D < hashSize t" "D < HASH_MAX_LOCK_DEPTH" "slot t ?s D = HASH_FREE_MARK"
      and go: "\<And>j. j < D \<Longrightarrow> slot t ?s j \<noteq> HASH_FREE_MARK \<and> keyMatch keq k (slot t ?s j) t = Inr False"
      by (rule probe_miss[OF core k w c]) blast
    have "probeStart (keyMatch keq k) ls ?s t = Inr (False, (?s + D) mod hashSize t, D, probed t ?s D ls, locked t ?s D)"
      using probeStart_run[where mt = "keyMatch keq k", OF inv(2) s D(1) ls D(2) _ go] D(3) by simp
    then show ?thesis using c locked_home[OF inv(2) s D(1)] inv(10)
      by (auto simp: get_def Let_def same_shape_def)
  next
    case (Some e)
    have occ: "e \<in> set (occupied t)" "key_at t e = k" using Some elem_of_Some[OF inv(8)] by auto
    have v: "contents t k = Some (val_at t e)" using contents_Some[OF inv(8)] occ by blast
    obtain D where D: "D < hashSize t" "D < HASH_MAX_LOCK_DEPTH" "slot t ?s D = e"
      and go: "\<And>j. j < D \<Longrightarrow> slot t ?s j \<noteq> HASH_FREE_MARK \<and> keyMatch keq k (slot t ?s j) t = Inr False"
      by (rule probe_hit[OF core k w Some]) blast
    have hit: "keyMatch keq k (slot t ?s D) t = Inr True" using keyMatch_slot[OF core k occ(1)] occ(2) D(3) by simp
    have pr: "probeStart (keyMatch keq k) ls ?s t = Inr (True, (?s + D) mod hashSize t, D, probed t ?s D ls, locked t ?s D)"
      using probeStart_run[where mt = "keyMatch keq k", OF inv(2) s D(1) ls D(2) _ go] hit D(3)
        table_core_elem(2)[OF core occ(1)] by simp
    have ch: "chain_inv (locked t ?s D) C"
      using inv(1) by (subst chain_inv_cong[of _ t]) (simp_all add: locked_def links_at_def fun_eq_iff)
    obtain i where i: "e \<in> set (C (Lru i))" using table_core_elem(3)[OF core occ(1)] by blast
    obtain t' where t': "touchElement tid e (locked t ?s D) = Inr t'" "lists_only (locked t ?s D) t'"
      using touchElement_chain[OF ch _ i, of tid] tid by auto
    have "elementLinks t' ! ?s = HASH_LOCK_MARK" "length (elementLinks t') = hashSize t"
      using lists_only_index[OF t'(2)] locked_home[OF inv(2) s D(1)] inv(10) by simp_all
    moreover have "same_shape t t'" using lists_only_shape[OF t'(2)] by (simp add: same_shape_def)
    moreover have "probed t ?s D ls ! D = e" using D(3) inv(10) by simp
    ultimately show ?thesis using pr t'(1) v table_core_elem(1)[OF core occ(1)]
      by (simp add: get_def Let_def val_at_def)
  qed
qed

end

section \<open>Expiry\<close>

text \<open>When every registered item has expired, \<open>upper_bound\<close> is \<open>end()\<close> and nothing is removed.\<close>

lemma removeExpiredItems_all:
  assumes "tid < length (lruLists t)" and "\<forall>p \<in> set (expTimeMap (lruLists t ! tid)). fst p \<le> now"
  shows "removeExpiredItems hasher tid now t = Inr t"
  using assms by (simp add: removeExpiredItems_def Let_def dropWhile_eq_Nil_conv)

end
