(* ===== verification/Table_Wrap.thy ===== *)
theory Table_Wrap
  imports Table_Cas
begin

text \<open>
  What the backward shift does when the run of full slots wraps round the end of the array. The
  loop moves a record back when its home is not greater than the index of the hole. Slot 0 is
  scanned after the last slot, and its own record satisfies that test.
\<close>

lemma cyc_upd_3:
  "3 \<le> length xs \<Longrightarrow> cyc_upd xs (length xs - 1) [a, b, c] = xs[length xs - 1 := a, 0 := b, 1 := c]"
proof -
  assume "3 \<le> length xs"
  then have "Suc (length xs - Suc 0) = length xs" "Suc 0 mod length xs = Suc 0" by simp_all
  then show ?thesis by simp
qed

text \<open>
  Removing the record in the last slot moves the record of slot 0, which sits in its home, to the
  last slot and leaves slot 0 free.
\<close>

lemma shift_wraps:
  assumes ok: "index_ok t" and n: "3 \<le> hashSize t"
    and tid: "tid < length (lruLists t)" "length (locks (lruLists t ! tid)) = HASH_MAX_LOCK_DEPTH"
    and e: "elementLinks t ! (hashSize t - 1) = e" "e < length (elementStorage t)" "e \<noteq> HASH_FREE_MARK"
    and x: "elementLinks t ! 0 = x" "x < length (elementStorage t)" "x \<noteq> HASH_FREE_MARK"
    and free: "elementLinks t ! 1 = HASH_FREE_MARK"
    and home_e: "home hasher t e = hashSize t - 1" and home_x: "home hasher t x = 0"
    and refl: "keq (key_at t e) (key_at t e)"
  shows "\<exists>ls. length ls = HASH_MAX_LOCK_DEPTH \<and> removeFromHashPos hasher keq tid e t = Inr (True, saveLocks tid ls
    (t\<lparr>elementLinks := (elementLinks t)[hashSize t - 1 := x, 0 := HASH_FREE_MARK]\<rparr>))"
proof -
  let ?n = "hashSize t" and ?S = "elementLinks t" and ?ls = "locks (lruLists t ! tid)"
  let ?s = "hashSize t - 1"
  have len: "length ?S = ?n" using ok by (simp add: index_ok_def)
  have big: "2 < HASH_MAX_LOCK_DEPTH" by (simp add: HASH_MAX_LOCK_DEPTH_def)
  have s0: "slot t ?s 0 = e" using e(1) n by (simp add: slot_def)
  have w1: "(?s + 1) mod ?n = 0" and w2: "(?s + 2) mod ?n = 1"
  proof -
    show "(?s + 1) mod ?n = 0" using n by simp
    have "(?s + 2) mod ?n = (1 + ?n) mod ?n" using n by (intro arg_cong[of _ _ "\<lambda>z. z mod ?n"]) simp
    also have "\<dots> = 1" using n mod_add_self2[of 1 ?n] by simp
    finally show "(?s + 2) mod ?n = 1" .
  qed
  have s1: "slot t ?s 1 = x" using w1 x(1) by (simp add: slot_def)
  have s2: "slot t ?s 2 = HASH_FREE_MARK" using w2 free by (simp add: slot_def)
  have k: "keyMatch keq (key_at t e) e t = Inr True" using refl e(2) by (simp add: keyMatch_def key_at_def)
  have pr: "probeStart (keyMatch keq (key_at t e)) ?ls ?s t = Inr (True, ?s, 0, probed t ?s 0 ?ls, locked t ?s 0)"
    using probeStart_run[where mt = "keyMatch keq (key_at t e)" and D = 0, OF ok _ _ tid(2)] n s0 k e(3) big by simp
  have n0: "lockNext (probed t ?s 0 ?ls) ?s 0 (locked t ?s 0) = Inr (0, [e, x] @ drop 2 ?ls, locked t ?s 1)"
    using lockNext_run[OF ok _ _ tid(2), of ?s 0 "[e]"] n big w1 s0 s1 e(1) len
    by (simp add: probed_def cyc_seq_def numeral_2_eq_2)
  have n1: "lockNext ([x, x] @ drop 2 ?ls) 0 1 (locked t ?s 1) =
      Inr (1, [x, x, HASH_FREE_MARK] @ drop 3 ?ls, locked t ?s 2)"
    using lockNext_run[OF ok _ _ tid(2), of ?s 1 "[x, x]"] n big w1 w2 s2
    by (simp add: numeral_2_eq_2 numeral_3_eq_3)
  have hx: "hasher (key (elementStorage t ! x)) mod ?n \<le> ?s"
    using home_x by (simp add: home_def key_at_def)
  have sb2: "shiftBack hasher ([x, x, HASH_FREE_MARK] @ drop 3 ?ls) 1 2 1 0 (locked t ?s 2) =
      Inr (1, [x, x, HASH_FREE_MARK] @ drop 3 ?ls, 1, locked t ?s 2)"
    by (subst shiftBack.simps) simp
  have sb: "shiftBack hasher ([e, x] @ drop 2 ?ls) 0 1 0 ?s (locked t ?s 1) =
      Inr (1, [x, x, HASH_FREE_MARK] @ drop 3 ?ls, 1, locked t ?s 2)"
    using n1 sb2 hx x(2,3) by (subst shiftBack.simps) (simp add: Let_def numeral_2_eq_2)
  let ?l3 = "[x, HASH_FREE_MARK, HASH_FREE_MARK] @ drop 3 ?ls"
  have "cyc_upd ?S ?s [x, HASH_FREE_MARK, HASH_FREE_MARK] = ?S[?s := x, 0 := HASH_FREE_MARK]"
  proof -
    have "?S[?s := x, 0 := HASH_FREE_MARK] ! 1 = HASH_FREE_MARK" using n len free by simp
    then have "?S[?s := x, 0 := HASH_FREE_MARK, 1 := HASH_FREE_MARK] = ?S[?s := x, 0 := HASH_FREE_MARK]"
      using n len by (metis list_update_id)
    then show ?thesis using cyc_upd_3[of ?S x HASH_FREE_MARK HASH_FREE_MARK] n len by simp
  qed
  then have un: "unlockElementsHash ?s 1 ?l3 (locked t ?s 2) =
      Inr (t\<lparr>elementLinks := ?S[?s := x, 0 := HASH_FREE_MARK]\<rparr>)"
    using unlock_locked[OF ok, of ?s 2 ?l3 "elementStorage t"] n w2 by (simp add: locked_def numeral_3_eq_3)
  have "removeFromHash hasher (keyMatch keq (key_at t e)) tid ?s t =
      Inr (True, saveLocks tid ?l3 (t\<lparr>elementLinks := ?S[?s := x, 0 := HASH_FREE_MARK]\<rparr>))"
    using pr n0 sb un tid big by (simp add: removeFromHash_def Let_def)
  moreover have "length ?l3 = HASH_MAX_LOCK_DEPTH" using tid(2) big by simp
  ultimately show ?thesis using home_e e(2)
    by (intro exI[of _ ?l3]) (simp add: removeFromHashPos_def home_def key_at_def)
qed

end
