(* ===== verification/XXHash.thy ===== *)
theory XXHash
  imports YAM_Prelude
begin

text \<open>
  The hash functions of \<open>src/src/xxhash.c\<close>: the one-shot functions \<open>XXH32\<close> and \<open>XXH64\<close> (the
  second is the hash functor of the cache) and the streaming interface \<open>reset\<close>, \<open>update\<close>,
  \<open>digest\<close>. A pointer into the input is the list of the bytes from there on. The byte order of the
  processor, the setting of \<open>XXH_USE_UNALIGNED_ACCESS\<close> and the address of the input are parameters;
  \<open>XXH64\<close> without them is the instance that an x86-64 build selects.
\<close>

unbundle bit_operations_syntax

section \<open>Reads and constants\<close>

type_synonym byte = "8 word"

definition read_le :: "nat \<Rightarrow> byte list \<Rightarrow> 'w::len word" where
  "read_le n p = foldr (\<lambda>b acc. push_bit 8 acc OR ucast b) (take n p) 0"

datatype XXH_endianess = XXH_bigEndian | XXH_littleEndian

datatype XXH_alignment = XXH_aligned | XXH_unaligned

text \<open>
  Dereferencing a pointer to \<open>n\<close> bytes on a processor with the given byte order. Bytes past the end
  of the list are zeros; the loops below never read them.
\<close>

definition load_word :: "XXH_endianess \<Rightarrow> nat \<Rightarrow> byte list \<Rightarrow> 'w::len word" where
  "load_word cpu n p =
     (let b = take n (p @ replicate n 0)
      in case cpu of XXH_littleEndian \<Rightarrow> read_le n b | XXH_bigEndian \<Rightarrow> read_le n (rev b))"

definition XXH_swap32 :: "32 word \<Rightarrow> 32 word" where
  "XXH_swap32 x = (push_bit 24 x AND 0xff000000) OR (push_bit 8 x AND 0x00ff0000) OR
     (drop_bit 8 x AND 0x0000ff00) OR (drop_bit 24 x AND 0x000000ff)"

definition XXH_swap64 :: "64 word \<Rightarrow> 64 word" where
  "XXH_swap64 x = (push_bit 56 x AND 0xff00000000000000) OR (push_bit 40 x AND 0x00ff000000000000) OR
     (push_bit 24 x AND 0x0000ff0000000000) OR (push_bit 8 x AND 0x000000ff00000000) OR
     (drop_bit 8 x AND 0x00000000ff000000) OR (drop_bit 24 x AND 0x0000000000ff0000) OR
     (drop_bit 40 x AND 0x000000000000ff00) OR (drop_bit 56 x AND 0x00000000000000ff)"

text \<open>The aligned and the unaligned read differ in the type of the pointer, not in the value read.\<close>

definition XXH_readLE32_align :: "XXH_endianess \<Rightarrow> byte list \<Rightarrow> XXH_endianess \<Rightarrow> XXH_alignment \<Rightarrow> 32 word" where
  "XXH_readLE32_align cpu p endian align =
     (case align of
        XXH_unaligned \<Rightarrow> if endian = XXH_littleEndian then load_word cpu 4 p else XXH_swap32 (load_word cpu 4 p)
      | XXH_aligned \<Rightarrow> if endian = XXH_littleEndian then load_word cpu 4 p else XXH_swap32 (load_word cpu 4 p))"

definition XXH_readLE32 :: "XXH_endianess \<Rightarrow> byte list \<Rightarrow> XXH_endianess \<Rightarrow> 32 word" where
  "XXH_readLE32 cpu p endian = XXH_readLE32_align cpu p endian XXH_unaligned"

definition XXH_readLE64_align :: "XXH_endianess \<Rightarrow> byte list \<Rightarrow> XXH_endianess \<Rightarrow> XXH_alignment \<Rightarrow> 64 word" where
  "XXH_readLE64_align cpu p endian align =
     (case align of
        XXH_unaligned \<Rightarrow> if endian = XXH_littleEndian then load_word cpu 8 p else XXH_swap64 (load_word cpu 8 p)
      | XXH_aligned \<Rightarrow> if endian = XXH_littleEndian then load_word cpu 8 p else XXH_swap64 (load_word cpu 8 p))"

definition XXH_readLE64 :: "XXH_endianess \<Rightarrow> byte list \<Rightarrow> XXH_endianess \<Rightarrow> 64 word" where
  "XXH_readLE64 cpu p endian = XXH_readLE64_align cpu p endian XXH_unaligned"

definition XXH_rotl32 :: "32 word \<Rightarrow> nat \<Rightarrow> 32 word" where
  "XXH_rotl32 x r = (push_bit r x OR drop_bit (32 - r) x)"

definition XXH_rotl64 :: "64 word \<Rightarrow> nat \<Rightarrow> 64 word" where
  "XXH_rotl64 x r = (push_bit r x OR drop_bit (64 - r) x)"

definition PRIME32_1 :: "32 word" where "PRIME32_1 = 2654435761"
definition PRIME32_2 :: "32 word" where "PRIME32_2 = 2246822519"
definition PRIME32_3 :: "32 word" where "PRIME32_3 = 3266489917"
definition PRIME32_4 :: "32 word" where "PRIME32_4 = 668265263"
definition PRIME32_5 :: "32 word" where "PRIME32_5 = 374761393"

definition PRIME64_1 :: "64 word" where "PRIME64_1 = 11400714785074694791"
definition PRIME64_2 :: "64 word" where "PRIME64_2 = 14029467366897019727"
definition PRIME64_3 :: "64 word" where "PRIME64_3 = 1609587929392839161"
definition PRIME64_4 :: "64 word" where "PRIME64_4 = 9650029242287828579"
definition PRIME64_5 :: "64 word" where "PRIME64_5 = 2870177450012600261"

lemmas prime_defs = PRIME32_1_def PRIME32_2_def PRIME32_3_def PRIME32_4_def PRIME32_5_def
  PRIME64_1_def PRIME64_2_def PRIME64_3_def PRIME64_4_def PRIME64_5_def

type_synonym 'v lanes = "'v \<times> 'v \<times> 'v \<times> 'v"

section \<open>The one-shot hashes\<close>

text \<open>
  The three statements that consume one word into a lane, and the loop over whole stripes. The reads
  of words, \<open>XXH_get32bits\<close> and \<open>XXH_get64bits\<close> with the byte order and alignment of the call, are
  the parameters \<open>rd\<close>, \<open>rd32\<close> and \<open>rd64\<close>.
\<close>

definition XXH32_round :: "32 word \<Rightarrow> 32 word \<Rightarrow> 32 word" where
  "XXH32_round v input = XXH_rotl32 (v + input * PRIME32_2) 13 * PRIME32_1"

definition XXH64_round :: "64 word \<Rightarrow> 64 word \<Rightarrow> 64 word" where
  "XXH64_round v input = XXH_rotl64 (v + input * PRIME64_2) 31 * PRIME64_1"

definition XXH32_stripe :: "(byte list \<Rightarrow> 32 word) \<Rightarrow> 32 word lanes \<Rightarrow> byte list \<Rightarrow> 32 word lanes" where
  "XXH32_stripe rd V p = (case V of (v1, v2, v3, v4) \<Rightarrow>
     (XXH32_round v1 (rd p), XXH32_round v2 (rd (drop 4 p)),
      XXH32_round v3 (rd (drop 8 p)), XXH32_round v4 (rd (drop 12 p))))"

definition XXH64_stripe :: "(byte list \<Rightarrow> 64 word) \<Rightarrow> 64 word lanes \<Rightarrow> byte list \<Rightarrow> 64 word lanes" where
  "XXH64_stripe rd V p = (case V of (v1, v2, v3, v4) \<Rightarrow>
     (XXH64_round v1 (rd p), XXH64_round v2 (rd (drop 8 p)),
      XXH64_round v3 (rd (drop 16 p)), XXH64_round v4 (rd (drop 24 p))))"

text \<open>\<open>do \<dots> while (p <= limit)\<close>: whole blocks of \<open>n\<close> bytes; the rest of the input is returned.\<close>

function stripes :: "nat \<Rightarrow> ('v \<Rightarrow> byte list \<Rightarrow> 'v) \<Rightarrow> 'v \<Rightarrow> byte list \<Rightarrow> 'v \<times> byte list" where
  "stripes n stripe V p =
     (if n \<le> length p \<and> 0 < n then stripes n stripe (stripe V p) (drop n p) else (V, p))"
  by pat_completeness auto
termination
  by (relation "measure (\<lambda>(n, f, V, p). length p)") auto

declare stripes.simps [simp del]

definition XXH32_start :: "32 word \<Rightarrow> 32 word lanes" where
  "XXH32_start seed = (seed + PRIME32_1 + PRIME32_2, seed + PRIME32_2, seed + 0, seed - PRIME32_1)"

definition XXH64_start :: "64 word \<Rightarrow> 64 word lanes" where
  "XXH64_start seed = (seed + PRIME64_1 + PRIME64_2, seed + PRIME64_2, seed + 0, seed - PRIME64_1)"

definition XXH32_converge :: "32 word lanes \<Rightarrow> 32 word" where
  "XXH32_converge V = (case V of (v1, v2, v3, v4) \<Rightarrow>
     XXH_rotl32 v1 1 + XXH_rotl32 v2 7 + XXH_rotl32 v3 12 + XXH_rotl32 v4 18)"

definition XXH64_merge :: "64 word \<Rightarrow> 64 word \<Rightarrow> 64 word" where
  "XXH64_merge h v = (h XOR (XXH_rotl64 (v * PRIME64_2) 31 * PRIME64_1)) * PRIME64_1 + PRIME64_4"

definition XXH64_converge :: "64 word lanes \<Rightarrow> 64 word" where
  "XXH64_converge V = (case V of (v1, v2, v3, v4) \<Rightarrow>
     let h = XXH_rotl64 v1 1 + XXH_rotl64 v2 7 + XXH_rotl64 v3 12 + XXH_rotl64 v4 18
     in XXH64_merge (XXH64_merge (XXH64_merge (XXH64_merge h v1) v2) v3) v4)"

text \<open>The loops over the remaining words and bytes, and the final mixing.\<close>

function XXH32_words :: "(byte list \<Rightarrow> 32 word) \<Rightarrow> 32 word \<Rightarrow> byte list \<Rightarrow> 32 word \<times> byte list" where
  "XXH32_words rd h p =
     (if 4 \<le> length p
      then XXH32_words rd (XXH_rotl32 (h + rd p * PRIME32_3) 17 * PRIME32_4) (drop 4 p)
      else (h, p))"
  by pat_completeness auto
termination
  by (relation "measure (\<lambda>(rd, h, p). length p)") auto

function XXH64_words :: "(byte list \<Rightarrow> 64 word) \<Rightarrow> 64 word \<Rightarrow> byte list \<Rightarrow> 64 word \<times> byte list" where
  "XXH64_words rd h p =
     (if 8 \<le> length p
      then XXH64_words rd
        (XXH_rotl64 (h XOR (XXH_rotl64 (rd p * PRIME64_2) 31 * PRIME64_1)) 27 * PRIME64_1 + PRIME64_4)
        (drop 8 p)
      else (h, p))"
  by pat_completeness auto
termination
  by (relation "measure (\<lambda>(rd, h, p). length p)") auto

declare XXH32_words.simps [simp del] XXH64_words.simps [simp del]

definition XXH64_half :: "(byte list \<Rightarrow> 32 word) \<Rightarrow> 64 word \<Rightarrow> byte list \<Rightarrow> 64 word \<times> byte list" where
  "XXH64_half rd32 h p =
     (if 4 \<le> length p
      then (XXH_rotl64 (h XOR (ucast (rd32 p) * PRIME64_1)) 23 * PRIME64_2 + PRIME64_3, drop 4 p)
      else (h, p))"

fun XXH32_bytes :: "32 word \<Rightarrow> byte list \<Rightarrow> 32 word" where
  "XXH32_bytes h [] = h"
| "XXH32_bytes h (b # p) = XXH32_bytes (XXH_rotl32 (h + ucast b * PRIME32_5) 11 * PRIME32_1) p"

fun XXH64_bytes :: "64 word \<Rightarrow> byte list \<Rightarrow> 64 word" where
  "XXH64_bytes h [] = h"
| "XXH64_bytes h (b # p) = XXH64_bytes (XXH_rotl64 (h XOR (ucast b * PRIME64_5)) 11 * PRIME64_1) p"

definition XXH32_avalanche :: "32 word \<Rightarrow> 32 word" where
  "XXH32_avalanche h =
     (let h = h XOR drop_bit 15 h; h = h * PRIME32_2; h = h XOR drop_bit 13 h; h = h * PRIME32_3
      in h XOR drop_bit 16 h)"

definition XXH64_avalanche :: "64 word \<Rightarrow> 64 word" where
  "XXH64_avalanche h =
     (let h = h XOR drop_bit 33 h; h = h * PRIME64_2; h = h XOR drop_bit 29 h; h = h * PRIME64_3
      in h XOR drop_bit 32 h)"

definition XXH32_finish :: "(byte list \<Rightarrow> 32 word) \<Rightarrow> 32 word \<Rightarrow> byte list \<Rightarrow> 32 word" where
  "XXH32_finish rd h p = (case XXH32_words rd h p of (h, p) \<Rightarrow> XXH32_avalanche (XXH32_bytes h p))"

definition XXH64_finish ::
    "(byte list \<Rightarrow> 32 word) \<Rightarrow> (byte list \<Rightarrow> 64 word) \<Rightarrow> 64 word \<Rightarrow> byte list \<Rightarrow> 64 word" where
  "XXH64_finish rd32 rd64 h p = (case XXH64_words rd64 h p of (h, p) \<Rightarrow>
     (case XXH64_half rd32 h p of (h, p) \<Rightarrow> XXH64_avalanche (XXH64_bytes h p)))"

definition XXH32_endian_align ::
    "XXH_endianess \<Rightarrow> byte list \<Rightarrow> 32 word \<Rightarrow> XXH_endianess \<Rightarrow> XXH_alignment \<Rightarrow> 32 word" where
  "XXH32_endian_align cpu input seed endian align =
     (let rd = (\<lambda>p. XXH_readLE32_align cpu p endian align);
          (h, p) = (if 16 \<le> length input
                    then case stripes 16 (XXH32_stripe rd) (XXH32_start seed) input of (V, p) \<Rightarrow> (XXH32_converge V, p)
                    else (seed + PRIME32_5, input))
      in XXH32_finish rd (h + of_nat (length input)) p)"

definition XXH64_endian_align ::
    "XXH_endianess \<Rightarrow> byte list \<Rightarrow> 64 word \<Rightarrow> XXH_endianess \<Rightarrow> XXH_alignment \<Rightarrow> 64 word" where
  "XXH64_endian_align cpu input seed endian align =
     (let rd32 = (\<lambda>p. XXH_readLE32_align cpu p endian align);
          rd64 = (\<lambda>p. XXH_readLE64_align cpu p endian align);
          (h, p) = (if 32 \<le> length input
                    then case stripes 32 (XXH64_stripe rd64) (XXH64_start seed) input of (V, p) \<Rightarrow> (XXH64_converge V, p)
                    else (seed + PRIME64_5, input))
      in XXH64_finish rd32 rd64 (h + of_nat (length input)) p)"

text \<open>
  The dispatch on the byte order that \<open>XXH_CPU_LITTLE_ENDIAN\<close> detects, the macros
  \<open>XXH_USE_UNALIGNED_ACCESS\<close> (\<open>unaligned_access\<close>) and \<open>XXH_FORCE_NATIVE_FORMAT\<close>, and the address of
  the input.
\<close>

record xxh_build =
  cpu_endian :: XXH_endianess
  unaligned_access :: bool

definition XXH_FORCE_NATIVE_FORMAT :: bool where "XXH_FORCE_NATIVE_FORMAT = False"

definition XXH32_on :: "xxh_build \<Rightarrow> nat \<Rightarrow> byte list \<Rightarrow> 32 word \<Rightarrow> 32 word" where
  "XXH32_on b addr input seed =
     (if \<not> unaligned_access b \<and> addr mod 4 = 0
      then if cpu_endian b = XXH_littleEndian \<or> XXH_FORCE_NATIVE_FORMAT
           then XXH32_endian_align (cpu_endian b) input seed XXH_littleEndian XXH_aligned
           else XXH32_endian_align (cpu_endian b) input seed XXH_bigEndian XXH_aligned
      else if cpu_endian b = XXH_littleEndian \<or> XXH_FORCE_NATIVE_FORMAT
           then XXH32_endian_align (cpu_endian b) input seed XXH_littleEndian XXH_unaligned
           else XXH32_endian_align (cpu_endian b) input seed XXH_bigEndian XXH_unaligned)"

definition XXH64_on :: "xxh_build \<Rightarrow> nat \<Rightarrow> byte list \<Rightarrow> 64 word \<Rightarrow> 64 word" where
  "XXH64_on b addr input seed =
     (if \<not> unaligned_access b \<and> addr mod 8 = 0
      then if cpu_endian b = XXH_littleEndian \<or> XXH_FORCE_NATIVE_FORMAT
           then XXH64_endian_align (cpu_endian b) input seed XXH_littleEndian XXH_aligned
           else XXH64_endian_align (cpu_endian b) input seed XXH_bigEndian XXH_aligned
      else if cpu_endian b = XXH_littleEndian \<or> XXH_FORCE_NATIVE_FORMAT
           then XXH64_endian_align (cpu_endian b) input seed XXH_littleEndian XXH_unaligned
           else XXH64_endian_align (cpu_endian b) input seed XXH_bigEndian XXH_unaligned)"

text \<open>The instances on x86-64, a little-endian processor with unaligned access.\<close>

definition XXH32 :: "byte list \<Rightarrow> 32 word \<Rightarrow> 32 word" where
  "XXH32 input seed = XXH32_endian_align XXH_littleEndian input seed XXH_littleEndian XXH_unaligned"

definition XXH64 :: "byte list \<Rightarrow> 64 word \<Rightarrow> 64 word" where
  "XXH64 input seed = XXH64_endian_align XXH_littleEndian input seed XXH_littleEndian XXH_unaligned"

section \<open>The streaming interface\<close>

text \<open>
  \<open>XXH_istate32_t\<close> and \<open>XXH_istate64_t\<close>: \<open>mem\<close> is the buffer \<open>mem32\<close> or \<open>mem64\<close> as bytes. A copy
  by \<open>memcpy\<close> into the middle of the buffer is \<open>blit\<close>.
\<close>

record 'v xxh_state =
  total_len :: "64 word"
  st_seed :: 'v
  st_v :: "'v lanes"
  mem :: "byte list"
  memsize :: nat

definition blit :: "byte list \<Rightarrow> nat \<Rightarrow> byte list \<Rightarrow> byte list" where
  "blit dst off src = take off dst @ src @ drop (off + length src) dst"

definition XXH32_reset :: "32 word xxh_state \<Rightarrow> 32 word \<Rightarrow> 32 word xxh_state" where
  "XXH32_reset st seed = st\<lparr>st_seed := seed, st_v := XXH32_start seed, total_len := 0, memsize := 0\<rparr>"

definition XXH64_reset :: "64 word xxh_state \<Rightarrow> 64 word \<Rightarrow> 64 word xxh_state" where
  "XXH64_reset st seed = st\<lparr>st_seed := seed, st_v := XXH64_start seed, total_len := 0, memsize := 0\<rparr>"

text \<open>
  \<open>XXH32_update_endian\<close> and \<open>XXH64_update_endian\<close> have the same statements, with blocks of 16
  and of 32 bytes.
\<close>

definition xxh_update ::
    "nat \<Rightarrow> ('v lanes \<Rightarrow> byte list \<Rightarrow> 'v lanes) \<Rightarrow> 'v xxh_state \<Rightarrow> byte list \<Rightarrow> 'v xxh_state" where
  "xxh_update n stripe st input =
     (let st = st\<lparr>total_len := total_len st + of_nat (length input)\<rparr> in
      if memsize st + length input < n
      then st\<lparr>mem := blit (mem st) (memsize st) input, memsize := memsize st + length input\<rparr>
      else
        let (st, p) =
              (if memsize st \<noteq> 0 then
                 let m = blit (mem st) (memsize st) (take (n - memsize st) input)
                 in (st\<lparr>mem := m, st_v := stripe (st_v st) m, memsize := 0\<rparr>, drop (n - memsize st) input)
               else (st, input));
            (st, p) = (case stripes n stripe (st_v st) p of (V, q) \<Rightarrow> (st\<lparr>st_v := V\<rparr>, q))
        in if p \<noteq> [] then st\<lparr>mem := blit (mem st) 0 p, memsize := length p\<rparr> else st)"

definition XXH32_update_endian ::
    "XXH_endianess \<Rightarrow> 32 word xxh_state \<Rightarrow> byte list \<Rightarrow> XXH_endianess \<Rightarrow> 32 word xxh_state" where
  "XXH32_update_endian cpu st input endian = xxh_update 16 (XXH32_stripe (\<lambda>p. XXH_readLE32 cpu p endian)) st input"

definition XXH32_update :: "XXH_endianess \<Rightarrow> 32 word xxh_state \<Rightarrow> byte list \<Rightarrow> 32 word xxh_state" where
  "XXH32_update cpu st input =
     (if cpu = XXH_littleEndian \<or> XXH_FORCE_NATIVE_FORMAT
      then XXH32_update_endian cpu st input XXH_littleEndian
      else XXH32_update_endian cpu st input XXH_bigEndian)"

definition XXH32_digest_endian :: "XXH_endianess \<Rightarrow> 32 word xxh_state \<Rightarrow> XXH_endianess \<Rightarrow> 32 word" where
  "XXH32_digest_endian cpu st endian =
     XXH32_finish (\<lambda>p. XXH_readLE32 cpu p endian)
       ((if 16 \<le> total_len st then XXH32_converge (st_v st) else st_seed st + PRIME32_5) + ucast (total_len st))
       (take (memsize st) (mem st))"

definition XXH32_digest :: "XXH_endianess \<Rightarrow> 32 word xxh_state \<Rightarrow> 32 word" where
  "XXH32_digest cpu st =
     (if cpu = XXH_littleEndian \<or> XXH_FORCE_NATIVE_FORMAT
      then XXH32_digest_endian cpu st XXH_littleEndian
      else XXH32_digest_endian cpu st XXH_bigEndian)"

definition XXH64_update_endian ::
    "XXH_endianess \<Rightarrow> 64 word xxh_state \<Rightarrow> byte list \<Rightarrow> XXH_endianess \<Rightarrow> 64 word xxh_state" where
  "XXH64_update_endian cpu st input endian = xxh_update 32 (XXH64_stripe (\<lambda>p. XXH_readLE64 cpu p endian)) st input"

definition XXH64_update :: "XXH_endianess \<Rightarrow> 64 word xxh_state \<Rightarrow> byte list \<Rightarrow> 64 word xxh_state" where
  "XXH64_update cpu st input =
     (if cpu = XXH_littleEndian \<or> XXH_FORCE_NATIVE_FORMAT
      then XXH64_update_endian cpu st input XXH_littleEndian
      else XXH64_update_endian cpu st input XXH_bigEndian)"

definition XXH64_digest_endian :: "XXH_endianess \<Rightarrow> 64 word xxh_state \<Rightarrow> XXH_endianess \<Rightarrow> 64 word" where
  "XXH64_digest_endian cpu st endian =
     XXH64_finish (\<lambda>p. XXH_readLE32 cpu p endian) (\<lambda>p. XXH_readLE64 cpu p endian)
       ((if 32 \<le> total_len st then XXH64_converge (st_v st) else st_seed st + PRIME64_5) + total_len st)
       (take (memsize st) (mem st))"

definition XXH64_digest :: "XXH_endianess \<Rightarrow> 64 word xxh_state \<Rightarrow> 64 word" where
  "XXH64_digest cpu st =
     (if cpu = XXH_littleEndian \<or> XXH_FORCE_NATIVE_FORMAT
      then XXH64_digest_endian cpu st XXH_littleEndian
      else XXH64_digest_endian cpu st XXH_bigEndian)"

section \<open>Every byte order reads the same words\<close>

lemma read_le_append: "n \<le> length p \<Longrightarrow> read_le n (p @ q) = read_le n p"
  by (simp add: read_le_def)

lemma read_le_zeros: "read_le n (take n (p @ replicate k 0)) = (read_le n p :: 'w::len word)"
proof -
  have "foldr (\<lambda>(b :: byte) acc. push_bit 8 acc OR ucast b) (replicate j 0) (0 :: 'w word) = 0" for j
    by (induction j) simp_all
  then show ?thesis by (simp add: read_le_def min_def)
qed

lemma bit_read_le:
  "bit (foldr (\<lambda>b acc. push_bit 8 acc OR ucast b) p (0 :: 'w::len word)) i \<longleftrightarrow>
   i < LENGTH('w) \<and> i div 8 < length p \<and> bit ((p :: byte list) ! (i div 8)) (i mod 8)"
proof (induction p arbitrary: i)
  case (Cons b p)
  show ?case
  proof (cases "i < 8")
    case True
    then show ?thesis by (auto simp: bit_simps dest: bit_imp_le_length)
  next
    case False
    then have "i div 8 = Suc ((i - 8) div 8)" "i mod 8 = (i - 8) mod 8" by (simp_all add: le_div_geq le_mod_geq)
    then show ?thesis using False Cons[of "i - 8"] by (auto simp: bit_simps dest: bit_imp_le_length)
  qed
qed simp

text \<open>One term of a swap: byte \<open>c - a\<close> moved up, or byte \<open>c + a\<close> moved down, to byte \<open>c\<close>.\<close>

lemma byte_up:
  assumes "r < 8" and "8 * q + r < LENGTH('w)" and "a \<le> c"
  shows "bit (push_bit (8 * a) x AND push_bit (8 * c) (mask 8) :: 'w::len word) (8 * q + r) \<longleftrightarrow>
    q = c \<and> bit x (8 * (c - a) + r)"
proof (cases "q = c")
  case True
  then have "8 * q + r - 8 * a = 8 * (c - a) + r" using assms(3) by simp
  then show ?thesis using True assms by (simp add: bit_simps)
next
  case False
  then have "8 * q + r < 8 * c \<or> 8 \<le> 8 * q + r - 8 * c" using assms(1) by linarith
  then show ?thesis using False by (auto simp: bit_simps)
qed

lemma byte_down:
  assumes "r < 8" and "8 * q + r < LENGTH('w)"
  shows "bit (drop_bit (8 * a) x AND push_bit (8 * c) (mask 8) :: 'w::len word) (8 * q + r) \<longleftrightarrow>
    q = c \<and> bit x (8 * (c + a) + r)"
proof (cases "q = c")
  case True
  then show ?thesis using assms by (simp add: bit_simps ac_simps)
next
  case False
  then have "8 * q + r < 8 * c \<or> 8 \<le> 8 * q + r - 8 * c" using assms(1) by linarith
  then show ?thesis using False by (auto simp: bit_simps)
qed

lemma swap32_bytes: "XXH_swap32 x =
    (push_bit (8 * 3) x AND push_bit (8 * 3) (mask 8)) OR (push_bit (8 * 1) x AND push_bit (8 * 2) (mask 8)) OR
    (drop_bit (8 * 1) x AND push_bit (8 * 1) (mask 8)) OR (drop_bit (8 * 3) x AND push_bit (8 * 0) (mask 8))"
  by (simp add: XXH_swap32_def mask_eq_exp_minus_1 push_bit_eq_mult[of _ "mask _"])

lemma swap64_bytes: "XXH_swap64 x =
    (push_bit (8 * 7) x AND push_bit (8 * 7) (mask 8)) OR (push_bit (8 * 5) x AND push_bit (8 * 6) (mask 8)) OR
    (push_bit (8 * 3) x AND push_bit (8 * 5) (mask 8)) OR (push_bit (8 * 1) x AND push_bit (8 * 4) (mask 8)) OR
    (drop_bit (8 * 1) x AND push_bit (8 * 3) (mask 8)) OR (drop_bit (8 * 3) x AND push_bit (8 * 2) (mask 8)) OR
    (drop_bit (8 * 5) x AND push_bit (8 * 1) (mask 8)) OR (drop_bit (8 * 7) x AND push_bit (8 * 0) (mask 8))"
  by (simp add: XXH_swap64_def mask_eq_exp_minus_1 push_bit_eq_mult[of _ "mask _"])

lemma bit_swap32:
  assumes "q < 4" and "r < 8"
  shows "bit (XXH_swap32 x) (8 * q + r) \<longleftrightarrow> bit x (8 * (3 - q) + r)"
proof -
  have "q = 0 \<or> q = 1 \<or> q = 2 \<or> q = 3" and l: "8 * q + r < LENGTH(32)" using assms by auto
  moreover have "bit (XXH_swap32 x) (8 * q + r) \<longleftrightarrow>
      q = 3 \<and> bit x (8 * (3 - 3) + r) \<or> q = 2 \<and> bit x (8 * (2 - 1) + r) \<or>
      q = 1 \<and> bit x (8 * (1 + 1) + r) \<or> q = 0 \<and> bit x (8 * (0 + 3) + r)"
    unfolding swap32_bytes by (simp only: bit_or_iff byte_up[OF assms(2) l] byte_down[OF assms(2) l] order_refl one_le_numeral)
  ultimately show ?thesis by (elim disjE) simp_all
qed

lemma bit_swap64:
  assumes "q < 8" and "r < 8"
  shows "bit (XXH_swap64 x) (8 * q + r) \<longleftrightarrow> bit x (8 * (7 - q) + r)"
proof -
  have "q = 0 \<or> q = 1 \<or> q = 2 \<or> q = 3 \<or> q = 4 \<or> q = 5 \<or> q = 6 \<or> q = 7" and l: "8 * q + r < LENGTH(64)"
    using assms by auto
  moreover have le: "(5::nat) \<le> 6" "(3::nat) \<le> 5" "(1::nat) \<le> 4" by simp_all
  have "bit (XXH_swap64 x) (8 * q + r) \<longleftrightarrow>
      q = 7 \<and> bit x (8 * (7 - 7) + r) \<or> q = 6 \<and> bit x (8 * (6 - 5) + r) \<or>
      q = 5 \<and> bit x (8 * (5 - 3) + r) \<or> q = 4 \<and> bit x (8 * (4 - 1) + r) \<or>
      q = 3 \<and> bit x (8 * (3 + 1) + r) \<or> q = 2 \<and> bit x (8 * (2 + 3) + r) \<or>
      q = 1 \<and> bit x (8 * (1 + 5) + r) \<or> q = 0 \<and> bit x (8 * (0 + 7) + r)"
    unfolding swap64_bytes by (simp only: bit_or_iff byte_up[OF assms(2) l] byte_down[OF assms(2) l] order_refl le)
  ultimately show ?thesis by (elim disjE) simp_all
qed

text \<open>Swapping the word read from the reversed bytes.\<close>

lemma swap32_read:
  assumes "length b = 4"
  shows "XXH_swap32 (read_le 4 (rev b)) = read_le 4 b"
proof (rule bit_word_eqI)
  fix i assume "i < LENGTH(32)"
  then have i: "i div 8 < 4" "i mod 8 < 8" by auto
  have "8 * (3 - i div 8) + i mod 8 < 32" using i by linarith
  then show "bit (XXH_swap32 (read_le 4 (rev b))) i \<longleftrightarrow> bit (read_le 4 b :: 32 word) i"
    using assms bit_swap32[OF i, of "read_le 4 (rev b)"] i \<open>i < LENGTH(32)\<close>
    by (simp add: read_le_def bit_read_le rev_nth)
qed

lemma swap64_read:
  assumes "length b = 8"
  shows "XXH_swap64 (read_le 8 (rev b)) = read_le 8 b"
proof (rule bit_word_eqI)
  fix i assume "i < LENGTH(64)"
  then have i: "i div 8 < 8" "i mod 8 < 8" by auto
  have "8 * (7 - i div 8) + i mod 8 < 64" using i by linarith
  then show "bit (XXH_swap64 (read_le 8 (rev b))) i \<longleftrightarrow> bit (read_le 8 b :: 64 word) i"
    using assms bit_swap64[OF i, of "read_le 8 (rev b)"] i \<open>i < LENGTH(64)\<close>
    by (simp add: read_le_def bit_read_le rev_nth)
qed

text \<open>A read that swaps exactly on a big-endian processor yields the little-endian word.\<close>

lemma load_little: "load_word XXH_littleEndian n p = read_le n p"
  by (simp only: load_word_def Let_def read_le_zeros XXH_endianess.case)

lemma load_big: "load_word XXH_bigEndian n p = read_le n (rev (take n (p @ replicate n 0)))"
  by (simp only: load_word_def Let_def XXH_endianess.case)

lemma length_padded: "length (take n (p @ replicate n 0)) = n"
  by simp

lemma read32_portable: "XXH_readLE32_align cpu p cpu align = read_le 4 p"
  using swap32_read[OF length_padded, of p]
  by (cases cpu; cases align)
    (simp_all add: XXH_readLE32_align_def load_little load_big read_le_zeros del: take_append rev_append)

lemma read64_portable: "XXH_readLE64_align cpu p cpu align = read_le 8 p"
  using swap64_read[OF length_padded, of p]
  by (cases cpu; cases align)
    (simp_all add: XXH_readLE64_align_def load_little load_big read_le_zeros del: take_append rev_append)

lemma update32: "XXH32_update cpu = xxh_update 16 (XXH32_stripe (read_le 4))"
proof (intro ext)
  show "XXH32_update cpu st input = xxh_update 16 (XXH32_stripe (read_le 4)) st input" for st input
    using read32_portable[of cpu _ XXH_unaligned]
    by (cases cpu) (simp_all add: XXH32_update_def XXH32_update_endian_def XXH_FORCE_NATIVE_FORMAT_def XXH_readLE32_def)
qed

lemma update64: "XXH64_update cpu = xxh_update 32 (XXH64_stripe (read_le 8))"
proof (intro ext)
  show "XXH64_update cpu st input = xxh_update 32 (XXH64_stripe (read_le 8)) st input" for st input
    using read64_portable[of cpu _ XXH_unaligned]
    by (cases cpu) (simp_all add: XXH64_update_def XXH64_update_endian_def XXH_FORCE_NATIVE_FORMAT_def XXH_readLE64_def)
qed

text \<open>The digests and the one-shot hashes with the reads written out.\<close>

lemma digest32: "XXH32_digest cpu st =
    XXH32_finish (read_le 4) ((if 16 \<le> total_len st then XXH32_converge (st_v st) else st_seed st + PRIME32_5)
      + ucast (total_len st)) (take (memsize st) (mem st))"
  using read32_portable[of cpu _ XXH_unaligned]
  by (cases cpu) (simp_all add: XXH32_digest_def XXH32_digest_endian_def XXH_FORCE_NATIVE_FORMAT_def XXH_readLE32_def)

lemma digest64: "XXH64_digest cpu st =
    XXH64_finish (read_le 4) (read_le 8) ((if 32 \<le> total_len st then XXH64_converge (st_v st) else st_seed st + PRIME64_5)
      + total_len st) (take (memsize st) (mem st))"
  using read32_portable[of cpu _ XXH_unaligned] read64_portable[of cpu _ XXH_unaligned]
  by (cases cpu) (simp_all add: XXH64_digest_def XXH64_digest_endian_def XXH_FORCE_NATIVE_FORMAT_def XXH_readLE32_def XXH_readLE64_def)

lemma align32: "XXH32_endian_align cpu input seed cpu align =
    (case (if 16 \<le> length input
           then case stripes 16 (XXH32_stripe (read_le 4)) (XXH32_start seed) input of (V, p) \<Rightarrow> (XXH32_converge V, p)
           else (seed + PRIME32_5, input)) of (h, p) \<Rightarrow> XXH32_finish (read_le 4) (h + of_nat (length input)) p)"
  by (simp only: XXH32_endian_align_def Let_def read32_portable)

lemma align64: "XXH64_endian_align cpu input seed cpu align =
    (case (if 32 \<le> length input
           then case stripes 32 (XXH64_stripe (read_le 8)) (XXH64_start seed) input of (V, p) \<Rightarrow> (XXH64_converge V, p)
           else (seed + PRIME64_5, input)) of (h, p) \<Rightarrow> XXH64_finish (read_le 4) (read_le 8) (h + of_nat (length input)) p)"
  by (simp only: XXH64_endian_align_def Let_def read32_portable read64_portable)

lemma XXH32_any_build: "XXH32_on b addr input seed = XXH32 input seed"
  by (cases "cpu_endian b") (simp_all add: XXH32_on_def XXH_FORCE_NATIVE_FORMAT_def XXH32_def align32)

lemma XXH64_any_build: "XXH64_on b addr input seed = XXH64 input seed"
  by (cases "cpu_endian b") (simp_all add: XXH64_on_def XXH_FORCE_NATIVE_FORMAT_def XXH64_def align64)

lemma XXH64_reads: "XXH64 input seed =
    (case (if 32 \<le> length input
           then case stripes 32 (XXH64_stripe (read_le 8)) (XXH64_start seed) input of (V, p) \<Rightarrow> (XXH64_converge V, p)
           else (seed + PRIME64_5, input)) of (h, p) \<Rightarrow> XXH64_finish (read_le 4) (read_le 8) (h + of_nat (length input)) p)"
  by (simp only: XXH64_def align64)

section \<open>Streaming computes the one-shot hash\<close>

text \<open>
  What both widths promise: a stripe reads only its own block. \<open>feeds st xs\<close> says that the
  streaming state \<open>st\<close> has consumed the bytes \<open>xs\<close>.
\<close>

definition feeds ::
    "nat \<Rightarrow> ('v lanes \<Rightarrow> byte list \<Rightarrow> 'v lanes) \<Rightarrow> 'v lanes \<Rightarrow> 'v \<Rightarrow> 'v xxh_state \<Rightarrow> byte list \<Rightarrow> bool" where
  "feeds n stripe V0 seed st xs \<longleftrightarrow> total_len st = of_nat (length xs) \<and> st_seed st = seed \<and>
     length (mem st) = n \<and> memsize st < n \<and>
     stripes n stripe V0 xs = (st_v st, take (memsize st) (mem st))"

locale stripe_hash =
  fixes n :: nat and stripe :: "'v lanes \<Rightarrow> byte list \<Rightarrow> 'v lanes"
  assumes block: "0 < n" and local: "n \<le> length p \<Longrightarrow> stripe V (p @ q) = stripe V p"
begin

lemma stripes_append:
  "stripes n stripe V (xs @ ys) = (case stripes n stripe V xs of (V', r) \<Rightarrow> stripes n stripe V' (r @ ys))"
proof (induction xs arbitrary: V rule: length_induct)
  case (1 xs)
  show ?case
  proof (cases "n \<le> length xs")
    case True
    have "stripes n stripe V (xs @ ys) = stripes n stripe (stripe V xs) (drop n xs @ ys)"
      using True block local[OF True] by (subst stripes.simps) simp
    also have "\<dots> = (case stripes n stripe (stripe V xs) (drop n xs) of (V', r) \<Rightarrow> stripes n stripe V' (r @ ys))"
      using 1[rule_format, of "drop n xs" "stripe V xs"] True block by simp
    also have "stripes n stripe (stripe V xs) (drop n xs) = stripes n stripe V xs"
      using True block by (subst (2) stripes.simps) simp
    finally show ?thesis .
  next
    case False
    then have "stripes n stripe V xs = (V, xs)" by (subst stripes.simps) simp
    then show ?thesis by simp
  qed
qed

lemma stripes_rest: "length (snd (stripes n stripe V xs)) < n"
proof (induction xs arbitrary: V rule: length_induct)
  case (1 xs)
  have "length (drop n xs) < length xs" if "n \<le> length xs" using that block by simp
  then have "length (snd (stripes n stripe (stripe V xs) (drop n xs))) < n" if "n \<le> length xs"
    using 1 that by blast
  then show ?case using block by (subst stripes.simps) auto
qed

lemma stripes_short: "length xs < n \<Longrightarrow> stripes n stripe V xs = (V, xs)"
  by (subst stripes.simps) simp

text \<open>One call of \<open>update\<close> consumes its input.\<close>

lemma update_feeds:
  assumes f: "feeds n stripe V0 seed st xs"
  shows "feeds n stripe V0 seed (xxh_update n stripe st input) (xs @ input)"
proof -
  let ?r = "take (memsize st) (mem st)" and ?m = "memsize st"
  have st: "total_len st = of_nat (length xs)" "st_seed st = seed" "length (mem st) = n" "?m < n"
    "stripes n stripe V0 xs = (st_v st, ?r)" using f by (auto simp: feeds_def)
  have app: "stripes n stripe V0 (xs @ input) = stripes n stripe (st_v st) (?r @ input)"
    using stripes_append[of V0 xs input] st(5) by simp
  have lr: "length ?r = ?m" using st by simp
  show ?thesis
  proof (cases "?m + length input < n")
    case True
    then have "stripes n stripe V0 (xs @ input) = (st_v st, ?r @ input)"
      unfolding app using lr by (intro stripes_short) simp
    moreover have "take (?m + length input) (blit (mem st) ?m input) = ?r @ input"
      using st True by (simp add: blit_def)
    ultimately show ?thesis using st True by (simp add: feeds_def xxh_update_def blit_def)
  next
    case False
    define m where "m = (if ?m \<noteq> 0 then blit (mem st) ?m (take (n - ?m) input) else mem st)"
    define V where "V = (if ?m \<noteq> 0 then stripe (st_v st) m else st_v st)"
    define p where "p = (if ?m \<noteq> 0 then drop (n - ?m) input else input)"
    have lm: "length m = n" using st False by (simp add: m_def blit_def)
    have "stripes n stripe (st_v st) (?r @ input) = stripes n stripe V p"
    proof (cases "?m = 0")
      case True
      then show ?thesis by (simp add: V_def p_def)
    next
      case nz: False
      have m: "m = ?r @ take (n - ?m) input" using nz st False by (simp add: m_def blit_def)
      have split: "?r @ input = m @ drop (n - ?m) input" unfolding m by simp
      have "stripes n stripe (st_v st) (m @ drop (n - ?m) input) = stripes n stripe (stripe (st_v st) m) (drop (n - ?m) input)"
        using block lm local[of m "st_v st"] by (subst stripes.simps) simp
      then show ?thesis unfolding split using nz by (simp add: V_def p_def)
    qed
    then have str: "stripes n stripe V0 (xs @ input) = stripes n stripe V p" using app by simp
    obtain V' q where q: "stripes n stripe V p = (V', q)" by (cases "stripes n stripe V p")
    have lq: "length q < n" using stripes_rest[of V p] q by simp
    have "xxh_update n stripe st input =
      st\<lparr>total_len := total_len st + of_nat (length input), st_v := V',
         mem := (if q \<noteq> [] then blit m 0 q else m), memsize := length q\<rparr>"
      using False q by (auto simp: xxh_update_def Let_def m_def V_def p_def)
    then show ?thesis using st str q lq lm by (simp add: feeds_def blit_def)
  qed
qed

lemma updates_feed:
  assumes "feeds n stripe V0 seed st xs"
  shows "feeds n stripe V0 seed (foldl (xxh_update n stripe) st chunks) (xs @ concat chunks)"
  using assms
proof (induction chunks arbitrary: st xs)
  case (Cons c cs)
  show ?case using Cons.IH[OF update_feeds[OF Cons.prems]] by simp
qed simp

end

interpretation xxh32: stripe_hash 16 "XXH32_stripe (read_le 4)"
  by unfold_locales
    (auto simp: XXH32_stripe_def read_le_append split: prod.splits)

interpretation xxh64: stripe_hash 32 "XXH64_stripe (read_le 8)"
  by unfold_locales
    (auto simp: XXH64_stripe_def read_le_append split: prod.splits)

lemma xxh32_start: "length (mem st) = 16 \<Longrightarrow> feeds 16 (XXH32_stripe (read_le 4)) (XXH32_start seed) seed (XXH32_reset st seed) []"
  by (simp add: feeds_def XXH32_reset_def stripes.simps)

lemma xxh64_start: "length (mem st) = 32 \<Longrightarrow> feeds 32 (XXH64_stripe (read_le 8)) (XXH64_start seed) seed (XXH64_reset st seed) []"
  by (simp add: feeds_def XXH64_reset_def stripes.simps)

lemma of_nat_le_64: "k < 2 ^ 64 \<Longrightarrow> m < 2 ^ 64 \<Longrightarrow> (of_nat m :: 64 word) \<le> of_nat k \<longleftrightarrow> m \<le> k"
  by (simp add: word_le_nat_alt unat_of_nat take_bit_eq_mod)

lemma digest64_feeds:
  assumes "feeds 32 (XXH64_stripe (read_le 8)) (XXH64_start seed) seed st xs" and "length xs < 2 ^ 64"
  shows "XXH64_digest cpu st = XXH64 xs seed"
proof -
  have "32 \<le> total_len st \<longleftrightarrow> 32 \<le> length xs"
    using of_nat_le_64[OF assms(2), of 32] assms(1) by (simp add: feeds_def)
  moreover have "stripes 32 (XXH64_stripe (read_le 8)) (XXH64_start seed) xs = (XXH64_start seed, xs)" if "\<not> 32 \<le> length xs"
    using that by (intro xxh64.stripes_short) simp
  ultimately show ?thesis using assms(1)
    by (cases "32 \<le> length xs") (auto simp: digest64 XXH64_reads feeds_def)
qed

lemma digest32_feeds:
  assumes "feeds 16 (XXH32_stripe (read_le 4)) (XXH32_start seed) seed st xs" and "length xs < 2 ^ 64"
  shows "XXH32_digest cpu st = XXH32 xs seed"
proof -
  have "16 \<le> total_len st \<longleftrightarrow> 16 \<le> length xs"
    using of_nat_le_64[OF assms(2), of 16] assms(1) by (simp add: feeds_def)
  moreover have "stripes 16 (XXH32_stripe (read_le 4)) (XXH32_start seed) xs = (XXH32_start seed, xs)" if "\<not> 16 \<le> length xs"
    using that by (intro xxh32.stripes_short) simp
  moreover have "ucast (total_len st) = (of_nat (length xs) :: 32 word)"
    using assms by (simp add: feeds_def unsigned_of_nat take_bit_nat_eq_self)
  ultimately show ?thesis using assms(1)
    by (cases "16 \<le> length xs") (auto simp: digest32 XXH32_def align32 feeds_def)
qed

section \<open>Properties\<close>

text \<open>
  C10: the streaming XXH64 (\<open>XXH64_reset\<close>, any number of \<open>XXH64_update\<close> calls with any split of the
  input, \<open>XXH64_digest\<close>), on a processor of either byte order, returns the hash that the one-shot
  \<open>XXH64\<close> computes for the whole input, on a processor of the same or the other byte order, at any
  address, with or without unaligned access.
\<close>

theorem xxh64_streaming:
  assumes "length (mem st) = 32" and "length (concat chunks) < 2 ^ 64"
  shows "XXH64_digest cpu (foldl (XXH64_update cpu) (XXH64_reset st seed) chunks) =
    XXH64_on b addr (concat chunks) seed"
  using digest64_feeds[OF _ assms(2)] xxh64.updates_feed[OF xxh64_start[OF assms(1), of seed], of chunks]
  by (simp add: update64 XXH64_any_build)

theorem xxh64_streaming_witness:
  "XXH64_digest XXH_bigEndian (foldl (XXH64_update XXH_bigEndian)
     (XXH64_reset \<lparr>total_len = 5, st_seed = 7, st_v = (1, 2, 3, 4), mem = replicate 32 9, memsize = 3\<rparr> 0)
     [[1, 2], replicate 40 3, [4]]) =
   XXH64_on \<lparr>cpu_endian = XXH_littleEndian, unaligned_access = True\<rparr> 4096 ([1, 2] @ replicate 40 3 @ [4]) 0"
  using xxh64_streaming[of "\<lparr>total_len = 5, st_seed = 7, st_v = (1, 2, 3, 4), mem = replicate 32 9, memsize = 3\<rparr>"
      "[[1, 2], replicate 40 3, [4]]" XXH_bigEndian 0 "\<lparr>cpu_endian = XXH_littleEndian, unaligned_access = True\<rparr>" 4096]
  by simp

text \<open>
  The same for XXH32, whose digest adds the length modulo $2^{32}$ as the one-shot function does.
\<close>

theorem xxh32_streaming:
  assumes "length (mem st) = 16" and "length (concat chunks) < 2 ^ 64"
  shows "XXH32_digest cpu (foldl (XXH32_update cpu) (XXH32_reset st seed) chunks) =
    XXH32_on b addr (concat chunks) seed"
  using digest32_feeds[OF _ assms(2)] xxh32.updates_feed[OF xxh32_start[OF assms(1), of seed], of chunks]
  by (simp add: update32 XXH32_any_build)

end
