(* ===== verification/SSO_String.thy ===== *)
theory SSO_String
  imports XXHash
begin

text \<open>
  The small-string class of \<open>src/src/string.hpp\<close>. An object is the 24 bytes of its union
  \<open>Data\<close> and the heap block that the pointer in it owns (empty while the object is small). As
  \<open>NonSSO\<close> the bytes 8 to 15 are the size and 16 to 23 the capacity, little endian; as \<open>SSO\<close> the
  bytes 0 to 22 are the characters and byte 23 is the size byte.
\<close>

section \<open>Bits of a byte\<close>

definition lsb :: "nat \<Rightarrow> byte \<Rightarrow> bool" where
  "lsb N b \<longleftrightarrow> b AND push_bit N 1 \<noteq> 0"

definition msb :: "nat \<Rightarrow> byte \<Rightarrow> bool" where
  "msb N b \<longleftrightarrow> b AND push_bit (8 - N - 1) 1 \<noteq> 0"

definition set_lsb :: "nat \<Rightarrow> byte \<Rightarrow> bool \<Rightarrow> byte" where
  "set_lsb N b v = (if v then b OR push_bit N 1 else b AND NOT (push_bit N 1))"

definition set_msb :: "nat \<Rightarrow> byte \<Rightarrow> bool \<Rightarrow> byte" where
  "set_msb N b v = (if v then b OR push_bit (8 - N - 1) 1 else b AND NOT (push_bit (8 - N - 1) 1))"

lemma bit_helpers:
  "lsb N b \<longleftrightarrow> bit b N" "msb N b \<longleftrightarrow> bit b (8 - N - 1)"
  "N < 8 \<Longrightarrow> bit (set_lsb N b v) m \<longleftrightarrow> (if m = N then v else bit b m)"
  "N < 8 \<Longrightarrow> bit (set_msb N b v) m \<longleftrightarrow> (if m = 8 - N - 1 then v else bit b m)"
  by (auto simp: lsb_def msb_def and_exp_eq_0_iff_not_bit set_lsb_def set_msb_def bit_simps
      dest: bit_imp_le_length)

section \<open>The object\<close>

record sso_string =
  m_data :: "byte list"
  heap :: "byte list"

definition sso_capacity :: nat where "sso_capacity = 23"

definition le_bytes :: "64 word \<Rightarrow> byte list" where
  "le_bytes w = map (\<lambda>i. ucast (drop_bit (8 * i) w)) [0..<8]"

definition of_le_bytes :: "byte list \<Rightarrow> 64 word" where
  "of_le_bytes p = read_le 8 p"

definition sso :: "sso_string \<Rightarrow> bool" where
  "sso s \<longleftrightarrow> \<not> lsb 0 (m_data s ! 23) \<and> \<not> lsb 1 (m_data s ! 23)"

definition set_sso_size :: "nat \<Rightarrow> sso_string \<Rightarrow> sso_string" where
  "set_sso_size n s = s\<lparr>m_data := (m_data s)[23 := push_bit 2 (of_nat (sso_capacity - n))]\<rparr>"

definition sso_size :: "sso_string \<Rightarrow> nat" where
  "sso_size s = sso_capacity - unat (drop_bit 2 (m_data s ! 23) AND 63)"

text \<open>
  \<open>pack\<close> is what \<open>set_non_sso_data\<close> does to the two most significant bytes, \<open>unpack\<close> what
  \<open>read_non_sso_data\<close> does to them.
\<close>

definition pack :: "byte \<Rightarrow> byte \<Rightarrow> byte \<times> byte" where
  "pack size_hsb cap_hsb =
     (let size_high_bit = msb 0 size_hsb; cap_high_bit = msb 0 cap_hsb; cap_sec_high_bit = msb 1 cap_hsb
      in (set_msb 0 size_hsb cap_sec_high_bit,
          set_lsb 1 (set_lsb 0 (push_bit 2 cap_hsb) cap_high_bit) (\<not> size_high_bit)))"

definition unpack :: "byte \<Rightarrow> byte \<Rightarrow> byte \<times> byte" where
  "unpack size_hsb cap_hsb =
     (let cap_high_bit = lsb 0 cap_hsb; size_high_bit = (\<not> lsb 1 cap_hsb); cap_sec_high_bit = msb 0 size_hsb
      in (set_msb 0 size_hsb size_high_bit,
          set_msb 1 (set_msb 0 (drop_bit 2 cap_hsb) cap_high_bit) cap_sec_high_bit))"

definition set_non_sso_data :: "64 word \<Rightarrow> 64 word \<Rightarrow> sso_string \<Rightarrow> sso_string" where
  "set_non_sso_data sz cap s =
     (let (sh, ch) = pack (le_bytes sz ! 7) (le_bytes cap ! 7)
      in s\<lparr>m_data := take 8 (m_data s) @ (le_bytes sz)[7 := sh] @ (le_bytes cap)[7 := ch]\<rparr>)"

definition read_non_sso_data :: "sso_string \<Rightarrow> 64 word \<times> 64 word" where
  "read_non_sso_data s =
     (let sz = take 8 (drop 8 (m_data s)); cap = take 8 (drop 16 (m_data s));
          (sh, ch) = unpack (sz ! 7) (cap ! 7)
      in (of_le_bytes (sz[7 := sh]), of_le_bytes (cap[7 := ch])))"

definition size_str :: "sso_string \<Rightarrow> nat" where
  "size_str s = (if sso s then sso_size s else unat (fst (read_non_sso_data s)))"

definition capacity_str :: "sso_string \<Rightarrow> nat" where
  "capacity_str s = (if sso s then 24 - 1 else unat (snd (read_non_sso_data s)))"

text \<open>\<open>c_str\<close>: the bytes from the returned pointer to the end of its object.\<close>

definition c_str :: "sso_string \<Rightarrow> byte list" where
  "c_str s = (if sso s then m_data s else heap s)"

text \<open>The constructors; \<open>g\<close> is the uninitialised object, \<open>blk\<close> the block \<open>malloc\<close> returns.\<close>

definition string_of_size :: "sso_string \<Rightarrow> byte list \<Rightarrow> nat \<Rightarrow> sso_string" where
  "string_of_size g blk n =
     (if n \<le> sso_capacity then set_sso_size 0 g
      else set_non_sso_data (of_nat n) (of_nat n) (g\<lparr>heap := blk\<rparr>))"

definition string_of_bytes :: "sso_string \<Rightarrow> byte list \<Rightarrow> sso_string" where
  "string_of_bytes g cs =
     (if length cs \<le> sso_capacity
      then set_sso_size (length cs) (g\<lparr>m_data := blit (m_data g) 0 (cs @ [0])\<rparr>)
      else set_non_sso_data (of_nat (length cs)) (of_nat (length cs)) (g\<lparr>heap := cs @ [0]\<rparr>))"

definition copy_string :: "sso_string \<Rightarrow> sso_string \<Rightarrow> sso_string" where
  "copy_string g other =
     (if sso other then g\<lparr>m_data := m_data other\<rparr>
      else string_of_bytes g (take (size_str other) (c_str other)))"

definition move_string :: "sso_string \<Rightarrow> sso_string \<times> sso_string" where
  "move_string other = (other, set_sso_size 0 (other\<lparr>heap := []\<rparr>))"

definition swap_string :: "sso_string \<Rightarrow> sso_string \<Rightarrow> sso_string \<times> sso_string" where
  "swap_string lhs rhs = (rhs, lhs)"

text \<open>
  The assignment operators: copy and swap, the copy taking the old block to its destructor; the
  moving one destroys the old value first. The second component is the list of freed blocks.
\<close>

definition destroy_string :: "sso_string \<Rightarrow> byte list list" where
  "destroy_string s = (if sso s then [] else [heap s])"

definition assign_copy :: "sso_string \<Rightarrow> sso_string \<Rightarrow> sso_string \<Rightarrow> sso_string \<times> byte list list" where
  "assign_copy g this other =
     (let (copy, this) = swap_string (copy_string g other) this in (this, destroy_string copy))"

definition assign_move :: "sso_string \<Rightarrow> sso_string \<Rightarrow> sso_string \<times> sso_string \<times> byte list list" where
  "assign_move this other =
     (let freed = destroy_string this; (this, other) = move_string other in (this, other, freed))"

text \<open>\<open>std::strcmp\<close> compares up to the first NUL.\<close>

definition c_string :: "byte list \<Rightarrow> byte list" where
  "c_string p = takeWhile (\<lambda>c. c \<noteq> 0) p"

definition string_eq :: "sso_string \<Rightarrow> sso_string \<Rightarrow> bool" where
  "string_eq lhs rhs =
     (if size_str lhs \<noteq> size_str rhs then False else c_string (c_str lhs) = c_string (c_str rhs))"

text \<open>
  The \<open>size()\<close> bytes at \<open>c_str()\<close>, and \<open>operator==\<close> on strings that these bytes and a terminating NUL
  make up. (A string that was moved from has size 0 and other bytes at \<open>c_str()\<close>, see below.)
\<close>

definition chars :: "sso_string \<Rightarrow> byte list" where
  "chars s = take (size_str s) (c_str s)"

definition sso_eq :: "byte list \<Rightarrow> byte list \<Rightarrow> bool" where
  "sso_eq a b \<longleftrightarrow> length a = length b \<and> c_string a = c_string b"

text \<open>\<open>string_hash\<close>, the functor the cache hashes its keys with.\<close>

definition string_hash :: "byte list \<Rightarrow> nat" where
  "string_hash k = unat (XXH64 k 0)"

section \<open>Sizes survive the packing\<close>

lemma le_bytes_length [simp]: "length (le_bytes w) = 8" by (simp add: le_bytes_def)

lemma unpack_pack: "unpack (fst (pack a b)) (snd (pack a b)) = (a, b)"
proof -
  have "fst (unpack (fst (pack a b)) (snd (pack a b))) = a"
    by (rule bit_word_eqI) (simp add: unpack_def pack_def Let_def bit_helpers bit_simps)
  moreover have "snd (unpack (fst (pack a b)) (snd (pack a b))) = b"
  proof (rule bit_word_eqI)
    fix n assume "n < LENGTH(8)"
    then show "bit (snd (unpack (fst (pack a b)) (snd (pack a b)))) n \<longleftrightarrow> bit b n"
      by (auto simp: unpack_def pack_def Let_def bit_helpers bit_simps)
  qed
  ultimately show ?thesis by (simp add: prod_eq_iff)
qed

lemma of_le_bytes_le: "of_le_bytes (le_bytes w) = w"
proof (rule bit_word_eqI)
  fix i assume "i < LENGTH(64)"
  then have i: "i < 64" "i div 8 < 8" by simp_all
  have "bit (le_bytes w ! (i div 8)) (i mod 8) \<longleftrightarrow> bit w (8 * (i div 8) + i mod 8)"
    using i by (simp add: le_bytes_def bit_simps)
  then show "bit (of_le_bytes (le_bytes w)) i \<longleftrightarrow> bit w i"
    using i by (simp add: of_le_bytes_def read_le_def bit_read_le)
qed

lemma read_set_non_sso:
  assumes "length (m_data s) = 24"
  shows "read_non_sso_data (set_non_sso_data sz cap s) = (sz, cap)"
proof -
  let ?p = "pack (le_bytes sz ! 7) (le_bytes cap ! 7)"
  have "unpack (fst ?p) (snd ?p) = (le_bytes sz ! 7, le_bytes cap ! 7)" by (rule unpack_pack)
  then show ?thesis using assms
    by (simp add: read_non_sso_data_def set_non_sso_data_def Let_def split_beta of_le_bytes_le)
qed

lemma top_bit_le_bytes: "bit (le_bytes w ! 7) 7 \<longleftrightarrow> 2 ^ 63 \<le> unat w"
proof -
  have "bit (le_bytes w ! 7) 7 \<longleftrightarrow> bit w 63" by (simp add: le_bytes_def bit_simps)
  also have "\<dots> \<longleftrightarrow> bit (unat w) 63" by (simp add: bit_unsigned_iff)
  also have "\<dots> \<longleftrightarrow> odd (unat w div 2 ^ 63)" by (rule bit_iff_odd)
  finally have b: "bit (le_bytes w ! 7) 7 \<longleftrightarrow> odd (unat w div 2 ^ 63)" .
  have "unat w < 2 ^ 64" using unsigned_less[of w] by simp
  then have "unat w div 2 ^ 63 = (if 2 ^ 63 \<le> unat w then 1 else 0)" by (simp add: div_if) linarith
  then show ?thesis using b by simp
qed

text \<open>A packed object is recognised as not small unless the size needs the top bit and the capacity does not.\<close>

lemma sso_set_non_sso:
  assumes "length (m_data s) = 24" and "unat sz < 2 ^ 63"
  shows "\<not> sso (set_non_sso_data sz cap s)"
proof -
  have "m_data (set_non_sso_data sz cap s) ! 23 = snd (pack (le_bytes sz ! 7) (le_bytes cap ! 7))"
    using assms(1) by (simp add: set_non_sso_data_def split_beta nth_append)
  moreover have "\<not> bit (le_bytes sz ! 7) 7" using top_bit_le_bytes assms(2) by simp
  ultimately show ?thesis by (simp add: sso_def bit_helpers pack_def Let_def)
qed

lemma sso_size_byte:
  assumes "n \<le> 23"
  shows "\<not> bit (push_bit 2 (of_nat n) :: byte) 0" "\<not> bit (push_bit 2 (of_nat n) :: byte) (Suc 0)"
    and "unat (drop_bit 2 (push_bit 2 (of_nat n) :: byte) AND 63) = n"
proof -
  show "\<not> bit (push_bit 2 (of_nat n) :: byte) 0" "\<not> bit (push_bit 2 (of_nat n) :: byte) (Suc 0)"
    by (simp_all add: bit_simps)
  have "\<forall>n \<in> set [0..<24]. unat (drop_bit 2 (push_bit 2 (of_nat n) :: byte) AND 63) = n" by code_simp
  then show "unat (drop_bit 2 (push_bit 2 (of_nat n) :: byte) AND 63) = n" using assms by simp
qed

lemma set_sso_size_views:
  assumes "length (m_data s) = 24" and "n \<le> 23"
  shows "sso (set_sso_size n s)" and "size_str (set_sso_size n s) = n"
    and "c_str (set_sso_size n s) = (m_data s)[23 := push_bit 2 (of_nat (23 - n))]"
proof -
  show s: "sso (set_sso_size n s)"
    using assms sso_size_byte(1,2)[of "23 - n"] by (simp add: sso_def set_sso_size_def bit_helpers sso_capacity_def)
  show "size_str (set_sso_size n s) = n"
    using s assms sso_size_byte(3)[of "23 - n"] by (simp add: size_str_def sso_size_def set_sso_size_def sso_capacity_def)
  show "c_str (set_sso_size n s) = (m_data s)[23 := push_bit 2 (of_nat (23 - n))]"
    using s by (simp add: c_str_def set_sso_size_def sso_capacity_def)
qed

section \<open>A string built from bytes\<close>

lemma string_of_bytes_views:
  assumes g: "length (m_data g) = 24" and cs: "length cs < 2 ^ 63"
  shows "size_str (string_of_bytes g cs) = length cs"
    and "chars (string_of_bytes g cs) = cs"
    and "c_string (c_str (string_of_bytes g cs)) = c_string cs"
proof -
  have "size_str (string_of_bytes g cs) = length cs \<and> (\<exists>r. c_str (string_of_bytes g cs) = cs @ 0 # r)"
  proof (cases "length cs \<le> 23")
    case True
    let ?s = "g\<lparr>m_data := blit (m_data g) 0 (cs @ [0])\<rparr>"
    have l: "length (m_data ?s) = 24" using g True by (simp add: blit_def)
    have "\<exists>r. (cs @ 0 # drop (Suc (length cs)) (m_data g))[23 := push_bit 2 (of_nat (23 - length cs))] = cs @ 0 # r"
    proof (cases "length cs = 23")
      case False
      then obtain m where "23 - length cs = Suc m" using True by (cases "23 - length cs") simp_all
      then show ?thesis using True by (simp add: list_update_append)
    qed (use g in \<open>simp add: list_update_append\<close>)
    then show ?thesis using set_sso_size_views[OF l True] True
      by (simp add: string_of_bytes_def sso_capacity_def blit_def)
  next
    case False
    let ?s = "g\<lparr>heap := cs @ [0]\<rparr>" and ?n = "of_nat (length cs) :: 64 word"
    have n: "unat ?n = length cs" using cs by (simp add: unat_of_nat take_bit_eq_mod)
    have "\<not> sso (set_non_sso_data ?n ?n ?s)" by (rule sso_set_non_sso) (use g cs n in simp_all)
    moreover have "heap (set_non_sso_data ?n ?n ?s) = cs @ [0]" by (simp add: set_non_sso_data_def split_beta)
    ultimately show ?thesis using read_set_non_sso[of ?s ?n ?n] g n False
      by (simp add: string_of_bytes_def sso_capacity_def size_str_def c_str_def)
  qed
  then show "size_str (string_of_bytes g cs) = length cs" "chars (string_of_bytes g cs) = cs"
    "c_string (c_str (string_of_bytes g cs)) = c_string cs"
    by (auto simp: chars_def c_string_def takeWhile_tail)
qed

lemma string_eq_bytes:
  assumes "length (m_data g) = 24" and "length (m_data g') = 24" and "length a < 2 ^ 63" and "length b < 2 ^ 63"
  shows "string_eq (string_of_bytes g a) (string_of_bytes g' b) \<longleftrightarrow> sso_eq a b"
  using string_of_bytes_views[OF assms(1,3)] string_of_bytes_views[OF assms(2,4)]
  by (simp add: string_eq_def sso_eq_def)

definition nul_free :: "byte list \<Rightarrow> bool" where
  "nul_free k \<longleftrightarrow> 0 \<notin> set k"

lemma sso_eq_iff: "nul_free a \<Longrightarrow> nul_free b \<Longrightarrow> sso_eq a b \<longleftrightarrow> a = b"
proof -
  assume "nul_free a" "nul_free b"
  then have "c_string a = a" "c_string b = b" by (auto simp: nul_free_def c_string_def takeWhile_eq_all_conv)
  then show ?thesis by (auto simp: sso_eq_def)
qed

section \<open>Properties\<close>

lemma move_views:
  assumes "length (m_data s) = 24"
  shows "fst (move_string s) = s" and "size_str (snd (move_string s)) = 0"
  using set_sso_size_views(2)[of "s\<lparr>heap := []\<rparr>" 0] assms by (simp_all add: move_string_def)

text \<open>
  \<open>set_moved_from\<close> changes the size byte only: what was a small string still has its bytes at \<open>c_str()\<close>,
  and \<open>operator==\<close>, which compares these, tells it from the empty string.
\<close>

lemma moved_from_views:
  assumes g: "length (m_data g) = 24" and n: "length cs < 23"
  shows "c_string (c_str (snd (move_string (string_of_bytes g cs)))) = c_string cs"
proof -
  let ?d = "m_data (string_of_bytes g cs)"
  have "?d = (cs @ 0 # drop (Suc (length cs)) (m_data g))[23 := push_bit 2 (of_nat (23 - length cs))]"
    using n by (simp add: string_of_bytes_def set_sso_size_def sso_capacity_def blit_def)
  moreover obtain m where m: "23 - length cs = Suc m" using n by (cases "23 - length cs") simp_all
  ultimately have d: "?d = cs @ 0 # (drop (Suc (length cs)) (m_data g))[m := push_bit 2 (of_nat (Suc m))]"
    using n by (simp add: list_update_append)
  have "length ?d = 24" using g n unfolding d by simp
  then have "c_str (snd (move_string (string_of_bytes g cs))) = ?d[23 := push_bit 2 (of_nat 23)]"
    using set_sso_size_views(3)[of "(string_of_bytes g cs)\<lparr>heap := []\<rparr>" 0] by (simp add: move_string_def)
  also have "\<exists>r. \<dots> = cs @ 0 # r" using n m unfolding d by (simp add: list_update_append)
  finally show ?thesis by (auto simp: c_string_def takeWhile_tail)
qed

lemma copy_views:
  assumes "length (m_data g) = 24" and "length (m_data s) = 24" and "size_str s < 2 ^ 63"
    and "size_str s \<le> length (c_str s)"
  shows "chars (copy_string g s) = chars s"
proof (cases "sso s")
  case True
  then show ?thesis
    by (simp add: copy_string_def chars_def size_str_def sso_size_def c_str_def sso_def)
next
  case False
  have "length (take (size_str s) (c_str s)) < 2 ^ 63" using assms(3) by simp
  then show ?thesis using False string_of_bytes_views(2)[OF assms(1)] by (simp add: copy_string_def chars_def)
qed

text \<open>
  C11: a string built from bytes holds exactly these bytes, small or on the heap: its size and its
  characters are those of the source, and so are those of its copies and of the string it is moved to.
  The string it was moved from has size 0, but only the size byte changes: one of less than 23 bytes
  still yields its old bytes from \<open>c_str()\<close>, up to the first NUL, and \<open>operator==\<close> tells it from the
  empty string unless there are none. (The sizes that need the top bit of \<open>size_t\<close> are excluded.)
\<close>

theorem string_holds_bytes:
  assumes "length (m_data g) = 24" and "length (m_data g') = 24" and "length cs < 2 ^ 63"
  shows "size_str (string_of_bytes g cs) = length cs \<and> chars (string_of_bytes g cs) = cs \<and>
    chars (copy_string g' (string_of_bytes g cs)) = cs \<and>
    chars (fst (move_string (string_of_bytes g cs))) = cs \<and>
    size_str (snd (move_string (string_of_bytes g cs))) = 0 \<and>
    (length cs < 23 \<longrightarrow> c_string (c_str (snd (move_string (string_of_bytes g cs)))) = c_string cs \<and>
      (string_eq (snd (move_string (string_of_bytes g cs))) (string_of_bytes g' []) \<longleftrightarrow> c_string cs = []))"
proof -
  note v = string_of_bytes_views[OF assms(1,3)]
  have l: "length (m_data (string_of_bytes g cs)) = 24"
    using assms(1) by (simp add: string_of_bytes_def set_sso_size_def sso_capacity_def set_non_sso_data_def blit_def split_beta)
  have "length (chars (string_of_bytes g cs)) = size_str (string_of_bytes g cs)" using v by simp
  then have "size_str (string_of_bytes g cs) \<le> length (c_str (string_of_bytes g cs))"
    by (simp add: chars_def)
  then have c: "chars (copy_string g' (string_of_bytes g cs)) = cs" using v assms copy_views[OF assms(2) l] by simp
  have e: "size_str (string_of_bytes g' []) = 0" "c_string (c_str (string_of_bytes g' [])) = []"
    using string_of_bytes_views[OF assms(2), of "[]"] by (simp_all add: c_string_def)
  show ?thesis
    using v(1,2) c e move_views[OF l] moved_from_views[OF assms(1), of cs] by (auto simp: string_eq_def)
qed

theorem string_holds_bytes_witness:
  "size_str (string_of_bytes \<lparr>m_data = replicate 24 7, heap = []\<rparr> (replicate 23 65)) = 23 \<and>
   chars (string_of_bytes \<lparr>m_data = replicate 24 7, heap = []\<rparr> (replicate 30 65)) = replicate 30 65 \<and>
   c_string (c_str (snd (move_string (string_of_bytes \<lparr>m_data = replicate 24 7, heap = []\<rparr> [65])))) = [65]"
  using string_holds_bytes[of "\<lparr>m_data = replicate 24 7, heap = []\<rparr>" "\<lparr>m_data = replicate 24 7, heap = []\<rparr>" "replicate 23 65"]
    string_holds_bytes[of "\<lparr>m_data = replicate 24 7, heap = []\<rparr>" "\<lparr>m_data = replicate 24 7, heap = []\<rparr>" "replicate 30 65"]
    string_holds_bytes[of "\<lparr>m_data = replicate 24 7, heap = []\<rparr>" "\<lparr>m_data = replicate 24 7, heap = []\<rparr>" "[65]"]
  by (simp add: c_string_def)

text \<open>
  C12: the packing of size and capacity into 16 bytes loses nothing, whatever the two 64 bit numbers
  are: \<open>read_non_sso_data\<close> returns what \<open>set_non_sso_data\<close> was given, and the object counts as heap
  allocated for every size below $2^{63}$.
\<close>

theorem non_sso_roundtrip:
  assumes "length (m_data s) = 24"
  shows "read_non_sso_data (set_non_sso_data sz cap s) = (sz, cap) \<and>
    (unat sz < 2 ^ 63 \<longrightarrow> \<not> sso (set_non_sso_data sz cap s))"
  using read_set_non_sso[OF assms] sso_set_non_sso[OF assms] by simp

theorem non_sso_roundtrip_witness:
  "read_non_sso_data (set_non_sso_data 100 (2 ^ 63 + 5) \<lparr>m_data = replicate 24 7, heap = []\<rparr>) = (100, 2 ^ 63 + 5) \<and>
   \<not> sso (set_non_sso_data 100 (2 ^ 63 + 5) \<lparr>m_data = replicate 24 7, heap = []\<rparr>)"
  using non_sso_roundtrip[of "\<lparr>m_data = replicate 24 7, heap = []\<rparr>" 100 "2 ^ 63 + 5"] by simp

text \<open>
  \<open>operator==\<close> decides equality of the byte strings as long as they hold no NUL byte; it compares
  with \<open>strcmp\<close>, so two different strings of one length that agree up to a NUL are equal for it.
\<close>

theorem string_equality:
  assumes "length (m_data g) = 24" and "length (m_data g') = 24" and "length a < 2 ^ 63" and "length b < 2 ^ 63"
  shows "(nul_free a \<longrightarrow> nul_free b \<longrightarrow> (string_eq (string_of_bytes g a) (string_of_bytes g' b) \<longleftrightarrow> a = b)) \<and>
    (length a = length b \<longrightarrow> c_string a = c_string b \<longrightarrow> string_eq (string_of_bytes g a) (string_of_bytes g' b))"
  using string_eq_bytes[OF assms] sso_eq_iff[of a b] by (simp add: sso_eq_def)

theorem string_equality_witness:
  "\<not> string_eq (string_of_bytes \<lparr>m_data = replicate 24 7, heap = []\<rparr> [65])
       (string_of_bytes \<lparr>m_data = replicate 24 8, heap = []\<rparr> [66]) \<and>
   string_eq (string_of_bytes \<lparr>m_data = replicate 24 7, heap = []\<rparr> [65, 0, 66])
     (string_of_bytes \<lparr>m_data = replicate 24 8, heap = []\<rparr> [65, 0, 67])"
  using string_equality[of "\<lparr>m_data = replicate 24 7, heap = []\<rparr>" "\<lparr>m_data = replicate 24 8, heap = []\<rparr>" "[65]" "[66]"]
    string_equality[of "\<lparr>m_data = replicate 24 7, heap = []\<rparr>" "\<lparr>m_data = replicate 24 8, heap = []\<rparr>" "[65, 0, 66]" "[65, 0, 67]"]
  by (simp add: nul_free_def c_string_def)

end
