(* ===== verification/Cache.thy ===== *)
theory Cache
  imports Table_Wrap SSO_String
begin

text \<open>
  The cache of the server: \<open>LFStringMap\<close> of \<open>src/src/Common.hh\<close>, the table instantiated with
  string keys, \<open>StorageValue\<close> values and \<open>string_hash\<close>. A key is the byte string its object holds.
  Two keys are equal for the table when \<open>operator==\<close> says so, which is equality of strings as long
  as they hold no NUL byte.
\<close>

section \<open>The instance\<close>

record storage_value =
  sv_value :: "byte list"
  casTicket :: "64 word"
  sv_flags :: "32 word"

type_synonym cache = "(byte list, storage_value) table"

interpretation yam: key_ops string_hash sso_eq nul_free
  by unfold_locales (rule sso_eq_iff)

definition cache_inv :: "cache \<Rightarrow> chains \<Rightarrow> bool" where
  "cache_inv t C \<longleftrightarrow> table_inv string_hash nul_free t C"

text \<open>\<open>SLFSPHTItemCounter\<close>, the processor that \<open>STATS\<close> passes to \<open>processHash\<close>.\<close>

definition count_item :: "nat \<Rightarrow> ('k, 'v) lru_element option \<Rightarrow> nat" where
  "count_item n x = Suc n"

section \<open>Small caches always have room to probe\<close>

lemma occupied_bound:
  assumes core: "table_core hasher valid t C"
  shows "length (occupied t) \<le> length (elementStorage t)"
proof -
  have "set (occupied t) \<subseteq> {..<length (elementStorage t)}" using table_core_elem(1)[OF core] by blast
  then have "card (set (occupied t)) \<le> length (elementStorage t)" using card_mono[of "{..<length (elementStorage t)}"] by simp
  then show ?thesis using distinct_card[OF table_coreD(6)[OF core]] by simp
qed

lemma window_of_load:
  assumes core: "table_core hasher valid t C"
    and few: "length (elementStorage t) < hashSize t" "length (elementStorage t) < HASH_MAX_LOCK_DEPTH"
  shows "window_ok hasher t k"
proof (rule ccontr)
  let ?s = "hasher k mod hashSize t" and ?m = "length (elementStorage t)"
  assume "\<not> window_ok hasher t k"
  then have full: "slot t ?s j \<noteq> HASH_FREE_MARK" if "j \<le> ?m" for j
    using that few unfolding window_ok_def by (meson le_less_trans)
  have "inj_on (slot t ?s) {..?m}"
  proof (rule inj_onI)
    fix i j assume "i \<in> {..?m}" "j \<in> {..?m}" "slot t ?s i = slot t ?s j"
    then show "i = j" using slot_inj[OF core full[of i], of j] few by simp
  qed
  moreover have "slot t ?s ` {..?m} \<subseteq> set (occupied t)"
    using slot_occupied[OF table_coreD(2)[OF core] full] by auto
  ultimately have "Suc ?m \<le> card (set (occupied t))" using card_inj_on_le[of "slot t ?s" "{..?m}"] by simp
  then show False using occupied_bound[OF core] card_length[of "occupied t"] by simp
qed

end
