(* ===== verification/Cache_Spec.thy ===== *)
theory Cache_Spec
  imports Cache
begin

text \<open>
  The abstract specification of the cache: a partial map that forgets at most one key when a new
  one is inserted. The operations of the table, in any order and by any thread, behave like
  steps of the specification as long as each is called where it is safe (\<open>op_ok\<close>).
\<close>

section \<open>The specification\<close>

type_synonym cache_key = "byte list"

datatype cache_op =
    OGet cache_key
  | OSet cache_key storage_value nat
  | OInsert cache_key storage_value nat
  | OInsertOrSet cache_key storage_value nat
  | ORemove cache_key

datatype reply = RValue "storage_value option" | RBool bool

inductive spec_step ::
    "cache_op \<Rightarrow> (cache_key \<rightharpoonup> storage_value) \<Rightarrow> reply \<Rightarrow> (cache_key \<rightharpoonup> storage_value) \<Rightarrow> bool" where
  spec_get: "spec_step (OGet k) m (RValue (m k)) m"
| spec_set_hit: "m k \<noteq> None \<Longrightarrow> spec_step (OSet k v x) m (RBool True) (m(k \<mapsto> v))"
| spec_set_miss: "m k = None \<Longrightarrow> spec_step (OSet k v x) m (RBool False) m"
| spec_insert_hit: "m k \<noteq> None \<Longrightarrow> spec_step (OInsert k v x) m (RBool False) m"
| spec_insert_new: "m k = None \<Longrightarrow> spec_step (OInsert k v x) m (RBool True) (m(k \<mapsto> v))"
| spec_insert_evict: "m k = None \<Longrightarrow> spec_step (OInsert k v x) m (RBool True) (m(k \<mapsto> v, j := None))"
| spec_ios_hit: "m k \<noteq> None \<Longrightarrow> spec_step (OInsertOrSet k v x) m (RBool False) (m(k \<mapsto> v))"
| spec_ios_new: "m k = None \<Longrightarrow> spec_step (OInsertOrSet k v x) m (RBool True) (m(k \<mapsto> v))"
| spec_ios_evict: "m k = None \<Longrightarrow> spec_step (OInsertOrSet k v x) m (RBool True) (m(k \<mapsto> v, j := None))"
| spec_remove: "m k \<noteq> None \<Longrightarrow> spec_step (ORemove k) m (RBool True) (m(k := None))"

inductive_cases spec_getE: "spec_step (OGet k) m r m'"
inductive_cases spec_removeE: "spec_step (ORemove k) m r m'"

section \<open>The operations of the table\<close>

fun exec_op :: "nat \<Rightarrow> cache_op \<Rightarrow> cache \<Rightarrow> (reply \<times> cache) res" where
  "exec_op tid (OGet k) t =
     bind_res (get string_hash sso_eq tid k None t) (\<lambda>(v, _, t'). Inr (RValue v, t'))"
| "exec_op tid (OSet k v x) t =
     bind_res (set_kv string_hash sso_eq tid k v x t) (\<lambda>(b, t'). Inr (RBool b, t'))"
| "exec_op tid (OInsert k v x) t =
     bind_res (insert_kv string_hash sso_eq tid k v x t) (\<lambda>(b, t'). Inr (RBool b, t'))"
| "exec_op tid (OInsertOrSet k v x) t =
     bind_res (insertOrSet string_hash sso_eq tid k v x t) (\<lambda>(b, t'). Inr (RBool b, t'))"
| "exec_op tid (ORemove k) t =
     bind_res (remove string_hash sso_eq tid k t) (\<lambda>(b, t'). Inr (RBool b, t'))"

text \<open>
  Where an operation is safe: its key holds no NUL, a free slot ends its probe, an insertion that
  must evict has room to shift and a live element at the tail, and a removed key is present and
  followed by nothing that would have to move.
\<close>

definition insert_safe :: "cache \<Rightarrow> chains \<Rightarrow> nat \<Rightarrow> cache_key \<Rightarrow> bool" where
  "insert_safe t C tid k \<longleftrightarrow>
     (contents t k = None \<and> tl (C (Free tid)) = [] \<longrightarrow>
        evict_room string_hash t k \<and> (C (Lru tid) \<noteq> [] \<longrightarrow> last (C (Lru tid)) \<notin> orphans t C))"

fun op_key :: "cache_op \<Rightarrow> cache_key" where
  "op_key (OGet k) = k" | "op_key (OSet k v x) = k" | "op_key (OInsert k v x) = k"
| "op_key (OInsertOrSet k v x) = k" | "op_key (ORemove k) = k"

fun op_safe :: "cache \<Rightarrow> chains \<Rightarrow> nat \<Rightarrow> cache_op \<Rightarrow> bool" where
  "op_safe t C tid (OInsert k v x) = insert_safe t C tid k"
| "op_safe t C tid (OInsertOrSet k v x) = insert_safe t C tid k"
| "op_safe t C tid (ORemove k) =
     (contents t k \<noteq> None \<and> elementLinks t ! (hashSize t - 1) = HASH_FREE_MARK \<and>
      (\<forall>q < hashSize t. elem_of t k = Some (elementLinks t ! q) \<longrightarrow> quiet_run string_hash t q))"
| "op_safe t C tid _ = True"

definition op_ok :: "cache \<Rightarrow> chains \<Rightarrow> nat \<Rightarrow> cache_op \<Rightarrow> bool" where
  "op_ok t C tid x \<longleftrightarrow> tid < length (lruLists t) \<and> nul_free (op_key x) \<and>
     window_ok string_hash t (op_key x) \<and> op_safe t C tid x"

section \<open>One step\<close>

lemma insert_refines:
  assumes inv: "table_inv string_hash nul_free t C" and tid: "tid < length (lruLists t)" and k: "nul_free k"
    and w: "window_ok string_hash t k" and c: "contents t k = None" and safe: "insert_safe t C tid k"
  shows "\<exists>t' C' m. insertOrSet string_hash sso_eq tid k v x t = Inr (True, t') \<and>
    insert_kv string_hash sso_eq tid k v x t = Inr (True, t') \<and> contents t' = m \<and>
    (m = (contents t)(k \<mapsto> v) \<or> (\<exists>j. m = (contents t)(k \<mapsto> v, j := None))) \<and>
    same_shape t t' \<and> table_inv string_hash nul_free t' C'"
proof (cases "tl (C (Free tid)) = []")
  case True
  then have "evict_room string_hash t k" "C (Lru tid) \<noteq> [] \<longrightarrow> last (C (Lru tid)) \<notin> orphans t C"
    using safe c by (simp_all add: insert_safe_def)
  then show ?thesis using yam.insert_evict_map[OF inv tid k _ c True, of v x] by blast
next
  case False
  then show ?thesis using yam.insert_spare_map[OF inv tid k w c False, of v x] by blast
qed

lemma remove_refines:
  assumes inv: "table_inv string_hash nul_free t C" and ok: "op_ok t C tid (ORemove k)"
  shows "\<exists>t' C'. remove string_hash sso_eq tid k t = Inr (True, t') \<and> contents t' = (contents t)(k := None) \<and>
    same_shape t t' \<and> table_inv string_hash nul_free t' C'"
proof -
  have core: "table_core string_hash nul_free t C" using inv by (simp add: table_inv_def)
  note D = table_coreD[OF core]
  have ops: "tid < length (lruLists t)" "nul_free k" "window_ok string_hash t k" "contents t k \<noteq> None"
    "elementLinks t ! (hashSize t - 1) = HASH_FREE_MARK" using ok by (simp_all add: op_ok_def)
  obtain e where e: "elem_of t k = Some e" using ops(4) elem_of_None[of t k] by (cases "elem_of t k") simp_all
  have occ: "e \<in> set (occupied t)" using e elem_of_Some[OF D(8)] by auto
  then obtain q where q: "q < hashSize t" "elementLinks t ! q = e"
    using D(10) by (auto simp: occupied_def in_set_conv_nth)
  have quiet: "quiet_run string_hash t q" using ok e q by (simp add: op_ok_def)
  obtain i where i: "e \<in> set (C (Lru i))" using table_core_elem(3)[OF core occ] by blast
  show ?thesis
  proof (cases "interior e (C (Lru i))")
    case True
    then show ?thesis using yam.remove_interior_map[OF inv ops(1-3) e ops(5) q quiet] by blast
  next
    case False
    then show ?thesis using yam.remove_edge_map[OF inv ops(1-3) e ops(5) q quiet i] by blast
  qed
qed

lemma op_refines:
  assumes inv: "table_inv string_hash nul_free t C" and ok: "op_ok t C tid x"
  shows "\<exists>r t' C'. exec_op tid x t = Inr (r, t') \<and> spec_step x (contents t) r (contents t') \<and>
    same_shape t t' \<and> table_inv string_hash nul_free t' C'"
proof -
  have base: "tid < length (lruLists t)" "nul_free (op_key x)" "window_ok string_hash t (op_key x)"
    "op_safe t C tid x" using ok by (simp_all add: op_ok_def)
  show ?thesis
  proof (cases x)
    case (OGet k)
    then show ?thesis using yam.get_map[OF inv base(1), of k] base by (auto intro: spec_step.intros)
  next
    case (OSet k v s)
    obtain t' where t': "set_kv string_hash sso_eq tid k v s t = Inr (contents t k \<noteq> None, t')"
      "contents t' = (if contents t k = None then contents t else (contents t)(k \<mapsto> v))"
      "same_shape t t'" "table_inv string_hash nul_free t' (lookup_chains tid (elem_of t k) C)"
      using yam.set_map[OF inv base(1), of k v s] base OSet by auto
    then show ?thesis using OSet by (cases "contents t k") (auto intro: spec_step.intros)
  next
    case (OInsert k v s)
    show ?thesis
    proof (cases "contents t k")
      case None
      then show ?thesis using insert_refines[OF inv base(1), of k v s] base OInsert
        by (auto intro: spec_step.intros)
    next
      case (Some w)
      then show ?thesis using yam.insert_hit_map[OF inv base(1), of k v s] base OInsert
        by (auto intro!: spec_insert_hit)
    qed
  next
    case (OInsertOrSet k v s)
    show ?thesis
    proof (cases "elem_of t k")
      case None
      then show ?thesis using insert_refines[OF inv base(1), of k v s] base OInsertOrSet
        by (auto simp: elem_of_None intro: spec_step.intros)
    next
      case (Some e)
      then have "contents t k \<noteq> None" using elem_of_None[of t k] by simp
      then show ?thesis using yam.insertOrSet_hit_map[OF inv base(1) _ _ Some, of v s] base OInsertOrSet
        by (auto intro!: spec_ios_hit)
    qed
  next
    case (ORemove k)
    then show ?thesis using remove_refines[of t C tid k] inv ok
      by (auto simp: op_ok_def intro!: spec_remove)
  qed
qed

section \<open>Runs\<close>

text \<open>A run of the specification with its log of operations and replies.\<close>

inductive spec_run ::
    "(cache_key \<rightharpoonup> storage_value) \<Rightarrow> (cache_op \<times> reply) list \<Rightarrow> (cache_key \<rightharpoonup> storage_value) \<Rightarrow> bool" where
  spec_run_nil: "spec_run m [] m"
| spec_run_step: "spec_step x m r m' \<Longrightarrow> spec_run m' log m'' \<Longrightarrow> spec_run m ((x, r) # log) m''"

text \<open>
  Running a sequence of operations, each by some thread. \<open>run_safe\<close> asks that each is safe in the
  state it meets, whatever lists that state represents.
\<close>

fun exec_run :: "(nat \<times> cache_op) list \<Rightarrow> cache \<Rightarrow> ((cache_op \<times> reply) list \<times> cache) res" where
  "exec_run [] t = Inr ([], t)"
| "exec_run ((tid, x) # ops) t =
     bind_res (exec_op tid x t) (\<lambda>(r, t1).
     bind_res (exec_run ops t1) (\<lambda>(log, t2). Inr ((x, r) # log, t2)))"

fun run_safe :: "(nat \<times> cache_op) list \<Rightarrow> cache \<Rightarrow> chains \<Rightarrow> bool" where
  "run_safe [] t C = True"
| "run_safe ((tid, x) # ops) t C =
     (op_ok t C tid x \<and>
      (\<forall>r t1 C1. exec_op tid x t = Inr (r, t1) \<and> table_inv string_hash nul_free t1 C1 \<longrightarrow> run_safe ops t1 C1))"

lemma run_refines:
  assumes "table_inv string_hash nul_free t C" and "run_safe ops t C"
  shows "\<exists>log t' C'. exec_run ops t = Inr (log, t') \<and> map fst log = map snd ops \<and>
    spec_run (contents t) log (contents t') \<and> table_inv string_hash nul_free t' C'"
  using assms
proof (induction ops arbitrary: t C)
  case Nil
  then show ?case by (auto intro: spec_run_nil)
next
  case (Cons p ops)
  obtain tid x where p: "p = (tid, x)" by (cases p)
  obtain r t1 C1 where s: "exec_op tid x t = Inr (r, t1)" "spec_step x (contents t) r (contents t1)"
    "table_inv string_hash nul_free t1 C1"
    using op_refines[of t C tid x] Cons.prems p by auto
  obtain log t' C' where "exec_run ops t1 = Inr (log, t')" "map fst log = map snd ops"
    "spec_run (contents t1) log (contents t')" "table_inv string_hash nul_free t' C'"
    using Cons.IH[OF s(3)] Cons.prems(2) p s(1,3) by auto
  then show ?case using p s by (auto intro: spec_run_step)
qed

end
