(* ===== verification/Cache_Props.thy ===== *)
theory Cache_Props
  imports Cache_Spec
begin

text \<open>
  What the cache promises to the request handlers, stated on the model of the code with the
  server's own key type and hash function, and small caches on which the promises are exercised.
\<close>

section \<open>A small cache\<close>

definition zero_lru :: thread_lru where
  "zero_lru = \<lparr>head = 0, tail = 0, freeListHead = 0, freeListSize = 0, moves = 0, inserts = 0,
     expTimeMap = [], locks = replicate HASH_MAX_LOCK_DEPTH 0\<rparr>"

definition zero_value :: storage_value where
  "zero_value = \<lparr>sv_value = [], casTicket = 0, sv_flags = 0\<rparr>"

definition demo_value :: storage_value where
  "demo_value = \<lparr>sv_value = [118], casTicket = 0, sv_flags = 7\<rparr>"

definition demo_table :: "nat \<Rightarrow> cache res" where
  "demo_table n = LFLRUHashTable zero_lru [] zero_value n 16 1"

lemma demo_empty:
  assumes "0 < n" and "n < 16"
  shows "\<exists>t. demo_table n = Inr t \<and> contents t = Map.empty \<and> hashSize t = 16 \<and> length (lruLists t) = 1 \<and>
    length (elementStorage t) = n \<and> elementLinks t = replicate 16 HASH_FREE_MARK \<and>
    table_inv string_hash nul_free t (init_chains n 1) \<and> orphans t (init_chains n 1) = {}"
  unfolding demo_table_def
  using constructor_inv[of 1 n 16 zero_lru "[]" zero_value string_hash nul_free] assms
  by (simp add: zero_lru_def LIST_END_MARK_def)

lemma demo_window:
  assumes "table_inv string_hash nul_free t C" and "hashSize t = 16" and "length (elementStorage t) < 16"
  shows "window_ok string_hash t k"
  using assms window_of_load[of string_hash nul_free t C k]
  by (simp add: table_inv_def HASH_MAX_LOCK_DEPTH_def)

text \<open>The small cache after the key \<open>k\<close> was inserted.\<close>

lemma demo_one:
  assumes "1 < n" and "n < 16" and k: "nul_free k"
  shows "\<exists>t t1. demo_table n = Inr t \<and> insertOrSet string_hash sso_eq 0 k v x t = Inr (True, t1) \<and>
    contents t1 = [k \<mapsto> v] \<and> hashSize t1 = 16 \<and> length (lruLists t1) = 1 \<and> length (elementStorage t1) = n \<and>
    elementLinks t1 = (replicate 16 HASH_FREE_MARK)[string_hash k mod 16 := 0] \<and>
    table_inv string_hash nul_free t1 (inserted 0 (init_chains n 1)) \<and>
    orphans t1 (inserted 0 (init_chains n 1)) = {} \<and> key_at t1 0 = k"
proof -
  obtain t where t: "demo_table n = Inr t" "contents t = Map.empty" "hashSize t = 16" "length (lruLists t) = 1"
    "length (elementStorage t) = n" "elementLinks t = replicate 16 HASH_FREE_MARK"
    "table_inv string_hash nul_free t (init_chains n 1)" "orphans t (init_chains n 1) = {}"
    using demo_empty[of n] assms by auto
  have h: "hd (init_chains n 1 (Free 0)) = 0" "tl (init_chains n 1 (Free 0)) \<noteq> []"
    using assms by (simp_all add: init_chains_def hd_upt tl_upt)
  have s0: "slot t (string_hash k mod 16) 0 = HASH_FREE_MARK" using t by (simp add: slot_def)
  have "window_ok string_hash t k" using demo_window[OF t(7,3)] t(5) assms by simp
  then obtain t1 D where t1: "insertOrSet string_hash sso_eq 0 k v x t = Inr (True, t1)"
      "contents t1 = [k \<mapsto> v]" "same_shape t t1" "table_inv string_hash nul_free t1 (inserted 0 (init_chains n 1))"
      "orphans t1 (inserted 0 (init_chains n 1)) = {}"
    and ky: "\<forall>e < n. key_at t1 e = (if e = 0 then k else key_at t e)"
    and D: "\<forall>j < D. slot t (string_hash k mod 16) j \<noteq> HASH_FREE_MARK"
      "elementLinks t1 = (elementLinks t)[(string_hash k mod 16 + D) mod 16 := 0]"
    using yam.insert_spare_map[OF t(7) _ k, of 0 v x] t h assms by auto
  have "D = 0" using D(1) s0 by blast
  then show ?thesis using t t1 D(2) ky assms by (auto simp: same_shape_def)
qed

text \<open>Two keys: the second record goes to its home slot, or to the next one when the first has it.\<close>

lemma demo_two:
  assumes n: "2 < n" "n < 16" and k: "nul_free k" "nul_free k'" "k \<noteq> k'"
  defines "h \<equiv> string_hash k mod 16" and "h' \<equiv> string_hash k' mod 16"
  shows "\<exists>t t1 t2. demo_table n = Inr t \<and> insertOrSet string_hash sso_eq 0 k v x t = Inr (True, t1) \<and>
    insertOrSet string_hash sso_eq 0 k' v' x' t1 = Inr (True, t2) \<and>
    contents t2 = [k \<mapsto> v, k' \<mapsto> v'] \<and> hashSize t2 = 16 \<and> length (lruLists t2) = 1 \<and> length (elementStorage t2) = n \<and>
    elementLinks t2 = (replicate 16 HASH_FREE_MARK)[h := 0, (if h' = h then (h + 1) mod 16 else h') := 1] \<and>
    table_inv string_hash nul_free t2 (inserted 0 (inserted 0 (init_chains n 1))) \<and>
    key_at t2 0 = k \<and> key_at t2 1 = k'"
proof -
  let ?C = "inserted 0 (init_chains n 1)"
  obtain t t1 where t: "demo_table n = Inr t" "insertOrSet string_hash sso_eq 0 k v x t = Inr (True, t1)"
    "contents t1 = [k \<mapsto> v]" "hashSize t1 = 16" "length (lruLists t1) = 1" "length (elementStorage t1) = n"
    "elementLinks t1 = (replicate 16 HASH_FREE_MARK)[h := 0]" "table_inv string_hash nul_free t1 ?C"
    "key_at t1 0 = k"
    using demo_one[of n k v x] n k unfolding h_def by auto
  have C: "hd (?C (Free 0)) = 1" "tl (?C (Free 0)) \<noteq> []"
    using n by (simp_all add: inserted_def init_chains_def hd_upt tl_upt)
  have w: "window_ok string_hash t1 k'" using demo_window[OF t(8,4)] t(6) n by simp
  obtain t2 D where t2: "insertOrSet string_hash sso_eq 0 k' v' x' t1 = Inr (True, t2)"
    "contents t2 = (contents t1)(k' \<mapsto> v')" "same_shape t1 t2" "table_inv string_hash nul_free t2 (inserted 0 ?C)"
    and D: "slot t1 h' D = HASH_FREE_MARK" "\<forall>j < D. slot t1 h' j \<noteq> HASH_FREE_MARK"
      "elementLinks t2 = (elementLinks t1)[(h' + D) mod 16 := 1]"
    and ky: "\<forall>e < length (elementStorage t1). key_at t2 e = (if e = 1 then k' else key_at t1 e)"
    using yam.insert_spare_map[OF t(8) _ k(2) w, of 0 v' x'] t k C unfolding h'_def by auto
  have hb: "h < 16" "h' < 16" by (simp_all add: h_def h'_def)
  have sl: "slot t1 s j = (if (s + j) mod 16 = h then 0 else HASH_FREE_MARK)" for s j
    using t(4,7) hb by (simp add: slot_def nth_list_update_if)
  have Dv: "D = (if h' = h then 1 else 0)"
  proof (cases "h' = h")
    case True
    have "(h + 1) mod 16 \<noteq> h" using hb by (cases "h = 15") simp_all
    then have "slot t1 h' 1 = HASH_FREE_MARK" "slot t1 h' 0 \<noteq> HASH_FREE_MARK"
      using True hb by (simp_all add: sl HASH_FREE_MARK_def)
    then have "D \<noteq> 0" "\<not> 1 < D" using D by metis+
    then show ?thesis using True by simp
  next
    case False
    then have "slot t1 h' 0 = HASH_FREE_MARK" using hb by (simp add: sl)
    then have "\<not> 0 < D" using D(2) by blast
    then show ?thesis using False by simp
  qed
  have links: "elementLinks t2 = (replicate 16 HASH_FREE_MARK)[h := 0, (if h' = h then (h + 1) mod 16 else h') := 1]"
    using D(3) t(7) Dv hb by simp
  have "key_at t2 0 = k" "key_at t2 1 = k'" using ky t(6,9) n C by simp_all
  show ?thesis
    using t t2 links \<open>key_at t2 0 = k\<close> \<open>key_at t2 1 = k'\<close> by (intro exI[of _ t] exI[of _ t1] exI[of _ t2]) (simp add: same_shape_def)
qed

section \<open>Lookups\<close>

text \<open>
  C1: \<open>get\<close> returns exactly the value the cache holds for the key (and reports a miss when it holds
  none), never faults and leaves no slot locked, changes no entry, and moves the element to the
  front of the caller's LRU list when it is not near an end of the list it is on; the table
  invariant holds again afterwards.
\<close>

theorem cache_get:
  assumes "table_inv string_hash nul_free t C" and "tid < length (lruLists t)"
    and "nul_free k" and "window_ok string_hash t k"
  shows "\<exists>t'. get string_hash sso_eq tid k None t = Inr (contents t k, None, t') \<and>
    contents t' = contents t \<and> same_shape t t' \<and>
    table_inv string_hash nul_free t' (lookup_chains tid (elem_of t k) C) \<and>
    orphans t' (lookup_chains tid (elem_of t k) C) = orphans t C"
  by (rule yam.get_map[OF assms])

theorem cache_get_witness:
  "\<exists>t t1 t2. demo_table 8 = Inr t \<and> insertOrSet string_hash sso_eq 0 [107] demo_value 0 t = Inr (True, t1) \<and>
     get string_hash sso_eq 0 [107] None t1 = Inr (Some demo_value, None, t2)"
proof -
  obtain t t1 where t: "demo_table 8 = Inr t" "insertOrSet string_hash sso_eq 0 [107] demo_value 0 t = Inr (True, t1)"
    "contents t1 = [[107] \<mapsto> demo_value]" "hashSize t1 = 16" "length (lruLists t1) = 1" "length (elementStorage t1) = 8"
    "table_inv string_hash nul_free t1 (inserted 0 (init_chains 8 1))"
    using demo_one[of 8 "[107]" demo_value 0] by (auto simp: nul_free_def)
  have "window_ok string_hash t1 [107]" using demo_window[OF t(7,4)] t(6) by simp
  then show ?thesis using cache_get[OF t(7), of 0 "[107]"] t by (auto simp: nul_free_def)
qed

section \<open>Writes\<close>

text \<open>
  C2: inserting a key that is absent, while the caller has a spare free element, adds exactly that
  entry, puts its element at the front of the caller's list and reports an insertion;
  \<open>insert\<close> and \<open>insertOrSet\<close> do the same.
\<close>

theorem cache_insert_spare:
  assumes "table_inv string_hash nul_free t C" and "tid < length (lruLists t)"
    and "nul_free k" and "window_ok string_hash t k" and "contents t k = None" and "tl (C (Free tid)) \<noteq> []"
  shows "\<exists>t'. insertOrSet string_hash sso_eq tid k v expTime t = Inr (True, t') \<and>
    insert_kv string_hash sso_eq tid k v expTime t = Inr (True, t') \<and>
    contents t' = (contents t)(k \<mapsto> v) \<and> same_shape t t' \<and>
    table_inv string_hash nul_free t' (inserted tid C) \<and> orphans t' (inserted tid C) = orphans t C"
  using yam.insert_spare_map[OF assms] by blast

theorem cache_insert_spare_witness:
  "\<exists>t t'. demo_table 8 = Inr t \<and> insert_kv string_hash sso_eq 0 [107] demo_value 0 t = Inr (True, t') \<and>
     contents t' = [[107] \<mapsto> demo_value]"
proof -
  obtain t where t: "demo_table 8 = Inr t" "contents t = Map.empty" "hashSize t = 16" "length (lruLists t) = 1"
    "length (elementStorage t) = 8" "table_inv string_hash nul_free t (init_chains 8 1)"
    using demo_empty[of 8] by auto
  have "window_ok string_hash t [107]" using demo_window[OF t(6,3)] t(5) by simp
  moreover have "tl (init_chains 8 1 (Free 0)) \<noteq> []" by (simp add: init_chains_def tl_upt)
  ultimately show ?thesis
    using cache_insert_spare[OF t(6), of 0 "[107]" demo_value 0] t by (auto simp: nul_free_def)
qed

text \<open>
  C3: inserting an absent key with the caller's last free element evicts exactly one entry, the
  one at the tail of the caller's LRU list, and recycles its element as the caller's free element.
  The other entries stay reachable. The index must have room as \<open>evict_room\<close> says: the run of
  full slots that the backward shift walks must not reach the end of the array.
\<close>

theorem cache_insert_evict:
  assumes "table_inv string_hash nul_free t C" and "tid < length (lruLists t)"
    and "nul_free k" and "evict_room string_hash t k" and "contents t k = None" and "tl (C (Free tid)) = []"
    and "C (Lru tid) \<noteq> [] \<longrightarrow> last (C (Lru tid)) \<notin> orphans t C"
  shows "\<exists>t'. insertOrSet string_hash sso_eq tid k v expTime t = Inr (True, t') \<and>
    insert_kv string_hash sso_eq tid k v expTime t = Inr (True, t') \<and>
    contents t' = (contents t)(k \<mapsto> v, victim_key tid k t C := None) \<and> same_shape t t' \<and>
    table_inv string_hash nul_free t' (evicted tid (inserted tid C)) \<and>
    orphans t' (evicted tid (inserted tid C)) = orphans t C"
  by (rule yam.insert_evict_map[OF assms])

lemma demo_room:
  assumes "\<forall>i < 16. i \<noteq> p \<longrightarrow> elementLinks t ! i = HASH_FREE_MARK" and "hashSize t = 16" and "p < 15"
    and "string_hash k mod 16 < 14"
  shows "evict_room string_hash t k"
proof -
  let ?s = "string_hash k mod 16"
  have sl: "(s + j) mod 16 \<noteq> p \<Longrightarrow> slot t s j = HASH_FREE_MARK" for s j
    using assms(1,2,3) by (simp add: slot_def)
  have "\<exists>D < 16. ?s + D < 15 \<and> slot t ?s D = HASH_FREE_MARK"
  proof (cases "?s = p")
    case True
    then show ?thesis using assms(3,4) by (intro exI[of _ 1]) (simp add: sl)
  next
    case False
    then show ?thesis using assms(4) by (intro exI[of _ 0]) (simp add: sl)
  qed
  moreover have "\<exists>a b. a < b \<and> b < 16 \<and> b < HASH_MAX_LOCK_DEPTH \<and> slot t s a = HASH_FREE_MARK \<and>
      slot t s b = HASH_FREE_MARK" for s
  proof (cases "(s + 0) mod 16 = p \<or> (s + 1) mod 16 = p")
    case True
    then have "(s + 2) mod 16 \<noteq> p" "(s + 3) mod 16 \<noteq> p"
      using mod_add_cancel_less[of s _ 16 2] mod_add_cancel_less[of s _ 16 3] by fastforce+
    then show ?thesis by (intro exI[of _ 2] exI[of _ 3]) (simp add: sl HASH_MAX_LOCK_DEPTH_def)
  next
    case False
    then show ?thesis by (intro exI[of _ 0] exI[of _ 1]) (simp add: sl HASH_MAX_LOCK_DEPTH_def)
  qed
  ultimately show ?thesis using assms(1,2,3) by (simp add: evict_room_def)
qed

theorem cache_insert_evict_witness:
  "\<exists>t t1 t2. demo_table 2 = Inr t \<and> insertOrSet string_hash sso_eq 0 [107] demo_value 0 t = Inr (True, t1) \<and>
     insertOrSet string_hash sso_eq 0 [97] zero_value 0 t1 = Inr (True, t2) \<and>
     contents t1 = [[107] \<mapsto> demo_value] \<and> contents t2 = [[97] \<mapsto> zero_value]"
proof -
  have "XXH64 [107] 0 = 14110649694607317859" "XXH64 [97] 0 = 15154266338359012955" by code_simp+
  then have h: "string_hash [107] mod 16 < 14" "string_hash [97] mod 16 < 14" by (simp_all add: string_hash_def)
  obtain t t1 where t: "demo_table 2 = Inr t" "insertOrSet string_hash sso_eq 0 [107] demo_value 0 t = Inr (True, t1)"
    "contents t1 = [[107] \<mapsto> demo_value]" "hashSize t1 = 16" "length (lruLists t1) = 1"
    "elementLinks t1 = (replicate 16 HASH_FREE_MARK)[string_hash [107] mod 16 := 0]"
    "table_inv string_hash nul_free t1 (inserted 0 (init_chains 2 1))" "orphans t1 (inserted 0 (init_chains 2 1)) = {}"
    using demo_one[of 2 "[107]" demo_value 0] by (auto simp: nul_free_def)
  have room: "evict_room string_hash t1 [97]"
    using demo_room[of "string_hash [107] mod 16" t1 "[97]"] t(4,6) h by (simp add: nth_list_update_if)
  have "lru_elems (inserted 0 (init_chains 2 1)) = {0}"
    by (auto simp: lru_elems_def inserted_def init_chains_def hd_upt split: if_splits)
  moreover have "table_core string_hash nul_free t1 (inserted 0 (init_chains 2 1))"
    using t(7) by (simp add: table_inv_def)
  ultimately have occ: "set (occupied t1) = {0}" using table_coreD(7)[of string_hash nul_free t1] t(8)
    by (force simp: orphans_def)
  have C: "inserted 0 (init_chains 2 1) (Lru 0) = [0]" "tl (inserted 0 (init_chains 2 1) (Free 0)) = []"
    by (simp_all add: inserted_def init_chains_def hd_upt tl_upt)
  have "key_at t1 0 = [107]"
    using t(3) occ contents_None[of t1 "[107]"] by auto
  then have "victim_key 0 [97] t1 (inserted 0 (init_chains 2 1)) = [107]" using C by (simp add: victim_key_def)
  then show ?thesis
    using cache_insert_evict[OF t(7), of 0 "[97]" zero_value 0] room t C by (auto simp: nul_free_def fun_upd_twist)
qed

end
