(* ===== verification/Cache_Props2.thy ===== *)
theory Cache_Props2
  imports Cache_Props
begin

text \<open>
  Further properties of the cache: overwriting, refusing, construction, the refinement of whole
  runs, and the behaviour of the operations that go wrong (\<open>remove\<close>, \<open>get\<close> with a lock array,
  eviction of an orphan, the shift across the end of the index, expiry).
\<close>

lemma hash_facts:
  "string_hash [97] mod 16 = 11" "string_hash [98] mod 16 = 11" "string_hash [107] mod 16 = 3"
  "string_hash [104] mod 16 = 15" "string_hash [117] mod 16 = 0"
proof -
  have "XXH64 [97] 0 = 15154266338359012955" "XXH64 [98] 0 = 8666379929374662555"
    "XXH64 [107] 0 = 14110649694607317859" "XXH64 [104] 0 = 2249711912916349199"
    "XXH64 [117] 0 = 6989588595861227504" by code_simp+
  then show "string_hash [97] mod 16 = 11" "string_hash [98] mod 16 = 11" "string_hash [107] mod 16 = 3"
    "string_hash [104] mod 16 = 15" "string_hash [117] mod 16 = 0" by (simp_all add: string_hash_def)
qed

text \<open>A cache of eight elements that holds one key, for the examples below.\<close>

lemma demo_held:
  obtains t t1 where "demo_table 8 = Inr t" "insertOrSet string_hash sso_eq 0 [107] demo_value 0 t = Inr (True, t1)"
    "contents t1 = [[107] \<mapsto> demo_value]" "hashSize t1 = 16" "length (lruLists t1) = 1"
    "elementLinks t1 = (replicate 16 HASH_FREE_MARK)[3 := 0]"
    "table_inv string_hash nul_free t1 (inserted 0 (init_chains 8 1))"
    "window_ok string_hash t1 k" "key_at t1 0 = [107]" "elem_of t1 [107] = Some 0"
proof -
  obtain t t1 where t: "demo_table 8 = Inr t" "insertOrSet string_hash sso_eq 0 [107] demo_value 0 t = Inr (True, t1)"
    "contents t1 = [[107] \<mapsto> demo_value]" "hashSize t1 = 16" "length (lruLists t1) = 1" "length (elementStorage t1) = 8"
    "elementLinks t1 = (replicate 16 HASH_FREE_MARK)[3 := 0]"
    "table_inv string_hash nul_free t1 (inserted 0 (init_chains 8 1))" "key_at t1 0 = [107]"
    using demo_one[of 8 "[107]" demo_value 0] hash_facts by (auto simp: nul_free_def)
  have "0 \<in> set (elementLinks t1)" unfolding t(7) by (rule set_update_memI) simp
  moreover have "(0::nat) \<noteq> HASH_FREE_MARK" unfolding HASH_FREE_MARK_def by simp
  ultimately have "0 \<in> set (occupied t1)" unfolding occupied_def set_filter by blast
  moreover have "inj_on (key_at t1) (set (occupied t1))"
    using t(8) table_coreD(8) unfolding table_inv_def by blast
  ultimately have "elem_of t1 [107] = Some 0" using elem_of_Some[of t1 "[107]" 0] t(9) by simp
  then show thesis using that[OF t(1-5,7,8)] demo_window[OF t(8,4)] t(6,9) by simp
qed

section \<open>Overwriting and refusing\<close>

text \<open>
  C8: \<open>insertOrSet\<close> of a key that is present overwrites its value in place and returns the element it
  took from the free list, so the free lists are as before; it reports that nothing was inserted.
\<close>

theorem cache_overwrite:
  assumes "table_inv string_hash nul_free t C" and "tid < length (lruLists t)"
    and "nul_free k" and "window_ok string_hash t k" and "elem_of t k = Some e"
  shows "\<exists>t'. insertOrSet string_hash sso_eq tid k v expTime t = Inr (False, t') \<and>
    contents t' = (contents t)(k \<mapsto> v) \<and> same_shape t t' \<and>
    table_inv string_hash nul_free t' (touch_chains tid e C) \<and> orphans t' (touch_chains tid e C) = orphans t C"
  using yam.insertOrSet_hit_map[OF assms] by blast

theorem cache_overwrite_witness:
  "\<exists>t t1 t2. demo_table 8 = Inr t \<and> insertOrSet string_hash sso_eq 0 [107] demo_value 0 t = Inr (True, t1) \<and>
     insertOrSet string_hash sso_eq 0 [107] zero_value 0 t1 = Inr (False, t2) \<and> contents t2 = [[107] \<mapsto> zero_value]"
proof (rule demo_held)
  fix t t1
  assume a: "demo_table 8 = Inr t" "insertOrSet string_hash sso_eq 0 [107] demo_value 0 t = Inr (True, t1)"
    "contents t1 = [[107] \<mapsto> demo_value]" "length (lruLists t1) = 1"
    "table_inv string_hash nul_free t1 (inserted 0 (init_chains 8 1))"
    "window_ok string_hash t1 [107]" "elem_of t1 [107] = Some 0"
  show ?thesis using cache_overwrite[OF a(5), of 0 "[107]" 0 zero_value 0] a by (auto simp: nul_free_def)
qed

text \<open>
  C9: \<open>set\<close> overwrites the value of a key that is present and reports whether it was; on an absent
  key it changes no entry.
\<close>

theorem cache_set:
  assumes "table_inv string_hash nul_free t C" and "tid < length (lruLists t)"
    and "nul_free k" and "window_ok string_hash t k"
  shows "\<exists>t'. set_kv string_hash sso_eq tid k v expTime t = Inr (contents t k \<noteq> None, t') \<and>
    contents t' = (if contents t k = None then contents t else (contents t)(k \<mapsto> v)) \<and> same_shape t t' \<and>
    table_inv string_hash nul_free t' (lookup_chains tid (elem_of t k) C) \<and>
    orphans t' (lookup_chains tid (elem_of t k) C) = orphans t C"
  by (rule yam.set_map[OF assms])

theorem cache_set_witness:
  "\<exists>t t1 t2. demo_table 8 = Inr t \<and> insertOrSet string_hash sso_eq 0 [107] demo_value 0 t = Inr (True, t1) \<and>
     set_kv string_hash sso_eq 0 [97] zero_value 0 t1 = Inr (False, t2) \<and> contents t2 = [[107] \<mapsto> demo_value]"
proof (rule demo_held)
  fix t t1
  assume a: "demo_table 8 = Inr t" "insertOrSet string_hash sso_eq 0 [107] demo_value 0 t = Inr (True, t1)"
    "contents t1 = [[107] \<mapsto> demo_value]" "length (lruLists t1) = 1"
    "table_inv string_hash nul_free t1 (inserted 0 (init_chains 8 1))" "window_ok string_hash t1 [97]"
  show ?thesis using cache_set[OF a(5), of 0 "[97]" zero_value 0] a by (auto simp: nul_free_def)
qed

text \<open>
  \<open>insert\<close> refuses a key that is present: no entry changes and the lists are as before.
\<close>

theorem cache_insert_refuses:
  assumes "table_inv string_hash nul_free t C" and "tid < length (lruLists t)"
    and "nul_free k" and "window_ok string_hash t k" and "contents t k \<noteq> None"
  shows "\<exists>t'. insert_kv string_hash sso_eq tid k v expTime t = Inr (False, t') \<and>
    contents t' = contents t \<and> same_shape t t' \<and> table_inv string_hash nul_free t' C \<and> orphans t' C = orphans t C"
  by (rule yam.insert_hit_map[OF assms])

theorem cache_insert_refuses_witness:
  "\<exists>t t1 t2. demo_table 8 = Inr t \<and> insertOrSet string_hash sso_eq 0 [107] demo_value 0 t = Inr (True, t1) \<and>
     insert_kv string_hash sso_eq 0 [107] zero_value 0 t1 = Inr (False, t2) \<and> contents t2 = [[107] \<mapsto> demo_value]"
proof (rule demo_held)
  fix t t1
  assume a: "demo_table 8 = Inr t" "insertOrSet string_hash sso_eq 0 [107] demo_value 0 t = Inr (True, t1)"
    "contents t1 = [[107] \<mapsto> demo_value]" "length (lruLists t1) = 1"
    "table_inv string_hash nul_free t1 (inserted 0 (init_chains 8 1))" "window_ok string_hash t1 [107]"
  show ?thesis using cache_insert_refuses[OF a(5), of 0 "[107]" zero_value 0] a by (auto simp: nul_free_def)
qed

section \<open>Construction and runs\<close>

text \<open>
  C7: the constructor succeeds for every sensible size (at least one element per thread, fewer
  elements than slots, element numbers below the two reserved marks) and yields an empty cache
  that satisfies the invariant, with the elements dealt out evenly to the threads' free lists.
\<close>

theorem cache_constructor:
  assumes "0 < T" and "T \<le> N" and "N < H" and "N \<le> LIST_END_MARK"
    and "length (locks garbage) = HASH_MAX_LOCK_DEPTH"
  shows "\<exists>t. LFLRUHashTable garbage k0 v0 N H T = Inr t \<and> contents t = Map.empty \<and> hashSize t = H \<and>
    length (lruLists t) = T \<and> length (elementStorage t) = N \<and> elementLinks t = replicate H HASH_FREE_MARK \<and>
    table_inv string_hash nul_free t (init_chains (N div T) T) \<and> orphans t (init_chains (N div T) T) = {}"
  by (rule constructor_inv[OF assms])

theorem cache_constructor_witness:
  "\<exists>t. LFLRUHashTable zero_lru [] zero_value 1000 4000 4 = Inr t \<and> contents t = Map.empty \<and>
     table_inv string_hash nul_free t (init_chains 250 4)"
  using cache_constructor[of 4 1000 4000 zero_lru "[]" zero_value]
  by (auto simp: zero_lru_def LIST_END_MARK_def)

text \<open>
  C4: any sequence of operations by any threads, each safe where it is called, runs to the end
  without a fault and its replies are those of a map that may forget one key per insertion.
\<close>

theorem cache_runs_refine_map:
  assumes "table_inv string_hash nul_free t C" and "run_safe ops t C"
  shows "\<exists>log t' C'. exec_run ops t = Inr (log, t') \<and> map fst log = map snd ops \<and>
    spec_run (contents t) log (contents t') \<and> table_inv string_hash nul_free t' C'"
  by (rule run_refines[OF assms])

theorem cache_runs_refine_map_witness:
  "\<exists>t log t'. demo_table 8 = Inr t \<and>
     exec_run [(0, OInsertOrSet [107] demo_value 0), (0, OGet [107])] t = Inr (log, t') \<and>
     log = [(OInsertOrSet [107] demo_value 0, RBool True), (OGet [107], RValue (Some demo_value))]"
proof -
  let ?ops = "[(0, OInsertOrSet [107] demo_value 0), (0, OGet [107])]"
  obtain t where t: "demo_table 8 = Inr t" "contents t = Map.empty" "hashSize t = 16" "length (lruLists t) = 1"
    "length (elementStorage t) = 8" "table_inv string_hash nul_free t (init_chains 8 1)"
    using demo_empty[of 8] by auto
  have tl: "tl (init_chains 8 1 (Free 0)) \<noteq> []" by (simp add: init_chains_def tl_upt)
  have nf: "nul_free [107]" by (simp add: nul_free_def)
  have w: "window_ok string_hash t [107]" using demo_window[OF t(6,3)] t(5) by simp
  obtain t1 where t1: "insertOrSet string_hash sso_eq 0 [107] demo_value 0 t = Inr (True, t1)"
    "contents t1 = [[107] \<mapsto> demo_value]" "same_shape t t1"
    using yam.insert_spare_map[OF t(6) _ nf w, of 0 demo_value 0] t tl by auto
  have "op_ok t (init_chains 8 1) 0 (OInsertOrSet [107] demo_value 0)"
    using t(2,4) tl nf w by (simp add: op_ok_def insert_safe_def)
  moreover have "run_safe [(0, OGet [107])] t1 C1" if "table_inv string_hash nul_free t1 C1" for C1
    using that demo_window[OF that] t1(3) t nf by (simp add: op_ok_def same_shape_def)
  ultimately have safe: "run_safe ?ops t (init_chains 8 1)" using t1(1) by simp
  obtain log t' where log: "exec_run ?ops t = Inr (log, t')" "map fst log = map snd ?ops"
    "spec_run Map.empty log (contents t')"
    using cache_runs_refine_map[OF t(6) safe] t(2) by auto
  obtain v where v: "log = [(OInsertOrSet [107] demo_value 0, RBool True), (OGet [107], RValue v)]"
    using log(1) t1(1) by (auto simp: bind_res_Inr_iff)
  obtain r l t3 where g: "get string_hash sso_eq 0 [107] None t1 = Inr (r, l, t3)" "r = v"
    using log(1) t1(1) v by (auto simp: bind_res_Inr_iff)
  obtain C1 where C1: "table_inv string_hash nul_free t1 C1"
    using yam.insert_spare_map[OF t(6) _ nf w, of 0 demo_value 0] t tl t1(1) by auto
  have sh: "0 < length (lruLists t1)" "window_ok string_hash t1 [107]"
    using t1(3) t demo_window[OF C1] by (simp_all add: same_shape_def)
  have "r = Some demo_value" using yam.get_map[OF C1 sh(1) nf sh(2)] g(1) t1(2) by auto
  then show ?thesis using t(1) log(1) v g(2) by auto
qed

end
