(* ===== verification/Cache_Faults.thy ===== *)
theory Cache_Faults
  imports Cache_Props2
begin

text \<open>
  Where the cache does not keep its promise: \<open>remove\<close> and what it leaves behind, the backward shift
  across the end of the index, lookups that keep their slots locked, the item count and expiry.
\<close>

section \<open>remove\<close>

text \<open>
  C17: removing a key that is present, at an end of its LRU list and followed by nothing that would
  have to move, drops exactly that entry but leaves its element on the LRU list: the element is
  neither in the index nor on a free list.
\<close>

theorem cache_remove_orphans:
  assumes "table_inv string_hash nul_free t C" and "tid < length (lruLists t)"
    and "nul_free k" and "window_ok string_hash t k" and "elem_of t k = Some e"
    and "elementLinks t ! (hashSize t - 1) = HASH_FREE_MARK"
    and "q < hashSize t" and "elementLinks t ! q = e" and "quiet_run string_hash t q"
    and "e \<in> set (C (Lru i))" and "\<not> interior e (C (Lru i))"
  shows "\<exists>t'. remove string_hash sso_eq tid k t = Inr (True, t') \<and> contents t' = (contents t)(k := None) \<and>
    table_inv string_hash nul_free t' C \<and> orphans t' C = insert e (orphans t C)"
  using yam.remove_edge_map[OF assms] by blast

lemma demo_quiet:
  assumes "elementLinks t = (replicate 16 HASH_FREE_MARK)[3 := 0]" and "hashSize t = 16"
  shows "quiet_run string_hash t 3"
  unfolding quiet_run_def
proof (intro allI impI)
  fix p assume p: "3 < p \<and> p < hashSize t \<and> (\<forall>j. 3 \<le> j \<and> j \<le> p \<longrightarrow> elementLinks t ! j \<noteq> HASH_FREE_MARK)"
  then have "elementLinks t ! p \<noteq> HASH_FREE_MARK" by simp
  then show "3 < home string_hash t (elementLinks t ! p)" using p assms by simp
qed

theorem cache_remove_orphans_witness:
  "\<exists>t t1 t2. demo_table 8 = Inr t \<and> insertOrSet string_hash sso_eq 0 [107] demo_value 0 t = Inr (True, t1) \<and>
     remove string_hash sso_eq 0 [107] t1 = Inr (True, t2) \<and> contents t2 = Map.empty \<and>
     0 \<in> orphans t2 (inserted 0 (init_chains 8 1))"
proof (rule demo_held)
  fix t t1
  assume a: "demo_table 8 = Inr t" "insertOrSet string_hash sso_eq 0 [107] demo_value 0 t = Inr (True, t1)"
    "contents t1 = [[107] \<mapsto> demo_value]" "hashSize t1 = 16" "length (lruLists t1) = 1"
    "elementLinks t1 = (replicate 16 HASH_FREE_MARK)[3 := 0]"
    "table_inv string_hash nul_free t1 (inserted 0 (init_chains 8 1))"
    "window_ok string_hash t1 [107]" "elem_of t1 [107] = Some 0"
  have C: "inserted 0 (init_chains 8 1) (Lru 0) = [0]" by (simp add: inserted_def init_chains_def hd_upt)
  then have edge: "0 \<in> set (inserted 0 (init_chains 8 1) (Lru 0))" "\<not> interior 0 (inserted 0 (init_chains 8 1) (Lru 0))"
    by (simp_all add: interior_def Cons_eq_append_conv)
  show ?thesis
    using cache_remove_orphans[OF a(7) _ _ a(8,9) _ _ _ demo_quiet[OF a(6,4)] edge, of 0] a by (auto simp: nul_free_def)
qed

text \<open>
  C15: removing a key that is absent reads the element array at index 0xFFFFFFFF: the first loop of
  \<open>removeFromHashKey\<close> uses the mark of the free slot it finds as an element number.
\<close>

theorem cache_remove_absent_faults:
  assumes "table_inv string_hash nul_free t C" and "tid < length (lruLists t)"
    and "nul_free k" and "window_ok string_hash t k" and "contents t k = None"
  shows "remove string_hash sso_eq tid k t = Inl OutOfBounds"
  by (rule yam.remove_absent_map[where C = C, OF _ assms(2-5)]) (use assms(1) in \<open>simp add: table_inv_def\<close>)

theorem cache_remove_absent_faults_witness:
  "\<exists>t t1. demo_table 8 = Inr t \<and> insertOrSet string_hash sso_eq 0 [107] demo_value 0 t = Inr (True, t1) \<and>
     remove string_hash sso_eq 0 [97] t1 = Inl OutOfBounds"
proof (rule demo_held)
  fix t t1
  assume a: "demo_table 8 = Inr t" "insertOrSet string_hash sso_eq 0 [107] demo_value 0 t = Inr (True, t1)"
    "contents t1 = [[107] \<mapsto> demo_value]" "length (lruLists t1) = 1"
    "table_inv string_hash nul_free t1 (inserted 0 (init_chains 8 1))" "window_ok string_hash t1 [97]"
  show ?thesis using cache_remove_absent_faults[OF a(5), of 0 "[97]"] a by (auto simp: nul_free_def)
qed

text \<open>
  C16: removing a key never returns when the record in the next slot could take its place: the second
  loop of \<open>removeFromHashKey\<close> does not advance after it has moved a record.
\<close>

theorem cache_remove_spins:
  assumes "table_inv string_hash nul_free t C" and "tid < length (lruLists t)"
    and "nul_free k" and "window_ok string_hash t k" and "elem_of t k = Some e"
    and "elementLinks t ! (hashSize t - 1) = HASH_FREE_MARK" and "q < hashSize t" and "elementLinks t ! q = e"
    and "elementLinks t ! Suc q \<noteq> HASH_FREE_MARK" and "home string_hash t (elementLinks t ! Suc q) \<le> q"
  shows "remove string_hash sso_eq tid k t = Inl Spins"
  by (rule yam.remove_spins_map[where C = C, OF _ assms(2-10)]) (use assms(1) in \<open>simp add: table_inv_def\<close>)

theorem cache_remove_spins_witness:
  "\<exists>t t1 t2. demo_table 8 = Inr t \<and> insertOrSet string_hash sso_eq 0 [97] demo_value 0 t = Inr (True, t1) \<and>
     insertOrSet string_hash sso_eq 0 [98] demo_value 0 t1 = Inr (True, t2) \<and>
     remove string_hash sso_eq 0 [97] t2 = Inl Spins"
proof -
  obtain t t1 t2 where t: "demo_table 8 = Inr t" "insertOrSet string_hash sso_eq 0 [97] demo_value 0 t = Inr (True, t1)"
    "insertOrSet string_hash sso_eq 0 [98] demo_value 0 t1 = Inr (True, t2)" "hashSize t2 = 16"
    "length (lruLists t2) = 1" "length (elementStorage t2) = 8"
    "elementLinks t2 = (replicate 16 HASH_FREE_MARK)[11 := 0, 12 := 1]"
    "table_inv string_hash nul_free t2 (inserted 0 (inserted 0 (init_chains 8 1)))"
    "key_at t2 0 = [97]" "key_at t2 1 = [98]"
    using demo_two[of 8 "[97]" "[98]" demo_value 0 demo_value 0] hash_facts by (auto simp: nul_free_def)
  have core: "table_core string_hash nul_free t2 (inserted 0 (inserted 0 (init_chains 8 1)))"
    using t(8) by (simp add: table_inv_def)
  have links: "elementLinks t2 ! 11 = 0" "elementLinks t2 ! 12 = 1" "elementLinks t2 ! 15 = HASH_FREE_MARK"
    by (simp_all add: t(7))
  have ne: "(0::nat) \<noteq> HASH_FREE_MARK" "(1::nat) \<noteq> HASH_FREE_MARK" unfolding HASH_FREE_MARK_def by simp_all
  have "0 \<in> set (elementLinks t2)" using links(1) nth_mem[of 11 "elementLinks t2"] t(7) by simp
  then have "0 \<in> set (occupied t2)" using ne unfolding occupied_def set_filter by blast
  then have el: "elem_of t2 [97] = Some 0" using elem_of_Some[OF table_coreD(8)[OF core], of "[97]" 0] t(9) by simp
  have "home string_hash t2 1 = 11" using t(4,10) hash_facts(2) by (simp add: home_def)
  then show ?thesis
    using cache_remove_spins[OF t(8) _ _ _ el, of 0 11] t links ne demo_window[OF t(8,4)] by (auto simp: nul_free_def)
qed

text \<open>
  An insertion by \<open>insertOrSet\<close> that has to evict an orphan aborts the server: the key of the
  element is not in the index any more, and \<open>insertOrSet\<close> calls \<open>abort()\<close> on that.
\<close>

theorem cache_orphan_eviction_aborts:
  assumes "table_inv string_hash nul_free t C" and "tid < length (lruLists t)"
    and "nul_free k" and "evict_room string_hash t k" and "contents t k = None" and "tl (C (Free tid)) = []"
    and "C (Lru tid) \<noteq> []" and "last (C (Lru tid)) \<in> orphans t C"
    and "nul_free (key_at t (last (C (Lru tid))))" and "contents t (key_at t (last (C (Lru tid)))) = None"
    and "key_at t (last (C (Lru tid))) \<noteq> k"
  shows "insertOrSet string_hash sso_eq tid k v expTime t = Inl Aborted"
  by (rule yam.insert_orphan_aborts[OF assms])

theorem cache_orphan_eviction_aborts_witness:
  "\<exists>t t1 t2. demo_table 2 = Inr t \<and> insertOrSet string_hash sso_eq 0 [107] demo_value 0 t = Inr (True, t1) \<and>
     remove string_hash sso_eq 0 [107] t1 = Inr (True, t2) \<and>
     insertOrSet string_hash sso_eq 0 [97] demo_value 0 t2 = Inl Aborted"
proof -
  let ?C = "inserted 0 (init_chains 2 1)"
  obtain t t1 where t: "demo_table 2 = Inr t" "insertOrSet string_hash sso_eq 0 [107] demo_value 0 t = Inr (True, t1)"
    "contents t1 = [[107] \<mapsto> demo_value]" "hashSize t1 = 16" "length (lruLists t1) = 1" "length (elementStorage t1) = 2"
    "elementLinks t1 = (replicate 16 HASH_FREE_MARK)[3 := 0]" "table_inv string_hash nul_free t1 ?C" "key_at t1 0 = [107]"
    using demo_one[of 2 "[107]" demo_value 0] hash_facts by (auto simp: nul_free_def)
  have core: "table_core string_hash nul_free t1 ?C" using t(8) by (simp add: table_inv_def)
  have C: "?C (Lru 0) = [0]" "tl (?C (Free 0)) = []" by (simp_all add: inserted_def init_chains_def hd_upt tl_upt)
  then have edge: "0 \<in> set (?C (Lru 0))" "\<not> interior 0 (?C (Lru 0))" by (simp_all add: interior_def Cons_eq_append_conv)
  have nz: "(0::nat) \<noteq> HASH_FREE_MARK" unfolding HASH_FREE_MARK_def by simp
  have links: "elementLinks t1 ! 3 = 0" "elementLinks t1 ! 15 = HASH_FREE_MARK" by (simp_all add: t(7))
  have "0 \<in> set (elementLinks t1)" using links(1) nth_mem[of 3 "elementLinks t1"] t(7) by simp
  then have "0 \<in> set (occupied t1)" using nz unfolding occupied_def set_filter by blast
  then have el: "elem_of t1 [107] = Some 0" using elem_of_Some[OF table_coreD(8)[OF core], of "[107]" 0] t(9) by simp
  have nf: "nul_free [107]" "nul_free [97]" by (simp_all add: nul_free_def)
  have w: "window_ok string_hash t1 [107]" using demo_window[OF t(8,4)] t(6) by simp
  obtain t2 q where t2: "remove string_hash sso_eq 0 [107] t1 = Inr (True, t2)" "contents t2 = (contents t1)([107] := None)"
      "same_shape t1 t2" "table_inv string_hash nul_free t2 ?C" "orphans t2 ?C = insert 0 (orphans t1 ?C)" "key_at t2 0 = [107]"
    and q: "elementLinks t2 = shift_from (home string_hash t1) (elementLinks t1) q (Suc q)" "q < hashSize t1" "elementLinks t1 ! q = 0"
    using yam.remove_edge_map[OF t(8) _ nf(1) w el _ _ links(1) demo_quiet[OF t(7,4)] edge] t links by auto
  have q3: "q = 3" using q(2,3) t(4,7) nz by (cases "q = 3") (auto simp: nth_list_update_if)
  have "elementLinks t2 = (elementLinks t1)[3 := HASH_FREE_MARK]"
    unfolding q(1) q3 by (rule shift_from_quiet[where E = 4]) (simp_all add: t(7))
  then have l2: "\<forall>i < 16. i \<noteq> 0 \<longrightarrow> elementLinks t2 ! i = HASH_FREE_MARK"
    using t(7) by (simp add: nth_list_update_if)
  have h2: "hashSize t2 = 16" "length (lruLists t2) = 1" using t2(3) t by (simp_all add: same_shape_def)
  have room: "evict_room string_hash t2 [97]" by (rule demo_room[OF l2 h2(1)]) (simp_all add: hash_facts)
  have c2: "contents t2 = Map.empty" using t2(2) t(3) by simp
  have "insertOrSet string_hash sso_eq 0 [97] demo_value 0 t2 = Inl Aborted"
    using cache_orphan_eviction_aborts[OF t2(4) _ nf(2) room _ C(2), of demo_value 0] C h2 t2(5,6) nf c2 by simp
  then show ?thesis using t t2 by blast
qed

section \<open>The shift across the end of the index\<close>

text \<open>
  C18: removing the record in the last slot (which eviction does) can make another key unreachable.
  The record of slot 0, which sits in its home slot, is moved back to the last slot, and a lookup
  of its key, which starts at slot 0, then ends at once with a miss although the cache holds it.
\<close>

theorem cache_shift_loses_key:
  assumes "index_ok t" and "3 \<le> hashSize t" and "tid < length (lruLists t)"
    and "length (locks (lruLists t ! tid)) = HASH_MAX_LOCK_DEPTH"
    and "elementLinks t ! (hashSize t - 1) = e" and "e < length (elementStorage t)" and "e \<noteq> HASH_FREE_MARK"
    and "elementLinks t ! 0 = x" and "x < length (elementStorage t)" and "x \<noteq> HASH_FREE_MARK"
    and "elementLinks t ! 1 = HASH_FREE_MARK"
    and "home string_hash t e = hashSize t - 1" and "home string_hash t x = 0"
  shows "\<exists>t1 t2. removeFromHashPos string_hash sso_eq tid e t = Inr (True, t1) \<and>
    x \<in> set (occupied t1) \<and> key_at t1 x = key_at t x \<and>
    get string_hash sso_eq tid (key_at t x) None t1 = Inr (None, None, t2)"
proof -
  have "sso_eq (key_at t e) (key_at t e)" by (simp add: sso_eq_def)
  then obtain ls where rm: "removeFromHashPos string_hash sso_eq tid e t = Inr (True, saveLocks tid ls
      (t\<lparr>elementLinks := (elementLinks t)[hashSize t - 1 := x, 0 := HASH_FREE_MARK]\<rparr>))"
    "length ls = HASH_MAX_LOCK_DEPTH"
    using shift_wraps[OF assms] by blast
  let ?S = "(elementLinks t)[hashSize t - 1 := x, 0 := HASH_FREE_MARK]"
  let ?t1 = "saveLocks tid ls (t\<lparr>elementLinks := ?S\<rparr>)"
  have n: "length (elementLinks t) = hashSize t" using assms(1) by (simp add: index_ok_def)
  have "?S ! (hashSize t - 1) = x" using n assms(2) by simp
  then have "x \<in> set ?S" using nth_mem[of "hashSize t - 1" ?S] n assms(2) by simp
  then have occ: "x \<in> set (occupied ?t1)" using assms(10) by (simp add: occupied_def)
  have "HASH_LOCK_MARK \<notin> set ?S"
    using assms(1,8) n assms(2) nth_mem[of 0 "elementLinks t"]
      set_update_subset_insert[of "elementLinks t" "hashSize t - 1" x]
      set_update_subset_insert[of "(elementLinks t)[hashSize t - 1 := x]" 0 HASH_FREE_MARK]
    unfolding index_ok_def by fastforce
  then have ix: "index_ok ?t1" using n assms(2) by (simp add: index_ok_def)
  have s0: "slot ?t1 0 0 = HASH_FREE_MARK" using n assms(2) by (simp add: slot_def)
  have lk: "locks (lruLists ?t1 ! tid) = ls" using assms(3) by (simp add: saveLocks_def lruLists_upd_list upd_list_def)
  have pr: "probeStart (keyMatch sso_eq (key_at t x)) ls 0 ?t1 = Inr (False, 0, 0, probed ?t1 0 0 ls, locked ?t1 0 0)"
    using probeStart_run[where mt = "keyMatch sso_eq (key_at t x)" and D = 0, OF ix _ _ rm(2)] s0 assms(2)
    by (simp add: HASH_MAX_LOCK_DEPTH_def)
  have un: "unlockElementsHash 0 0 (probed ?t1 0 0 ls) (locked ?t1 0 0) = Inr ?t1"
    using unlock_probed_same[OF ix, of 0 0 ls] assms(2) rm(2) by (simp add: HASH_MAX_LOCK_DEPTH_def)
  have "string_hash (key_at t x) mod hashSize ?t1 = 0" using assms(13) by (simp add: home_def)
  then have "\<exists>t2. get string_hash sso_eq tid (key_at t x) None ?t1 = Inr (None, None, t2)"
    using pr un lk assms(3) by (simp add: get_def Let_def)
  then show ?thesis using rm(1) occ by (auto simp: key_at_def)
qed

theorem cache_shift_loses_key_witness:
  "\<exists>t t1 t2 t3 t4. demo_table 8 = Inr t \<and> insertOrSet string_hash sso_eq 0 [104] demo_value 0 t = Inr (True, t1) \<and>
     insertOrSet string_hash sso_eq 0 [117] demo_value 0 t1 = Inr (True, t2) \<and>
     removeFromHashPos string_hash sso_eq 0 0 t2 = Inr (True, t3) \<and>
     key_at t3 1 = [117] \<and> get string_hash sso_eq 0 [117] None t3 = Inr (None, None, t4)"
proof -
  obtain t t1 t2 where t: "demo_table 8 = Inr t" "insertOrSet string_hash sso_eq 0 [104] demo_value 0 t = Inr (True, t1)"
    "insertOrSet string_hash sso_eq 0 [117] demo_value 0 t1 = Inr (True, t2)" "hashSize t2 = 16"
    "length (lruLists t2) = 1" "length (elementStorage t2) = 8"
    "elementLinks t2 = (replicate 16 HASH_FREE_MARK)[15 := 0, 0 := 1]"
    "table_inv string_hash nul_free t2 (inserted 0 (inserted 0 (init_chains 8 1)))"
    "key_at t2 0 = [104]" "key_at t2 1 = [117]"
    using demo_two[of 8 "[104]" "[117]" demo_value 0 demo_value 0] hash_facts by (auto simp: nul_free_def)
  have core: "table_core string_hash nul_free t2 (inserted 0 (inserted 0 (init_chains 8 1)))"
    using t(8) by (simp add: table_inv_def)
  have links: "elementLinks t2 ! 15 = 0" "elementLinks t2 ! 0 = 1" "elementLinks t2 ! 1 = HASH_FREE_MARK"
    by (simp_all add: t(7))
  have ne: "(0::nat) \<noteq> HASH_FREE_MARK" "(1::nat) \<noteq> HASH_FREE_MARK" unfolding HASH_FREE_MARK_def by simp_all
  have homes: "home string_hash t2 0 = 15" "home string_hash t2 1 = 0"
    using t(4,9,10) hash_facts by (simp_all add: home_def)
  have "length (locks (lruLists t2 ! 0)) = HASH_MAX_LOCK_DEPTH" using table_core_locks[OF core, of 0] t(5) by simp
  then show ?thesis
    using cache_shift_loses_key[OF table_coreD(2)[OF core], of 0 0 1] t links ne homes by auto
qed

section \<open>Locks that outlive a call\<close>

text \<open>
  C19: \<open>get\<close> with a lock array (the first half of a compare-and-swap) returns the right answer but
  leaves the home slot of the key locked, also when the key is absent; a later \<open>get\<close> of a key with
  that home, by any thread, spins until someone unlocks it.
\<close>

theorem cache_cas_get_blocks:
  assumes "table_inv string_hash nul_free t C" and "tid < length (lruLists t)" and "nul_free k"
    and "window_ok string_hash t k" and "length ls = HASH_MAX_LOCK_DEPTH" and "tid' < length (lruLists t)"
    and "string_hash k' mod hashSize t = string_hash k mod hashSize t"
  shows "\<exists>ls' t'. get string_hash sso_eq tid k (Some ls) t = Inr (contents t k, Some ls', t') \<and>
    get string_hash sso_eq tid' k' None t' = Inl Spins"
proof -
  obtain ls' t' where g: "get string_hash sso_eq tid k (Some ls) t = Inr (contents t k, Some ls', t')"
    "elementLinks t' ! (string_hash k mod hashSize t) = HASH_LOCK_MARK" "same_shape t t'"
    "length (elementLinks t') = hashSize t"
    using yam.get_cas_map[OF assms(1-5)] by blast
  have n: "0 < hashSize t" using assms(1) table_coreD(11) unfolding table_inv_def by blast
  have "probeStart (keyMatch sso_eq k') (locks (lruLists t' ! tid')) (string_hash k' mod hashSize t') t' = Inl Spins"
    by (rule probeStart_locked) (use g assms(7) n in \<open>simp_all add: same_shape_def\<close>)
  then show ?thesis using g assms(6) by (auto simp: get_def Let_def same_shape_def)
qed

theorem cache_cas_get_blocks_witness:
  "\<exists>t ls' t'. demo_table 8 = Inr t \<and>
     get string_hash sso_eq 0 [97] (Some (replicate HASH_MAX_LOCK_DEPTH 0)) t = Inr (None, Some ls', t') \<and>
     get string_hash sso_eq 0 [98] None t' = Inl Spins"
proof -
  obtain t where t: "demo_table 8 = Inr t" "contents t = Map.empty" "hashSize t = 16" "length (lruLists t) = 1"
    "length (elementStorage t) = 8" "table_inv string_hash nul_free t (init_chains 8 1)"
    using demo_empty[of 8] by auto
  have "window_ok string_hash t [97]" using demo_window[OF t(6,3)] t(5) by simp
  then show ?thesis
    using cache_cas_get_blocks[OF t(6), of 0 "[97]" "replicate HASH_MAX_LOCK_DEPTH 0" 0 "[98]"] t hash_facts
    by (auto simp: nul_free_def)
qed

section \<open>Counting and expiry\<close>

text \<open>
  Counting items with \<open>processHash\<close>, as \<open>STATS\<close> does, yields the number of slots of the index,
  however many of them are full: the processor is called for free slots too.
\<close>

theorem cache_item_count:
  assumes "index_ok t"
  shows "processHash count_item 0 t = Inr (hashSize t, t)"
  using processHash_run[OF assms, of count_item 0] assms foldl_count[of 0 "elementLinks t"]
  by (simp add: count_item_def index_ok_def)

theorem cache_item_count_witness:
  "\<exists>t. demo_table 8 = Inr t \<and> contents t = Map.empty \<and> processHash count_item 0 t = Inr (16, t)"
proof -
  obtain t where t: "demo_table 8 = Inr t" "contents t = Map.empty" "hashSize t = 16"
    "table_inv string_hash nul_free t (init_chains 8 1)" using demo_empty[of 8] by auto
  have "index_ok t" using t(4) table_coreD(2) unfolding table_inv_def by blast
  then show ?thesis using cache_item_count t by fastforce
qed

text \<open>
  Expiring items does nothing when every registered item has expired: the guard compares
  \<open>upper_bound\<close> with \<open>end()\<close>.
\<close>

theorem cache_expiry_skips:
  assumes "tid < length (lruLists t)" and "\<forall>p \<in> set (expTimeMap (lruLists t ! tid)). fst p \<le> now"
  shows "removeExpiredItems string_hash tid now t = Inr t"
  by (rule removeExpiredItems_all[OF assms])

theorem cache_expiry_skips_witness:
  "removeExpiredItems string_hash 0 10
     \<lparr>lruLists = [zero_lru\<lparr>expTimeMap := [(5, 3, 0)]\<rparr>], elementStorage = [], elementLinks = [],
      numElements = 0, hashSize = 0, numThreads = 1, nextThreadId = 0, globalFreeListHead = LIST_END_MARK\<rparr> =
   Inr \<lparr>lruLists = [zero_lru\<lparr>expTimeMap := [(5, 3, 0)]\<rparr>], elementStorage = [], elementLinks = [],
      numElements = 0, hashSize = 0, numThreads = 1, nextThreadId = 0, globalFreeListHead = LIST_END_MARK\<rparr>"
  by (rule cache_expiry_skips) simp_all

end
