(* ===== verification/Slot_Threads.thy ===== *)
theory Slot_Threads
  imports LRU_Table_Ops Table_Inv "HOL-Library.Multiset"
begin

text \<open>
  The slot locks of \<open>src/src/LFLRUHashTable.h\<close> under several threads: any number of callers run the
  probing part of \<open>get\<close> and \<open>set\<close> without a lock array, \<open>insert\<close>, \<open>insertOrSet\<close>, \<open>removeFromHashPos\<close> and
  \<open>removeFromHashIdx\<close> at once, interleaved at every access to \<open>elementLinks\<close>. Not among the calls are
  \<open>remove\<close> with its \<open>removeFromHashKey\<close>, \<open>get\<close> and \<open>set\<close> with a lock array, \<open>lockElement\<close>, \<open>unlockElement\<close> and
  \<open>processHash\<close>: of these the first may spin and the lock arrays keep slots locked between calls
  (\<open>Cache_Faults\<close>). The memory order is
  taken as sequentially consistent. A caller owns the slots it has locked, and with them the keys and
  values of the elements there, so that it reads and writes these in the step in which it locks a slot.
  What the operations do to the linked lists before and after is not part of this model.
\<close>

section \<open>Callers\<close>

text \<open>
  The calls: the public operations without a lock array, and the two private removals that an eviction
  and the expiry make. An insertion comes with the element that it has taken from its free list.
\<close>

datatype ('k, 'v) call =
    Get 'k
  | Set 'k 'v
  | Insert 'k 'v nat
  | InsertOrSet 'k 'v nat
  | RemovePos nat
  | RemoveIdx nat nat

text \<open>
  \<open>Locking c s ls d x\<close>: a caller that has locked \<open>length ls\<close> slots from \<open>s\<close> on, with the values \<open>ls\<close> in its
  array \<open>locks\<close>, and is in \<open>lockElementHash\<close> for the next one; \<open>x\<close> is the variable \<open>idx\<close> there, once loaded;
  \<open>d\<close> is \<open>lockDepthDeleted\<close> in the second loop of a removal, with the element removed as a ghost. \<open>Unlocking s ls c\<close>: in
  \<open>unlockElementsHash\<close>, with \<open>c\<close> slots unlocked. \<open>Overrun\<close>: the depth is past the end of the array.
\<close>

datatype ('k, 'v) caller =
    Idle
  | Locking "('k, 'v) call" nat "nat list" "(nat \<times> nat) option" "nat option"
  | Unlocking nat "nat list" nat
  | Overrun "('k, 'v) call" nat "nat list" "(nat \<times> nat) option"

record ('k, 'v) shared =
  tab :: "('k, 'v) table"
  callers :: "('k, 'v) caller list"

definition start_slot :: "('k \<Rightarrow> nat) \<Rightarrow> ('k, 'v) call \<Rightarrow> ('k, 'v) table \<Rightarrow> nat" where
  "start_slot hasher c t =
     (case c of
        Get k \<Rightarrow> hasher k mod hashSize t
      | Set k v \<Rightarrow> hasher k mod hashSize t
      | Insert k v e \<Rightarrow> hasher k mod hashSize t
      | InsertOrSet k v e \<Rightarrow> hasher k mod hashSize t
      | RemovePos x \<Rightarrow> hasher (key_at t x) mod hashSize t
      | RemoveIdx pos e \<Rightarrow> pos)"

definition sought :: "('k \<Rightarrow> 'k \<Rightarrow> bool) \<Rightarrow> ('k, 'v) call \<Rightarrow> nat \<Rightarrow> ('k, 'v) table \<Rightarrow> bool" where
  "sought keq c e t =
     (case c of
        Get k \<Rightarrow> keq (key_at t e) k
      | Set k v \<Rightarrow> keq (key_at t e) k
      | Insert k v e' \<Rightarrow> keq (key_at t e) k
      | InsertOrSet k v e' \<Rightarrow> keq (key_at t e) k
      | RemovePos x \<Rightarrow> keq (key_at t e) (key_at t x)
      | RemoveIdx pos e' \<Rightarrow> e = e')"

text \<open>What a caller does on a free slot, and on the element it looks for.\<close>

definition on_free :: "('k, 'v) call \<Rightarrow> nat \<Rightarrow> nat list \<Rightarrow> ('k, 'v) table \<Rightarrow> ('k, 'v) caller \<times> ('k, 'v) table" where
  "on_free c s ls t =
     (case c of
        Insert k v e \<Rightarrow> (Unlocking s (butlast ls @ [e]) 0, put_elem e (\<lambda>x. x\<lparr>key := k, val := v\<rparr>) t)
      | InsertOrSet k v e \<Rightarrow> (Unlocking s (butlast ls @ [e]) 0, put_elem e (\<lambda>x. x\<lparr>key := k, val := v\<rparr>) t)
      | _ \<Rightarrow> (Unlocking s ls 0, t))"

definition on_found :: "('k, 'v) call \<Rightarrow> nat \<Rightarrow> nat list \<Rightarrow> ('k, 'v) table \<Rightarrow> ('k, 'v) caller \<times> ('k, 'v) table" where
  "on_found c s ls t =
     (case c of
        Set k v \<Rightarrow> (Unlocking s ls 0, put_elem (last ls) (\<lambda>x. x\<lparr>val := v\<rparr>) t)
      | InsertOrSet k v e \<Rightarrow> (Unlocking s ls 0, put_elem (last ls) (\<lambda>x. x\<lparr>val := v\<rparr>) t)
      | RemovePos x \<Rightarrow> (Locking c s ls (Some (length ls - 1, last ls)) None, t)
      | RemoveIdx pos e \<Rightarrow> (Locking c s ls (Some (length ls - 1, last ls)) None, t)
      | _ \<Rightarrow> (Unlocking s ls 0, t))"

text \<open>
  One iteration of the loops, with the value just locked at the end of \<open>ls\<close>: linear probing, and the
  walk of a removal to the next hole.
\<close>

definition after_lock ::
    "('k \<Rightarrow> nat) \<Rightarrow> ('k \<Rightarrow> 'k \<Rightarrow> bool) \<Rightarrow> ('k, 'v) call \<Rightarrow> nat \<Rightarrow> nat list \<Rightarrow> (nat \<times> nat) option \<Rightarrow> ('k, 'v) table
     \<Rightarrow> ('k, 'v) caller \<times> ('k, 'v) table" where
  "after_lock hasher keq c s ls d t =
     (if length ls > HASH_MAX_LOCK_DEPTH then (Overrun c s ls d, t)
      else case d of
        None \<Rightarrow>
          if last ls = HASH_FREE_MARK then on_free c s ls t
          else if sought keq c (last ls) t then on_found c s ls t
          else (Locking c s ls None None, t)
      | Some (d, y) \<Rightarrow>
          if last ls = HASH_FREE_MARK then (Unlocking s (ls[d := HASH_FREE_MARK]) 0, t)
          else if hasher (key_at t (last ls)) mod hashSize t \<le> (s + d) mod hashSize t
          then (Locking c s (ls[d := last ls]) (Some (length ls - 1, y)) None, t)
          else (Locking c s ls (Some (d, y)) None, t))"

text \<open>
  One access of caller \<open>i\<close> to \<open>elementLinks\<close>. \<open>weak\<close> makes \<open>compare_exchange_weak\<close> fail although the
  slot holds the expected value; a failed exchange loads the value of the slot.
\<close>

definition caller_step ::
    "('k \<Rightarrow> nat) \<Rightarrow> ('k \<Rightarrow> 'k \<Rightarrow> bool) \<Rightarrow> bool \<Rightarrow> nat \<Rightarrow> ('k, 'v) shared \<Rightarrow> ('k, 'v) shared" where
  "caller_step hasher keq weak i st =
     (case callers st ! i of
        Idle \<Rightarrow> st
      | Overrun c s ls d \<Rightarrow> st
      | Locking c s ls d x \<Rightarrow>
          let p = (s + length ls) mod hashSize (tab st);
              now = elementLinks (tab st) ! p
          in (case x of
                None \<Rightarrow> st\<lparr>callers := (callers st)[i := Locking c s ls d (Some now)]\<rparr>
              | Some x \<Rightarrow>
                  if x \<noteq> HASH_LOCK_MARK \<and> now = x \<and> \<not> weak
                  then case after_lock hasher keq c s (ls @ [x]) d
                              ((tab st)\<lparr>elementLinks := (elementLinks (tab st))[p := HASH_LOCK_MARK]\<rparr>) of (th, t) \<Rightarrow>
                         st\<lparr>tab := t, callers := (callers st)[i := th]\<rparr>
                  else st\<lparr>callers := (callers st)[i := Locking c s ls d (Some now)]\<rparr>)
      | Unlocking s ls c \<Rightarrow>
          st\<lparr>tab := (tab st)\<lparr>elementLinks := (elementLinks (tab st))[(s + c) mod hashSize (tab st) := ls ! c]\<rparr>,
             callers := (callers st)[i := if Suc c < length ls then Unlocking s ls (Suc c) else Idle]\<rparr>)"

definition begin_call :: "('k \<Rightarrow> nat) \<Rightarrow> ('k, 'v) call \<Rightarrow> nat \<Rightarrow> ('k, 'v) shared \<Rightarrow> ('k, 'v) shared" where
  "begin_call hasher c i st = st\<lparr>callers := (callers st)[i := Locking c (start_slot hasher c (tab st)) [] None None]\<rparr>"

section \<open>Who holds what\<close>

text \<open>
  The slots that a caller has locked, the elements in its hands, and those of them that it holds for
  the slots it has locked.
\<close>

fun held_slots :: "nat \<Rightarrow> ('k, 'v) caller \<Rightarrow> nat multiset" where
  "held_slots n Idle = {#}"
| "held_slots n (Locking c s ls d x) = {#(s + j) mod n. j \<in># mset [0..<length ls]#}"
| "held_slots n (Unlocking s ls c) = {#(s + j) mod n. j \<in># mset [c..<length ls]#}"
| "held_slots n (Overrun c s ls d) = {#(s + j) mod n. j \<in># mset [0..<length ls]#}"

definition elems :: "nat list \<Rightarrow> nat multiset" where
  "elems ls = filter_mset (\<lambda>v. v \<noteq> HASH_FREE_MARK \<and> v \<noteq> HASH_LOCK_MARK) (mset ls)"

text \<open>
  In the second loop of a removal the entry at \<open>lockDepthDeleted\<close> is the hole, and the caller has the
  element that was there.
\<close>

definition sans_hole :: "(nat \<times> nat) option \<Rightarrow> nat list \<Rightarrow> nat list" where
  "sans_hole d ls = (case d of None \<Rightarrow> ls | Some (d, y) \<Rightarrow> take d ls @ drop (Suc d) ls)"

definition taken_out :: "(nat \<times> nat) option \<Rightarrow> nat multiset" where
  "taken_out d = (case d of None \<Rightarrow> {#} | Some (d, y) \<Rightarrow> {#y#})"

definition to_insert :: "('k, 'v) call \<Rightarrow> nat multiset" where
  "to_insert c = (case c of Insert k v e \<Rightarrow> {#e#} | InsertOrSet k v e \<Rightarrow> {#e#} | _ \<Rightarrow> {#})"

fun held_elems :: "('k, 'v) caller \<Rightarrow> nat multiset" where
  "held_elems Idle = {#}"
| "held_elems (Locking c s ls d x) = elems (sans_hole d ls) + taken_out d + to_insert c"
| "held_elems (Unlocking s ls c) = elems (drop c ls)"
| "held_elems (Overrun c s ls d) = elems (sans_hole d ls) + taken_out d + to_insert c"

fun indexed_elems :: "('k, 'v) caller \<Rightarrow> nat multiset" where
  "indexed_elems Idle = {#}"
| "indexed_elems (Locking c s ls d x) = elems (sans_hole d ls)"
| "indexed_elems (Unlocking s ls c) = elems (drop c ls)"
| "indexed_elems (Overrun c s ls d) = elems (sans_hole d ls)"

definition locked_slots :: "nat list \<Rightarrow> nat multiset" where
  "locked_slots xs = mset_set {p. p < length xs \<and> xs ! p = HASH_LOCK_MARK}"

definition in_use :: "('k, 'v) shared \<Rightarrow> nat multiset" where
  "in_use st = elems (elementLinks (tab st)) + sum_list (map held_elems (callers st))"

definition indexed :: "('k, 'v) shared \<Rightarrow> nat multiset" where
  "indexed st = elems (elementLinks (tab st)) + sum_list (map indexed_elems (callers st))"

text \<open>
  A call may begin with an element to insert that nobody else has, and removes an element of the
  array or starts at a slot of the table.
\<close>

definition may_call :: "('k, 'v) call \<Rightarrow> ('k, 'v) shared \<Rightarrow> bool" where
  "may_call c st \<longleftrightarrow>
     (case c of
        Insert k v e \<Rightarrow> e < length (elementStorage (tab st)) \<and> e \<notin># in_use st
      | InsertOrSet k v e \<Rightarrow> e < length (elementStorage (tab st)) \<and> e \<notin># in_use st
      | RemovePos x \<Rightarrow> x < length (elementStorage (tab st))
      | RemoveIdx pos e \<Rightarrow> pos < hashSize (tab st)
      | _ \<Rightarrow> True)"

inductive slots_reach :: "('k \<Rightarrow> nat) \<Rightarrow> ('k \<Rightarrow> 'k \<Rightarrow> bool) \<Rightarrow> ('k, 'v) table \<Rightarrow> nat \<Rightarrow> ('k, 'v) shared \<Rightarrow> bool"
  for hasher keq t m where
  start: "slots_reach hasher keq t m \<lparr>tab = t, callers = replicate m Idle\<rparr>"
| call: "slots_reach hasher keq t m st \<Longrightarrow> i < m \<Longrightarrow> callers st ! i = Idle \<Longrightarrow> may_call c st \<Longrightarrow>
    slots_reach hasher keq t m (begin_call hasher c i st)"
| step: "slots_reach hasher keq t m st \<Longrightarrow> i < m \<Longrightarrow> slots_reach hasher keq t m (caller_step hasher keq weak i st)"

end
