(* ===== verification/Slot_Conc.thy ===== *)
theory Slot_Conc
  imports Slot_Threads
begin

text \<open>
  What the slot locks guarantee under any interleaving: a slot is held by at most one caller, no
  element is indexed twice or lost, no access is out of range; and callers never wait for each other
  in a circle, so that from every state all calls can run to their ends.
\<close>

section \<open>The invariant\<close>

definition removes :: "('k, 'v) call \<Rightarrow> bool" where
  "removes c \<longleftrightarrow> (case c of RemovePos x \<Rightarrow> True | RemoveIdx p e \<Rightarrow> True | _ \<Rightarrow> False)"

fun caller_ok :: "nat \<Rightarrow> nat \<Rightarrow> ('k, 'v) caller \<Rightarrow> bool" where
  "caller_ok n N Idle = True"
| "caller_ok n N (Locking c s ls d x) = (s < n \<and> length ls \<le> HASH_MAX_LOCK_DEPTH \<and>
     (\<forall>v \<in> set ls. v < N) \<and> (\<forall>e \<in># to_insert c. e < N) \<and> (\<forall>d' \<in> set_option d. fst d' < length ls \<and> removes c))"
| "caller_ok n N (Unlocking s ls c) = (s < n \<and> c < length ls \<and> (\<forall>v \<in> set ls. v < N \<or> v = HASH_FREE_MARK))"
| "caller_ok n N (Overrun c s ls d) = True"

definition conc_ok :: "nat \<Rightarrow> ('k, 'v) shared \<Rightarrow> bool" where
  "conc_ok m st \<longleftrightarrow>
     (let t = tab st; N = length (elementStorage t) in
      length (callers st) = m \<and> 0 < hashSize t \<and> hashSize t = length (elementLinks t) \<and> N \<le> HASH_LOCK_MARK \<and>
      (\<forall>th \<in> set (callers st). caller_ok (hashSize t) N th) \<and>
      locked_slots (elementLinks t) = sum_list (map (held_slots (hashSize t)) (callers st)) \<and>
      (\<forall>e. count (in_use st) e \<le> 1) \<and> (\<forall>e \<in># in_use st. e < N) \<and>
      (\<forall>v \<in> set (elementLinks t). v < N \<or> v = HASH_FREE_MARK \<or> v = HASH_LOCK_MARK))"

lemma conc_okD:
  assumes "conc_ok m st"
  shows "length (callers st) = m" "0 < hashSize (tab st)" "hashSize (tab st) = length (elementLinks (tab st))"
    and "length (elementStorage (tab st)) \<le> HASH_LOCK_MARK"
    and "th \<in> set (callers st) \<Longrightarrow> caller_ok (hashSize (tab st)) (length (elementStorage (tab st))) th"
    and "locked_slots (elementLinks (tab st)) = sum_list (map (held_slots (hashSize (tab st))) (callers st))"
    and "count (in_use st) e \<le> 1" "e \<in># in_use st \<Longrightarrow> e < length (elementStorage (tab st))"
    and "v \<in> set (elementLinks (tab st)) \<Longrightarrow> v < length (elementStorage (tab st)) \<or> v = HASH_FREE_MARK \<or> v = HASH_LOCK_MARK"
  using assms unfolding conc_ok_def Let_def by blast+

lemma conc_okI:
  assumes "length (callers st) = m" "0 < hashSize (tab st)" "hashSize (tab st) = length (elementLinks (tab st))"
    and "length (elementStorage (tab st)) \<le> HASH_LOCK_MARK"
    and "\<And>th. th \<in> set (callers st) \<Longrightarrow> caller_ok (hashSize (tab st)) (length (elementStorage (tab st))) th"
    and "locked_slots (elementLinks (tab st)) = sum_list (map (held_slots (hashSize (tab st))) (callers st))"
    and "\<And>e. count (in_use st) e \<le> 1" "\<And>e. e \<in># in_use st \<Longrightarrow> e < length (elementStorage (tab st))"
    and "\<And>v. v \<in> set (elementLinks (tab st)) \<Longrightarrow> v < length (elementStorage (tab st)) \<or> v = HASH_FREE_MARK \<or> v = HASH_LOCK_MARK"
  shows "conc_ok m st"
  unfolding conc_ok_def Let_def using assms by blast

text \<open>The sum over the callers when one of them changes.\<close>

lemma sum_list_one:
  assumes "i < length xs"
  obtains R :: "'b multiset" where "sum_list (map f xs) = f (xs ! i) + R" and "\<And>y. sum_list (map f (xs[i := y])) = f y + R"
proof
  let ?R = "sum_list (map f (take i xs)) + sum_list (map f (drop (Suc i) xs))"
  have split: "xs[i := y] = take i xs @ y # drop (Suc i) xs" for y using assms by (simp add: upd_conv_take_nth_drop)
  show "sum_list (map f (xs[i := y])) = f y + ?R" for y unfolding split by (simp add: ac_simps)
  from this[of "xs ! i"] show "sum_list (map f xs) = f (xs ! i) + ?R" by simp
qed

lemma locked_slots_lock:
  assumes "p < length xs" and "xs ! p \<noteq> HASH_LOCK_MARK"
  shows "locked_slots (xs[p := HASH_LOCK_MARK]) = add_mset p (locked_slots xs)"
proof -
  have "{q. q < length (xs[p := HASH_LOCK_MARK]) \<and> xs[p := HASH_LOCK_MARK] ! q = HASH_LOCK_MARK} =
      insert p {q. q < length xs \<and> xs ! q = HASH_LOCK_MARK}"
    using assms(1) by (auto simp: nth_list_update_if)
  then show ?thesis using assms(2) by (simp add: locked_slots_def)
qed

lemma locked_slots_unlock:
  assumes "p < length xs" and "xs ! p = HASH_LOCK_MARK" and "v \<noteq> HASH_LOCK_MARK"
  shows "locked_slots xs = add_mset p (locked_slots (xs[p := v]))"
proof -
  have "{q. q < length xs \<and> xs ! q = HASH_LOCK_MARK} =
      insert p {q. q < length (xs[p := v]) \<and> xs[p := v] ! q = HASH_LOCK_MARK}"
    using assms by (auto simp: nth_list_update_if)
  then show ?thesis using assms(1,3) by (simp add: locked_slots_def)
qed

lemma elems_update:
  assumes "p < length xs"
  shows "elems (xs[p := v]) + elems [xs ! p] = elems xs + elems [v]"
proof -
  have "mset (xs[p := v]) + {#xs ! p#} = mset xs + {#v#}"
    using assms by (simp add: mset_update insert_DiffM)
  from arg_cong[OF this, of "filter_mset (\<lambda>v. v \<noteq> HASH_FREE_MARK \<and> v \<noteq> HASH_LOCK_MARK)"]
  show ?thesis unfolding elems_def filter_union_mset by (simp only: mset.simps mset_single_iff_right)
qed

lemma elems_simps [simp]:
  "elems [] = {#}" "elems (xs @ ys) = elems xs + elems ys"
  "elems [HASH_FREE_MARK] = {#}" "elems [HASH_LOCK_MARK] = {#}"
  by (simp_all add: elems_def)

lemma elems_Cons: "elems (x # xs) = elems [x] + elems xs"
  by (simp add: elems_def)

lemma elems_one: "v < HASH_LOCK_MARK \<Longrightarrow> elems [v] = {#v#}"
  by (simp add: elems_def HASH_FREE_MARK_def HASH_LOCK_MARK_def)

lemma sans_hole_snoc: "\<forall>d' \<in> set_option d. fst d' < length ls \<Longrightarrow> sans_hole d (ls @ [x]) = sans_hole d ls @ [x]"
  by (cases d) (auto simp: sans_hole_def split: prod.splits)

lemma sans_hole_moved:
  assumes "d < length ls"
  shows "elems (sans_hole (Some (length ls, y)) ((ls @ [x])[d := x])) = elems (sans_hole (Some (d, y)) ls) + elems [x]"
proof -
  have "sans_hole (Some (length ls, y)) ((ls @ [x])[d := x]) = ls[d := x]"
    using assms by (simp add: sans_hole_def list_update_append1)
  also have "\<dots> = take d ls @ [x] @ drop (Suc d) ls" using assms by (simp add: upd_conv_take_nth_drop)
  finally show ?thesis by (simp only: sans_hole_def option.case prod.case elems_simps ac_simps)
qed

lemma sans_hole_filled:
  assumes "d < length ls"
  shows "elems ((ls @ [HASH_FREE_MARK])[d := HASH_FREE_MARK]) = elems (sans_hole (Some (d, y)) ls)"
proof -
  have "(ls @ [HASH_FREE_MARK])[d := HASH_FREE_MARK] = ls[d := HASH_FREE_MARK] @ [HASH_FREE_MARK]"
    using assms by (simp only: list_update_append1)
  also have "\<dots> = take d ls @ [HASH_FREE_MARK] @ drop (Suc d) ls @ [HASH_FREE_MARK]"
    using assms by (simp add: upd_conv_take_nth_drop)
  finally show ?thesis by (simp only: sans_hole_def option.case prod.case elems_simps add_0_right add_0_left)
qed

lemma removes_insert: "removes c \<Longrightarrow> to_insert c = {#}"
  by (cases c) (simp_all add: removes_def to_insert_def)

lemma held_slots_snoc:
  "held_slots n (Locking c s (ls @ [x]) d y) = add_mset ((s + length ls) mod n) (held_slots n (Locking c s ls d' y'))"
  by simp

text \<open>What one more locked slot makes of a caller.\<close>

definition grown :: "nat \<Rightarrow> nat \<Rightarrow> ('k, 'v) call \<Rightarrow> nat \<Rightarrow> nat list \<Rightarrow> (nat \<times> nat) option \<Rightarrow> nat \<Rightarrow> ('k, 'v) caller \<Rightarrow> bool" where
  "grown n N c s ls d x th \<longleftrightarrow> caller_ok n N th \<and>
     held_slots n th = {#(s + j) mod n. j \<in># mset [0..<Suc (length ls)]#} \<and>
     held_elems th \<subseteq># elems (sans_hole d ls) + taken_out d + to_insert c + elems [x]"

lemma on_free_grown:
  assumes ok: "caller_ok n N (Locking c s ls None y)" and N: "N \<le> HASH_LOCK_MARK"
    and r: "on_free c s (ls @ [HASH_FREE_MARK]) t = (th, t')"
  shows "grown n N c s ls None HASH_FREE_MARK th"
proof -
  have e: "elems [e] = {#e#}" "e < N" if "to_insert c = {#e#}" for e using that ok N by (auto simp: elems_one)
  have v: "\<forall>v \<in> set (ls @ [HASH_FREE_MARK]). v < N \<or> v = HASH_FREE_MARK" using ok by simp
  show ?thesis
  proof (cases "to_insert c = {#}")
    case True
    then have "th = Unlocking s (ls @ [HASH_FREE_MARK]) 0" using r by (cases c) (auto simp: on_free_def to_insert_def)
    then show ?thesis using ok v by (auto simp: grown_def sans_hole_def taken_out_def)
  next
    case False
    then obtain e where "to_insert c = {#e#}" "th = Unlocking s (ls @ [e]) 0"
      using r by (cases c) (auto simp: on_free_def to_insert_def)
    then show ?thesis using ok e by (auto simp: grown_def sans_hole_def taken_out_def)
  qed
qed

lemma on_found_grown:
  assumes ok: "caller_ok n N (Locking c s ls None y)" and x: "x < N" "N \<le> HASH_LOCK_MARK" and l: "length ls < HASH_MAX_LOCK_DEPTH"
    and r: "on_found c s (ls @ [x]) t = (th, t')"
  shows "grown n N c s ls None x th"
proof (cases "removes c")
  case True
  then have "th = Locking c s (ls @ [x]) (Some (length ls, x)) None"
    using r by (cases c) (auto simp: on_found_def removes_def)
  then show ?thesis using ok x l True elems_one[of x] by (auto simp: grown_def sans_hole_def taken_out_def)
next
  case False
  then have "th = Unlocking s (ls @ [x]) 0"
    using r by (cases c) (auto simp: on_found_def removes_def)
  then show ?thesis using ok x by (auto simp: grown_def sans_hole_def taken_out_def)
qed

lemma after_lock_grown:
  assumes ok: "caller_ok n N (Locking c s ls d y)" and N: "N \<le> HASH_LOCK_MARK" and x: "x < N \<or> x = HASH_FREE_MARK"
    and r: "after_lock hasher keq c s (ls @ [x]) d t = (th, t')"
  shows "grown n N c s ls d x th"
proof (cases "HASH_MAX_LOCK_DEPTH < length (ls @ [x])")
  case True
  then have "th = Overrun c s (ls @ [x]) d" using r by (simp add: after_lock_def)
  then show ?thesis using ok by (simp add: grown_def sans_hole_snoc)
next
  case short: False
  then have l: "length ls < HASH_MAX_LOCK_DEPTH" by simp
  show ?thesis
  proof (cases d)
    case None
    then have ok': "caller_ok n N (Locking c s ls None y)" using ok by simp
    consider "x = HASH_FREE_MARK" | "x \<noteq> HASH_FREE_MARK" "sought keq c x t" | "x \<noteq> HASH_FREE_MARK" "\<not> sought keq c x t" by blast
    then show ?thesis
    proof cases
      case 1
      then show ?thesis using r l None on_free_grown[OF ok' N] by (simp add: after_lock_def)
    next
      case 2
      then show ?thesis using r l None x on_found_grown[OF ok' _ N l] by (simp add: after_lock_def)
    next
      case 3
      then have "th = Locking c s (ls @ [x]) None None" using r l None by (simp add: after_lock_def)
      then show ?thesis using ok' x 3 l None by (auto simp: grown_def sans_hole_def taken_out_def)
    qed
  next
    case (Some dy)
    obtain d' z where dy: "dy = (d', z)" by (cases dy)
    note Some = Some[unfolded dy]
    have d': "d' < length ls" "removes c" using ok Some by auto
    consider "x = HASH_FREE_MARK" | "x \<noteq> HASH_FREE_MARK" "hasher (key_at t x) mod hashSize t \<le> (s + d') mod hashSize t"
      | "x \<noteq> HASH_FREE_MARK" "\<not> hasher (key_at t x) mod hashSize t \<le> (s + d') mod hashSize t" by blast
    then show ?thesis
    proof cases
      case 1
      then have th: "th = Unlocking s ((ls @ [HASH_FREE_MARK])[d' := HASH_FREE_MARK]) 0" using r l Some by (simp add: after_lock_def)
      have "\<forall>v \<in> set ((ls @ [HASH_FREE_MARK])[d' := HASH_FREE_MARK]). v < N \<or> v = HASH_FREE_MARK"
        using ok set_update_subset_insert[of "ls @ [HASH_FREE_MARK]" d' HASH_FREE_MARK] by auto
      then show ?thesis using ok d' th 1 sans_hole_filled[OF d'(1), of z] Some by (simp add: grown_def removes_insert taken_out_def)
    next
      case 2
      then have th: "th = Locking c s ((ls @ [x])[d' := x]) (Some (length ls, z)) None" using r l Some by (simp add: after_lock_def)
      have "\<forall>v \<in> set ((ls @ [x])[d' := x]). v < N" using ok x 2 set_update_subset_insert[of "ls @ [x]" d' x] by auto
      then show ?thesis using ok d' th l sans_hole_moved[OF d'(1), of z x] Some by (simp add: grown_def removes_insert taken_out_def)
    next
      case 3
      then have "th = Locking c s (ls @ [x]) (Some (d', z)) None" using r l Some by (simp add: after_lock_def)
      then show ?thesis using ok d' x 3 l Some by (auto simp: grown_def sans_hole_def taken_out_def)
    qed
  qed
qed

lemma after_lock_table:
  assumes "after_lock hasher keq c s ls d t = (th, t')"
  shows "elementLinks t' = elementLinks t" "hashSize t' = hashSize t" "length (elementStorage t') = length (elementStorage t)"
  using assms by (auto simp: after_lock_def on_free_def on_found_def put_elem_def split: if_splits option.splits call.splits prod.splits)

section \<open>Every access keeps it\<close>

text \<open>One caller and the slots change together; \<open>D\<close> are elements that come into use.\<close>

lemma conc_ok_change:
  assumes ok: "conc_ok m st" and i: "i < m" and old: "callers st ! i = old"
    and t: "hashSize t = hashSize (tab st)" "length (elementLinks t) = length (elementLinks (tab st))"
      "length (elementStorage t) = length (elementStorage (tab st))"
    and th: "caller_ok (hashSize (tab st)) (length (elementStorage (tab st))) th"
    and locks: "locked_slots (elementLinks t) + held_slots (hashSize (tab st)) old =
      locked_slots (elementLinks (tab st)) + held_slots (hashSize (tab st)) th"
    and hands: "elems (elementLinks t) + held_elems th \<subseteq># elems (elementLinks (tab st)) + held_elems old + D"
    and D: "\<forall>e. count D e \<le> 1" "\<forall>e \<in># D. e \<notin># in_use st \<and> e < length (elementStorage (tab st))"
    and vals: "\<forall>v \<in> set (elementLinks t). v < length (elementStorage (tab st)) \<or> v = HASH_FREE_MARK \<or> v = HASH_LOCK_MARK"
  shows "conc_ok m (st\<lparr>tab := t, callers := (callers st)[i := th]\<rparr>)"
proof -
  note st = conc_okD[OF ok]
  have i': "i < length (callers st)" using i st(1) by simp
  let ?st = "st\<lparr>tab := t, callers := (callers st)[i := th]\<rparr>"
  have c: "callers ?st = (callers st)[i := th]" "tab ?st = t" by simp_all
  obtain R where R: "sum_list (map (held_slots (hashSize (tab st))) (callers st)) = held_slots (hashSize (tab st)) old + R"
      "\<And>y. sum_list (map (held_slots (hashSize (tab st))) ((callers st)[i := y])) = held_slots (hashSize (tab st)) y + R"
    using sum_list_one[OF i', of "held_slots (hashSize (tab st))"] old by metis
  obtain Q where Q: "sum_list (map held_elems (callers st)) = held_elems old + Q"
      "\<And>y. sum_list (map held_elems ((callers st)[i := y])) = held_elems y + Q"
    using sum_list_one[OF i', of held_elems] old by metis
  have use: "in_use ?st \<subseteq># in_use st + D"
  proof -
    have "elems (elementLinks t) + held_elems th + Q \<subseteq># elems (elementLinks (tab st)) + held_elems old + D + Q"
      using hands by (simp only: mset_subset_eq_mono_add_right_cancel)
    then show ?thesis by (simp add: in_use_def Q ac_simps)
  qed
  have bound: "count (in_use st + D) e \<le> 1" "e \<in># in_use st + D \<Longrightarrow> e < length (elementStorage (tab st))" for e
  proof -
    show "count (in_use st + D) e \<le> 1"
    proof (cases "e \<in># D")
      case True
      then show ?thesis using D by (simp add: not_in_iff)
    next
      case False
      then show ?thesis using st(7)[of e] by (simp add: not_in_iff)
    qed
    show "e \<in># in_use st + D \<Longrightarrow> e < length (elementStorage (tab st))" using st(8) D(2) by auto
  qed
  show ?thesis
  proof (rule conc_okI, unfold c t(1,3))
    show "length ((callers st)[i := th]) = m" using st(1) by simp
    show "0 < hashSize (tab st)" "length (elementStorage (tab st)) \<le> HASH_LOCK_MARK" by (rule st)+
    show "hashSize (tab st) = length (elementLinks t)" using st(3) t(2) by simp
    show "caller_ok (hashSize (tab st)) (length (elementStorage (tab st))) th'" if "th' \<in> set ((callers st)[i := th])" for th'
      using that th st(5) set_update_subset_insert[of "callers st" i th] by blast
    show "locked_slots (elementLinks t) = sum_list (map (held_slots (hashSize (tab st))) ((callers st)[i := th]))"
      using locks st(6) R by (simp add: ac_simps)
    show "count (in_use ?st) e \<le> 1" for e
      using mset_subset_eq_count[OF use, of e] bound(1)[of e] by linarith
    show "e < length (elementStorage (tab st))" if "e \<in># in_use ?st" for e
      using mset_subset_eqD[OF use that] bound(2) by blast
    show "v < length (elementStorage (tab st)) \<or> v = HASH_FREE_MARK \<or> v = HASH_LOCK_MARK" if "v \<in> set (elementLinks t)" for v
      using that vals by blast
  qed
qed

lemma begin_call_ok:
  assumes ok: "conc_ok m st" and i: "i < m" and idle: "callers st ! i = Idle" and may: "may_call c st"
  shows "conc_ok m (begin_call hasher c i st)"
proof -
  note st = conc_okD[OF ok]
  have s: "start_slot hasher c (tab st) < hashSize (tab st)"
    using may st(2) by (cases c) (simp_all add: start_slot_def may_call_def)
  have D: "\<forall>e. count (to_insert c) e \<le> 1" "\<forall>e \<in># to_insert c. e \<notin># in_use st \<and> e < length (elementStorage (tab st))"
    using may by (cases c; simp add: to_insert_def may_call_def)+
  have "conc_ok m (st\<lparr>tab := tab st, callers := (callers st)[i := Locking c (start_slot hasher c (tab st)) [] None None]\<rparr>)"
    using s D st(9) by (intro conc_ok_change[OF ok i idle, where D = "to_insert c"]) (auto simp: sans_hole_def taken_out_def)
  then show ?thesis by (simp add: begin_call_def)
qed

lemma held_locked:
  assumes ok: "conc_ok m st" and i: "i < m" and p: "p \<in># held_slots (hashSize (tab st)) (callers st ! i)"
  shows "p < hashSize (tab st)" and "elementLinks (tab st) ! p = HASH_LOCK_MARK"
proof -
  note st = conc_okD[OF ok]
  have i': "i < length (callers st)" using i st(1) by simp
  have "p \<in># locked_slots (elementLinks (tab st))"
    unfolding st(6) using p i' by (auto intro!: bexI[of _ "callers st ! i"] simp: set_mset_sum_list)
  then show "p < hashSize (tab st)" "elementLinks (tab st) ! p = HASH_LOCK_MARK"
    using st(3) by (auto simp: locked_slots_def)
qed

text \<open>The three kinds of accesses that do something: a load, a successful exchange, an unlocking store.\<close>

lemma load_ok:
  assumes ok: "conc_ok m st" and i: "i < m" and th: "callers st ! i = Locking c s ls d x"
  shows "conc_ok m (st\<lparr>callers := (callers st)[i := Locking c s ls d y]\<rparr>)"
proof -
  note st = conc_okD[OF ok]
  have "callers st ! i \<in> set (callers st)" using i st(1) by simp
  then have "caller_ok (hashSize (tab st)) (length (elementStorage (tab st))) (Locking c s ls d x)" using st(5) th by metis
  then have "conc_ok m (st\<lparr>tab := tab st, callers := (callers st)[i := Locking c s ls d y]\<rparr>)"
    using st(9) by (intro conc_ok_change[OF ok i th, where D = "{#}"]) auto
  then show ?thesis by simp
qed

lemma lock_ok:
  assumes ok: "conc_ok m st" and i: "i < m" and th: "callers st ! i = Locking c s ls d y"
    and p: "p = (s + length ls) mod hashSize (tab st)" and x: "elementLinks (tab st) ! p = x" "x \<noteq> HASH_LOCK_MARK"
    and r: "after_lock hasher keq c s (ls @ [x]) d
      ((tab st)\<lparr>elementLinks := (elementLinks (tab st))[p := HASH_LOCK_MARK]\<rparr>) = (th', t')"
  shows "conc_ok m (st\<lparr>tab := t', callers := (callers st)[i := th']\<rparr>)"
proof -
  note st = conc_okD[OF ok]
  let ?n = "hashSize (tab st)" and ?N = "length (elementStorage (tab st))" and ?xs = "elementLinks (tab st)"
  have p': "p < length ?xs" using st(2,3) p by simp
  have "callers st ! i \<in> set (callers st)" using i st(1) by simp
  then have c: "caller_ok ?n ?N (Locking c s ls d y)" using st(5) th by metis
  have x': "x < ?N \<or> x = HASH_FREE_MARK" using st(9)[of x] x p' nth_mem by metis
  have g: "grown ?n ?N c s ls d x th'" by (rule after_lock_grown[OF c st(4) x' r])
  note t' = after_lock_table[OF r, simplified]
  have hold: "held_slots ?n th' = add_mset p (held_slots ?n (Locking c s ls d y))"
    using g by (simp add: grown_def p)
  have el: "elems (?xs[p := HASH_LOCK_MARK]) + elems [x] = elems ?xs"
    using elems_update[OF p', of HASH_LOCK_MARK] x(1) by simp
  have xs': "length (elementLinks t') = length ?xs" using t' by simp
  show ?thesis
  proof (rule conc_ok_change[OF ok i th _ xs', where D = "{#}"])
    show "hashSize t' = ?n" "length (elementStorage t') = ?N" using t' by simp_all
    show "caller_ok ?n ?N th'" using g by (simp add: grown_def)
    show "locked_slots (elementLinks t') + held_slots ?n (Locking c s ls d y) = locked_slots ?xs + held_slots ?n th'"
      unfolding hold t'(1) using locked_slots_lock[OF p'] x by simp
    have "elems (?xs[p := HASH_LOCK_MARK]) + held_elems th' \<subseteq>#
        elems (?xs[p := HASH_LOCK_MARK]) + (elems (sans_hole d ls) + taken_out d + to_insert c + elems [x])"
      using g by (simp add: grown_def)
    also have "\<dots> = elems ?xs + held_elems (Locking c s ls d y) + {#}"
      unfolding el[symmetric] by (simp add: ac_simps)
    finally show "elems (elementLinks t') + held_elems th' \<subseteq># elems ?xs + held_elems (Locking c s ls d y) + {#}"
      unfolding t'(1) .
    show "\<forall>v \<in> set (elementLinks t'). v < ?N \<or> v = HASH_FREE_MARK \<or> v = HASH_LOCK_MARK"
      unfolding t'(1) using st(9) set_update_subset_insert[of ?xs p HASH_LOCK_MARK] by blast
  qed simp_all
qed

lemma unlock_ok:
  fixes st :: "('a, 'b) shared"
  assumes ok: "conc_ok m st" and i: "i < m" and th: "callers st ! i = Unlocking s ls c"
  shows "conc_ok m (caller_step hasher keq weak i st)"
proof -
  note st = conc_okD[OF ok]
  let ?n = "hashSize (tab st)" and ?N = "length (elementStorage (tab st))" and ?xs = "elementLinks (tab st)"
  let ?p = "(s + c) mod ?n" and ?old = "Unlocking s ls c :: ('a, 'b) caller"
  let ?th = "if Suc c < length ls then Unlocking s ls (Suc c) else Idle :: ('a, 'b) caller"
  have "callers st ! i \<in> set (callers st)" using i st(1) by simp
  then have co: "caller_ok ?n ?N ?old" using st(5) th by metis
  then have c: "c < length ls" "ls ! c < ?N \<or> ls ! c = HASH_FREE_MARK" by auto
  have up: "[c..<length ls] = c # [Suc c..<length ls]" using c(1) by (rule upt_conv_Cons)
  have hold: "held_slots ?n ?old = add_mset ?p (held_slots ?n ?th)" using up by simp
  have "?p \<in># held_slots ?n (callers st ! i)" unfolding th hold by simp
  from held_locked[OF ok i this] have p: "?p < length ?xs" "?xs ! ?p = HASH_LOCK_MARK" using st(3) by simp_all
  have v: "ls ! c \<noteq> HASH_LOCK_MARK" using c(2) st(4) by (auto simp: HASH_FREE_MARK_def HASH_LOCK_MARK_def)
  have dr: "drop c ls = ls ! c # drop (Suc c) ls" using c(1) by (simp add: Cons_nth_drop_Suc)
  have he: "held_elems ?old = elems [ls ! c] + held_elems ?th"
    using elems_Cons[of "ls ! c" "drop (Suc c) ls"] by (simp add: dr)
  have el: "elems (?xs[?p := ls ! c]) = elems ?xs + elems [ls ! c]" using elems_update[OF p(1), of "ls ! c"] p(2) by simp
  let ?t = "(tab st)\<lparr>elementLinks := ?xs[?p := ls ! c]\<rparr>"
  have "conc_ok m (st\<lparr>tab := ?t, callers := (callers st)[i := ?th]\<rparr>)"
  proof (rule conc_ok_change[OF ok i th, where D = "{#}"])
    show "caller_ok ?n ?N ?th" using co by simp
    show "locked_slots (elementLinks ?t) + held_slots ?n ?old = locked_slots ?xs + held_slots ?n ?th"
      unfolding hold using locked_slots_unlock[OF p v] by simp
    show "elems (elementLinks ?t) + held_elems ?th \<subseteq># elems ?xs + held_elems ?old + {#}"
      unfolding he using el by (simp add: ac_simps)
    show "\<forall>v \<in> set (elementLinks ?t). v < ?N \<or> v = HASH_FREE_MARK \<or> v = HASH_LOCK_MARK"
      using st(9) c(2) set_update_subset_insert[of ?xs ?p "ls ! c"] by (auto dest!: subsetD)
  qed simp_all
  then show ?thesis using th by (simp add: caller_step_def)
qed

lemma caller_step_ok:
  assumes ok: "conc_ok m st" and i: "i < m"
  shows "conc_ok m (caller_step hasher keq weak i st)"
proof (cases "callers st ! i")
  case Idle
  then show ?thesis using ok by (simp add: caller_step_def)
next
  case (Overrun c s ls d)
  then show ?thesis using ok by (simp add: caller_step_def)
next
  case (Unlocking s ls c)
  then show ?thesis by (rule unlock_ok[OF ok i])
next
  case (Locking c s ls d x)
  let ?p = "(s + length ls) mod hashSize (tab st)"
  let ?now = "elementLinks (tab st) ! ?p"
  show ?thesis
  proof (cases "x = Some ?now \<and> ?now \<noteq> HASH_LOCK_MARK \<and> \<not> weak")
    case True
    then show ?thesis using lock_ok[OF ok i Locking refl refl]
      by (auto simp: caller_step_def Locking Let_def split: prod.splits)
  next
    case False
    then have "caller_step hasher keq weak i st = st\<lparr>callers := (callers st)[i := Locking c s ls d (Some ?now)]\<rparr>"
      by (auto simp: caller_step_def Locking Let_def split: option.splits)
    then show ?thesis using load_ok[OF ok i Locking] by simp
  qed
qed

lemma fresh_table_ok:
  assumes "table_inv hasher valid t C"
  shows "conc_ok m \<lparr>tab = t, callers = replicate m Idle\<rparr>"
proof -
  have core: "table_core hasher valid t C" using assms by (simp add: table_inv_def)
  note t = table_coreD[OF core]
  have bound: "v < length (elementStorage t)" if "v \<in> set (elementLinks t)" "v \<noteq> HASH_FREE_MARK" for v
    using table_core_elem(1)[OF core, of v] that by (simp add: occupied_def)
  have nl: "HASH_LOCK_MARK \<notin> set (elementLinks t)" using t(2) by (simp add: index_ok_def)
  then have "elems (elementLinks t) = mset (occupied t)"
    unfolding elems_def occupied_def mset_filter by (intro filter_mset_cong) auto
  moreover have "sum_list (replicate m ({#} :: nat multiset)) = {#}" by (induction m) simp_all
  ultimately have use: "in_use \<lparr>tab = t, callers = replicate m Idle\<rparr> = mset (occupied t)"
    by (simp add: in_use_def)
  have "sum_list (map (held_slots n) (replicate m (Idle :: ('a, 'b) caller))) = {#}" for n by (induction m) simp_all
  moreover have "{p. p < length (elementLinks t) \<and> elementLinks t ! p = HASH_LOCK_MARK} = {}"
    using nl nth_mem by fastforce
  ultimately have ls: "locked_slots (elementLinks t) = sum_list (map (held_slots n) (replicate m (Idle :: ('a, 'b) caller)))" for n
    by (simp only: locked_slots_def mset_set.empty)
  show ?thesis
  proof (rule conc_okI, unfold use)
    show "count (mset (occupied t)) e \<le> 1" for e using t(6) by (simp add: distinct_count_atmost_1)
    show "e < length (elementStorage (tab \<lparr>tab = t, callers = replicate m Idle\<rparr>))" if "e \<in># mset (occupied t)" for e
      using that bound by (auto simp: occupied_def)
    show "length (elementStorage (tab \<lparr>tab = t, callers = replicate m Idle\<rparr>)) \<le> HASH_LOCK_MARK"
      using chain_invD(2)[OF t(1)] by (simp add: LIST_END_MARK_def HASH_LOCK_MARK_def)
  qed (use t bound ls in auto)
qed

lemma slots_reach_ok:
  assumes "table_inv hasher valid t C" and "slots_reach hasher keq t m st"
  shows "conc_ok m st"
  using assms(2)
proof (induction rule: slots_reach.induct)
  case start
  show ?case by (rule fresh_table_ok[OF assms(1)])
qed (simp_all add: begin_call_ok caller_step_ok)

section \<open>What the invariant says\<close>

lemma sum_list_apart:
  fixes f :: "'b \<Rightarrow> 'c multiset"
  assumes "count (sum_list (map f xs)) x \<le> 1" and "i < length xs" and "j < length xs" and "i \<noteq> j"
  shows "x \<notin># f (xs ! i) \<or> x \<notin># f (xs ! j)"
proof -
  have "count (sum_list (map f xs)) x = sum_list (map (\<lambda>y. count (f y) x) xs)" by (induction xs) simp_all
  also have "\<dots> = (\<Sum>k<length xs. count (f (xs ! k)) x)" by (simp add: sum_list_sum_nth atLeast0LessThan)
  also have "\<dots> \<ge> (\<Sum>k\<in>{i, j}. count (f (xs ! k)) x)" using assms(2,3) by (intro sum_mono2) auto
  finally have "count (f (xs ! i)) x + count (f (xs ! j)) x \<le> 1" using assms(1,4) by simp
  then show ?thesis unfolding count_greater_zero_iff[symmetric] by linarith
qed

lemma sought_links [simp]: "sought keq c e (t\<lparr>elementLinks := xs\<rparr>) = sought keq c e t"
  by (cases c) (simp_all add: sought_def key_at_def)

lemma distinct_counts: "(\<And>e. count (mset xs) e \<le> 1) \<Longrightarrow> distinct xs"
proof (induction xs)
  case (Cons x xs)
  have "count (mset xs) e \<le> count (mset (x # xs)) e" for e by simp
  then have "count (mset xs) e \<le> 1" for e using Cons.prems[of e] by (rule le_trans)
  moreover have "count (mset xs) x = 0" using Cons.prems[of x] by simp
  ultimately show ?case using Cons.IH by (simp add: count_mset_0_iff)
qed simp

text \<open>Only a removal takes an element out of the index, and only the one it looks for.\<close>

lemma after_lock_keeps:
  assumes ok: "caller_ok n N (Locking c s ls d y)" and x: "x < N \<or> x = HASH_FREE_MARK"
    and r: "after_lock hasher keq c s (ls @ [x]) d t = (th, t')"
  shows "elems (sans_hole d ls) + elems [x] \<subseteq># indexed_elems th \<or>
    d = None \<and> removes c \<and> sought keq c x t \<and> indexed_elems th = elems (sans_hole d ls)"
proof (cases "HASH_MAX_LOCK_DEPTH < length (ls @ [x])")
  case True
  then show ?thesis using r ok by (auto simp: after_lock_def sans_hole_snoc)
next
  case short: False
  then have l: "length ls < HASH_MAX_LOCK_DEPTH" by simp
  show ?thesis
  proof (cases d)
    case None
    then show ?thesis using r l
      by (cases c) (auto simp: after_lock_def on_free_def on_found_def sans_hole_def removes_def split: if_splits)
  next
    case (Some dy)
    obtain d' z where dy: "dy = (d', z)" by (cases dy)
    note Some = Some[unfolded dy]
    have d': "d' < length ls" using ok Some by auto
    then show ?thesis using r l Some sans_hole_filled[OF d', of z] sans_hole_moved[OF d', of z x]
      by (auto simp: after_lock_def sans_hole_snoc split: if_splits)
  qed
qed

lemma caller_step_keeps:
  assumes ok: "conc_ok m st" and i: "i < m"
  shows "indexed st \<subseteq># indexed (caller_step hasher keq weak i st) \<or>
    (\<exists>c s ls x. callers st ! i = Locking c s ls None (Some x) \<and> removes c \<and> sought keq c x (tab st) \<and>
       indexed st = add_mset x (indexed (caller_step hasher keq weak i st)))"
proof -
  note st = conc_okD[OF ok]
  have i': "i < length (callers st)" using i st(1) by simp
  obtain Q where Q: "sum_list (map indexed_elems (callers st)) = indexed_elems (callers st ! i) + Q"
      "\<And>y. sum_list (map indexed_elems ((callers st)[i := y])) = indexed_elems y + Q"
    using sum_list_one[OF i', of indexed_elems] by metis
  have "callers st ! i \<in> set (callers st)" using i' by simp
  note co = st(5)[OF this]
  show ?thesis
  proof (cases "callers st ! i")
    case (Unlocking s ls c)
    let ?p = "(s + c) mod hashSize (tab st)" and ?xs = "elementLinks (tab st)"
    have c: "c < length ls" using co Unlocking by simp
    then have "?p \<in># held_slots (hashSize (tab st)) (callers st ! i)" by (auto simp: Unlocking)
    from held_locked[OF ok i this] have p: "?p < length ?xs" "?xs ! ?p = HASH_LOCK_MARK" using st(3) by simp_all
    have "elems (?xs[?p := ls ! c]) = elems ?xs + elems [ls ! c]" using elems_update[OF p(1), of "ls ! c"] p(2) by simp
    moreover have "elems (drop c ls) = elems [ls ! c] + elems (drop (Suc c) ls)"
      using c elems_Cons[of "ls ! c" "drop (Suc c) ls"] by (simp add: Cons_nth_drop_Suc)
    ultimately show ?thesis using Q Unlocking c
      by (auto simp: indexed_def caller_step_def ac_simps)
  next
    case (Locking c s ls d x)
    let ?p = "(s + length ls) mod hashSize (tab st)" and ?xs = "elementLinks (tab st)"
    let ?now = "?xs ! ?p"
    have p: "?p < length ?xs" using st(2,3) by simp
    show ?thesis
    proof (cases "x = Some ?now \<and> ?now \<noteq> HASH_LOCK_MARK \<and> \<not> weak")
      case True
      obtain th t' where r: "after_lock hasher keq c s (ls @ [?now]) d ((tab st)\<lparr>elementLinks := ?xs[?p := HASH_LOCK_MARK]\<rparr>) = (th, t')"
        by (cases "after_lock hasher keq c s (ls @ [?now]) d ((tab st)\<lparr>elementLinks := ?xs[?p := HASH_LOCK_MARK]\<rparr>)")
      have step: "caller_step hasher keq weak i st = st\<lparr>tab := t', callers := (callers st)[i := th]\<rparr>"
        using True r by (auto simp: caller_step_def Locking Let_def)
      have x': "?now < length (elementStorage (tab st)) \<or> ?now = HASH_FREE_MARK" using st(9)[OF nth_mem[OF p]] True by blast
      have el: "elems ?xs = elems (elementLinks t') + elems [?now]"
        using elems_update[OF p, of HASH_LOCK_MARK] after_lock_table(1)[OF r] by simp
      have sg: "sought keq c ?now ((tab st)\<lparr>elementLinks := ?xs[?p := HASH_LOCK_MARK]\<rparr>) = sought keq c ?now (tab st)"
        by simp
      have ix: "indexed st = elems (elementLinks t') + (elems (sans_hole d ls) + elems [?now]) + Q"
        "indexed (st\<lparr>tab := t', callers := (callers st)[i := th]\<rparr>) = elems (elementLinks t') + indexed_elems th + Q"
        using Q by (simp_all add: indexed_def Locking el ac_simps)
      from after_lock_keeps[OF co[unfolded Locking] x' r, unfolded sg]
      show ?thesis
      proof (elim disjE conjE)
        assume "elems (sans_hole d ls) + elems [?now] \<subseteq># indexed_elems th"
        then have "indexed st \<subseteq># indexed (st\<lparr>tab := t', callers := (callers st)[i := th]\<rparr>)"
          unfolding ix by (simp only: mset_subset_eq_mono_add_right_cancel mset_subset_eq_mono_add_left_cancel)
        then show ?thesis unfolding step by blast
      next
        assume a: "d = None" "removes c" "sought keq c ?now (tab st)" "indexed_elems th = elems (sans_hole d ls)"
        show ?thesis
        proof (cases "?now = HASH_FREE_MARK")
          case free: True
          then have "indexed st \<subseteq># indexed (st\<lparr>tab := t', callers := (callers st)[i := th]\<rparr>)"
            unfolding ix a(4) by (simp add: ac_simps)
          then show ?thesis unfolding step by blast
        next
          case False
          then have "elems [?now] = {#?now#}" using x' st(4) by (auto intro: elems_one)
          then have "indexed st = add_mset ?now (indexed (st\<lparr>tab := t', callers := (callers st)[i := th]\<rparr>))"
            unfolding ix a(4) by (simp add: ac_simps)
          then show ?thesis unfolding step using Locking True a by blast
        qed
      qed
    next
      case False
      then have "caller_step hasher keq weak i st = st\<lparr>callers := (callers st)[i := Locking c s ls d (Some ?now)]\<rparr>"
        by (auto simp: caller_step_def Locking Let_def split: option.splits)
      then show ?thesis using Q Locking by (simp add: indexed_def)
    qed
  qed (simp_all add: caller_step_def)
qed

section \<open>No circle of waiting callers\<close>

definition waits :: "('k, 'v) shared \<Rightarrow> ('k, 'v) caller \<Rightarrow> bool" where
  "waits st th \<longleftrightarrow> (\<exists>c s ls d x. th = Locking c s ls d x \<and>
     elementLinks (tab st) ! ((s + length ls) mod hashSize (tab st)) = HASH_LOCK_MARK)"

lemma elems_all: "\<forall>v \<in> set ls. v < HASH_LOCK_MARK \<Longrightarrow> elems ls = mset ls"
  by (auto simp: elems_def filter_mset_eq_conv HASH_LOCK_MARK_def HASH_FREE_MARK_def)

lemma waiting_hands:
  assumes ok: "caller_ok n N (Locking c s ls d x)" and N: "N \<le> HASH_LOCK_MARK"
  shows "length ls \<le> size (held_elems (Locking c s ls d x))"
proof -
  have small: "\<forall>v \<in> set (sans_hole d ls). v < HASH_LOCK_MARK"
    using ok N by (auto simp: sans_hole_def dest!: in_set_takeD in_set_dropD split: option.splits)
  have "length ls = size (mset (sans_hole d ls) + taken_out d)"
    using ok by (cases d) (auto simp: sans_hole_def taken_out_def)
  then show ?thesis by (simp add: elems_all[OF small])
qed

lemma some_slot_unlocked:
  assumes ok: "conc_ok m st" and N: "length (elementStorage (tab st)) < length (elementLinks (tab st))"
    and w: "\<forall>th \<in> set (callers st). th = Idle \<or> waits st th"
  shows "\<exists>p < length (elementLinks (tab st)). elementLinks (tab st) ! p \<noteq> HASH_LOCK_MARK"
proof (rule ccontr)
  note st = conc_okD[OF ok]
  let ?n = "hashSize (tab st)" and ?N = "length (elementStorage (tab st))"
  assume "\<not> ?thesis"
  then have "{p. p < length (elementLinks (tab st)) \<and> elementLinks (tab st) ! p = HASH_LOCK_MARK} = {..<?n}"
    using st(3) by auto
  then have all: "size (sum_list (map (held_slots ?n) (callers st))) = ?n"
    unfolding st(6)[symmetric] by (simp add: locked_slots_def)
  have each: "size (held_slots ?n th) \<le> size (held_elems th)" if "th \<in> set (callers st)" for th
  proof (cases th)
    case (Locking c s ls d x)
    then show ?thesis using waiting_hands[OF st(5)[OF that, unfolded Locking] st(4)] by simp
  qed (use that w in \<open>auto simp: waits_def\<close>)
  have sz: "size (sum_list (map f ths)) = sum_list (map (size \<circ> f) ths)" for f :: "('a, 'b) caller \<Rightarrow> nat multiset" and ths
    by (induction ths) simp_all
  have "?n \<le> size (sum_list (map held_elems (callers st)))"
    using all each unfolding sz by (metis (mono_tags, lifting) comp_apply sum_list_mono)
  also have "\<dots> \<le> size (in_use st)" by (simp add: in_use_def)
  also have "\<dots> \<le> size (mset_set {..<?N})"
  proof (intro size_mset_mono mset_subset_eqI)
    fix e
    show "count (in_use st) e \<le> count (mset_set {..<?N}) e"
      using st(7)[of e] st(8)[of e] by (cases "e \<in># in_use st") (auto simp: not_in_iff)
  qed
  finally show False using N st(3) by simp
qed

lemma last_locked_slot:
  fixes p q n :: nat
  assumes "p < n" and "L p" and "q < n" and "\<not> L q"
  shows "\<exists>r < n. L r \<and> \<not> L ((r + 1) mod n)"
proof (rule ccontr)
  assume c: "\<not> ?thesis"
  have "L ((p + k) mod n)" for k
  proof (induction k)
    case (Suc k)
    have "(p + k) mod n < n" using assms(1) by simp
    then show ?case using c Suc by (metis Suc_eq_plus1 add_Suc_right mod_Suc_eq)
  qed (use assms in simp)
  from this[of "n - p + q"] show False using assms by simp
qed

lemma someone_can_move:
  assumes ok: "conc_ok m st" and N: "length (elementStorage (tab st)) < length (elementLinks (tab st))"
    and busy: "\<exists>th \<in> set (callers st). th \<noteq> Idle"
  shows "\<exists>i < m. callers st ! i \<noteq> Idle \<and> \<not> waits st (callers st ! i)"
proof (rule ccontr)
  note st = conc_okD[OF ok]
  let ?n = "hashSize (tab st)" and ?xs = "elementLinks (tab st)"
  assume c: "\<not> ?thesis"
  have w: "\<forall>th \<in> set (callers st). th = Idle \<or> waits st th"
    using c st(1) by (auto simp: in_set_conv_nth)
  obtain q where q: "q < ?n" "?xs ! q \<noteq> HASH_LOCK_MARK" using some_slot_unlocked[OF ok N w] st(3) by auto
  obtain p where p: "p < ?n" "?xs ! p = HASH_LOCK_MARK"
    using busy w st(2) unfolding waits_def by (metis mod_less_divisor)
  obtain r where r: "r < ?n" "?xs ! r = HASH_LOCK_MARK" "?xs ! ((r + 1) mod ?n) \<noteq> HASH_LOCK_MARK"
    using last_locked_slot[of p ?n "\<lambda>p. ?xs ! p = HASH_LOCK_MARK" q] p q by blast
  then have "r \<in># locked_slots ?xs" using st(3) by (simp add: locked_slots_def)
  then obtain i where i: "i < m" "r \<in># held_slots ?n (callers st ! i)"
    unfolding st(6) using st(1) by (auto simp: set_mset_sum_list in_set_conv_nth)
  then have "callers st ! i \<in> set (callers st)" "callers st ! i \<noteq> Idle" using st(1) by auto
  then obtain c s ls d x where th: "callers st ! i = Locking c s ls d x"
      "?xs ! ((s + length ls) mod ?n) = HASH_LOCK_MARK" using w unfolding waits_def by blast
  obtain j where j: "j < length ls" "r = (s + j) mod ?n" using i(2) th(1) by auto
  have next_slot: "(r + 1) mod ?n = (s + Suc j) mod ?n" unfolding j(2) by (simp add: mod_Suc_eq)
  show False
  proof (cases "Suc j = length ls")
    case True
    then show False using r(3) next_slot th(2) by simp
  next
    case False
    then have "Suc j \<in># mset [0..<length ls]" using j(1) by simp
    then have "(s + Suc j) mod ?n \<in># held_slots ?n (callers st ! i)"
      unfolding th(1) held_slots.simps set_image_mset by (rule imageI)
    from held_locked(2)[OF ok i(1) this] show False using r(3) next_slot by simp
  qed
qed

text \<open>How much a caller has left, with the slots it holds; an access of one that does not wait, or two, reduce it.\<close>

fun work :: "('k, 'v) caller \<Rightarrow> nat" where
  "work Idle = 0"
| "work (Locking c s ls d x) = 1000 - length ls"
| "work (Unlocking s ls c) = length ls - c"
| "work (Overrun c s ls d) = 0"

definition total_work :: "('k, 'v) shared \<Rightarrow> nat" where
  "total_work st = sum_list (map work (callers st))"

lemma work_grown:
  assumes g: "grown n N c s ls d x th" and l: "length ls \<le> HASH_MAX_LOCK_DEPTH"
  shows "work th < 1000 - length ls"
proof -
  have sz: "size (held_slots n th) = Suc (length ls)" using g by (simp add: grown_def)
  then show ?thesis using l by (cases th) (auto simp: HASH_MAX_LOCK_DEPTH_def)
qed

lemma total_work_update:
  assumes "i < length (callers st)" and "work th < work (callers st ! i)"
  shows "total_work (st\<lparr>tab := t, callers := (callers st)[i := th]\<rparr>) < total_work st"
proof -
  have "sum_list (map work ((callers st)[i := th])) + work (callers st ! i) = sum_list (map work (callers st)) + work th"
    using assms(1) elem_le_sum_list[of i "map work (callers st)"] by (simp add: map_update sum_list_update)
  then show ?thesis using assms(2) by (simp add: total_work_def)
qed

lemma caller_step_shape:
  "hashSize (tab (caller_step hasher keq weak i st)) = hashSize (tab st)"
  "length (elementLinks (tab (caller_step hasher keq weak i st))) = length (elementLinks (tab st))"
  "length (elementStorage (tab (caller_step hasher keq weak i st))) = length (elementStorage (tab st))"
  by (auto simp: caller_step_def Let_def split: caller.splits option.splits prod.splits dest: after_lock_table)

lemma exchange_reduces:
  assumes ok: "conc_ok m st" and i: "i < m" and th: "callers st ! i = Locking c s ls d (Some x)"
    and x: "elementLinks (tab st) ! ((s + length ls) mod hashSize (tab st)) = x" "x \<noteq> HASH_LOCK_MARK"
  shows "total_work (caller_step hasher keq False i st) < total_work st"
proof -
  note st = conc_okD[OF ok]
  let ?p = "(s + length ls) mod hashSize (tab st)" and ?xs = "elementLinks (tab st)"
  have p: "?p < length ?xs" using st(2,3) by simp
  have i': "i < length (callers st)" using i st(1) by simp
  obtain th' t' where r: "after_lock hasher keq c s (ls @ [x]) d ((tab st)\<lparr>elementLinks := ?xs[?p := HASH_LOCK_MARK]\<rparr>) = (th', t')"
    by (cases "after_lock hasher keq c s (ls @ [x]) d ((tab st)\<lparr>elementLinks := ?xs[?p := HASH_LOCK_MARK]\<rparr>)")
  have "callers st ! i \<in> set (callers st)" using i' by simp
  note co = st(5)[OF this, unfolded th]
  have "x < length (elementStorage (tab st)) \<or> x = HASH_FREE_MARK" using st(9)[OF nth_mem[OF p]] x by blast
  note g = after_lock_grown[OF co st(4) this r]
  have "work th' < work (callers st ! i)" using work_grown[OF g] co by (simp add: th)
  moreover have "caller_step hasher keq False i st = st\<lparr>tab := t', callers := (callers st)[i := th']\<rparr>"
    using x r by (auto simp: caller_step_def th Let_def)
  ultimately show ?thesis using total_work_update[OF i'] by simp
qed

lemma mover_reduces:
  assumes ok: "conc_ok m st" and i: "i < m" and busy: "callers st ! i \<noteq> Idle" "\<not> waits st (callers st ! i)"
    and no: "\<nexists>c s ls d. callers st ! i = Overrun c s ls d"
  shows "\<exists>k. total_work ((caller_step hasher keq False i ^^ k) st) < total_work st"
proof -
  note st = conc_okD[OF ok]
  have i': "i < length (callers st)" using i st(1) by simp
  have "callers st ! i \<in> set (callers st)" using i' by simp
  note co = st(5)[OF this]
  show ?thesis
  proof (cases "callers st ! i")
    case (Unlocking s ls c)
    then have "total_work (caller_step hasher keq False i st) < total_work st"
      using co by (auto simp: caller_step_def intro!: total_work_update[OF i'])
    then have "total_work ((caller_step hasher keq False i ^^ 1) st) < total_work st" by simp
    then show ?thesis by blast
  next
    case (Locking c s ls d y)
    let ?now = "elementLinks (tab st) ! ((s + length ls) mod hashSize (tab st))"
    have now: "?now \<noteq> HASH_LOCK_MARK" using busy(2) Locking by (auto simp: waits_def)
    show ?thesis
    proof (cases "y = Some ?now")
      case True
      then have "total_work ((caller_step hasher keq False i ^^ 1) st) < total_work st"
        using exchange_reduces[OF ok i Locking[unfolded True] refl now] by simp
      then show ?thesis by blast
    next
      case False
      let ?st = "st\<lparr>callers := (callers st)[i := Locking c s ls d (Some ?now)]\<rparr>"
      have step: "caller_step hasher keq False i st = ?st"
        using False by (auto simp: caller_step_def Locking Let_def split: option.splits)
      have "work (Locking c s ls d (Some ?now)) = work (callers st ! i)" by (simp add: Locking)
      then have same: "total_work ?st = total_work st"
        using i' elem_le_sum_list[of i "map work (callers st)"] by (simp add: total_work_def map_update sum_list_update)
      have th: "callers ?st ! i = Locking c s ls d (Some ?now)" using i' by simp
      have "total_work (caller_step hasher keq False i ?st) < total_work ?st"
        using now by (intro exchange_reduces[OF load_ok[OF ok i Locking] i th]) simp_all
      then have "total_work ((caller_step hasher keq False i ^^ 2) st) < total_work st"
        by (simp add: step same numeral_2_eq_2)
      then show ?thesis by blast
    qed
  qed (use busy no in auto)
qed

lemma fold_replicate: "fold f (replicate k i) st = (f i ^^ k) st"
  by (induction k arbitrary: st) (simp_all add: funpow_swap1)

definition overran :: "('k, 'v) caller \<Rightarrow> bool" where
  "overran th \<longleftrightarrow> (\<exists>c s ls d. th = Overrun c s ls d)"

lemma calls_can_finish:
  assumes "conc_ok m st" and "length (elementStorage (tab st)) < length (elementLinks (tab st))"
  shows "\<exists>sched. set sched \<subseteq> {..<m} \<and>
    (let st' = fold (caller_step hasher keq False) sched st
     in conc_ok m st' \<and> ((\<forall>th \<in> set (callers st'). th = Idle) \<or> (\<exists>th \<in> set (callers st'). overran th)))"
  using assms
proof (induction "total_work st" arbitrary: st rule: less_induct)
  case less
  let ?f = "caller_step hasher keq False"
  show ?case
  proof (cases "(\<forall>th \<in> set (callers st). th = Idle) \<or> (\<exists>th \<in> set (callers st). overran th)")
    case True
    then show ?thesis using less.prems(1) by (intro exI[of _ "[]"]) simp
  next
    case False
    then obtain i where i: "i < m" "callers st ! i \<noteq> Idle" "\<not> waits st (callers st ! i)"
      using someone_can_move[OF less.prems] by blast
    have "callers st ! i \<in> set (callers st)" using i(1) conc_okD(1)[OF less.prems(1)] by simp
    then have "\<nexists>c s ls d. callers st ! i = Overrun c s ls d" using False unfolding overran_def by blast
    then obtain k where k: "total_work ((?f i ^^ k) st) < total_work st"
      using mover_reduces[OF less.prems(1) i] by blast
    have keep: "conc_ok m ((?f i ^^ j) st) \<and>
        length (elementStorage (tab ((?f i ^^ j) st))) < length (elementLinks (tab ((?f i ^^ j) st)))" for j
      using less.prems i(1) by (induction j) (simp_all add: caller_step_ok caller_step_shape)
    obtain sched where s: "set sched \<subseteq> {..<m}"
        "let st' = fold ?f sched ((?f i ^^ k) st)
         in conc_ok m st' \<and> ((\<forall>th \<in> set (callers st'). th = Idle) \<or> (\<exists>th \<in> set (callers st'). overran th))"
      using less.hyps[OF k] keep[of k] by blast
    have "fold ?f (replicate k i @ sched) st = fold ?f sched ((?f i ^^ k) st)" by (simp add: fold_replicate)
    moreover have "set (replicate k i @ sched) \<subseteq> {..<m}" using s(1) i(1) by auto
    ultimately show ?thesis using s(2) by (intro exI[of _ "replicate k i @ sched"]) simp
  qed
qed

lemma all_idle_unlocked:
  assumes ok: "conc_ok m st" and idle: "\<forall>th \<in> set (callers st). th = Idle"
  shows "index_ok (tab st)"
proof -
  note st = conc_okD[OF ok]
  have c: "callers st = replicate m Idle" using idle st(1) by (intro replicate_eqI) auto
  have "sum_list (replicate m ({#} :: nat multiset)) = {#}" by (induction m) simp_all
  then have "sum_list (map (held_slots n) (callers st)) = {#}" for n unfolding c by simp
  then have "{p. p < length (elementLinks (tab st)) \<and> elementLinks (tab st) ! p = HASH_LOCK_MARK} = {}"
    using st(6) by (simp add: locked_slots_def mset_set_empty_iff)
  then have "HASH_LOCK_MARK \<notin> set (elementLinks (tab st))" by (auto simp: in_set_conv_nth)
  then show ?thesis using st(2,3) by (simp add: index_ok_def)
qed

end
