(* ===== verification/Slot_Props.thy ===== *)
theory Slot_Props
  imports Slot_Conc Cache_Props2
begin

text \<open>
  The properties of the slot locks of the hash table under any number of threads.
\<close>

section \<open>Properties\<close>

text \<open>
  C5: while any number of threads look up, overwrite, insert and remove, interleaved at every access to
  \<open>elementLinks\<close> and with spurious failures of \<open>compare_exchange_weak\<close>: the slots that two threads have
  locked are disjoint, and so are the elements in their hands, which no slot has at the same time; a
  slot has the lock mark exactly while a thread holds it; every index is one of the element array; and
  no access makes an indexed element disappear but the exchange by which a removal takes out the
  element it looks for.
\<close>

theorem slot_locks_safe:
  assumes "table_inv hasher valid t C" and "slots_reach hasher keq t m st"
  shows "(\<forall>i < m. \<forall>j < m. i \<noteq> j \<longrightarrow>
      set_mset (held_slots (hashSize (tab st)) (callers st ! i)) \<inter> set_mset (held_slots (hashSize (tab st)) (callers st ! j)) = {} \<and>
      set_mset (held_elems (callers st ! i)) \<inter> set_mset (held_elems (callers st ! j)) = {}) \<and>
    (\<forall>i < m. \<forall>e \<in># held_elems (callers st ! i). e \<notin> set (elementLinks (tab st))) \<and>
    (\<forall>p < hashSize (tab st). elementLinks (tab st) ! p = HASH_LOCK_MARK \<longleftrightarrow>
      (\<exists>i < m. p \<in># held_slots (hashSize (tab st)) (callers st ! i))) \<and>
    distinct (filter (\<lambda>v. v \<noteq> HASH_FREE_MARK \<and> v \<noteq> HASH_LOCK_MARK) (elementLinks (tab st))) \<and>
    (\<forall>e \<in># in_use st. e < length (elementStorage (tab st))) \<and>
    (\<forall>i < m. \<forall>weak. indexed st \<subseteq># indexed (caller_step hasher keq weak i st) \<or>
      (\<exists>c s ls x. callers st ! i = Locking c s ls None (Some x) \<and> removes c \<and> sought keq c x (tab st) \<and>
        indexed st = add_mset x (indexed (caller_step hasher keq weak i st))))"
proof -
  have ok: "conc_ok m st" by (rule slots_reach_ok[OF assms])
  note st = conc_okD[OF ok]
  let ?n = "hashSize (tab st)"
  have slots: "count (sum_list (map (held_slots ?n) (callers st))) p \<le> 1" for p
    unfolding st(6)[symmetric] by (simp add: locked_slots_def count_mset_set')
  have hands: "count (sum_list (map held_elems (callers st))) e \<le> 1" for e
    using st(7)[of e] by (simp add: in_use_def)
  have apart: "set_mset (held_slots ?n (callers st ! i)) \<inter> set_mset (held_slots ?n (callers st ! j)) = {} \<and>
      set_mset (held_elems (callers st ! i)) \<inter> set_mset (held_elems (callers st ! j)) = {}" if "i < m" "j < m" "i \<noteq> j" for i j
    using sum_list_apart[OF slots] sum_list_apart[OF hands] that st(1) by blast
  have away: "e \<notin> set (elementLinks (tab st))" if "i < m" "e \<in># held_elems (callers st ! i)" for i e
  proof
    assume "e \<in> set (elementLinks (tab st))"
    moreover have "e \<in># sum_list (map held_elems (callers st))" using that st(1) by (auto simp: set_mset_sum_list)
    moreover from this have "e < HASH_LOCK_MARK" using st(4) st(8)[of e] by (simp add: in_use_def)
    ultimately have "0 < count (elems (elementLinks (tab st))) e" "0 < count (sum_list (map held_elems (callers st))) e"
      by (simp_all add: elems_def HASH_LOCK_MARK_def HASH_FREE_MARK_def)
    then show False using st(7)[of e] unfolding in_use_def count_union by linarith
  qed
  have holders: "elementLinks (tab st) ! p = HASH_LOCK_MARK \<longleftrightarrow> (\<exists>i < m. p \<in># held_slots ?n (callers st ! i))" if "p < ?n" for p
  proof -
    have "elementLinks (tab st) ! p = HASH_LOCK_MARK \<longleftrightarrow> p \<in># locked_slots (elementLinks (tab st))"
      using that st(3) by (simp add: locked_slots_def)
    also have "\<dots> \<longleftrightarrow> (\<exists>th \<in> set (callers st). p \<in># held_slots ?n th)" unfolding st(6) by (simp add: set_mset_sum_list)
    also have "\<dots> \<longleftrightarrow> (\<exists>i < m. p \<in># held_slots ?n (callers st ! i))" unfolding st(1)[symmetric] by (metis in_set_conv_nth)
    finally show ?thesis .
  qed
  have dist: "distinct (filter (\<lambda>v. v \<noteq> HASH_FREE_MARK \<and> v \<noteq> HASH_LOCK_MARK) (elementLinks (tab st)))"
  proof (rule distinct_counts)
    show "count (mset (filter (\<lambda>v. v \<noteq> HASH_FREE_MARK \<and> v \<noteq> HASH_LOCK_MARK) (elementLinks (tab st)))) e \<le> 1" for e
      using st(7)[of e] unfolding in_use_def elems_def mset_filter count_union by linarith
  qed
  show ?thesis
    by (intro conjI allI ballI impI caller_step_keeps[OF ok] dist holders st(8); (use apart away in blast)?)
qed

text \<open>
  C6: threads whose calls are \<open>get\<close> and \<open>set\<close> without a lock array, \<open>insert\<close>, \<open>insertOrSet\<close>,
  \<open>removeFromHashPos\<close> and \<open>removeFromHashIdx\<close>, and no others, never wait for each other in a circle. The
  table has more slots than elements, so from every state that any number of such threads reach there
  is a schedule in which all calls return, with no slot locked, unless a caller has run past the end
  of its array of 246 locks. The other operations that lock slots are not calls of this model, and
  the property says nothing of them: \<open>remove\<close> with \<open>removeFromHashKey\<close>, which may spin by itself, \<open>get\<close> and
  \<open>set\<close> with a lock array and \<open>lockElement\<close>, which keep slots locked between calls, and \<open>processHash\<close>.
\<close>

theorem slot_locks_no_deadlock:
  assumes "table_inv hasher valid t C" and "length (elementStorage (tab st)) < length (elementLinks (tab st))"
    and "slots_reach hasher keq t m st"
  shows "\<exists>sched. set sched \<subseteq> {..<m} \<and>
    (let st' = fold (caller_step hasher keq False) sched st
     in (\<exists>th \<in> set (callers st'). overran th) \<or>
        (\<forall>th \<in> set (callers st'). th = Idle) \<and> HASH_LOCK_MARK \<notin> set (elementLinks (tab st')))"
proof -
  obtain sched where s: "set sched \<subseteq> {..<m}"
      "let st' = fold (caller_step hasher keq False) sched st
       in conc_ok m st' \<and> ((\<forall>th \<in> set (callers st'). th = Idle) \<or> (\<exists>th \<in> set (callers st'). overran th))"
    using calls_can_finish[OF slots_reach_ok[OF assms(1,3)] assms(2)] by blast
  then show ?thesis using all_idle_unlocked unfolding Let_def index_ok_def by blast
qed

text \<open>Two threads get the same key; the first one has locked its slot, the second one waits.\<close>

definition two_getters :: "(byte list, storage_value) table \<Rightarrow> (byte list, storage_value) shared" where
  "two_getters t =
     (let f = caller_step string_hash sso_eq False
      in f 1 (begin_call string_hash (Get [107]) 1 (f 0 (f 0 (begin_call string_hash (Get [107]) 0
           \<lparr>tab = t, callers = replicate 2 Idle\<rparr>)))))"

lemma two_getters_state:
  obtains t where "table_inv string_hash nul_free t (inserted 0 (init_chains 8 1))"
    and "slots_reach string_hash sso_eq t 2 (two_getters t)" and "hashSize (tab (two_getters t)) = 16"
    and "length (elementStorage (tab (two_getters t))) = 8" and "length (elementLinks (tab (two_getters t))) = 16"
    and "callers (two_getters t) = [Unlocking 3 [0] 0, Locking (Get [107]) 3 [] None (Some HASH_LOCK_MARK)]"
proof -
  obtain t1 :: "(byte list, storage_value) table" where t: "hashSize t1 = 16" "length (elementStorage t1) = 8"
      "elementLinks t1 = (replicate 16 HASH_FREE_MARK)[3 := 0]"
      "table_inv string_hash nul_free t1 (inserted 0 (init_chains 8 1))" "key_at t1 0 = [107]"
    using demo_one[of 8 "[107]" demo_value 0] hash_facts by (auto simp: nul_free_def)
  let ?f = "caller_step string_hash sso_eq False" and ?g = "Get [107] :: (byte list, storage_value) call"
  let ?t2 = "t1\<lparr>elementLinks := (elementLinks t1)[3 := HASH_LOCK_MARK]\<rparr>"
  have l: "length (elementLinks t1) = 16" "elementLinks t1 ! 3 = 0" unfolding t(3) by simp_all
  have free: "(0 :: nat) \<noteq> HASH_FREE_MARK" "(0 :: nat) \<noteq> HASH_LOCK_MARK" by (simp_all add: HASH_FREE_MARK_def HASH_LOCK_MARK_def)
  have home: "start_slot string_hash ?g u = 3" if "hashSize u = 16" for u using that hash_facts by (simp add: start_slot_def)
  have key: "key_at ?t2 0 = [107]" using t(5) by (simp add: key_at_def)
  have eq: "sso_eq [107] [107]" by code_simp
  let ?s0 = "\<lparr>tab = t1, callers = replicate 2 Idle\<rparr>"
  let ?s1 = "begin_call string_hash ?g 0 ?s0"
  have s1: "?s1 = \<lparr>tab = t1, callers = [Locking ?g 3 [] None None, Idle]\<rparr>"
    using home[OF t(1)] by (simp add: begin_call_def numeral_2_eq_2)
  have s2: "?f 0 ?s1 = \<lparr>tab = t1, callers = [Locking ?g 3 [] None (Some 0), Idle]\<rparr>"
    unfolding s1 by (simp add: caller_step_def t(1) l(2))
  have s3: "?f 0 (?f 0 ?s1) = \<lparr>tab = ?t2, callers = [Unlocking 3 [0] 0, Idle]\<rparr>"
    unfolding s2 using free key eq
    by (simp add: caller_step_def t(1) l(2) after_lock_def HASH_MAX_LOCK_DEPTH_def sought_def on_found_def)
  let ?s4 = "begin_call string_hash ?g 1 (?f 0 (?f 0 ?s1))"
  have s4: "?s4 = \<lparr>tab = ?t2, callers = [Unlocking 3 [0] 0, Locking ?g 3 [] None None]\<rparr>"
    unfolding s3 using home[of ?t2] t(1) by (simp add: begin_call_def)
  have s5: "two_getters t1 = \<lparr>tab = ?t2, callers = [Unlocking 3 [0] 0, Locking ?g 3 [] None (Some HASH_LOCK_MARK)]\<rparr>"
    unfolding two_getters_def Let_def s4 using l by (simp add: caller_step_def t(1))
  have "slots_reach string_hash sso_eq t1 2 ?s1"
    by (rule slots_reach.call[OF slots_reach.start]) (simp_all add: may_call_def)
  then have "slots_reach string_hash sso_eq t1 2 (?f 0 (?f 0 ?s1))" by (intro slots_reach.step) simp_all
  then have "slots_reach string_hash sso_eq t1 2 ?s4"
    by (rule slots_reach.call) (simp_all add: may_call_def s3)
  then have "slots_reach string_hash sso_eq t1 2 (two_getters t1)"
    unfolding two_getters_def Let_def by (rule slots_reach.step) simp
  then show thesis using that[of t1] t l by (simp add: s5)
qed

theorem slot_locks_safe_witness:
  "\<exists>t. slots_reach string_hash sso_eq t 2 (two_getters t) \<and>
     callers (two_getters t) = [Unlocking 3 [0] 0, Locking (Get [107]) 3 [] None (Some HASH_LOCK_MARK)] \<and>
     elementLinks (tab (two_getters t)) ! 3 = HASH_LOCK_MARK"
proof -
  obtain t where t: "table_inv string_hash nul_free t (inserted 0 (init_chains 8 1))"
      "slots_reach string_hash sso_eq t 2 (two_getters t)" "hashSize (tab (two_getters t)) = 16"
      "callers (two_getters t) = [Unlocking 3 [0] 0, Locking (Get [107]) 3 [] None (Some HASH_LOCK_MARK)]"
    using two_getters_state by blast
  have safe: "\<forall>p < 16. elementLinks (tab (two_getters t)) ! p = HASH_LOCK_MARK \<longleftrightarrow>
      (\<exists>i < 2. p \<in># held_slots 16 (callers (two_getters t) ! i))"
    using slot_locks_safe[OF t(1,2), unfolded t(3)] by blast
  have "(3 :: nat) < 16" "3 \<in># held_slots 16 (callers (two_getters t) ! 0)" "(0 :: nat) < 2" by (simp_all add: t(4))
  then have "elementLinks (tab (two_getters t)) ! 3 = HASH_LOCK_MARK" using safe by blast
  then show ?thesis using t(2,4) by blast
qed

theorem slot_locks_no_deadlock_witness:
  "\<exists>t sched. slots_reach string_hash sso_eq t 2 (two_getters t) \<and>
     callers (two_getters t) = [Unlocking 3 [0] 0, Locking (Get [107]) 3 [] None (Some HASH_LOCK_MARK)] \<and>
     (let st' = fold (caller_step string_hash sso_eq False) sched (two_getters t)
      in (\<exists>th \<in> set (callers st'). overran th) \<or>
         (\<forall>th \<in> set (callers st'). th = Idle) \<and> HASH_LOCK_MARK \<notin> set (elementLinks (tab st')))"
proof -
  obtain t where t: "table_inv string_hash nul_free t (inserted 0 (init_chains 8 1))"
      "slots_reach string_hash sso_eq t 2 (two_getters t)" "length (elementStorage (tab (two_getters t))) = 8"
      "length (elementLinks (tab (two_getters t))) = 16"
      "callers (two_getters t) = [Unlocking 3 [0] 0, Locking (Get [107]) 3 [] None (Some HASH_LOCK_MARK)]"
    using two_getters_state by blast
  have "length (elementStorage (tab (two_getters t))) < length (elementLinks (tab (two_getters t)))" using t(3,4) by simp
  from slot_locks_no_deadlock[OF t(1) this t(2)] show ?thesis using t(2,5) by blast
qed

end
