(* ===== verification/Lane_Queue.thy ===== *)
theory Lane_Queue
  imports YAM_Prelude "HOL-Library.Multiset"
begin

text \<open>
  The session pool's queue, \<open>LFSPSCQueue\<close> of \<open>src/src/LFSPSCQueue.h\<close>: two ring buffers (lanes) and a
  counter whose parity says which lane the producer fills; the consumer drains the other one. The
  first part is one call at a time, the second one the two threads interleaved at every access to
  shared memory (sequentially consistent, which the acquire and release orders are used for).
\<close>

unbundle bit_operations_syntax

section \<open>The queue\<close>

record 'a ring_buffer =
  ring :: "'a list"
  rhead :: nat
  rtail :: nat

record 'a spsc =
  lanes :: "'a ring_buffer list"
  buffer_mask :: nat
  laneSwitch :: nat

text \<open>\<open>size_t\<close> addition.\<close>

definition inc64 :: "nat \<Rightarrow> nat" where "inc64 x = (x + 1) mod 2 ^ 64"

definition next_idx :: "nat \<Rightarrow> nat \<Rightarrow> nat" where
  "next_idx bmask current = (current + 1) AND bmask"

definition pow2_size :: "nat \<Rightarrow> bool" where
  "pow2_size n \<longleftrightarrow> 2 \<le> n \<and> n AND (n - 1) = 0"

text \<open>The constructor; \<open>d\<close> is the indeterminate content of a fresh array.\<close>

definition LFSPSCQueue :: "'a \<Rightarrow> nat \<Rightarrow> 'a spsc res" where
  "LFSPSCQueue d buffer_size =
     (if \<not> pow2_size buffer_size then Inl Aborted
      else let r = \<lparr>ring = replicate buffer_size d, rhead = 0, rtail = 0\<rparr>
           in Inr \<lparr>lanes = [r, r], buffer_mask = buffer_size - 1, laneSwitch = 0\<rparr>)"

definition try_put :: "nat \<Rightarrow> 'a \<Rightarrow> 'a spsc \<Rightarrow> 'a spsc option" where
  "try_put l v q =
     (let r = lanes q ! l; next_head = next_idx (buffer_mask q) (rhead r)
      in if next_head \<noteq> rtail r
         then Some (q\<lparr>lanes := (lanes q)[l := r\<lparr>ring := (ring r)[rhead r := v], rhead := next_head\<rparr>]\<rparr>)
         else None)"

definition push :: "'a \<Rightarrow> 'a spsc \<Rightarrow> bool \<times> 'a spsc" where
  "push v q =
     (let cur = laneSwitch q in
      case try_put (cur mod 2) v q of
        Some q' \<Rightarrow> (True, q')
      | None \<Rightarrow>
          (let q = q\<lparr>laneSwitch := inc64 cur\<rparr> in
           case try_put (inc64 cur mod 2) v q of Some q' \<Rightarrow> (True, q') | None \<Rightarrow> (False, q)))"

definition try_take :: "nat \<Rightarrow> 'a spsc \<Rightarrow> ('a \<times> 'a spsc) option" where
  "try_take l q =
     (let r = lanes q ! l
      in if rtail r \<noteq> rhead r
         then Some (ring r ! rtail r,
                    q\<lparr>lanes := (lanes q)[l := r\<lparr>rtail := next_idx (buffer_mask q) (rtail r)\<rparr>]\<rparr>)
         else None)"

definition pop :: "'a spsc \<Rightarrow> 'a option \<times> 'a spsc" where
  "pop q =
     (let cur = laneSwitch q in
      case try_take ((cur + 1) mod 2) q of
        Some (v, q') \<Rightarrow> (Some v, q')
      | None \<Rightarrow>
          (let q = q\<lparr>laneSwitch := inc64 cur\<rparr> in
           case try_take ((inc64 cur + 1) mod 2) q of Some (v, q') \<Rightarrow> (Some v, q') | None \<Rightarrow> (None, q)))"

section \<open>The two threads\<close>

text \<open>
  Where a thread is between two accesses: \<open>again\<close> marks the second attempt, after the lane switch.
  \<open>PCas\<close> is the \<open>compare_exchange_strong\<close>, \<open>PReload\<close> the load after it failed.
\<close>

datatype 'a prod_pc =
    PIdle
  | PHead nat 'a bool
  | PTail nat 'a nat bool
  | PWrite nat 'a nat
  | PStore nat 'a nat
  | PCas nat 'a
  | PReload 'a

datatype 'a cons_pc =
    CIdle
  | CTail nat bool
  | CHead nat nat bool
  | CRead nat nat
  | CStore nat nat 'a
  | CCas nat
  | CReload

text \<open>
  Ghost state: the values published in and taken from each lane, and the returns of the calls.
\<close>

record 'a conc =
  queue :: "'a spsc"
  ppc :: "'a prod_pc"
  cpc :: "'a cons_pc"
  sent :: "nat \<Rightarrow> 'a list"
  rcvd :: "nat \<Rightarrow> 'a list"
  pushes :: "('a \<times> bool) list"
  pops :: "'a option list"

abbreviation lane :: "'a conc \<Rightarrow> nat \<Rightarrow> 'a ring_buffer" where
  "lane c l \<equiv> lanes (queue c) ! l"

definition upd_lane :: "nat \<Rightarrow> ('a ring_buffer \<Rightarrow> 'a ring_buffer) \<Rightarrow> 'a conc \<Rightarrow> 'a conc" where
  "upd_lane l f c = c\<lparr>queue := (queue c)\<lparr>lanes := (lanes (queue c))[l := f (lane c l)]\<rparr>\<rparr>"

definition prod_step :: "'a \<Rightarrow> 'a conc \<Rightarrow> 'a conc" where
  "prod_step value c =
     (case ppc c of
        PIdle \<Rightarrow> c\<lparr>ppc := PHead (laneSwitch (queue c)) value False\<rparr>
      | PHead cur v again \<Rightarrow> c\<lparr>ppc := PTail cur v (rhead (lane c (cur mod 2))) again\<rparr>
      | PTail cur v h again \<Rightarrow>
          if next_idx (buffer_mask (queue c)) h \<noteq> rtail (lane c (cur mod 2)) then c\<lparr>ppc := PWrite cur v h\<rparr>
          else if again then c\<lparr>ppc := PIdle, pushes := pushes c @ [(v, False)]\<rparr>
          else c\<lparr>ppc := PCas cur v\<rparr>
      | PWrite cur v h \<Rightarrow>
          (upd_lane (cur mod 2) (\<lambda>r. r\<lparr>ring := (ring r)[h := v]\<rparr>) c)\<lparr>ppc := PStore cur v h\<rparr>
      | PStore cur v h \<Rightarrow>
          (upd_lane (cur mod 2) (\<lambda>r. r\<lparr>rhead := next_idx (buffer_mask (queue c)) h\<rparr>) c)
            \<lparr>ppc := PIdle, sent := (sent c)(cur mod 2 := sent c (cur mod 2) @ [v]), pushes := pushes c @ [(v, True)]\<rparr>
      | PCas cur v \<Rightarrow>
          if laneSwitch (queue c) = cur
          then c\<lparr>queue := (queue c)\<lparr>laneSwitch := inc64 cur\<rparr>, ppc := PHead (inc64 cur) v True\<rparr>
          else c\<lparr>ppc := PReload v\<rparr>
      | PReload v \<Rightarrow> c\<lparr>ppc := PHead (laneSwitch (queue c)) v False\<rparr>)"

definition cons_step :: "'a conc \<Rightarrow> 'a conc" where
  "cons_step c =
     (case cpc c of
        CIdle \<Rightarrow> c\<lparr>cpc := CTail (laneSwitch (queue c)) False\<rparr>
      | CTail cur again \<Rightarrow> c\<lparr>cpc := CHead cur (rtail (lane c ((cur + 1) mod 2))) again\<rparr>
      | CHead cur t again \<Rightarrow>
          if t \<noteq> rhead (lane c ((cur + 1) mod 2)) then c\<lparr>cpc := CRead cur t\<rparr>
          else if again then c\<lparr>cpc := CIdle, pops := pops c @ [None]\<rparr>
          else c\<lparr>cpc := CCas cur\<rparr>
      | CRead cur t \<Rightarrow> c\<lparr>cpc := CStore cur t (ring (lane c ((cur + 1) mod 2)) ! t)\<rparr>
      | CStore cur t v \<Rightarrow>
          (upd_lane ((cur + 1) mod 2) (\<lambda>r. r\<lparr>rtail := next_idx (buffer_mask (queue c)) t\<rparr>) c)
            \<lparr>cpc := CIdle, rcvd := (rcvd c)((cur + 1) mod 2 := rcvd c ((cur + 1) mod 2) @ [v]), pops := pops c @ [Some v]\<rparr>
      | CCas cur \<Rightarrow>
          if laneSwitch (queue c) = cur
          then c\<lparr>queue := (queue c)\<lparr>laneSwitch := inc64 cur\<rparr>, cpc := CTail (inc64 cur) True\<rparr>
          else c\<lparr>cpc := CReload\<rparr>
      | CReload \<Rightarrow> c\<lparr>cpc := CTail (laneSwitch (queue c)) False\<rparr>)"

definition conc_start :: "'a spsc \<Rightarrow> 'a conc" where
  "conc_start q = \<lparr>queue = q, ppc = PIdle, cpc = CIdle, sent = (\<lambda>_. []), rcvd = (\<lambda>_. []), pushes = [], pops = []\<rparr>"

inductive conc_reach :: "'a spsc \<Rightarrow> 'a conc \<Rightarrow> bool" for q where
  start: "conc_reach q (conc_start q)"
| producer: "conc_reach q c \<Longrightarrow> conc_reach q (prod_step v c)"
| consumer: "conc_reach q c \<Longrightarrow> conc_reach q (cons_step c)"

section \<open>One ring\<close>

text \<open>The invariant of a ring of \<open>m\<close> slots and the values in it, oldest first.\<close>

definition ring_ok :: "nat \<Rightarrow> 'a ring_buffer \<Rightarrow> bool" where
  "ring_ok m r \<longleftrightarrow> length (ring r) = m \<and> rhead r < m \<and> rtail r < m"

definition used :: "nat \<Rightarrow> 'a ring_buffer \<Rightarrow> nat" where
  "used m r = (if rtail r \<le> rhead r then rhead r - rtail r else rhead r + m - rtail r)"

definition slot_of :: "nat \<Rightarrow> 'a ring_buffer \<Rightarrow> nat \<Rightarrow> nat" where
  "slot_of m r i = (if rtail r + i < m then rtail r + i else rtail r + i - m)"

definition rlist :: "nat \<Rightarrow> 'a ring_buffer \<Rightarrow> 'a list" where
  "rlist m r = map (\<lambda>i. ring r ! slot_of m r i) [0..<used m r]"

definition nxt :: "nat \<Rightarrow> nat \<Rightarrow> nat" where "nxt m i = (if i + 1 = m then 0 else i + 1)"

lemma pow2_size_power: "pow2_size n \<Longrightarrow> \<exists>k. n = 2 ^ k"
proof (induction n rule: less_induct)
  case (less n)
  show ?case
  proof (cases "n = 2")
    case True
    then show ?thesis by (intro exI[of _ 1]) simp
  next
    case False
    then have n: "2 < n" using less.prems by (simp add: pow2_size_def)
    have z: "n AND (n - 1) = 0" using less.prems by (simp add: pow2_size_def)
    have e: "even n"
    proof (rule ccontr)
      assume o: "odd n"
      then have "(n - 1) div 2 = n div 2" using n by presburger
      then have "(n div 2) AND (n div 2) = 0" using z and_nat_rec[of n "n - 1"] by simp
      then show False using n by simp
    qed
    have h: "(n - 1) div 2 = n div 2 - 1" using e n by presburger
    have "(n div 2) AND (n div 2 - 1) = 0" using z and_nat_rec[of n "n - 1"] h by simp
    then have "pow2_size (n div 2)" using n e by (auto simp: pow2_size_def)
    then obtain k where "n div 2 = 2 ^ k" using less.IH[of "n div 2"] n by auto
    then show ?thesis using e by (intro exI[of _ "Suc k"]) auto
  qed
qed

lemma next_idx_nxt:
  assumes "pow2_size (bmask + 1)" and "i < bmask + 1"
  shows "next_idx bmask i = nxt (bmask + 1) i"
proof -
  obtain k where k: "bmask + 1 = 2 ^ k" using pow2_size_power[OF assms(1)] by blast
  then have "bmask = 2 ^ k - 1" by simp
  then have "bmask = mask k" by (simp add: mask_eq_exp_minus_1)
  then have "next_idx bmask i = (i + 1) mod (bmask + 1)"
    unfolding k by (simp add: next_idx_def take_bit_eq_mod flip: take_bit_eq_mask)
  then show ?thesis using assms(2) by (auto simp: nxt_def)
qed

lemma nxt_less: "i < m \<Longrightarrow> nxt m i < m" by (auto simp: nxt_def)

lemma nxt_inj: "i < m \<Longrightarrow> j < m \<Longrightarrow> nxt m i = nxt m j \<longleftrightarrow> i = j" by (auto simp: nxt_def)

lemma length_rlist [simp]: "length (rlist m r) = used m r" by (simp add: rlist_def)

lemma used_bounds:
  assumes "ring_ok m r"
  shows "used m r < m" and "rtail r = rhead r \<longleftrightarrow> used m r = 0" and "nxt m (rhead r) = rtail r \<longleftrightarrow> used m r = m - 1"
  using assms by (auto simp: ring_ok_def used_def nxt_def)

text \<open>Writing the slot at the head, publishing it, and releasing the slot at the tail.\<close>

lemma rlist_write:
  assumes "ring_ok m r" and "nxt m (rhead r) \<noteq> rtail r"
  shows "rlist m (r\<lparr>ring := (ring r)[rhead r := v]\<rparr>) = rlist m r"
proof -
  have "slot_of m r i \<noteq> rhead r" if "i < used m r" for i
    using that assms(1) by (auto simp: slot_of_def used_def ring_ok_def split: if_splits)
  then show ?thesis by (simp add: rlist_def used_def slot_of_def)
qed

lemma rlist_publish:
  assumes ok: "ring_ok m r" and room: "nxt m (rhead r) \<noteq> rtail r"
  shows "rlist m (r\<lparr>rhead := nxt m (rhead r)\<rparr>) = rlist m r @ [ring r ! rhead r]"
proof -
  have u: "used m (r\<lparr>rhead := nxt m (rhead r)\<rparr>) = Suc (used m r)"
    using assms by (auto simp: used_def nxt_def ring_ok_def split: if_splits)
  have "slot_of m r (used m r) = rhead r" using ok by (auto simp: slot_of_def used_def ring_ok_def)
  moreover have "slot_of m (r\<lparr>rhead := nxt m (rhead r)\<rparr>) = slot_of m r" by (simp add: fun_eq_iff slot_of_def)
  ultimately show ?thesis unfolding rlist_def u by simp
qed

lemma rlist_release:
  assumes ok: "ring_ok m r" and some: "rtail r \<noteq> rhead r"
  shows "rlist m r = ring r ! rtail r # rlist m (r\<lparr>rtail := nxt m (rtail r)\<rparr>)"
proof -
  have u: "used m r = Suc (used m (r\<lparr>rtail := nxt m (rtail r)\<rparr>))"
    using assms by (auto simp: used_def nxt_def ring_ok_def split: if_splits)
  have "slot_of m r (Suc i) = slot_of m (r\<lparr>rtail := nxt m (rtail r)\<rparr>) i" if "i < used m (r\<lparr>rtail := nxt m (rtail r)\<rparr>)" for i
    using that assms by (auto simp: slot_of_def nxt_def used_def ring_ok_def split: if_splits)
  moreover have "slot_of m r 0 = rtail r" using ok by (simp add: slot_of_def ring_ok_def)
  ultimately show ?thesis unfolding rlist_def u by (simp add: upt_conv_Cons map_Suc_upt[symmetric] del: upt_Suc)
qed

lemma ring_ok_steps:
  assumes "ring_ok m r"
  shows "ring_ok m (r\<lparr>ring := (ring r)[i := v]\<rparr>)" and "ring_ok m (r\<lparr>rhead := nxt m (rhead r)\<rparr>)"
    and "ring_ok m (r\<lparr>rtail := nxt m (rtail r)\<rparr>)"
  using assms by (auto simp: ring_ok_def nxt_less)

section \<open>A bounded bag\<close>

definition queue_ok :: "'a spsc \<Rightarrow> bool" where
  "queue_ok q \<longleftrightarrow> pow2_size (buffer_mask q + 1) \<and> length (lanes q) = 2 \<and>
     (\<forall>r \<in> set (lanes q). ring_ok (buffer_mask q + 1) r)"

definition lane_list :: "'a spsc \<Rightarrow> nat \<Rightarrow> 'a list" where
  "lane_list q l = rlist (buffer_mask q + 1) (lanes q ! l)"

definition bag :: "'a spsc \<Rightarrow> 'a multiset" where
  "bag q = mset (lane_list q 0) + mset (lane_list q 1)"

definition capacity :: "'a spsc \<Rightarrow> nat" where "capacity q = 2 * buffer_mask q"

lemma queue_ok_lane: "queue_ok q \<Longrightarrow> l < 2 \<Longrightarrow> ring_ok (buffer_mask q + 1) (lanes q ! l)"
  by (auto simp: queue_ok_def)

lemma queue_ok_switch [simp]:
  "queue_ok (q\<lparr>laneSwitch := x\<rparr>) = queue_ok q" "lane_list (q\<lparr>laneSwitch := x\<rparr>) l = lane_list q l"
  "bag (q\<lparr>laneSwitch := x\<rparr>) = bag q" "capacity (q\<lparr>laneSwitch := x\<rparr>) = capacity q"
  by (simp_all add: queue_ok_def lane_list_def bag_def capacity_def)

lemma bag_lane: "l < 2 \<Longrightarrow> bag q = mset (lane_list q l) + mset (lane_list q (1 - l))"
  by (cases "l = 0") (auto simp: bag_def less_2_cases_iff)

lemma size_lane: "length (lane_list q l) = used (buffer_mask q + 1) (lanes q ! l)"
  by (simp add: lane_list_def)

lemma upd_lane_queue:
  assumes "queue_ok q" and "l < 2" and "ring_ok (buffer_mask q + 1) r"
  shows "queue_ok (q\<lparr>lanes := (lanes q)[l := r]\<rparr>)"
    and "lane_list (q\<lparr>lanes := (lanes q)[l := r]\<rparr>) k = (if k = l then rlist (buffer_mask q + 1) r else lane_list q k)"
  using assms set_update_subset_insert[of "lanes q" l r]
  by (auto simp: queue_ok_def lane_list_def nth_list_update_if dest!: subsetD)

lemma other_lane: "(l :: nat) < 2 \<Longrightarrow> 1 - l \<noteq> l" by presburger

lemma try_put_Some:
  assumes ok: "queue_ok q" and l: "l < 2" and put: "try_put l v q = Some q'"
  shows "queue_ok q' \<and> bag q' = add_mset v (bag q) \<and> capacity q' = capacity q"
proof -
  let ?m = "buffer_mask q + 1" and ?r = "lanes q ! l"
  let ?w = "?r\<lparr>ring := (ring ?r)[rhead ?r := v]\<rparr>"
  have r: "ring_ok ?m ?r" by (rule queue_ok_lane[OF ok l])
  have n: "next_idx (buffer_mask q) (rhead ?r) = nxt ?m (rhead ?r)"
    using ok r by (intro next_idx_nxt) (simp_all add: queue_ok_def ring_ok_def)
  have room: "nxt ?m (rhead ?r) \<noteq> rtail ?r" and q': "q' = q\<lparr>lanes := (lanes q)[l := ?w\<lparr>rhead := nxt ?m (rhead ?w)\<rparr>]\<rparr>"
    using put by (auto simp: try_put_def Let_def n split: if_splits)
  have w: "ring_ok ?m ?w" by (rule ring_ok_steps(1)[OF r])
  have "rlist ?m (?w\<lparr>rhead := nxt ?m (rhead ?w)\<rparr>) = lane_list q l @ [v]"
    using rlist_publish[OF w] rlist_write[OF r room] room r by (simp add: lane_list_def ring_ok_def)
  then have "lane_list q' l = lane_list q l @ [v]" "lane_list q' (1 - l) = lane_list q (1 - l)" "queue_ok q'"
    using upd_lane_queue[OF ok l ring_ok_steps(2)[OF w]] other_lane[OF l] unfolding q' by simp_all
  then show ?thesis using bag_lane[OF l, of q] bag_lane[OF l, of q'] q' by (simp add: capacity_def)
qed

lemma try_put_None:
  assumes ok: "queue_ok q" and l: "l < 2" and "try_put l v q = None"
  shows "length (lane_list q l) = buffer_mask q"
proof -
  let ?m = "buffer_mask q + 1" and ?r = "lanes q ! l"
  have r: "ring_ok ?m ?r" by (rule queue_ok_lane[OF ok l])
  have "next_idx (buffer_mask q) (rhead ?r) = nxt ?m (rhead ?r)"
    using ok r by (intro next_idx_nxt) (simp_all add: queue_ok_def ring_ok_def)
  then show ?thesis using assms(3) used_bounds(3)[OF r] by (auto simp: try_put_def Let_def size_lane split: if_splits)
qed

lemma try_take_Some:
  assumes ok: "queue_ok q" and l: "l < 2" and take: "try_take l q = Some (v, q')"
  shows "queue_ok q' \<and> bag q = add_mset v (bag q') \<and> capacity q' = capacity q"
proof -
  let ?m = "buffer_mask q + 1" and ?r = "lanes q ! l"
  have r: "ring_ok ?m ?r" by (rule queue_ok_lane[OF ok l])
  have n: "next_idx (buffer_mask q) (rtail ?r) = nxt ?m (rtail ?r)"
    using ok r by (intro next_idx_nxt) (simp_all add: queue_ok_def ring_ok_def)
  have some: "rtail ?r \<noteq> rhead ?r" and v: "v = ring ?r ! rtail ?r"
    and q': "q' = q\<lparr>lanes := (lanes q)[l := ?r\<lparr>rtail := nxt ?m (rtail ?r)\<rparr>]\<rparr>"
    using take by (auto simp: try_take_def Let_def n split: if_splits)
  have "lane_list q l = v # rlist ?m (?r\<lparr>rtail := nxt ?m (rtail ?r)\<rparr>)"
    using rlist_release[OF r some] v by (simp add: lane_list_def)
  then have "lane_list q l = v # lane_list q' l" "lane_list q' (1 - l) = lane_list q (1 - l)" "queue_ok q'"
    using upd_lane_queue[OF ok l ring_ok_steps(3)[OF r]] other_lane[OF l] unfolding q' by simp_all
  then show ?thesis using bag_lane[OF l, of q] bag_lane[OF l, of q'] q' by (simp add: capacity_def)
qed

lemma try_take_None:
  assumes ok: "queue_ok q" and l: "l < 2" and "try_take l q = None"
  shows "lane_list q l = []"
proof -
  have "used (buffer_mask q + 1) (lanes q ! l) = 0"
    using assms(3) used_bounds(2)[OF queue_ok_lane[OF ok l]] by (simp add: try_take_def Let_def split: if_splits)
  then show ?thesis using size_lane[of q l] by simp
qed

lemma inc64_lane: "inc64 c mod 2 = Suc c mod 2" "Suc (inc64 c) mod 2 = c mod 2"
proof -
  have "(2 :: nat) dvd 2 ^ 64" by simp
  then have i: "inc64 c mod 2 = (c + 1) mod 2" unfolding inc64_def by (rule mod_mod_cancel)
  then show "inc64 c mod 2 = Suc c mod 2" by simp
  show "Suc (inc64 c) mod 2 = c mod 2" using i by presburger
qed

lemma lane_cases: "c mod 2 = (0 :: nat) \<and> (c + 1) mod 2 = 1 \<or> c mod 2 = 1 \<and> (c + 1) mod 2 = 0" by presburger

lemma push_bag:
  assumes ok: "queue_ok q"
  shows "push v q = (b, q') \<Longrightarrow> queue_ok q' \<and> capacity q' = capacity q \<and>
    (b \<longrightarrow> bag q' = add_mset v (bag q)) \<and> (\<not> b \<longrightarrow> bag q' = bag q \<and> size (bag q) = capacity q)"
proof (cases "try_put (laneSwitch q mod 2) v q")
  case (Some q1)
  moreover assume "push v q = (b, q')"
  ultimately show ?thesis using try_put_Some[OF ok _ Some] by (auto simp: push_def)
next
  case None
  let ?q = "q\<lparr>laneSwitch := inc64 (laneSwitch q)\<rparr>" and ?l = "(laneSwitch q + 1) mod 2"
  have ok': "queue_ok ?q" using ok by simp
  have full: "length (lane_list q (laneSwitch q mod 2)) = buffer_mask q" by (rule try_put_None[OF ok _ None]) simp
  assume push: "push v q = (b, q')"
  show ?thesis
  proof (cases "try_put ?l v ?q")
    case (Some q1)
    then show ?thesis using try_put_Some[OF ok' _ Some] push None by (auto simp: push_def Let_def inc64_lane)
  next
    case none: None
    have "length (lane_list q ?l) = buffer_mask q" using try_put_None[OF ok' _ none] by simp
    then have "size (bag q) = capacity q"
      using full lane_cases[of "laneSwitch q"] by (auto simp: bag_def capacity_def)
    then show ?thesis using push None none ok by (auto simp: push_def Let_def inc64_lane)
  qed
qed

lemma pop_bag:
  assumes ok: "queue_ok q"
  shows "pop q = (r, q') \<Longrightarrow> queue_ok q' \<and> capacity q' = capacity q \<and>
    (\<forall>v. r = Some v \<longrightarrow> bag q = add_mset v (bag q')) \<and> (r = None \<longrightarrow> bag q = {#} \<and> bag q' = {#})"
proof (cases "try_take ((laneSwitch q + 1) mod 2) q")
  case (Some p)
  obtain v q1 where "p = (v, q1)" by (cases p)
  moreover assume "pop q = (r, q')"
  ultimately show ?thesis using try_take_Some[OF ok _ Some[unfolded \<open>p = (v, q1)\<close>]] Some by (auto simp: pop_def)
next
  case None
  let ?q = "q\<lparr>laneSwitch := inc64 (laneSwitch q)\<rparr>" and ?l = "laneSwitch q mod 2"
  have ok': "queue_ok ?q" using ok by simp
  have empty: "lane_list q ((laneSwitch q + 1) mod 2) = []" by (rule try_take_None[OF ok _ None]) simp
  assume pop: "pop q = (r, q')"
  show ?thesis
  proof (cases "try_take ?l ?q")
    case (Some p)
    obtain v q1 where p: "p = (v, q1)" by (cases p)
    then show ?thesis using try_take_Some[OF ok' _ Some[unfolded p]] Some pop None by (auto simp: pop_def Let_def inc64_lane)
  next
    case none: None
    have "lane_list q ?l = []" using try_take_None[OF ok' _ none] by simp
    then have "bag q = {#}" using empty lane_cases[of "laneSwitch q"] by (auto simp: bag_def)
    then show ?thesis using pop None none ok by (auto simp: pop_def Let_def inc64_lane)
  qed
qed

lemma bag_bound: "queue_ok q \<Longrightarrow> size (bag q) \<le> capacity q"
  using used_bounds(1)[OF queue_ok_lane, of q 0] used_bounds(1)[OF queue_ok_lane, of q 1]
  by (simp add: bag_def capacity_def size_lane)

section \<open>What a pool of objects relies on\<close>

text \<open>
  The contract of a bounded bag, and what its client, a pool that is filled once and then hands its
  objects out and takes them back, gets from it. \<open>put_all\<close> is the loop of the \<open>ServerThread\<close>
  constructor, which ignores the returns; it yields whether all of them were true.
\<close>

fun put_all :: "('v \<Rightarrow> 'q \<Rightarrow> bool \<times> 'q) \<Rightarrow> 'v list \<Rightarrow> 'q \<Rightarrow> bool \<times> 'q" where
  "put_all put [] q = (True, q)"
| "put_all put (v # vs) q =
     (case put v q of (b, q1) \<Rightarrow> case put_all put vs q1 of (bs, q2) \<Rightarrow> (b \<and> bs, q2))"

fun take_n :: "('q \<Rightarrow> 'v option \<times> 'q) \<Rightarrow> nat \<Rightarrow> 'q \<Rightarrow> 'v option list \<times> 'q" where
  "take_n tk 0 q = ([], q)"
| "take_n tk (Suc n) q = (case tk q of (r, q1) \<Rightarrow> case take_n tk n q1 of (rs, q2) \<Rightarrow> (r # rs, q2))"

locale bounded_bag =
  fixes put :: "'v \<Rightarrow> 'q \<Rightarrow> bool \<times> 'q" and tk :: "'q \<Rightarrow> 'v option \<times> 'q"
    and inv :: "'q \<Rightarrow> bool" and elems :: "'q \<Rightarrow> 'v multiset" and cap :: "'q \<Rightarrow> nat"
  assumes put: "inv q \<Longrightarrow> put v q = (b, q') \<Longrightarrow> inv q' \<and> cap q' = cap q \<and>
      (b \<longrightarrow> elems q' = add_mset v (elems q)) \<and> (\<not> b \<longrightarrow> elems q' = elems q \<and> size (elems q) = cap q)"
    and tk: "inv q \<Longrightarrow> tk q = (r, q') \<Longrightarrow> inv q' \<and> cap q' = cap q \<and>
      (\<forall>v. r = Some v \<longrightarrow> elems q = add_mset v (elems q')) \<and> (r = None \<longrightarrow> elems q = {#} \<and> elems q' = {#})"
    and bound: "inv q \<Longrightarrow> size (elems q) \<le> cap q"
begin

lemma put_iff: "inv q \<Longrightarrow> put v q = (b, q') \<Longrightarrow> b \<longleftrightarrow> size (elems q) < cap q"
  using put[of q v b q'] bound[of q'] by (cases b) auto

lemma tk_iff: "inv q \<Longrightarrow> tk q = (r, q') \<Longrightarrow> r = None \<longleftrightarrow> elems q = {#}"
  using tk[of q r q'] by (cases r) auto

lemma put_all_fits:
  assumes "inv q" and "size (elems q) + length vs \<le> cap q"
  shows "\<exists>q'. put_all put vs q = (True, q') \<and> inv q' \<and> cap q' = cap q \<and> elems q' = elems q + mset vs"
  using assms
proof (induction vs arbitrary: q)
  case (Cons v vs)
  obtain b q1 where p: "put v q = (b, q1)" by (cases "put v q")
  then have b: "b" using put_iff[OF Cons.prems(1) p] Cons.prems(2) by simp
  then have q1: "inv q1" "cap q1 = cap q" "elems q1 = add_mset v (elems q)" using put[OF Cons.prems(1) p] by simp_all
  then show ?case using Cons.IH[of q1] Cons.prems(2) p b by auto
qed simp

lemma take_n_drains:
  assumes "inv q" and "size (elems q) = n"
  shows "\<exists>vs q'. take_n tk n q = (map Some vs, q') \<and> inv q' \<and> mset vs = elems q \<and> elems q' = {#} \<and> fst (tk q') = None"
  using assms
proof (induction n arbitrary: q)
  case 0
  obtain r q1 where "tk q = (r, q1)" by (cases "tk q")
  then show ?case using tk_iff[OF 0(1)] 0 by auto
next
  case (Suc n)
  obtain r q1 where r: "tk q = (r, q1)" by (cases "tk q")
  then obtain v where v: "r = Some v" using tk_iff[OF Suc.prems(1) r] Suc.prems(2) by (cases r) auto
  then have q1: "inv q1" "elems q = add_mset v (elems q1)" using tk[OF Suc.prems(1) r] by simp_all
  then obtain vs q2 where "take_n tk n q1 = (map Some vs, q2)" "inv q2" "mset vs = elems q1" "elems q2 = {#}" "fst (tk q2) = None"
    using Suc.IH[of q1] Suc.prems(2) by auto
  then show ?case using r v q1 by (intro exI[of _ "v # vs"]) auto
qed

end

interpretation lq: bounded_bag push pop queue_ok bag capacity
  by unfold_locales (rule push_bag pop_bag bag_bound; assumption)+

lemma LFSPSCQueue_ok:
  assumes "pow2_size n"
  shows "\<exists>q. LFSPSCQueue d n = Inr q \<and> queue_ok q \<and> bag q = {#} \<and> capacity q = 2 * (n - 1) \<and> laneSwitch q = 0"
  using assms by (auto simp: LFSPSCQueue_def queue_ok_def pow2_size_def ring_ok_def bag_def lane_list_def rlist_def
      used_def capacity_def Let_def)

section \<open>Properties\<close>

text \<open>
  C24: the queue is a bounded bag. \<open>push\<close> succeeds exactly when fewer than twice \<open>size - 1\<close> values are
  in it and then adds its value, otherwise it changes nothing; \<open>pop\<close> fails exactly on the empty queue
  and otherwise removes the value it returns. Both keep the invariant, for every value of the lane
  counter, its wrap-around included.
\<close>

theorem queue_refines_bag:
  assumes "queue_ok q"
  shows "(case push v q of (b, q') \<Rightarrow> queue_ok q' \<and> capacity q' = capacity q \<and>
      (b \<longleftrightarrow> size (bag q) < capacity q) \<and> bag q' = (if b then add_mset v (bag q) else bag q)) \<and>
    (case pop q of (r, q') \<Rightarrow> queue_ok q' \<and> capacity q' = capacity q \<and>
      (r = None \<longleftrightarrow> bag q = {#}) \<and> bag q = (case r of None \<Rightarrow> bag q' | Some x \<Rightarrow> add_mset x (bag q')))"
proof -
  obtain b q1 where b: "push v q = (b, q1)" by (cases "push v q")
  obtain r q2 where r: "pop q = (r, q2)" by (cases "pop q")
  show ?thesis
    using lq.put[OF assms b] lq.put_iff[OF assms b] lq.tk[OF assms r] lq.tk_iff[OF assms r] b r
    by (auto split: option.splits)
qed

theorem queue_refines_bag_witness:
  "\<exists>q. LFSPSCQueue (0 :: nat) 4 = Inr q \<and> queue_ok q \<and> fst (push 7 q) \<and> bag (snd (push 7 q)) = {#7#} \<and> fst (pop q) = None"
proof -
  have "pow2_size 4" by (simp add: pow2_size_def)
  then obtain q where q: "LFSPSCQueue (0 :: nat) 4 = Inr q" "queue_ok q" "bag q = {#}" "capacity q = 2 * (4 - 1)"
    using LFSPSCQueue_ok[of 4 0] by blast
  then show ?thesis using queue_refines_bag[OF q(2), of 7] by (auto split: prod.splits)
qed

text \<open>
  A session pool of size \<open>n\<close> (a power of two) takes all the sessions the constructor of
  \<open>ServerThread\<close> puts in, as long as they are at most twice \<open>n - 1\<close> (it creates 4096 for \<open>n = 4096\<close>), and
  hands every one of them out exactly once before it reports that it is empty.
\<close>

theorem session_pool_serves_all:
  assumes "pow2_size n" and "length vs \<le> 2 * (n - 1)"
  shows "\<exists>q q1 q2 ws. LFSPSCQueue d n = Inr q \<and> put_all push vs q = (True, q1) \<and>
    take_n pop (length vs) q1 = (map Some ws, q2) \<and> mset ws = mset vs \<and> fst (pop q2) = None"
proof -
  obtain q where q: "LFSPSCQueue d n = Inr q" "queue_ok q" "bag q = {#}" "capacity q = 2 * (n - 1)"
    using LFSPSCQueue_ok[OF assms(1), of d] by blast
  then obtain q1 where q1: "put_all push vs q = (True, q1)" "queue_ok q1" "bag q1 = mset vs"
    using lq.put_all_fits[OF q(2), of vs] assms(2) by auto
  then obtain ws q2 where "take_n pop (length vs) q1 = (map Some ws, q2)" "mset ws = mset vs" "fst (pop q2) = None"
    using lq.take_n_drains[OF q1(2), of "length vs"] by auto
  then show ?thesis using q(1) q1(1) by blast
qed

theorem session_pool_serves_all_witness:
  "pow2_size 4096 \<and> (\<exists>q q1 q2 ws. LFSPSCQueue 0 4096 = Inr q \<and> put_all push [0..<4096] q = (True, q1) \<and>
    take_n pop 4096 q1 = (map Some ws, q2) \<and> mset ws = mset [0..<4096] \<and> fst (pop q2) = None)"
proof -
  have p: "pow2_size 4096" by (simp add: pow2_size_def)
  have l: "length [0..<4096] \<le> 2 * (4096 - 1)" unfolding length_upt by simp
  from p session_pool_serves_all[OF p l, of 0] show ?thesis unfolding length_upt diff_zero by (rule conjI)
qed

end
