(* ===== verification/Lane_Queue_Conc.thy ===== *)
theory Lane_Queue_Conc
  imports Lane_Queue
begin

text \<open>
  The queue under one producer and one consumer thread, interleaved at every shared access: no value
  is lost, duplicated or invented, and each lane delivers in order; a thread that runs alone finishes
  its call in a bounded number of steps, with the result of the sequential model.
\<close>

section \<open>The invariant\<close>

definition accepted :: "('a \<times> bool) list \<Rightarrow> 'a list" where
  "accepted ps = map fst (filter snd ps)"

definition delivered :: "'a option list \<Rightarrow> 'a list" where
  "delivered rs = List.map_filter id rs"

definition prod_ok :: "'a conc \<Rightarrow> bool" where
  "prod_ok c \<longleftrightarrow>
     (case ppc c of
        PTail cur v h again \<Rightarrow> h = rhead (lane c (cur mod 2))
      | PWrite cur v h \<Rightarrow> h = rhead (lane c (cur mod 2)) \<and> nxt (buffer_mask (queue c) + 1) h \<noteq> rtail (lane c (cur mod 2))
      | PStore cur v h \<Rightarrow> h = rhead (lane c (cur mod 2)) \<and> nxt (buffer_mask (queue c) + 1) h \<noteq> rtail (lane c (cur mod 2)) \<and>
          ring (lane c (cur mod 2)) ! h = v
      | _ \<Rightarrow> True)"

definition cons_ok :: "'a conc \<Rightarrow> bool" where
  "cons_ok c \<longleftrightarrow>
     (case cpc c of
        CHead cur t again \<Rightarrow> t = rtail (lane c ((cur + 1) mod 2))
      | CRead cur t \<Rightarrow> t = rtail (lane c ((cur + 1) mod 2)) \<and> t \<noteq> rhead (lane c ((cur + 1) mod 2))
      | CStore cur t v \<Rightarrow> t = rtail (lane c ((cur + 1) mod 2)) \<and> t \<noteq> rhead (lane c ((cur + 1) mod 2)) \<and>
          v = ring (lane c ((cur + 1) mod 2)) ! t
      | _ \<Rightarrow> True)"

definition history_ok :: "'a conc \<Rightarrow> bool" where
  "history_ok c \<longleftrightarrow> (\<forall>l < 2. sent c l = rcvd c l @ lane_list (queue c) l) \<and>
     mset (accepted (pushes c)) = mset (sent c 0) + mset (sent c 1) \<and>
     mset (delivered (pops c)) = mset (rcvd c 0) + mset (rcvd c 1)"

definition conc_inv :: "'a conc \<Rightarrow> bool" where
  "conc_inv c \<longleftrightarrow> queue_ok (queue c) \<and> prod_ok c \<and> cons_ok c \<and> history_ok c"

lemma log_simps [simp]:
  "accepted [] = []" "accepted (ps @ [(v, b)]) = accepted ps @ (if b then [v] else [])"
  "delivered [] = []" "delivered (rs @ [r]) = delivered rs @ (case r of None \<Rightarrow> [] | Some v \<Rightarrow> [v])"
  by (simp_all add: accepted_def delivered_def List.map_filter_def split: option.splits)

lemma upd_lane_simps [simp]:
  "ppc (upd_lane l f c) = ppc c" "cpc (upd_lane l f c) = cpc c" "sent (upd_lane l f c) = sent c"
  "rcvd (upd_lane l f c) = rcvd c" "pushes (upd_lane l f c) = pushes c" "pops (upd_lane l f c) = pops c"
  "buffer_mask (queue (upd_lane l f c)) = buffer_mask (queue c)"
  by (simp_all add: upd_lane_def)

lemma lane_upd:
  assumes "queue_ok (queue c)" and "l < 2"
  shows "lane (upd_lane l f c) k = (if k = l then f (lane c l) else lane c k)"
  using assms by (simp add: upd_lane_def queue_ok_def nth_list_update_if)

lemma queue_upd:
  assumes "queue_ok (queue c)" and "l < 2" and "ring_ok (buffer_mask (queue c) + 1) (f (lane c l))"
  shows "queue_ok (queue (upd_lane l f c))"
    and "lane_list (queue (upd_lane l f c)) k =
      (if k = l then rlist (buffer_mask (queue c) + 1) (f (lane c l)) else lane_list (queue c) k)"
  using upd_lane_queue[OF assms] by (simp_all add: upd_lane_def)

lemma lane_next:
  assumes "queue_ok (queue c)" and "l < 2"
  shows "next_idx (buffer_mask (queue c)) (rhead (lane c l)) = nxt (buffer_mask (queue c) + 1) (rhead (lane c l))"
    and "next_idx (buffer_mask (queue c)) (rtail (lane c l)) = nxt (buffer_mask (queue c) + 1) (rtail (lane c l))"
  by (rule next_idx_nxt; use assms queue_ok_lane[OF assms] in \<open>simp add: queue_ok_def ring_ok_def\<close>)+

section \<open>Every step keeps it\<close>

lemma prod_write:
  assumes inv: "conc_inv c" and pc: "ppc c = PWrite cur v h"
  shows "conc_inv (prod_step w c)"
proof -
  let ?l = "cur mod 2" and ?m = "buffer_mask (queue c) + 1" and ?f = "\<lambda>r. r\<lparr>ring := (ring r)[h := v]\<rparr>"
  have ok: "queue_ok (queue c)" and h: "h = rhead (lane c ?l)" "nxt ?m h \<noteq> rtail (lane c ?l)"
    using inv pc by (auto simp: conc_inv_def prod_ok_def)
  have r: "ring_ok ?m (lane c ?l)" using queue_ok_lane[OF ok] by simp
  have l: "?l < 2" by simp
  have hl: "h < length (ring (lane c ?l))" using r h(1) by (simp add: ring_ok_def)
  let ?c = "upd_lane ?l ?f c"
  have q: "queue_ok (queue ?c)" "lane_list (queue ?c) k = lane_list (queue c) k" for k
    using queue_upd[OF ok l, of ?f] ring_ok_steps(1)[OF r, of h v] rlist_write[OF r, of v] h
    by (auto simp: lane_list_def)
  note lu = lane_upd[OF ok]
  have step: "prod_step w c = ?c\<lparr>ppc := PStore cur v h\<rparr>" using pc by (simp add: prod_step_def)
  have "prod_ok (?c\<lparr>ppc := PStore cur v h\<rparr>)" using h hl by (simp add: prod_ok_def lu)
  moreover have "cons_ok (?c\<lparr>ppc := PStore cur v h\<rparr>)"
    using inv h by (auto simp: cons_ok_def conc_inv_def lu nth_list_update_if split: cons_pc.splits)
  moreover have "history_ok (?c\<lparr>ppc := PStore cur v h\<rparr>)"
    using inv q(2) by (simp add: history_ok_def conc_inv_def)
  ultimately show ?thesis unfolding step using q(1) by (simp add: conc_inv_def)
qed

lemma prod_store:
  assumes inv: "conc_inv c" and pc: "ppc c = PStore cur v h"
  shows "conc_inv (prod_step w c)"
proof -
  let ?l = "cur mod 2" and ?m = "buffer_mask (queue c) + 1"
  let ?f = "\<lambda>r. r\<lparr>rhead := next_idx (buffer_mask (queue c)) h\<rparr>"
  have ok: "queue_ok (queue c)" and h: "h = rhead (lane c ?l)" "nxt ?m h \<noteq> rtail (lane c ?l)" "ring (lane c ?l) ! h = v"
    using inv pc by (auto simp: conc_inv_def prod_ok_def)
  have l: "?l < 2" by simp
  have r: "ring_ok ?m (lane c ?l)" by (rule queue_ok_lane[OF ok l])
  have f: "?f (lane c ?l) = (lane c ?l)\<lparr>rhead := nxt ?m (rhead (lane c ?l))\<rparr>" using lane_next(1)[OF ok l] h(1) by simp
  let ?c = "upd_lane ?l ?f c"
  have q: "queue_ok (queue ?c)" "lane_list (queue ?c) k = (if k = ?l then lane_list (queue c) ?l @ [v] else lane_list (queue c) k)" for k
    using queue_upd[OF ok l, of ?f] ring_ok_steps(2)[OF r] rlist_publish[OF r] h unfolding f
    by (auto simp: lane_list_def)
  note lu = lane_upd[OF ok] lane_next(1)[OF ok l, simplified]
  let ?d = "?c\<lparr>ppc := PIdle, sent := (sent c)(?l := sent c ?l @ [v]), pushes := pushes c @ [(v, True)]\<rparr>"
  have step: "prod_step w c = ?d" using pc by (simp add: prod_step_def)
  have "cons_ok ?d" using inv h by (auto simp: cons_ok_def conc_inv_def lu split: cons_pc.splits)
  moreover have "history_ok ?d"
    using inv q(2) lane_cases[of cur] by (auto simp: history_ok_def conc_inv_def)
  ultimately show ?thesis unfolding step using q(1) by (simp add: conc_inv_def prod_ok_def)
qed

lemma prod_local:
  assumes inv: "conc_inv c" and pc: "\<forall>cur v h. ppc c \<noteq> PWrite cur v h \<and> ppc c \<noteq> PStore cur v h"
  shows "conc_inv (prod_step w c)"
proof -
  have ok: "queue_ok (queue c)" using inv by (simp add: conc_inv_def)
  have n: "next_idx (buffer_mask (queue c)) (rhead (lane c (cur mod 2))) = nxt (Suc (buffer_mask (queue c))) (rhead (lane c (cur mod 2)))" for cur
    using lane_next(1)[OF ok, of "cur mod 2"] by simp
  show ?thesis using inv pc
    by (cases "ppc c") (auto simp: n prod_step_def conc_inv_def prod_ok_def cons_ok_def history_ok_def split: cons_pc.splits)
qed

lemma cons_store:
  assumes inv: "conc_inv c" and pc: "cpc c = CStore cur t v"
  shows "conc_inv (cons_step c)"
proof -
  let ?l = "(cur + 1) mod 2" and ?m = "buffer_mask (queue c) + 1"
  let ?f = "\<lambda>r. r\<lparr>rtail := next_idx (buffer_mask (queue c)) t\<rparr>"
  have ok: "queue_ok (queue c)" and t: "t = rtail (lane c ?l)" "t \<noteq> rhead (lane c ?l)" "v = ring (lane c ?l) ! t"
    using inv pc by (auto simp: conc_inv_def cons_ok_def)
  have l: "?l < 2" by simp
  have r: "ring_ok ?m (lane c ?l)" by (rule queue_ok_lane[OF ok l])
  have f: "?f (lane c ?l) = (lane c ?l)\<lparr>rtail := nxt ?m (rtail (lane c ?l))\<rparr>" using lane_next(2)[OF ok l] t(1) by simp
  let ?c = "upd_lane ?l ?f c"
  have q: "queue_ok (queue ?c)" "lane_list (queue c) ?l = v # lane_list (queue ?c) ?l"
    "k \<noteq> ?l \<Longrightarrow> lane_list (queue ?c) k = lane_list (queue c) k" for k
    using queue_upd[OF ok l, of ?f] ring_ok_steps(3)[OF r] rlist_release[OF r] t unfolding f
    by (auto simp: lane_list_def)
  note lu = lane_upd[OF ok] lane_next(2)[OF ok l, simplified]
  have free: "nxt ?m (rhead (lane c ?l)) \<noteq> nxt ?m (rtail (lane c ?l))"
    using nxt_inj[of "rhead (lane c ?l)" ?m "rtail (lane c ?l)"] r t by (auto simp: ring_ok_def)
  let ?d = "?c\<lparr>cpc := CIdle, rcvd := (rcvd c)(?l := rcvd c ?l @ [v]), pops := pops c @ [Some v]\<rparr>"
  have step: "cons_step c = ?d" using pc by (simp add: cons_step_def)
  have "prod_ok ?d" using inv free t(1) by (auto simp: prod_ok_def conc_inv_def lu split: prod_pc.splits)
  moreover have "history_ok ?d"
    using inv q(2,3) lane_cases[of cur] by (auto simp: history_ok_def conc_inv_def less_2_cases_iff)
  ultimately show ?thesis unfolding step using q(1) by (simp add: conc_inv_def cons_ok_def)
qed

lemma cons_local:
  assumes inv: "conc_inv c" and pc: "\<forall>cur t v. cpc c \<noteq> CStore cur t v"
  shows "conc_inv (cons_step c)"
  using inv pc
  by (cases "cpc c") (auto simp: cons_step_def conc_inv_def prod_ok_def cons_ok_def history_ok_def split: prod_pc.splits)

lemma conc_reach_inv:
  assumes "queue_ok q" and "bag q = {#}" and "conc_reach q c"
  shows "conc_inv c"
  using assms(3)
proof (induction rule: conc_reach.induct)
  case start
  have "lane_list q l = []" if "l < 2" for l using assms(2) bag_lane[OF that, of q] by simp
  then show ?case using assms(1) by (simp add: conc_inv_def conc_start_def prod_ok_def cons_ok_def history_ok_def)
next
  case (producer c v)
  then show ?case using prod_write prod_store prod_local by (metis (no_types))
next
  case (consumer c)
  then show ?case using cons_store cons_local by (metis (no_types))
qed

section \<open>A thread that runs alone\<close>

text \<open>The sequential calls are the threads running undisturbed, at most eight steps each.\<close>

definition push_logged :: "'a \<Rightarrow> 'a conc \<Rightarrow> 'a conc \<Rightarrow> bool" where
  "push_logged v c d \<longleftrightarrow> ppc d = PIdle \<and> cpc d = cpc c \<and>
     (case push v (queue c) of (b, q) \<Rightarrow> queue d = q \<and> pushes d = pushes c @ [(v, b)])"

definition pop_logged :: "'a conc \<Rightarrow> 'a conc \<Rightarrow> bool" where
  "pop_logged c d \<longleftrightarrow> cpc d = CIdle \<and> ppc d = ppc c \<and>
     (case pop (queue c) of (r, q) \<Rightarrow> queue d = q \<and> pops d = pops c @ [r])"

lemma steps_8:
  "(f ^^ 5) x = f (f (f (f (f x))))" "(f ^^ 6) x = f (f (f (f (f (f x)))))"
  "(f ^^ 8) x = f (f (f (f (f (f (f (f x)))))))"
  by (simp_all add: numeral_eq_Suc)

lemma prod_alone:
  assumes "length (lanes (queue c)) = 2" and "ppc c = PIdle"
  shows "\<exists>n \<le> 8. push_logged v c ((prod_step v ^^ n) c)"
proof -
  let ?q = "queue c" and ?cur = "laneSwitch (queue c)"
  let ?room = "\<lambda>l. next_idx (buffer_mask ?q) (rhead (lane c l)) \<noteq> rtail (lane c l)"
  consider "?room (?cur mod 2)" | "\<not> ?room (?cur mod 2)" "?room (Suc ?cur mod 2)" | "\<not> ?room (?cur mod 2)" "\<not> ?room (Suc ?cur mod 2)"
    by blast
  then show ?thesis
  proof cases
    case 1
    then have "push_logged v c ((prod_step v ^^ 5) c)"
      using assms by (simp add: steps_8 push_logged_def prod_step_def push_def try_put_def Let_def upd_lane_def)
    then show ?thesis by (intro exI[of _ 5]) simp
  next
    case 2
    then have "push_logged v c ((prod_step v ^^ 8) c)"
      using assms by (simp add: steps_8 push_logged_def prod_step_def push_def try_put_def Let_def upd_lane_def inc64_lane)
    then show ?thesis by (intro exI[of _ 8]) simp
  next
    case 3
    then have "push_logged v c ((prod_step v ^^ 6) c)"
      using assms by (simp add: steps_8 push_logged_def prod_step_def push_def try_put_def Let_def upd_lane_def inc64_lane)
    then show ?thesis by (intro exI[of _ 6]) simp
  qed
qed

lemma cons_alone:
  assumes "length (lanes (queue c)) = 2" and "cpc c = CIdle"
  shows "\<exists>n \<le> 8. pop_logged c ((cons_step ^^ n) c)"
proof -
  let ?cur = "laneSwitch (queue c)"
  let ?some = "\<lambda>l. rtail (lane c l) \<noteq> rhead (lane c l)"
  consider "?some (Suc ?cur mod 2)" | "\<not> ?some (Suc ?cur mod 2)" "?some (?cur mod 2)" | "\<not> ?some (Suc ?cur mod 2)" "\<not> ?some (?cur mod 2)"
    by blast
  then show ?thesis
  proof cases
    case 1
    then have "pop_logged c ((cons_step ^^ 5) c)"
      using assms by (simp add: steps_8 pop_logged_def cons_step_def pop_def try_take_def Let_def upd_lane_def)
    then show ?thesis by (intro exI[of _ 5]) simp
  next
    case 2
    then have "pop_logged c ((cons_step ^^ 8) c)"
      using assms by (simp add: steps_8 pop_logged_def cons_step_def pop_def try_take_def Let_def upd_lane_def inc64_lane)
    then show ?thesis by (intro exI[of _ 8]) simp
  next
    case 3
    then have "pop_logged c ((cons_step ^^ 6) c)"
      using assms by (simp add: steps_8 pop_logged_def cons_step_def pop_def try_take_def Let_def upd_lane_def inc64_lane)
    then show ?thesis by (intro exI[of _ 6]) simp
  qed
qed

section \<open>Properties\<close>

text \<open>The accesses to the ring arrays.\<close>

lemma ring_accesses:
  assumes "conc_inv c"
  shows "ppc c = PWrite cur v h \<Longrightarrow> h < length (ring (lane c (cur mod 2)))"
    and "cpc c = CRead cur' t \<Longrightarrow> t < length (ring (lane c ((cur' + 1) mod 2)))"
    and "ppc c = PWrite cur v h \<Longrightarrow> cpc c = CRead cur' t \<Longrightarrow> cur mod 2 = (cur' + 1) mod 2 \<Longrightarrow> h \<noteq> t"
proof -
  have r: "ring_ok (buffer_mask (queue c) + 1) (lane c (l mod 2))" for l
    using assms by (intro queue_ok_lane) (simp_all add: conc_inv_def)
  show "h < length (ring (lane c (cur mod 2)))" if "ppc c = PWrite cur v h"
    using assms that r[of cur] by (simp add: conc_inv_def prod_ok_def ring_ok_def)
  show "t < length (ring (lane c ((cur' + 1) mod 2)))" if "cpc c = CRead cur' t"
    using assms that r[of "cur' + 1"] by (simp add: conc_inv_def cons_ok_def ring_ok_def)
  show "h \<noteq> t" if "ppc c = PWrite cur v h" "cpc c = CRead cur' t" "cur mod 2 = (cur' + 1) mod 2"
    using assms that by (auto simp: conc_inv_def prod_ok_def cons_ok_def)
qed

text \<open>
  C25: whatever the interleaving of the producer and the consumer thread, no value is lost, duplicated
  or invented: in each lane, the values published are the values taken followed by those still in
  it, in that order; the accepted pushes are the published values and the successful pops the taken
  ones; and a lane never holds more than \<open>size - 1\<close> values. The index that the producer is about to
  write and the one that the consumer is about to read are within the ring of their lane, and they
  are different when it is the same lane.
\<close>

theorem interleaved_queue_safe:
  assumes "pow2_size n" and "LFSPSCQueue d n = Inr q" and "conc_reach q c"
  shows "(\<forall>l < 2. sent c l = rcvd c l @ lane_list (queue c) l \<and> length (lane_list (queue c) l) \<le> buffer_mask (queue c)) \<and>
    mset (accepted (pushes c)) = mset (sent c 0) + mset (sent c 1) \<and>
    mset (delivered (pops c)) = mset (rcvd c 0) + mset (rcvd c 1) \<and>
    mset (accepted (pushes c)) = mset (delivered (pops c)) + bag (queue c) \<and>
    length (lanes (queue c)) = 2 \<and>
    (\<forall>cur v h. ppc c = PWrite cur v h \<longrightarrow> h < length (ring (lane c (cur mod 2))) \<and>
      (\<forall>cur' t. cpc c = CRead cur' t \<and> cur mod 2 = (cur' + 1) mod 2 \<longrightarrow> h \<noteq> t)) \<and>
    (\<forall>cur t. cpc c = CRead cur t \<longrightarrow> t < length (ring (lane c ((cur + 1) mod 2))))"
proof -
  have "queue_ok q" "bag q = {#}" using LFSPSCQueue_ok[OF assms(1), of d] assms(2) by auto
  then have c: "conc_inv c" using conc_reach_inv[OF _ _ assms(3)] by blast
  then have inv: "queue_ok (queue c)" "history_ok c" by (simp_all add: conc_inv_def)
  have "length (lane_list (queue c) l) \<le> buffer_mask (queue c)" if "l < 2" for l
    using used_bounds(1)[OF queue_ok_lane[OF inv(1) that]] by (simp add: size_lane)
  then have lanes: "\<forall>l < 2. sent c l = rcvd c l @ lane_list (queue c) l \<and> length (lane_list (queue c) l) \<le> buffer_mask (queue c)"
    using inv(2) by (simp add: history_ok_def)
  have logs: "mset (accepted (pushes c)) = mset (sent c 0) + mset (sent c 1)" "mset (delivered (pops c)) = mset (rcvd c 0) + mset (rcvd c 1)"
    using inv(2) by (simp_all add: history_ok_def)
  have "mset (accepted (pushes c)) = mset (delivered (pops c)) + bag (queue c)"
    using lanes by (simp add: logs bag_def)
  moreover have "length (lanes (queue c)) = 2" using inv(1) by (simp add: queue_ok_def)
  ultimately show ?thesis using lanes logs ring_accesses[OF c] by blast
qed

theorem interleaved_queue_safe_witness:
  "\<exists>q. LFSPSCQueue (0 :: nat) 2 = Inr q \<and> conc_reach q (cons_step (prod_step 5 (conc_start q))) \<and>
     mset (accepted (pushes (cons_step (prod_step 5 (conc_start q))))) =
       mset (delivered (pops (cons_step (prod_step 5 (conc_start q))))) +
       bag (queue (cons_step (prod_step 5 (conc_start q))))"
proof -
  have p: "pow2_size 2" by (simp add: pow2_size_def)
  then obtain q where q: "LFSPSCQueue (0 :: nat) 2 = Inr q" using LFSPSCQueue_ok[of 2 0] by blast
  have "conc_reach q (cons_step (prod_step 5 (conc_start q)))" by (intro conc_reach.intros)
  then show ?thesis using interleaved_queue_safe[OF p q] q by blast
qed

text \<open>
  C26: a thread that is left alone finishes the call it starts within eight shared accesses, and the
  queue and the value it returns are those of the sequential \<open>push\<close> and \<open>pop\<close>: the loops of the code
  only repeat when the other thread moves the lane counter in between.
\<close>

theorem undisturbed_call_returns:
  assumes "pow2_size n" and "LFSPSCQueue d n = Inr q" and "conc_reach q c"
  shows "(ppc c = PIdle \<longrightarrow> (\<exists>k \<le> 8. push_logged v c ((prod_step v ^^ k) c))) \<and>
    (cpc c = CIdle \<longrightarrow> (\<exists>k \<le> 8. pop_logged c ((cons_step ^^ k) c)))"
proof -
  have "queue_ok q" "bag q = {#}" using LFSPSCQueue_ok[OF assms(1), of d] assms(2) by auto
  then have "length (lanes (queue c)) = 2"
    using conc_reach_inv[OF _ _ assms(3)] by (simp add: conc_inv_def queue_ok_def)
  then show ?thesis by (intro conjI impI) (rule prod_alone cons_alone; assumption)+
qed

theorem undisturbed_call_returns_witness:
  "\<exists>q. LFSPSCQueue (0 :: nat) 2 = Inr q \<and> conc_reach q (conc_start q) \<and>
     (\<exists>k \<le> 8. push_logged 5 (conc_start q) ((prod_step 5 ^^ k) (conc_start q)))"
proof -
  have p: "pow2_size 2" by (simp add: pow2_size_def)
  then obtain q where q: "LFSPSCQueue (0 :: nat) 2 = Inr q" using LFSPSCQueue_ok[of 2 0] by blast
  have r: "conc_reach q (conc_start q)" by (rule conc_reach.start)
  have "ppc (conc_start q) = PIdle" by (simp add: conc_start_def)
  then have "\<exists>k \<le> 8. push_logged 5 (conc_start q) ((prod_step 5 ^^ k) (conc_start q))"
    using undisturbed_call_returns[OF p q r, of 5] by (rule conjunct1[THEN mp, rotated])
  then show ?thesis using q r by (intro exI[of _ q] conjI)
qed

end
