(* ===== verification/Keyword_Matcher.thy ===== *)
theory Keyword_Matcher
  imports XXHash YAM_Prelude
begin

text \<open>
  The command recogniser, \<open>src/src/FastSubstringMatcher.{h,cpp}\<close>: for every keyword length a sequence
  of spots (position, character, result), where a negative result says how many spots to skip when the
  character differs. \<open>asc\<close> turns a literal into bytes.
\<close>

definition asc :: "string \<Rightarrow> byte list" where "asc s = map of_char s"

section \<open>Building the spots\<close>

record matcher_spot =
  pos :: nat
  daChar :: byte
  matchingStringIdx :: int

text \<open>The constructor's parameters are an \<open>unsigned char\<close>, a \<open>char\<close> and a \<open>uint16_t\<close> stored as \<open>int16_t\<close>.\<close>

definition MatcherSpot :: "nat \<Rightarrow> byte \<Rightarrow> int \<Rightarrow> matcher_spot" where
  "MatcherSpot p c i = \<lparr>pos = p mod 256, daChar = c, matchingStringIdx = sint (word_of_int i :: 16 word)\<rparr>"

definition uniqChars :: "byte list \<Rightarrow> byte list" where
  "uniqChars cs = foldl (\<lambda>u c. if c \<in> set u then u else u @ [c]) [] cs"

definition diffCharsAtPos :: "(nat \<times> byte list) list \<Rightarrow> nat \<Rightarrow> (nat \<times> byte list) list" where
  "diffCharsAtPos ms n = map (\<lambda>j. (j, uniqChars (map (\<lambda>m. snd m ! j) ms))) [0..<n]"

text \<open>
  \<open>std::sort\<close> by \<open>varianceGreaterThan\<close>, a total order (more characters first, then the smaller
  position): the stable sort by the number of characters of the list, which is ordered by position.
  The first entry of an empty list is out of bounds. \<open>fuel\<close> bounds the depth of the recursion.
\<close>

fun solveMatchers :: "nat \<Rightarrow> (nat \<times> byte list) list \<Rightarrow> nat \<Rightarrow> matcher_spot list \<Rightarrow> matcher_spot list res" where
  "solveMatchers 0 ms n acc = Inl Spins"
| "solveMatchers (Suc fuel) ms n acc =
     bind_res (arr_get (sort_key (\<lambda>d. - int (length (snd d))) (diffCharsAtPos ms n)) 0) (\<lambda>(curIdx, chars).
       fold_res (\<lambda>curChar acc.
         let curCharMatches = filter (\<lambda>m. snd m ! curIdx = curChar) ms in
         if length curCharMatches = 1
         then Inr (acc @ [MatcherSpot curIdx curChar (int (fst (hd curCharMatches)))])
         else solveMatchers fuel (map (\<lambda>(i, s). (i, s[curIdx := 48])) curCharMatches) n
                (acc @ [MatcherSpot curIdx curChar (- int (length curCharMatches))])) chars acc)"

record matcher =
  maxKeywordSize :: nat
  spotSelector :: "nat \<rightharpoonup> matcher_spot list"
  spotSelectorMatch :: "matcher_spot list option list"
  keyword_list :: "byte list list"
  reverseMatchKeywords :: "byte list \<rightharpoonup> nat"

definition FastSubstringMatcher :: matcher where
  "FastSubstringMatcher = \<lparr>maxKeywordSize = 0, spotSelector = (\<lambda>_. None),
     spotSelectorMatch = replicate 256 None, keyword_list = [], reverseMatchKeywords = (\<lambda>_. None)\<rparr>"

text \<open>
  \<open>SetKeywords\<close>: the number of the last keyword with a given text, the sizes in the order of the
  \<open>std::map\<close>, one matcher per size, then the table that lookups use. Entries of that table for sizes
  which no keyword has are not cleared.
\<close>

fun reverse_index :: "nat \<Rightarrow> byte list list \<Rightarrow> (byte list \<rightharpoonup> nat) \<Rightarrow> (byte list \<rightharpoonup> nat)" where
  "reverse_index i [] r = r"
| "reverse_index i (k # ks) r = reverse_index (Suc i) ks (r(k \<mapsto> i))"

definition sizeMatches :: "(byte list \<rightharpoonup> nat) \<Rightarrow> byte list list \<Rightarrow> nat \<Rightarrow> (nat \<times> byte list) list" where
  "sizeMatches r ks n = map (\<lambda>k. (the (r k), k)) (filter (\<lambda>k. length k = n) ks)"

definition keySizes :: "byte list list \<Rightarrow> nat list" where
  "keySizes ks = sort (remdups (map length ks))"

definition SetKeywords :: "nat \<Rightarrow> byte list list \<Rightarrow> matcher \<Rightarrow> matcher res" where
  "SetKeywords fuel ks m =
     (let r = reverse_index 0 ks (reverseMatchKeywords m);
          m = m\<lparr>spotSelector := (\<lambda>_. None), keyword_list := ks, reverseMatchKeywords := r,
                maxKeywordSize := foldl max 1 (map length ks) + 1\<rparr>
      in bind_res (fold_res (\<lambda>n sel. bind_res (solveMatchers fuel (sizeMatches r ks n) n [])
                               (\<lambda>spots. Inr (sel @ [(n, spots)]))) (keySizes ks) []) (\<lambda>sel.
         bind_res (fold_res (\<lambda>(n, spots) tab. arr_set tab n (Some spots)) sel (spotSelectorMatch m)) (\<lambda>tab.
         Inr (m\<lparr>spotSelector := map_of sel, spotSelectorMatch := tab\<rparr>))))"

section \<open>Matching\<close>

text \<open>
  The \<open>do \<dots> while (++it != end)\<close> loop of \<open>MatchSubstring\<close>. Dereferencing an iterator at or past the
  end is a fault. The table of sizes is indexed without a check.
\<close>

function matchSpots :: "matcher_spot list \<Rightarrow> byte list \<Rightarrow> nat \<Rightarrow> nat option res" where
  "matchSpots spots text it =
     bind_res (arr_get spots it) (\<lambda>sp.
     bind_res (arr_get text (pos sp)) (\<lambda>c.
       if daChar sp = c \<and> 0 \<le> matchingStringIdx sp then Inr (Some (nat (matchingStringIdx sp)))
       else
         let it' = (if daChar sp \<noteq> c \<and> matchingStringIdx sp < 0 then it + nat (- matchingStringIdx sp) else it) + 1
         in if it' = length spots then Inr None else if it < length spots then matchSpots spots text it' else Inl OutOfBounds))"
  by pat_completeness auto
termination
  by (relation "measure (\<lambda>(spots, text, it). length spots - it)") (auto simp: Let_def split: if_splits)

declare matchSpots.simps [simp del]

definition MatchSubstring :: "matcher \<Rightarrow> byte list \<Rightarrow> nat option res" where
  "MatchSubstring m text =
     bind_res (arr_get (spotSelectorMatch m) (length text)) (\<lambda>sel.
       case sel of None \<Rightarrow> Inr None | Some spots \<Rightarrow> matchSpots spots text 0)"

text \<open>The overload that returns the keyword checks the size first.\<close>

definition MatchSubstring_text :: "matcher \<Rightarrow> byte list \<Rightarrow> byte list option res" where
  "MatchSubstring_text m text =
     (if length text \<le> maxKeywordSize m
      then bind_res (MatchSubstring m text) (\<lambda>r.
             case r of None \<Rightarrow> Inr None | Some i \<Rightarrow> bind_res (arr_get (keyword_list m) i) (\<lambda>k. Inr (Some k)))
      else Inr None)"

text \<open>The commands of the server, in the order of \<open>CacheRequestType\<close> (constructor of \<open>Server\<close>).\<close>

definition memcachedCommands :: "byte list list" where
  "memcachedCommands = map asc [''get'', ''set'', ''add'', ''delete'', ''replace'', ''cas'', ''gets'',
     ''append'', ''prepend'', ''incr'', ''deccr'', ''touch'', ''watch'', ''lru_crawler'', ''stats'', ''slabs'']"

definition server_matcher :: "matcher res" where
  "server_matcher = SetKeywords (length memcachedCommands) memcachedCommands FastSubstringMatcher"

section \<open>Building terminates\<close>

lemma fold_res_total:
  assumes "P b" and "\<And>a b. a \<in> set as \<Longrightarrow> P b \<Longrightarrow> \<exists>r. f a b = Inr r \<and> P r"
  shows "\<exists>r. fold_res f as b = Inr r \<and> P r"
  using assms
proof (induction as arbitrary: b)
  case (Cons a as)
  obtain r where "f a b = Inr r" "P r" using Cons.prems(2)[of a b] Cons.prems(1) by auto
  then show ?case using Cons.IH[of r] Cons.prems(2) by auto
qed simp

lemma uniqChars_props: "set (uniqChars cs) = set cs" "distinct (uniqChars cs)"
proof -
  have "set (foldl (\<lambda>u c. if c \<in> set u then u else u @ [c]) u cs) = set u \<union> set cs \<and>
      (distinct u \<longrightarrow> distinct (foldl (\<lambda>u c. if c \<in> set u then u else u @ [c]) u cs))" for u :: "byte list"
    by (induction cs arbitrary: u) auto
  from this[of "[]"] show "set (uniqChars cs) = set cs" "distinct (uniqChars cs)" by (simp_all add: uniqChars_def)
qed

text \<open>The chosen position has at least as many different characters as any other.\<close>

definition best :: "(nat \<times> byte list) list \<Rightarrow> nat \<Rightarrow> nat \<times> byte list" where
  "best ms n = sort_key (\<lambda>d. - int (length (snd d))) (diffCharsAtPos ms n) ! 0"

lemma best_props:
  assumes "0 < n" and "best ms n = (p, chars)"
  shows "p < n" and "chars = uniqChars (map (\<lambda>m. snd m ! p) ms)"
    and "j < n \<Longrightarrow> length (uniqChars (map (\<lambda>m. snd m ! j) ms)) \<le> length chars"
proof -
  let ?k = "\<lambda>d :: nat \<times> byte list. - int (length (snd d))" and ?D = "diffCharsAtPos ms n"
  have l: "0 < length (sort_key ?k ?D)" using assms(1) by (simp add: diffCharsAtPos_def)
  have "best ms n \<in> set ?D" unfolding best_def using nth_mem[OF l] by simp
  then show "p < n" "chars = uniqChars (map (\<lambda>m. snd m ! p) ms)" using assms(2) by (auto simp: diffCharsAtPos_def)
  assume "j < n"
  then have "(j, uniqChars (map (\<lambda>m. snd m ! j) ms)) \<in> set (sort_key ?k ?D)" by (simp add: diffCharsAtPos_def)
  then obtain i where i: "i < length (sort_key ?k ?D)" "sort_key ?k ?D ! i = (j, uniqChars (map (\<lambda>m. snd m ! j) ms))"
    unfolding in_set_conv_nth by blast
  have "?k (sort_key ?k ?D ! 0) \<le> ?k (sort_key ?k ?D ! i)"
    using sorted_nth_mono[OF sorted_sort_key[of ?k ?D], of 0 i] i(1) l nth_map[OF l, of ?k] by simp
  then show "length (uniqChars (map (\<lambda>m. snd m ! j) ms)) \<le> length chars" using i(2) assms(2) by (simp add: best_def)
qed

lemma best_splits:
  assumes n: "0 < n" and b: "best ms n = (p, chars)" and d: "distinct (map snd ms)"
    and len: "\<forall>m \<in> set ms. length (snd m) = n" and two: "2 \<le> length ms" and c: "c \<in> set chars"
  shows "length (filter (\<lambda>m. snd m ! p = c) ms) < length ms"
proof -
  let ?s = "snd (ms ! 0)" and ?t = "snd (ms ! 1)"
  have l: "0 < length ms" "1 < length ms" using two by linarith+
  then have ne: "?s \<noteq> ?t" using nth_eq_iff_index_eq[OF d, of 0 1] by simp
  have ls: "length ?s = n" "length ?t = n" using len l nth_mem[OF l(1)] nth_mem[OF l(2)] by auto
  then obtain j where j: "j < n" "?s ! j \<noteq> ?t ! j" using ne by (auto simp: list_eq_iff_nth_eq)
  let ?u = "uniqChars (map (\<lambda>m. snd m ! j) ms)"
  have "{?s ! j, ?t ! j} \<subseteq> set ?u" using nth_mem[OF l(1)] nth_mem[OF l(2)] by (auto simp: uniqChars_props simp del: nth_mem)
  then have "2 \<le> card (set ?u)" using j(2) card_mono[of "set ?u" "{?s ! j, ?t ! j}"] by simp
  then have "2 \<le> length chars" using best_props(3)[OF n b j(1)] distinct_card[of ?u] uniqChars_props(2)[of "map (\<lambda>m. snd m ! j) ms"] by simp
  then obtain c' where c': "c' \<in> set chars" "c' \<noteq> c"
    using best_props(2)[OF n b] uniqChars_props(2)[of "map (\<lambda>m. snd m ! p) ms"]
    by (metis One_nat_def card_le_Suc0_iff_eq distinct_card finite_set numeral_2_eq_2 not_less_eq_eq order_refl)
  then obtain m where "m \<in> set ms" "snd m ! p = c'" using best_props(2)[OF n b] by (auto simp: uniqChars_props)
  then show ?thesis using c'(2) by (metis (mono_tags, lifting) length_filter_less)
qed

lemma solveMatchers_total:
  assumes "ms \<noteq> []" and "length ms \<le> fuel" and "distinct (map snd ms)"
    and "\<forall>m \<in> set ms. length (snd m) = n" and n: "0 < n"
  shows "\<exists>r. solveMatchers fuel ms n acc = Inr r"
  using assms(1-4)
proof (induction fuel arbitrary: ms acc)
  case (Suc fuel)
  obtain p chars where b: "best ms n = (p, chars)" by (cases "best ms n")
  let ?group = "\<lambda>c. filter (\<lambda>m. snd m ! p = c) ms"
  have get: "arr_get (sort_key (\<lambda>d. - int (length (snd d))) (diffCharsAtPos ms n)) 0 = Inr (p, chars)"
    using b n by (simp add: best_def diffCharsAtPos_def)
  have p: "p < n" by (rule best_props(1)[OF n b])
  have "\<exists>r. solveMatchers fuel (map (\<lambda>(i, s). (i, s[p := 48])) (?group c)) n acc = Inr r"
    if c: "c \<in> set chars" and many: "length (?group c) \<noteq> 1" for c acc
  proof (rule Suc.IH)
    obtain m where "m \<in> set ms" "snd m ! p = c" using c best_props(2)[OF n b] by (auto simp: uniqChars_props)
    then have "?group c \<noteq> []" by (auto simp: filter_empty_conv)
    then show "map (\<lambda>(i, s). (i, s[p := 48])) (?group c) \<noteq> []" by simp
    have "2 \<le> length (?group c)" using \<open>?group c \<noteq> []\<close> many by (cases "length (?group c)") auto
    then have "2 \<le> length ms" using length_filter_le[of "\<lambda>m. snd m ! p = c" ms] by linarith
    then show "length (map (\<lambda>(i, s). (i, s[p := 48])) (?group c)) \<le> fuel"
      using best_splits[OF n b Suc.prems(3,4) _ c] Suc.prems(2) by simp
    have "inj_on (\<lambda>s. s[p := 48]) (snd ` set (?group c))"
    proof (rule inj_onI)
      fix s t assume "s \<in> snd ` set (?group c)" "t \<in> snd ` set (?group c)" and e: "s[p := 48] = t[p := 48]"
      then have st: "length s = n" "length t = n" "s ! p = t ! p" using Suc.prems(4) by auto
      have "s = s[p := 48, p := s ! p]" by simp
      also have "\<dots> = t[p := 48, p := t ! p]" unfolding e st(3) ..
      finally show "s = t" by simp
    qed
    moreover have "distinct (map snd (?group c))" using Suc.prems(3) by (simp add: distinct_map inj_on_def)
    ultimately have "distinct (map (\<lambda>s. s[p := 48]) (map snd (?group c)))"
      unfolding distinct_map[of "\<lambda>s. s[p := 48]"] set_map by (rule conjI[rotated])
    then show "distinct (map snd (map (\<lambda>(i, s). (i, s[p := 48])) (?group c)))" by (simp add: comp_def split_beta)
    show "\<forall>m \<in> set (map (\<lambda>(i, s). (i, s[p := 48])) (?group c)). length (snd m) = n" using Suc.prems(4) by auto
  qed
  then have "\<exists>r. fold_res (\<lambda>c acc. let cs = ?group c in
      if length cs = 1 then Inr (acc @ [MatcherSpot p c (int (fst (hd cs)))])
      else solveMatchers fuel (map (\<lambda>(i, s). (i, s[p := 48])) cs) n (acc @ [MatcherSpot p c (- int (length cs))])) chars acc = Inr r \<and> True"
    by (intro fold_res_total) (auto simp: Let_def)
  then show ?case using get by simp
qed simp

lemma SetKeywords_total:
  assumes d: "distinct ks" and k: "\<forall>k \<in> set ks. k \<noteq> [] \<and> length k < length (spotSelectorMatch m)"
    and f: "length ks \<le> fuel"
  shows "\<exists>m'. SetKeywords fuel ks m = Inr m' \<and> length (spotSelectorMatch m') = length (spotSelectorMatch m)"
proof -
  define r where "r = reverse_index 0 ks (reverseMatchKeywords m)"
  have "\<exists>spots. solveMatchers fuel (sizeMatches r ks n) n [] = Inr spots" if n: "n \<in> set (keySizes ks)" for n
  proof (rule solveMatchers_total)
    obtain k where k': "k \<in> set ks" "length k = n" using n by (auto simp: keySizes_def)
    then show "sizeMatches r ks n \<noteq> []" "0 < n" using k by (auto simp: sizeMatches_def filter_empty_conv)
    show "length (sizeMatches r ks n) \<le> fuel" using f le_trans[OF length_filter_le] by (simp add: sizeMatches_def)
    show "distinct (map snd (sizeMatches r ks n))" using d by (simp add: sizeMatches_def comp_def)
    show "\<forall>m \<in> set (sizeMatches r ks n). length (snd m) = n" by (auto simp: sizeMatches_def)
  qed
  note solved = this
  have "\<exists>sel. fold_res (\<lambda>n sel. bind_res (solveMatchers fuel (sizeMatches r ks n) n [])
      (\<lambda>spots. Inr (sel @ [(n, spots)]))) (keySizes ks) [] = Inr sel \<and> fst ` set sel \<subseteq> set (keySizes ks)"
  proof (rule fold_res_total)
    fix n and sel :: "(nat \<times> matcher_spot list) list" assume n: "n \<in> set (keySizes ks)" "fst ` set sel \<subseteq> set (keySizes ks)"
    then show "\<exists>s. bind_res (solveMatchers fuel (sizeMatches r ks n) n []) (\<lambda>spots. Inr (sel @ [(n, spots)])) = Inr s \<and>
        fst ` set s \<subseteq> set (keySizes ks)" using solved[OF n(1)] by auto
  qed simp
  then obtain sel where sel: "fold_res (\<lambda>n sel. bind_res (solveMatchers fuel (sizeMatches r ks n) n [])
      (\<lambda>spots. Inr (sel @ [(n, spots)]))) (keySizes ks) [] = Inr sel" "fst ` set sel \<subseteq> set (keySizes ks)" by blast
  have small: "n < length (spotSelectorMatch m)" if "(n, x) \<in> set sel" for n x
  proof -
    have "n \<in> set (keySizes ks)" using imageI[OF that, of fst] sel(2) by auto
    then show ?thesis using k by (auto simp: keySizes_def)
  qed
  have "\<exists>tab. fold_res (\<lambda>(n, spots) tab. arr_set tab n (Some spots)) sel (spotSelectorMatch m) = Inr tab \<and>
      length tab = length (spotSelectorMatch m)"
    by (rule fold_res_total) (auto dest: small split: prod.splits)
  then show ?thesis using sel(1) by (auto simp: SetKeywords_def Let_def r_def)
qed

section \<open>The server's commands\<close>

text \<open>A spot sequence without skips tests one position.\<close>

definition flat :: "nat \<Rightarrow> matcher_spot list \<Rightarrow> bool" where
  "flat p spots \<longleftrightarrow> (\<forall>s \<in> set spots. pos s = p \<and> 0 \<le> matchingStringIdx s)"

lemma matchSpots_flat:
  assumes "flat p spots" and "p < length t" and "it < length spots"
  shows "matchSpots spots t it =
    Inr (map_option (\<lambda>s. nat (matchingStringIdx s)) (find (\<lambda>s. daChar s = t ! p) (drop it spots)))"
  using assms(3)
proof (induction "length spots - it" arbitrary: it rule: less_induct)
  case less
  have s: "pos (spots ! it) = p" "0 \<le> matchingStringIdx (spots ! it)" using assms(1) less.prems by (auto simp: flat_def)
  have d: "drop it spots = spots ! it # drop (Suc it) spots" using less.prems by (simp add: Cons_nth_drop_Suc)
  show ?case
  proof (cases "daChar (spots ! it) = t ! p")
    case True
    then show ?thesis using s less.prems assms(2) by (subst matchSpots.simps) (simp add: d)
  next
    case False
    then have "matchSpots spots t it = (if Suc it = length spots then Inr None else matchSpots spots t (Suc it))"
      using s less.prems assms(2) by (subst matchSpots.simps) simp
    then show ?thesis using False less.hyps[of "Suc it"] less.prems by (cases "Suc it = length spots") (simp_all add: d)
  qed
qed

definition test_pos :: "nat \<Rightarrow> nat" where "test_pos n = (if n = 5 then 1 else 0)"

definition commands_of :: "nat \<Rightarrow> nat list" where
  "commands_of n = filter (\<lambda>i. length (memcachedCommands ! i) = n) [0..<16]"

definition table_spots :: "nat \<Rightarrow> matcher_spot list" where
  "table_spots n = map (\<lambda>i. \<lparr>pos = test_pos n, daChar = memcachedCommands ! i ! test_pos n, matchingStringIdx = int i\<rparr>) (commands_of n)"

definition match_table :: "matcher_spot list option list" where
  "match_table = map (\<lambda>n. if commands_of n = [] then None else Some (table_spots n)) [0..<256]"

lemma server_matcher_computed:
  "bind_res server_matcher (\<lambda>m. Inr (spotSelectorMatch m)) = Inr match_table"
  by code_simp

lemma server_matcher_built: "\<exists>m. server_matcher = Inr m"
  using server_matcher_computed unfolding bind_res_Inr_iff by blast

lemma server_matcher_table:
  assumes "server_matcher = Inr m"
  shows "length (spotSelectorMatch m) = 256"
    and "n < 256 \<Longrightarrow> spotSelectorMatch m ! n = (if commands_of n = [] then None else Some (table_spots n))"
proof -
  have m: "spotSelectorMatch m = match_table" using server_matcher_computed unfolding assms bind_res_simps by (rule Inr_inject)
  show "length (spotSelectorMatch m) = 256" unfolding m match_table_def length_map length_upt by simp
  assume "n < 256"
  then have n: "n < length [0..<256]" "[0..<256] ! n = n" unfolding length_upt by (simp_all only: diff_zero nth_upt add_0)
  show "spotSelectorMatch m ! n = (if commands_of n = [] then None else Some (table_spots n))"
    unfolding m match_table_def nth_map[OF n(1)] n(2) ..
qed

lemma commands_distinct:
  assumes "i < 16" and "j < 16" and "length (memcachedCommands ! i) = length (memcachedCommands ! j)"
    and "memcachedCommands ! i ! test_pos (length (memcachedCommands ! i)) = memcachedCommands ! j ! test_pos (length (memcachedCommands ! i))"
  shows "i = j"
proof -
  have "\<forall>i \<in> set [0..<16]. \<forall>j \<in> set [0..<16]. length (memcachedCommands ! i) = length (memcachedCommands ! j) \<longrightarrow>
     memcachedCommands ! i ! test_pos (length (memcachedCommands ! i)) = memcachedCommands ! j ! test_pos (length (memcachedCommands ! i)) \<longrightarrow> i = j"
    by code_simp
  then show ?thesis using assms by (simp del: upt_rec_numeral)
qed

lemma commands_long: "commands_of n \<noteq> [] \<Longrightarrow> test_pos n < n"
proof -
  have "commands_of 0 = []" by code_simp
  moreover assume "commands_of n \<noteq> []"
  ultimately show ?thesis by (cases n) (auto simp: test_pos_def)
qed

lemma find_map_option: "find P (map f xs) = map_option f (find (\<lambda>x. P (f x)) xs)"
  by (induction xs) simp_all

lemma server_match_find:
  assumes "server_matcher = Inr m" and "length t < 256"
  shows "MatchSubstring m t =
    Inr (find (\<lambda>i. memcachedCommands ! i ! test_pos (length t) = t ! test_pos (length t)) (commands_of (length t)))"
proof -
  let ?n = "length t"
  have tab: "length (spotSelectorMatch m) = 256"
    "spotSelectorMatch m ! ?n = (if commands_of ?n = [] then None else Some (table_spots ?n))"
    using server_matcher_table[OF assms(1)] assms(2) by simp_all
  show ?thesis
  proof (cases "commands_of ?n = []")
    case True
    then show ?thesis using tab assms(2) by (simp add: MatchSubstring_def)
  next
    case False
    have "flat (test_pos ?n) (table_spots ?n)" by (auto simp: flat_def table_spots_def)
    moreover have "0 < length (table_spots ?n)" using False by (simp add: table_spots_def)
    ultimately have "matchSpots (table_spots ?n) t 0 =
        Inr (map_option (\<lambda>s. nat (matchingStringIdx s)) (find (\<lambda>s. daChar s = t ! test_pos ?n) (table_spots ?n)))"
      using matchSpots_flat[OF _ commands_long[OF False], of "table_spots ?n" 0] by simp
    also have "find (\<lambda>s. daChar s = t ! test_pos ?n) (table_spots ?n) =
        map_option (\<lambda>i. \<lparr>pos = test_pos ?n, daChar = memcachedCommands ! i ! test_pos ?n, matchingStringIdx = int i\<rparr>)
          (find (\<lambda>i. memcachedCommands ! i ! test_pos ?n = t ! test_pos ?n) (commands_of ?n))"
      unfolding table_spots_def find_map_option by simp
    finally show ?thesis using tab False assms(2) by (simp add: MatchSubstring_def option.map_comp comp_def option.map_ident)
  qed
qed

lemma find_command:
  "find (\<lambda>i. memcachedCommands ! i ! test_pos (length t) = t ! test_pos (length t)) (commands_of (length t)) = Some i \<longleftrightarrow>
    i < 16 \<and> length (memcachedCommands ! i) = length t \<and>
    memcachedCommands ! i ! test_pos (length t) = t ! test_pos (length t)" (is "find ?P _ = _ \<longleftrightarrow> ?R")
proof
  assume "find ?P (commands_of (length t)) = Some i"
  then have "i \<in> set (commands_of (length t))" "?P i" by (auto simp: find_Some_iff)
  then show "?R" by (auto simp: commands_of_def)
next
  assume R: "?R"
  then have "i \<in> set (commands_of (length t))" by (auto simp: commands_of_def)
  then obtain j where j: "find ?P (commands_of (length t)) = Some j"
    using R by (cases "find ?P (commands_of (length t))") (auto simp: find_None_iff)
  then have "j \<in> set (commands_of (length t))" "?P j" by (auto simp: find_Some_iff)
  then have "j = i" using commands_distinct[of j i] R by (simp add: commands_of_def)
  then show "find ?P (commands_of (length t)) = Some i" using j by simp
qed

lemma server_match_command:
  assumes "server_matcher = Inr m" and "i < 16"
  shows "MatchSubstring m (memcachedCommands ! i) = Inr (Some i)"
proof -
  have "length (memcachedCommands ! i) < 256"
    using assms(2) nth_mem[of i memcachedCommands] by (fastforce simp: memcachedCommands_def asc_def)
  then show ?thesis using server_match_find[OF assms(1)] find_command[of "memcachedCommands ! i" i] assms(2) by simp
qed

section \<open>Properties\<close>

text \<open>
  C27: the server recognises each of its sixteen commands as its own request type, and a text of another
  length is none. But only one character decides: a text of up to 255 bytes is taken for the command of
  its length that has the same character in the first position (in the second one for length 5), so
  \<open>sat\<close> is \<open>set\<close>. A longer text reads the table of sizes past its end.
\<close>

theorem server_command_recognition:
  assumes "server_matcher = Inr m"
  shows "(\<forall>i < 16. MatchSubstring m (memcachedCommands ! i) = Inr (Some i)) \<and>
    (length t < 256 \<longrightarrow>
      (\<exists>r. MatchSubstring m t = Inr r \<and>
        (\<forall>i. r = Some i \<longleftrightarrow> i < 16 \<and> length (memcachedCommands ! i) = length t \<and>
           memcachedCommands ! i ! test_pos (length t) = t ! test_pos (length t)))) \<and>
    (256 \<le> length t \<longrightarrow> MatchSubstring m t = Inl OutOfBounds)"
proof -
  have "MatchSubstring m t = Inl OutOfBounds" if "256 \<le> length t"
    using that server_matcher_table(1)[OF assms] by (simp add: MatchSubstring_def)
  then show ?thesis using server_match_command[OF assms] server_match_find[OF assms, of t] find_command[of t] by auto
qed

theorem server_command_recognition_witness:
  "\<exists>m. server_matcher = Inr m \<and> MatchSubstring m (asc ''get'') = Inr (Some 0) \<and>
     MatchSubstring m (asc ''sat'') = Inr (Some 1) \<and> MatchSubstring m (replicate 300 65) = Inl OutOfBounds"
proof -
  obtain m where m: "server_matcher = Inr m" using server_matcher_built by blast
  have c: "memcachedCommands ! 0 = asc ''get''" "memcachedCommands ! 1 = asc ''set''" by (simp_all add: memcachedCommands_def)
  have "memcachedCommands ! 1 ! test_pos 3 = asc ''sat'' ! test_pos 3" "length (asc ''sat'') = 3"
    "length (memcachedCommands ! 1) = 3" unfolding c by (simp_all add: test_pos_def asc_def)
  then have "MatchSubstring m (asc ''sat'') = Inr (Some 1)" using server_command_recognition[OF m, of "asc ''sat''"] by auto
  moreover have "MatchSubstring m (asc ''get'') = Inr (Some 0)"
    using server_command_recognition[OF m, of "[]"] c(1) by (metis zero_less_numeral)
  moreover have "MatchSubstring m (replicate 300 65) = Inl OutOfBounds"
    using server_command_recognition[OF m, of "replicate 300 65"] unfolding length_replicate by simp
  ultimately show ?thesis using m by blast
qed

text \<open>
  Building the matcher ends for every list of different non-empty keywords of up to 255 bytes: the
  recursion is never deeper than the number of keywords, since every step splits its keywords at a
  position where two of them differ.
\<close>

theorem matcher_construction_ends:
  assumes "distinct ks" and "\<forall>k \<in> set ks. k \<noteq> [] \<and> length k < 256" and "length ks \<le> fuel"
  shows "\<exists>m. SetKeywords fuel ks FastSubstringMatcher = Inr m \<and> length (spotSelectorMatch m) = 256"
  using SetKeywords_total[of ks FastSubstringMatcher fuel] assms by (simp add: FastSubstringMatcher_def)

theorem matcher_construction_ends_witness:
  "distinct (map asc [''incr'', ''decr'']) \<and> (\<exists>m. SetKeywords 2 (map asc [''incr'', ''decr'']) FastSubstringMatcher = Inr m)"
  using matcher_construction_ends[of "map asc [''incr'', ''decr'']" 2] by (auto simp: asc_def)

text \<open>
  The skip counts keywords, not spots, so a group of keywords that has to be split twice sends
  later lookups into its middle: with all eight words over \<open>a\<close> and \<open>b\<close> of length three, the keyword
  \<open>baa\<close> is recognised as \<open>aba\<close>.
\<close>

definition abWords :: "byte list list" where
  "abWords = map asc [''aaa'', ''aab'', ''aba'', ''abb'', ''baa'', ''bab'', ''bba'', ''bbb'']"

theorem matcher_skips_too_little:
  "\<exists>m. SetKeywords 8 abWords FastSubstringMatcher = Inr m \<and>
     MatchSubstring m (abWords ! 4) = Inr (Some 2) \<and> MatchSubstring m (abWords ! 3) = Inr (Some 3)"
proof -
  have "bind_res (SetKeywords 8 abWords FastSubstringMatcher)
      (\<lambda>m. Inr (MatchSubstring m (abWords ! 4), MatchSubstring m (abWords ! 3))) = Inr (Inr (Some 2), Inr (Some 3))"
    by code_simp
  then show ?thesis unfolding bind_res_Inr_iff by blast
qed

end
