(* ===== verification/Matcher_Copy.thy ===== *)
theory Matcher_Copy
  imports Keyword_Matcher
begin

text \<open>
  Copying the command recogniser, \<open>src/src/FastSubstringMatcher.{h,cpp}\<close>, and the comparison by which it
  sorts the positions of a text. The object has pointers: \<open>spotSelector\<close> owns the vectors of spots and
  the table \<open>spotSelectorMatch\<close> that lookups use points to them. \<open>Keyword_Matcher\<close> has the vectors
  in place of the pointers; \<open>denotes\<close> relates the two.
\<close>

section \<open>The comparison of positions\<close>

definition varianceGreaterThan :: "nat \<times> byte list \<Rightarrow> nat \<times> byte list \<Rightarrow> bool" where
  "varianceGreaterThan lhs rhs \<longleftrightarrow>
     (if length (snd lhs) = length (snd rhs) then fst lhs < fst rhs else length (snd rhs) < length (snd lhs))"

lemma sorted_wrt_filter_iff: "sorted_wrt P (filter Q xs) \<longleftrightarrow> sorted_wrt (\<lambda>x y. Q x \<and> Q y \<longrightarrow> P x y) xs"
  by (induction xs) auto

text \<open>The sort of \<open>solveMatchers\<close> yields the list that is ordered by \<open>varianceGreaterThan\<close>.\<close>

lemma positions_sorted: "sorted_wrt varianceGreaterThan (sort_key (\<lambda>d. - int (length (snd d))) (diffCharsAtPos ms n))"
proof -
  let ?k = "\<lambda>d :: nat \<times> byte list. - int (length (snd d))" and ?D = "diffCharsAtPos ms n"
  have "sorted_wrt (\<lambda>x y. fst x < fst y) ?D"
    by (simp add: diffCharsAtPos_def sorted_wrt_map)
  then have "sorted_wrt (\<lambda>x y. fst x < fst y) (filter (\<lambda>d. ?k d = c) (sort_key ?k ?D))" for c
    unfolding sort_key_stable by (rule sorted_wrt_filter)
  then have eq: "sorted_wrt (\<lambda>x y. ?k x = c \<and> ?k y = c \<longrightarrow> fst x < fst y) (sort_key ?k ?D)" for c
    unfolding sorted_wrt_filter_iff .
  have "sorted_wrt (\<lambda>x y. ?k x \<le> ?k y) (sort_key ?k ?D)"
    using sorted_sort_key[of ?k ?D] by (simp add: sorted_wrt_map)
  then show ?thesis using eq unfolding sorted_wrt_iff_nth_less varianceGreaterThan_def by fastforce
qed

section \<open>Objects with pointers\<close>

text \<open>
  \<open>live\<close> maps the addresses of the vectors in use to their contents. Null pointers of the table are
  \<open>None\<close>. The addresses that \<open>new\<close> returns are a parameter.
\<close>

type_synonym vectors = "nat \<rightharpoonup> matcher_spot list"

record matcher_object =
  ob_maxKeywordSize :: nat
  ob_spotSelector :: "(nat \<times> nat) list"
  ob_spotSelectorMatch :: "nat option list"
  ob_keywords :: "byte list list"
  ob_reverseMatchKeywords :: "byte list \<rightharpoonup> nat"

definition load_entry :: "vectors \<Rightarrow> nat option \<Rightarrow> matcher_spot list option res" where
  "load_entry live p =
     (case p of None \<Rightarrow> Inr None | Some a \<Rightarrow> (case live a of None \<Rightarrow> Inl OutOfBounds | Some spots \<Rightarrow> Inr (Some spots)))"

definition object_match :: "vectors \<Rightarrow> matcher_object \<Rightarrow> byte list \<Rightarrow> nat option res" where
  "object_match live ob text =
     bind_res (arr_get (ob_spotSelectorMatch ob) (length text)) (\<lambda>p.
     bind_res (load_entry live p) (\<lambda>sel.
       case sel of None \<Rightarrow> Inr None | Some spots \<Rightarrow> matchSpots spots text 0))"

text \<open>The loop that copies the vectors of \<open>other\<close>, and the one that deletes those of an object.\<close>

fun copy_vectors :: "nat list \<Rightarrow> (nat \<times> nat) list \<Rightarrow> vectors \<Rightarrow> ((nat \<times> nat) list \<times> vectors) res" where
  "copy_vectors new [] live = Inr ([], live)"
| "copy_vectors [] ((n, a) # sel) live = Inl Aborted"
| "copy_vectors (b # new) ((n, a) # sel) live =
     (case live a of
        None \<Rightarrow> Inl OutOfBounds
      | Some spots \<Rightarrow> bind_res (copy_vectors new sel (live(b \<mapsto> spots))) (\<lambda>(sel', live). Inr ((n, b) # sel', live)))"

definition delete_vectors :: "matcher_object \<Rightarrow> vectors \<Rightarrow> vectors" where
  "delete_vectors ob live = foldl (\<lambda>live (n, a). live(a := None)) live (ob_spotSelector ob)"

text \<open>
  The copy constructor leaves \<open>spotSelectorMatch\<close> as the memory was; \<open>junk\<close> is what it holds. The
  assignment keeps \<open>spotSelectorMatch\<close> and \<open>maxKeywordSize\<close>, also when it assigns an object to itself.
\<close>

definition copy_matcher ::
    "nat option list \<Rightarrow> nat list \<Rightarrow> matcher_object \<Rightarrow> vectors \<Rightarrow> (matcher_object \<times> vectors) res" where
  "copy_matcher junk new other live =
     bind_res (copy_vectors new (ob_spotSelector other) live) (\<lambda>(sel, live).
     Inr (\<lparr>ob_maxKeywordSize = ob_maxKeywordSize other, ob_spotSelector = sel, ob_spotSelectorMatch = junk,
           ob_keywords = ob_keywords other, ob_reverseMatchKeywords = ob_reverseMatchKeywords other\<rparr>, live))"

definition assign_matcher ::
    "nat list \<Rightarrow> matcher_object \<Rightarrow> matcher_object \<Rightarrow> vectors \<Rightarrow> (matcher_object \<times> vectors) res" where
  "assign_matcher new other this live =
     bind_res (copy_vectors new (ob_spotSelector other) (delete_vectors this live)) (\<lambda>(sel, live).
     Inr (this\<lparr>ob_spotSelector := sel, ob_keywords := ob_keywords other,
               ob_reverseMatchKeywords := ob_reverseMatchKeywords other\<rparr>, live))"

definition assign_to_itself :: "matcher_object \<Rightarrow> vectors \<Rightarrow> matcher_object \<times> vectors" where
  "assign_to_itself this live = (this\<lparr>ob_spotSelector := []\<rparr>, delete_vectors this live)"

section \<open>Lookups through pointers\<close>

definition denotes :: "vectors \<Rightarrow> matcher_object \<Rightarrow> matcher \<Rightarrow> bool" where
  "denotes live ob m \<longleftrightarrow> ob_maxKeywordSize ob = maxKeywordSize m \<and> ob_keywords ob = keyword_list m \<and>
     ob_reverseMatchKeywords ob = reverseMatchKeywords m \<and>
     (\<forall>n. map_option live (map_of (ob_spotSelector ob) n) = map_option Some (spotSelector m n)) \<and>
     map (load_entry live) (ob_spotSelectorMatch ob) = map Inr (spotSelectorMatch m)"

lemma object_match_refines:
  assumes "denotes live ob m"
  shows "object_match live ob t = MatchSubstring m t"
proof -
  let ?n = "length t"
  have tab: "map (load_entry live) (ob_spotSelectorMatch ob) = map Inr (spotSelectorMatch m)"
    using assms by (simp add: denotes_def)
  then have len: "length (ob_spotSelectorMatch ob) = length (spotSelectorMatch m)" by (metis length_map)
  show ?thesis
  proof (cases "?n < length (spotSelectorMatch m)")
    case True
    then have "load_entry live (ob_spotSelectorMatch ob ! ?n) = Inr (spotSelectorMatch m ! ?n)"
      using tab len by (metis nth_map)
    then show ?thesis using True len by (simp add: object_match_def MatchSubstring_def)
  qed (simp add: object_match_def MatchSubstring_def len)
qed

section \<open>What copies are worth\<close>

text \<open>Copying succeeds when the vectors of the source live, and yields new vectors with their contents.\<close>

lemma copy_vectors_ok:
  assumes "length sel \<le> length new" and "\<forall>(n, a) \<in> set sel. live a \<noteq> None" and "set new \<inter> snd ` set sel = {}"
    and "distinct new"
  shows "\<exists>sel' live'. copy_vectors new sel live = Inr (sel', live') \<and> map fst sel' = map fst sel \<and>
    map (live' \<circ> snd) sel' = map (live \<circ> snd) sel \<and> (\<forall>a. a \<notin> set new \<longrightarrow> live' a = live a) \<and>
    (\<forall>a. live a \<noteq> None \<longrightarrow> live' a \<noteq> None)"
  using assms
proof (induction new sel live rule: copy_vectors.induct)
  case (3 b new n a sel live)
  obtain spots where s: "live a = Some spots" using 3(3) by auto
  let ?live = "live(b \<mapsto> spots)"
  have m: "map (?live \<circ> snd) sel = map (live \<circ> snd) sel"
  proof (rule map_cong)
    fix x assume "x \<in> set sel"
    then have "snd x \<noteq> b" using 3(4) by auto
    then show "(?live \<circ> snd) x = (live \<circ> snd) x" by simp
  qed simp
  have l: "\<forall>(n, a) \<in> set sel. ?live a \<noteq> None" using 3(3) by auto
  have h: "length sel \<le> length new" "set new \<inter> snd ` set sel = {}" "distinct new" using 3(2,4,5) by auto
  note ih = 3(1)[OF s h(1) l h(2,3)]
  obtain sel' live' where c: "copy_vectors new sel ?live = Inr (sel', live')" "map fst sel' = map fst sel"
      "map (live' \<circ> snd) sel' = map (?live \<circ> snd) sel" "\<forall>a. a \<notin> set new \<longrightarrow> live' a = ?live a"
      "\<forall>a. ?live a \<noteq> None \<longrightarrow> live' a \<noteq> None"
    using ih by blast
  have "live' b = Some spots" using c(4) 3(5) by simp
  then show ?case using s c m by (auto simp: comp_def split: if_splits)
qed auto

lemma delete_vectors_gone: "(n, a) \<in> set (ob_spotSelector ob) \<Longrightarrow> delete_vectors ob live a = None"
proof -
  have gone: "live a = None \<Longrightarrow> foldl (\<lambda>live (n, a). live(a := None)) live sel a = None" for live :: vectors and sel :: "(nat \<times> nat) list"
    by (induction sel arbitrary: live) (auto split: prod.splits)
  have "(n, a) \<in> set sel \<Longrightarrow> foldl (\<lambda>live (n, a). live(a := None)) live sel a = None" for sel
    by (induction sel arbitrary: live) (auto intro: gone)
  then show "(n, a) \<in> set (ob_spotSelector ob) \<Longrightarrow> delete_vectors ob live a = None" by (simp add: delete_vectors_def)
qed

text \<open>
  The vectors of a copy are right, but no lookup uses them: a copy in zeroed memory finds no word,
  and one in other memory follows the pointers that happen to be there.
\<close>

lemma copied_matcher_lookup:
  assumes "copy_matcher junk new other live = Inr (ob, live')" and "length t < length junk"
  shows "object_match live' ob t =
    (case junk ! length t of
       None \<Rightarrow> Inr None
     | Some a \<Rightarrow> (case live' a of None \<Rightarrow> Inl OutOfBounds | Some spots \<Rightarrow> matchSpots spots t 0))"
proof -
  have "ob_spotSelectorMatch ob = junk"
    using assms(1) by (auto simp: copy_matcher_def bind_res_Inr_iff split: prod.splits)
  then show ?thesis using assms(2) by (auto simp: object_match_def load_entry_def split: option.splits)
qed

text \<open>
  After an assignment the table still has the pointers to the vectors that the assignment has deleted:
  the next lookup of a word with the length of an old keyword reads freed memory, unless \<open>new\<close> has
  returned the same address again.
\<close>

lemma assigned_matcher_lookup:
  assumes a: "assign_matcher new other this live = Inr (ob, live')"
    and c: "length (ob_spotSelector other) \<le> length new" "\<forall>(n, a) \<in> set (ob_spotSelector other). delete_vectors this live a \<noteq> None"
      "set new \<inter> snd ` set (ob_spotSelector other) = {}" "distinct new"
    and t: "length t < length (ob_spotSelectorMatch this)" "ob_spotSelectorMatch this ! length t = Some p"
      "(length t, p) \<in> set (ob_spotSelector this)" "p \<notin> set new"
  shows "object_match live' ob t = Inl OutOfBounds"
proof -
  have "live' p = delete_vectors this live p" "ob_spotSelectorMatch ob = ob_spotSelectorMatch this"
    using a copy_vectors_ok[OF c] t(4) by (auto simp: assign_matcher_def)
  then show ?thesis using t(1,2) delete_vectors_gone[OF t(3)] by (simp add: object_match_def load_entry_def)
qed

lemma self_assigned_matcher_lookup:
  assumes "length t < length (ob_spotSelectorMatch this)" "ob_spotSelectorMatch this ! length t = Some p"
    "(length t, p) \<in> set (ob_spotSelector this)" and "assign_to_itself this live = (ob, live')"
  shows "object_match live' ob t = Inl OutOfBounds"
  using assms delete_vectors_gone[OF assms(3)] by (auto simp: assign_to_itself_def object_match_def load_entry_def)

end
