(* ===== verification/Server_Common.thy ===== *)
theory Server_Common
  imports SSO_String
begin

text \<open>
  The helpers of \<open>src/src/Common.cpp\<close>: decimal numbers to and from text, the bounded substring
  search, and the record of a parsed request. Texts are byte lists; a pair of pointers \<open>beg\<close>,
  \<open>end\<close> is the list between them.
\<close>

section \<open>Text to number\<close>

text \<open>
  The \<open>switch\<close> with fall-through: each case adds one digit times its weight, from the most
  significant one on. A \<open>char\<close> is signed. The length is the difference of the two pointers cut to a
  signed \<open>int\<close>; the case that matches it reads that many characters, and a length without a case
  leaves the value 0.
\<close>

definition int_len :: "byte list \<Rightarrow> int" where
  "int_len s = sint (of_nat (length s) :: 32 word)"

definition switch_text :: "nat \<Rightarrow> byte list \<Rightarrow> byte list" where
  "switch_text n s = (if 1 \<le> int_len s \<and> int_len s \<le> int n then take (nat (int_len s)) s else [])"

text \<open>The unsigned sum wraps.\<close>

fun fall_through :: "byte list \<Rightarrow> 'w::len word \<Rightarrow> 'w word" where
  "fall_through [] v = v"
| "fall_through (c # cs) v = fall_through cs (v + (scast c - 48) * 10 ^ length cs)"

text \<open>
  The sum of a signed \<open>int\<close> must not overflow, in the product of a digit with its weight and in the
  addition: the behaviour is undefined then, a fault here.
\<close>

definition int32 :: "int \<Rightarrow> int res" where
  "int32 x = (if - (2 ^ 31) \<le> x \<and> x < 2 ^ 31 then Inr x else Inl IntOverflow)"

fun fall_int :: "byte list \<Rightarrow> int \<Rightarrow> int res" where
  "fall_int [] v = Inr v"
| "fall_int (c # cs) v =
     bind_res (int32 ((sint c - 48) * 10 ^ length cs)) (\<lambda>p. bind_res (int32 (v + p)) (fall_int cs))"

text \<open>
  \<open>atous\<close> sums in \<open>int\<close> too, but five characters are at most 176 * 11111 from 0: nothing can overflow
  and its sum is taken in 32 bits.
\<close>

definition atous :: "byte list \<Rightarrow> 16 word" where
  "atous s = ucast (fall_through (switch_text 5 s) 0 :: 32 word)"

definition atoui :: "byte list \<Rightarrow> 32 word res" where
  "atoui s = bind_res (fall_int (switch_text 10 s) 0) (\<lambda>v. Inr (of_int v))"

definition atoull :: "byte list \<Rightarrow> 64 word" where
  "atoull s = fall_through (switch_text 20 s) 0"

lemma switch_text_short:
  assumes "length s < 2 ^ 31"
  shows "switch_text n s = (if length s \<le> n then s else [])"
proof -
  have "int_len s = int (length s)"
    using assms by (simp add: int_len_def signed_of_nat signed_take_bit_int_eq_self)
  then show ?thesis by (cases s) (auto simp: switch_text_def)
qed

section \<open>Number to text\<close>

text \<open>\<open>itoa\<close>: digits from the least significant one on, a space behind them, then reversed in place.\<close>

definition dig :: "nat \<Rightarrow> byte" where "dig d = of_nat (48 + d)"

function itoa_digits :: "nat \<Rightarrow> nat \<Rightarrow> byte list \<Rightarrow> (nat \<times> byte list) res" where
  "itoa_digits v n str =
     bind_res (arr_set str n (dig (v mod 10))) (\<lambda>str'.
     if v div 10 \<noteq> 0 then itoa_digits (v div 10) (n + 1) str' else Inr (n + 1, str'))"
  by pat_completeness auto
termination
  by (relation "measure (\<lambda>(v, n, str). v)") auto

fun itoa_swap :: "nat \<Rightarrow> nat \<Rightarrow> nat \<Rightarrow> byte list \<Rightarrow> byte list" where
  "itoa_swap n i 0 str = str"
| "itoa_swap n i (Suc m) str = itoa_swap n (i + 1) m (str[i := str ! (n - 1 - i), n - 1 - i := str ! i])"

definition itoa :: "nat \<Rightarrow> byte list \<Rightarrow> (byte list \<times> nat) res" where
  "itoa v str =
     bind_res (itoa_digits v 0 str) (\<lambda>(n, str1).
     bind_res (arr_set str1 n 32) (\<lambda>str2. Inr (itoa_swap n 0 (n div 2) str2, n)))"

section \<open>Bounded search\<close>

text \<open>
  \<open>strncmp\<close> stops at a NUL of the needle; The bound \<open>(int)(len - needle_len)\<close> is the difference of two
  \<open>size_t\<close> cut to a signed \<open>int\<close>: negative when the needle is longer than the text, so that the loop
  body never runs then. The result is the offset of the match.
\<close>

definition strncmp_eq :: "byte list \<Rightarrow> byte list \<Rightarrow> nat \<Rightarrow> bool" where
  "strncmp_eq a b n \<longleftrightarrow> c_string (take n a) = c_string (take n b)"

fun strnstr_loop :: "byte list \<Rightarrow> byte list \<Rightarrow> nat \<Rightarrow> nat \<Rightarrow> nat option" where
  "strnstr_loop haystack needle i 0 = None"
| "strnstr_loop haystack needle i (Suc m) =
     (if strncmp_eq (drop i haystack) needle (length needle) then Some i
      else strnstr_loop haystack needle (i + 1) m)"

definition strnstr :: "byte list \<Rightarrow> byte list \<Rightarrow> nat \<Rightarrow> nat option" where
  "strnstr haystack needle len =
     (if needle = [] then Some 0
      else strnstr_loop haystack needle 0
             (nat (sint (ucast (of_nat len - of_nat (length needle) :: 64 word) :: 32 word) + 1)))"

section \<open>Socket options\<close>

text \<open>
  \<open>fcntl\<close> with \<open>F_GETFL\<close> and \<open>F_SETFL\<close> and \<open>setsockopt\<close> with \<open>TCP_NODELAY\<close> on the socket are functions
  on the state of the operating system that return the result of the call.
\<close>

definition O_NONBLOCK :: int where "O_NONBLOCK = 2048"

definition makeSocketNonBlocking :: "('n \<Rightarrow> int \<times> 'n) \<Rightarrow> (int \<Rightarrow> 'n \<Rightarrow> int \<times> 'n) \<Rightarrow> bool \<Rightarrow> 'n \<Rightarrow> int \<times> 'n" where
  "makeSocketNonBlocking getfl setfl b net =
     (case getfl net of (flags, net) \<Rightarrow>
        if flags = - 1 then (- 1, net)
        else case setfl (if b then flags OR O_NONBLOCK else flags AND NOT O_NONBLOCK) net of (status, net) \<Rightarrow>
               if status = - 1 then (- 1, net) else (0, net))"

definition makeSocketTcpNoDelay :: "('n \<Rightarrow> int \<times> 'n) \<Rightarrow> 'n \<Rightarrow> int \<times> 'n" where
  "makeSocketTcpNoDelay nodelay net = (case nodelay net of (r, net) \<Rightarrow> if r = - 1 then (- 1, net) else (0, net))"

text \<open>
  When the calls succeed and \<open>F_SETFL\<close> stores the flags that \<open>F_GETFL\<close> returns, exactly the bit
  \<open>O_NONBLOCK\<close> changes.
\<close>

lemma non_blocking_bit:
  assumes "getfl net = (flags, net)" and "flags \<noteq> - 1" and set: "\<And>f n. setfl f n = (0, put f n)"
  shows "\<exists>flags'. makeSocketNonBlocking getfl setfl b net = (0, put flags' net) \<and>
    (\<forall>i. bit flags' i \<longleftrightarrow> (if i = 11 then b else bit flags i))"
proof -
  have o: "O_NONBLOCK = push_bit 11 1" by (simp add: O_NONBLOCK_def push_bit_eq_mult)
  let ?f = "if b then flags OR push_bit 11 1 else flags AND NOT (push_bit 11 1)"
  have "makeSocketNonBlocking getfl setfl b net = (0, put ?f net)"
    using assms(1,2) by (simp only: makeSocketNonBlocking_def o set prod.case if_False) simp
  moreover have "bit ?f i \<longleftrightarrow> (if i = 11 then b else bit flags i)" for i
    by (auto simp only: bit_simps possible_bit_int split: if_splits)
  ultimately show ?thesis by blast
qed

section \<open>The request record\<close>

datatype CacheRequestType =
    GET | SET | ADD | DELETE | REPLACE | CAS | GETS | APPEND | PREPEND | INCR | DECR | TOUCH
  | WATCH | LRU_CRAWLER | STATS | SLABS | STAT | UNSUPPORTED | TYPE_MAX

datatype RequestParsingState = READY_STATE | PARSING_HEADER | PARSING_DATA | DONE_STATE

text \<open>
  \<open>requestFlags\<close> holds the bits \<open>NOREPLY\<close>, \<open>FREE_KEY\<close> and \<open>FREE_DATA\<close>. A pointer into the session's input
  buffer is its offset there, a null pointer is \<open>None\<close>.
\<close>

record request_info =
  state :: RequestParsingState
  requestType :: CacheRequestType
  requestFlags :: nat
  pKeyBuffer :: "nat option"
  keyBufferLen :: "16 word"
  flags :: "16 word"
  expTime :: "32 word"
  reqCasTicket :: "64 word"
  pDataBuffer :: "nat option"
  dataLen :: nat
  getKeysList :: "(nat \<times> 16 word) list option"

definition RequestInfo :: request_info where
  "RequestInfo = \<lparr>state = READY_STATE, requestType = TYPE_MAX, requestFlags = 0, pKeyBuffer = None,
     keyBufferLen = 0, flags = 0, expTime = 0, reqCasTicket = 0, pDataBuffer = None, dataLen = 0,
     getKeysList = None\<rparr>"

definition reset :: "request_info \<Rightarrow> request_info" where
  "reset r = r\<lparr>state := READY_STATE, requestType := TYPE_MAX, requestFlags := 0, pKeyBuffer := None,
     keyBufferLen := 0, flags := 0, expTime := 0, reqCasTicket := 0, pDataBuffer := None, dataLen := 0,
     getKeysList := None\<rparr>"

lemma reset_initial: "reset r = RequestInfo" by (simp add: reset_def RequestInfo_def)

section \<open>Decimal texts\<close>

text \<open>The value of a text of digits, and the digits of a number.\<close>

definition digits :: "byte list \<Rightarrow> bool" where
  "digits s \<longleftrightarrow> (\<forall>c \<in> set s. 48 \<le> c \<and> c \<le> 57)"

fun dec_value :: "byte list \<Rightarrow> nat \<Rightarrow> nat" where
  "dec_value [] v = v"
| "dec_value (c # cs) v = dec_value cs (10 * v + (unat c - 48))"

function decimal :: "nat \<Rightarrow> byte list" where
  "decimal v = (if v < 10 then [dig v] else decimal (v div 10) @ [dig (v mod 10)])"
  by pat_completeness auto
termination
  by (relation "measure id") auto

declare decimal.simps [simp del] itoa_digits.simps [simp del]

lemma dec_value_scale: "dec_value s (a + b) = dec_value s a + b * 10 ^ length s"
proof (induction s arbitrary: a b)
  case (Cons c cs)
  have "dec_value cs (10 * (a + b) + (unat c - 48)) = dec_value cs ((10 * a + (unat c - 48)) + 10 * b)"
    by (simp add: algebra_simps)
  also have "\<dots> = dec_value cs (10 * a + (unat c - 48)) + 10 * b * 10 ^ length cs" by (rule Cons)
  finally show ?case by (simp add: algebra_simps)
qed simp

lemma digit_sint:
  assumes "48 \<le> c" and "c \<le> 57"
  shows "sint (c :: byte) - 48 = int (unat c - 48)"
proof -
  have u: "unat c < 128" "48 \<le> unat c" using assms by (simp_all add: word_le_nat_alt)
  have "uint c = int (unat c)" by simp
  then have i: "uint c < 128" "0 \<le> uint c" using u(1) by linarith+
  have "sint c = signed_take_bit 7 (uint c)" by (simp add: sint_uint)
  also have "\<dots> = uint c" using i by (intro signed_take_bit_int_eq_self) (auto intro: order_trans[of _ 0])
  finally show ?thesis using u by (simp add: of_nat_diff)
qed

lemma digit_scast:
  assumes "48 \<le> c" and "c \<le> 57"
  shows "(scast (c :: byte) - 48 :: 'w::len word) = of_nat (unat c - 48)"
proof -
  have "(scast c - 48 :: 'w word) = of_int (sint c - 48)" by (simp only: scast_eq of_int_diff of_int_numeral)
  then show ?thesis by (simp only: digit_sint[OF assms] of_int_of_nat_eq)
qed

lemma fall_through_value:
  assumes "digits s"
  shows "fall_through s (of_nat v * 10 ^ length s :: 'w::len word) = of_nat (dec_value s v)"
  using assms
proof (induction s arbitrary: v)
  case (Cons c cs)
  have c: "(scast c - 48 :: 'w word) = of_nat (unat c - 48)"
    using Cons.prems by (intro digit_scast) (simp_all add: digits_def)
  have "of_nat v * 10 ^ length (c # cs) + (scast c - 48 :: 'w word) * 10 ^ length cs =
      of_nat (10 * v + (unat c - 48)) * 10 ^ length cs"
    unfolding c by (simp add: algebra_simps)
  then show ?case using Cons.IH[of "10 * v + (unat c - 48)"] Cons.prems by (simp add: digits_def)
qed simp

lemma fall_through_dec:
  "digits s \<Longrightarrow> fall_through s (0 :: 'w::len word) = of_nat (dec_value s 0)"
  using fall_through_value[of s 0, where 'w = 'w] by simp

text \<open>The signed sum of digits grows, so it overflows exactly when its final value does.\<close>

lemma fall_int_dec:
  assumes "digits s" and "v < 2 ^ 31"
  shows "fall_int s (int v) =
    (if v + dec_value s 0 < 2 ^ 31 then Inr (int (v + dec_value s 0)) else Inl IntOverflow)"
  using assms
proof (induction s arbitrary: v)
  case (Cons c cs)
  let ?p = "(unat c - 48) * 10 ^ length cs"
  have c: "sint c - 48 = int (unat c - 48)" using Cons.prems by (intro digit_sint) (simp_all add: digits_def)
  have d: "dec_value (c # cs) 0 = ?p + dec_value cs 0" using dec_value_scale[of cs 0 "unat c - 48"] by simp
  have p: "(sint c - 48) * 10 ^ length cs = int ?p" unfolding c by simp
  have cs: "digits cs" using Cons.prems by (simp add: digits_def)
  have r: "int32 (int n) = (if n < 2 ^ 31 then Inr (int n) else Inl IntOverflow)" for n by (simp add: int32_def)
  show ?case
  proof (cases "v + ?p < 2 ^ 31")
    case True
    have "int32 (int ?p) = Inr (int ?p)" "int32 (int v + int ?p) = Inr (int (v + ?p))"
      using True r[of ?p] r[of "v + ?p"] by (simp_all del: of_nat_mult)
    then have "fall_int (c # cs) (int v) = fall_int cs (int (v + ?p))" unfolding fall_int.simps p by simp
    then show ?thesis using Cons.IH[OF cs True] unfolding d by (simp add: add.assoc)
  next
    case False
    have "fall_int (c # cs) (int v) = Inl IntOverflow"
      unfolding fall_int.simps p r using False r[of "v + ?p"] by (simp del: of_nat_mult)
    then show ?thesis using False unfolding d by simp
  qed
qed simp

section \<open>itoa writes the decimal digits\<close>

lemma dec_value_snoc: "dec_value (s @ [c]) v = 10 * dec_value s v + (unat c - 48)"
  by (induction s arbitrary: v) simp_all

lemma unat_dig: "d < 10 \<Longrightarrow> unat (dig d) = 48 + d"
  unfolding dig_def by (subst unat_of_nat) (simp add: take_bit_eq_mod del: of_nat_add)

lemma decimal_value: "dec_value (decimal v) 0 = v"
proof (induction v rule: decimal.induct)
  case (1 v)
  then show ?case by (subst decimal.simps) (simp add: dec_value_snoc unat_dig)
qed

lemma decimal_digits: "digits (decimal v)"
proof (induction v rule: decimal.induct)
  case (1 v)
  have d: "48 \<le> dig d \<and> dig d \<le> 57" if "d < 10" for d using that by (simp add: word_le_nat_alt unat_dig)
  show ?case using 1 d[of v] d[of "v mod 10"] by (subst decimal.simps) (auto simp: digits_def)
qed

lemma decimal_length: "v < 10 ^ n \<Longrightarrow> 0 < n \<Longrightarrow> length (decimal v) \<le> n"
proof (induction v arbitrary: n rule: decimal.induct)
  case (1 v)
  show ?case
  proof (cases "v < 10")
    case True
    then show ?thesis using 1(3) by (subst decimal.simps) simp
  next
    case False
    then obtain m where m: "n = Suc m" "0 < m" using 1(2,3) by (cases n; cases "n = 1") auto
    have "v div 10 < 10 ^ m" using 1(2) m by (simp add: less_mult_imp_div_less mult.commute)
    then show ?thesis using 1(1)[OF False, of m] m False by (subst decimal.simps) simp
  qed
qed

lemma itoa_digits_run:
  assumes "n + length (decimal v) \<le> length str"
  shows "itoa_digits v n str =
    Inr (n + length (decimal v), take n str @ rev (decimal v) @ drop (n + length (decimal v)) str)"
  using assms
proof (induction v arbitrary: n str rule: decimal.induct)
  case (1 v)
  have "0 < length (decimal v)" by (subst decimal.simps) simp
  then have n: "n < length str" using 1(2) by linarith
  show ?case
  proof (cases "v < 10")
    case True
    then have d: "decimal v = [dig v]" by (subst decimal.simps) simp
    then show ?thesis using True n by (subst itoa_digits.simps) (simp add: upd_conv_take_nth_drop)
  next
    case False
    then have d: "decimal v = decimal (v div 10) @ [dig (v mod 10)]" by (subst decimal.simps) simp
    let ?s = "str[n := dig (v mod 10)]"
    have "itoa_digits (v div 10) (Suc n) ?s = Inr (Suc n + length (decimal (v div 10)),
        take (Suc n) ?s @ rev (decimal (v div 10)) @ drop (Suc n + length (decimal (v div 10))) ?s)"
      using 1(1)[OF False, of "Suc n" ?s] 1(2) d by simp
    moreover have "v div 10 \<noteq> 0" using False by simp
    moreover have "take (Suc n) ?s = take n str @ [dig (v mod 10)]" using n by (simp add: take_Suc_conv_app_nth)
    ultimately show ?thesis using n d by (subst itoa_digits.simps) simp
  qed
qed

lemma itoa_swap_nth:
  assumes "i + m \<le> n div 2" and "n \<le> length str" and "j < length str"
  shows "itoa_swap n i m str ! j = (if i \<le> j \<and> j < i + m \<or> n - 1 - j < i + m \<and> i \<le> n - 1 - j \<and> j < n
      then str ! (n - 1 - j) else str ! j) \<and> length (itoa_swap n i m str) = length str"
  using assms
proof (induction m arbitrary: i str)
  case (Suc m)
  let ?s = "str[i := str ! (n - 1 - i), n - 1 - i := str ! i]"
  have i: "i < n - 1 - i" "n - 1 - i < length str" using Suc.prems by auto
  have "itoa_swap n i (Suc m) str ! j = itoa_swap n (Suc i) m ?s ! j" by simp
  also have "\<dots> = (if Suc i \<le> j \<and> j < Suc i + m \<or> n - 1 - j < Suc i + m \<and> Suc i \<le> n - 1 - j \<and> j < n
      then ?s ! (n - 1 - j) else ?s ! j)"
    using Suc.IH[of "Suc i" ?s] Suc.prems by simp
  also have "\<dots> = (if i \<le> j \<and> j < i + Suc m \<or> n - 1 - j < i + Suc m \<and> i \<le> n - 1 - j \<and> j < n
      then str ! (n - 1 - j) else str ! j)"
  proof -
    have two: "2 * (i + Suc m) \<le> n" using Suc.prems(1) by presburger
    consider "j = i" | "j = n - 1 - i" | "j \<noteq> i" "j \<noteq> n - 1 - i" by blast
    then show ?thesis
    proof cases
      case 1
      then have "\<not> n - 1 - j < Suc i + m" using two by arith
      then show ?thesis using 1 i by (simp add: nth_list_update_if)
    next
      case 2
      then have "\<not> j < Suc i + m" "n - 1 - j = i" "j < n" using two i by arith+
      then show ?thesis using 2 i by (simp add: nth_list_update_if)
    next
      case 3
      have "n - 1 - j \<noteq> i" "n - 1 - j \<noteq> n - 1 - i" if "j < n" using 3 that i by arith+
      moreover have "?s ! j = str ! j" using 3 by (simp add: nth_list_update_if)
      moreover have "?s ! (n - 1 - j) = str ! (n - 1 - j)" if "j < n"
        using calculation(1,2)[OF that] by (simp add: nth_list_update_if)
      moreover have "(Suc i \<le> j \<and> j < Suc i + m \<or> n - 1 - j < Suc i + m \<and> Suc i \<le> n - 1 - j \<and> j < n) \<longleftrightarrow>
          (i \<le> j \<and> j < i + Suc m \<or> n - 1 - j < i + Suc m \<and> i \<le> n - 1 - j \<and> j < n)"
        using 3 i two by arith
      moreover have "j < n" if "i \<le> j \<and> j < i + Suc m \<or> n - 1 - j < i + Suc m \<and> i \<le> n - 1 - j \<and> j < n"
        using that two by arith
      ultimately show ?thesis by presburger
    qed
  qed
  finally show ?case using Suc.IH[of "Suc i" ?s] Suc.prems by simp
qed auto

lemma itoa_swap_rev: "itoa_swap (length xs) 0 (length xs div 2) (xs @ ys) = rev xs @ ys"
proof (rule nth_equalityI)
  note sw = itoa_swap_nth[of 0 "length xs div 2" "length xs" "xs @ ys"]
  show l: "length (itoa_swap (length xs) 0 (length xs div 2) (xs @ ys)) = length (rev xs @ ys)"
  proof (cases "xs @ ys = []")
    case False
    then show ?thesis using sw[of 0] by simp
  qed simp
  fix j assume "j < length (itoa_swap (length xs) 0 (length xs div 2) (xs @ ys))"
  then have j: "j < length (xs @ ys)" using l by simp
  have mid: "length xs - 1 - j = j" if "\<not> j < length xs div 2" "\<not> length xs - 1 - j < length xs div 2" "j < length xs"
    using that by linarith
  show "itoa_swap (length xs) 0 (length xs div 2) (xs @ ys) ! j = (rev xs @ ys) ! j"
    using sw[of j] j mid by (auto simp: nth_append rev_nth)
qed

lemma itoa_run:
  assumes "length (decimal v) < length str"
  shows "itoa v str = Inr (decimal v @ 32 # drop (Suc (length (decimal v))) str, length (decimal v))"
proof -
  let ?d = "decimal v" and ?n = "length (decimal v)"
  have "itoa_digits v 0 str = Inr (?n, rev ?d @ drop ?n str)" using itoa_digits_run[of 0 v str] assms by simp
  moreover have "(rev ?d @ drop ?n str)[?n := 32] = rev ?d @ 32 # drop (Suc ?n) str"
    using assms by (simp add: list_update_append Cons_nth_drop_Suc[symmetric])
  ultimately show ?thesis using assms itoa_swap_rev[of "rev ?d" "32 # drop (Suc ?n) str"] by (simp add: itoa_def)
qed

section \<open>The search finds the first occurrence\<close>

lemma strncmp_eq_prefix:
  assumes "nul_free needle"
  shows "strncmp_eq a needle (length needle) \<longleftrightarrow> take (length needle) a = needle"
proof
  have "c_string needle = needle"
    using assms unfolding c_string_def nul_free_def takeWhile_eq_all_conv by metis
  moreover assume "strncmp_eq a needle (length needle)"
  ultimately have "c_string (take (length needle) a) = needle" by (simp add: strncmp_eq_def)
  then have "length (take (length needle) a) \<le> length (c_string (take (length needle) a))" by simp
  then have "take (length (c_string (take (length needle) a))) (take (length needle) a) = take (length needle) a"
    by (rule take_all)
  then have "c_string (take (length needle) a) = take (length needle) a"
    unfolding c_string_def using takeWhile_eq_take[of "\<lambda>c. c \<noteq> 0" "take (length needle) a"] by argo
  then show "take (length needle) a = needle" using \<open>c_string (take (length needle) a) = needle\<close> by simp
qed (use assms in \<open>simp add: strncmp_eq_def\<close>)

lemma strnstr_loop_first:
  assumes "nul_free needle"
  shows "strnstr_loop h needle i m = Some p \<longleftrightarrow>
    i \<le> p \<and> p < i + m \<and> take (length needle) (drop p h) = needle \<and>
    (\<forall>q. i \<le> q \<and> q < p \<longrightarrow> take (length needle) (drop q h) \<noteq> needle)"
proof (induction m arbitrary: i)
  case (Suc m)
  show ?case
  proof (cases "take (length needle) (drop i h) = needle")
    case True
    then have "strnstr_loop h needle i (Suc m) = Some i"
      using strncmp_eq_prefix[OF assms, of "drop i h"] by simp
    then show ?thesis using True by (metis add_Suc_right le_add1 le_imp_less_Suc le_neq_implies_less not_less option.inject order_refl)
  next
    case False
    then have "strnstr_loop h needle i (Suc m) = strnstr_loop h needle (Suc i) m"
      using strncmp_eq_prefix[OF assms, of "drop i h"] by simp
    moreover have "i \<le> q \<longleftrightarrow> q = i \<or> Suc i \<le> q" for q by linarith
    ultimately show ?thesis using Suc[of "Suc i"] False by auto
  qed
qed auto

section \<open>Properties\<close>

lemma decimal_atoull: "v < 2 ^ 64 \<Longrightarrow> atoull (decimal v) = of_nat v"
proof -
  assume v: "v < 2 ^ 64"
  have "length (decimal v) \<le> 20" by (rule decimal_length) (use v in simp_all)
  then show ?thesis using decimal_digits[of v]
    by (simp add: atoull_def switch_text_short fall_through_dec decimal_value)
qed

text \<open>
  C13: \<open>itoa\<close> and \<open>atoull\<close> round trip: on a buffer with room for them, \<open>itoa\<close> writes the decimal
  digits of the number and one space, touches nothing behind the space and reports the number of
  digits; \<open>atoull\<close> reads the number back from exactly these characters, for every 64 bit number.
\<close>

theorem itoa_atoull_roundtrip:
  assumes "v < 2 ^ 64" and "20 < length str"
  shows "\<exists>str' n. itoa v str = Inr (str', n) \<and> n \<le> 20 \<and> digits (take n str') \<and> str' ! n = 32 \<and>
    drop (Suc n) str' = drop (Suc n) str \<and> unat (atoull (take n str')) = v"
proof -
  have l: "length (decimal v) \<le> 20" by (rule decimal_length) (use assms(1) in simp_all)
  have "unat (atoull (decimal v)) = v"
    using assms(1) by (simp add: decimal_atoull unat_of_nat take_bit_eq_mod)
  then show ?thesis using itoa_run[of v str] l assms(2) decimal_digits[of v] by (auto simp: nth_append)
qed

theorem itoa_atoull_roundtrip_witness:
  "(120 :: nat) < 2 ^ 64 \<and> (\<exists>str' n. itoa 120 (replicate 30 0) = Inr (str', n) \<and> n \<le> 20 \<and>
    digits (take n str') \<and> str' ! n = 32 \<and> drop (Suc n) str' = drop (Suc n) (replicate 30 0) \<and>
    unat (atoull (take n str')) = 120)"
  using itoa_atoull_roundtrip[of 120 "replicate 30 0"] by simp

text \<open>
  C14: the unrolled number readers on a text of digits of fewer than $2^{31}$ characters: \<open>atous\<close>
  returns its decimal value modulo $2^{16}$ up to 5 digits and \<open>atoull\<close> modulo $2^{64}$ up to 20;
  \<open>atoui\<close>, which sums in a signed \<open>int\<close>, returns the value up to 10 digits when it is below $2^{31}$
  and overflows, which is undefined, from there on; a text with more digits reads as 0.
\<close>

theorem number_readers:
  assumes "digits s" and "length s < 2 ^ 31"
  shows "unat (atous s) = (if length s \<le> 5 then dec_value s 0 mod 2 ^ 16 else 0) \<and>
    atoui s = (if length s \<le> 10
      then if dec_value s 0 < 2 ^ 31 then Inr (of_nat (dec_value s 0)) else Inl IntOverflow else Inr 0) \<and>
    unat (atoull s) = (if length s \<le> 20 then dec_value s 0 mod 2 ^ 64 else 0)"
proof (intro conjI)
  note sw = switch_text_short[OF assms(2)]
  show "unat (atous s) = (if length s \<le> 5 then dec_value s 0 mod 2 ^ 16 else 0)"
    using assms by (auto simp: atous_def sw fall_through_dec unsigned_of_nat unat_of_nat take_bit_eq_mod mod_mod_cancel)
  show "atoui s = (if length s \<le> 10
      then if dec_value s 0 < 2 ^ 31 then Inr (of_nat (dec_value s 0)) else Inl IntOverflow else Inr 0)"
    using fall_int_dec[OF assms(1), of 0] by (simp add: atoui_def sw)
  show "unat (atoull s) = (if length s \<le> 20 then dec_value s 0 mod 2 ^ 64 else 0)"
    using assms by (simp add: atoull_def sw fall_through_dec unat_of_nat take_bit_eq_mod)
qed

theorem number_readers_witness:
  "digits [52, 50] \<and> unat (atous [52, 50]) = 42 \<and> atoui [52, 50] = Inr 42 \<and> unat (atoull [52, 50]) = 42 \<and>
   digits [57, 57, 57, 57, 57, 57, 57, 57, 57, 57] \<and> atoui [57, 57, 57, 57, 57, 57, 57, 57, 57, 57] = Inl IntOverflow"
proof -
  have d: "digits [52, 50]" "digits [57, 57, 57, 57, 57, 57, 57, 57, 57, 57]" by (simp_all add: digits_def)
  have v: "dec_value [57, 57, 57, 57, 57, 57, 57, 57, 57, 57] 0 = 9999999999" by simp
  have "unat (atous [52, 50]) = 42 \<and> atoui [52, 50] = Inr 42 \<and> unat (atoull [52, 50]) = 42"
    using number_readers[OF d(1)] by simp
  moreover have "atoui [57, 57, 57, 57, 57, 57, 57, 57, 57, 57] = Inl IntOverflow"
    using number_readers[OF d(2)] unfolding v by simp
  ultimately show ?thesis using d by blast
qed

lemma strnstr_count:
  assumes "n \<le> len" and "len < 2 ^ 31"
  shows "nat (sint (ucast (of_nat len - of_nat n :: 64 word) :: 32 word) + 1) = Suc (len - n)"
proof -
  have d: "of_nat len - of_nat n = (of_nat (len - n) :: 64 word)" using assms(1) by (simp add: of_nat_diff)
  have u: "(ucast (of_nat (len - n) :: 64 word) :: 32 word) = of_nat (len - n)"
    using assms(2) by (simp add: unsigned_of_nat take_bit_eq_mod)
  have "sint (of_nat (len - n) :: 32 word) = int (len - n)"
    using assms(2) by (simp add: signed_of_nat signed_take_bit_int_eq_self)
  then show ?thesis unfolding d u by simp
qed

text \<open>
  \<open>strnstr\<close> returns the first position of the needle within the given length, and nothing exactly
  when there is none, for texts shorter than $2^{31}$ bytes (beyond which the bound of the loop is cut
  to a negative number).
\<close>

theorem strnstr_first:
  assumes "nul_free needle" and "needle \<noteq> []" and "length needle \<le> len" and "len < 2 ^ 31"
  shows "(strnstr h needle len = Some p \<longleftrightarrow>
      p + length needle \<le> len \<and> take (length needle) (drop p h) = needle \<and>
      (\<forall>q < p. take (length needle) (drop q h) \<noteq> needle)) \<and>
    (strnstr h needle len = None \<longleftrightarrow>
      (\<forall>q. q + length needle \<le> len \<longrightarrow> take (length needle) (drop q h) \<noteq> needle))"
proof (intro conjI)
  have run: "strnstr h needle len = strnstr_loop h needle 0 (Suc (len - length needle))"
    unfolding strnstr_def strnstr_count[OF assms(3,4)] using assms(2) by simp
  have "strnstr h needle len = Some p \<longleftrightarrow>
      p + length needle \<le> len \<and> take (length needle) (drop p h) = needle \<and>
      (\<forall>q < p. take (length needle) (drop q h) \<noteq> needle)" for p
    unfolding run strnstr_loop_first[OF assms(1)] using assms(3) by (auto simp: less_Suc_eq_le)
  note some = this
  show "strnstr h needle len = Some p \<longleftrightarrow>
      p + length needle \<le> len \<and> take (length needle) (drop p h) = needle \<and>
      (\<forall>q < p. take (length needle) (drop q h) \<noteq> needle)" by (rule some)
  show "strnstr h needle len = None \<longleftrightarrow>
      (\<forall>q. q + length needle \<le> len \<longrightarrow> take (length needle) (drop q h) \<noteq> needle)" (is "_ \<longleftrightarrow> (\<forall>q. ?no q)")
  proof
    assume none: "strnstr h needle len = None"
    show "\<forall>q. ?no q"
    proof
      fix q
      show "?no q"
      proof (induction q rule: less_induct)
        case (less q)
        then show ?case using some[of q] none by (metis add_le_cancel_right less_or_eq_imp_le option.distinct(1) order_trans)
      qed
    qed
  next
    assume "\<forall>q. ?no q"
    then show "strnstr h needle len = None" using some by (metis not_Some_eq)
  qed
qed

theorem strnstr_first_witness:
  "nul_free [98 :: byte] \<and> strnstr [97, 98, 98] [98] 3 = Some 1 \<and> strnstr [97, 98, 98] [99] 3 = None"
proof -
  have f: "nul_free [98 :: byte]" "nul_free [99 :: byte]" by (simp_all add: nul_free_def)
  have "take (length [98 :: byte]) (drop q [97, 98, 98 :: byte]) \<noteq> [98]" if "q < 1" for q using that by simp
  then have "strnstr [97, 98, 98] [98] 3 = Some 1"
    using strnstr_first[OF f(1), of 3 "[97, 98, 98]" 1] by simp
  moreover have "take (length [99 :: byte]) (drop q [97, 98, 98 :: byte]) \<noteq> [99]" if "q + length [99 :: byte] \<le> 3" for q
    using that by (auto simp: take_Cons' drop_Cons' hd_drop_conv_nth nth_Cons')
  then have "strnstr [97, 98, 98] [99] 3 = None"
    using strnstr_first[OF f(2), of 3 "[97, 98, 98]"] by simp
  ultimately show ?thesis using f by simp
qed

end
