(* ===== verification/Text_Protocol.thy ===== *)
theory Text_Protocol
  imports Server_Common Keyword_Matcher Cache_Spec
begin

text \<open>
  The text protocol, \<open>src/src/RequestProcessor.cpp\<close>: the header parser and \<open>processRequest\<close>, the
  state machine that parses one request from the input buffer of a session, runs it on the cache
  and appends the reply to the output buffer. Reads and writes outside a buffer are faults; sizes
  are 64 bit, their differences wrap.
\<close>

definition sub64 :: "nat \<Rightarrow> nat \<Rightarrow> nat" where "sub64 a b = (a + 2 ^ 64 - b) mod 2 ^ 64"

definition slice :: "byte list \<Rightarrow> nat \<Rightarrow> nat \<Rightarrow> byte list" where
  "slice buf a b = take (b - a) (drop a buf)"

definition read_bytes :: "byte list \<Rightarrow> nat \<Rightarrow> nat \<Rightarrow> byte list res" where
  "read_bytes buf off n = (if off + n \<le> length buf then Inr (take n (drop off buf)) else Inl OutOfBounds)"

section \<open>The header\<close>

text \<open>
  \<open>while (*pCur != ' ' \<dots> && pCur != pLimit) ++pCur\<close>: the character is read before the limit is
  compared.
\<close>

definition is_sp :: "byte \<Rightarrow> bool" where "is_sp c \<longleftrightarrow> c = 32"
definition is_sp_cr :: "byte \<Rightarrow> bool" where "is_sp_cr c \<longleftrightarrow> c = 32 \<or> c = 13"

function scan :: "(byte \<Rightarrow> bool) \<Rightarrow> byte list \<Rightarrow> nat \<Rightarrow> nat \<Rightarrow> nat res" where
  "scan stop buf limit cur =
     bind_res (arr_get buf cur) (\<lambda>c.
       if stop c \<or> cur = limit then Inr cur else scan stop buf limit (cur + 1))"
  by pat_completeness auto
termination
  by (relation "measure (\<lambda>(stop, buf, limit, cur). length buf - cur)") (auto simp: arr_get_def split: if_splits)

declare scan.simps [simp del]

lemma scan_ge: "scan stop buf limit cur = Inr p \<Longrightarrow> cur \<le> p \<and> p < length buf"
proof (induction stop buf limit cur rule: scan.induct)
  case (1 stop buf limit cur)
  then show ?case by (subst (asm) (2) scan.simps) (auto simp: bind_res_Inr_iff arr_get_def split: if_splits)
qed

type_synonym parsed = "bool \<times> nat \<times> request_info"

text \<open>One field: up to the next separator; a field that runs into the limit is an incomplete header.\<close>

definition field ::
    "(byte \<Rightarrow> bool) \<Rightarrow> byte list \<Rightarrow> nat \<Rightarrow> nat \<Rightarrow> parsed \<Rightarrow> (nat \<Rightarrow> parsed res) \<Rightarrow> parsed res" where
  "field stop buf limit cur incomplete k =
     bind_res (scan stop buf limit cur) (\<lambda>p. if p = limit then Inr incomplete else k p)"

definition NOREPLY :: nat where "NOREPLY = 1"

text \<open>\<open>key flags exptime bytes [cas] [noreply]\<close>\<close>

definition parseStoreEnd :: "byte list \<Rightarrow> nat \<Rightarrow> request_info \<Rightarrow> parsed res" where
  "parseStoreEnd buf p ri =
     bind_res (arr_get buf p) (\<lambda>c.
       let (ri, p) = (if c = 32 then (ri\<lparr>requestFlags := requestFlags ri OR NOREPLY\<rparr>, p + 9) else (ri, p + 2))
       in Inr (True, p, ri\<lparr>pDataBuffer := Some p\<rparr>))"

definition parseStore :: "byte list \<Rightarrow> nat \<Rightarrow> nat \<Rightarrow> nat \<Rightarrow> request_info \<Rightarrow> parsed res" where
  "parseStore buf limit pEnd cur ri =
     (let ri = ri\<lparr>pKeyBuffer := Some (cur + 1)\<rparr> in
      field is_sp buf limit (cur + 1) (False, pEnd, ri) (\<lambda>p1.
      let ri = ri\<lparr>keyBufferLen := of_nat (p1 - (cur + 1))\<rparr> in
      field is_sp buf limit (p1 + 1) (False, pEnd, ri) (\<lambda>p2.
      let ri = ri\<lparr>flags := atous (slice buf (p1 + 1) p2)\<rparr> in
      field is_sp buf limit (p2 + 1) (False, pEnd, ri) (\<lambda>p3.
      bind_res (atoui (slice buf (p2 + 1) p3)) (\<lambda>v.
      let ri = ri\<lparr>expTime := v\<rparr> in
      field is_sp_cr buf limit (p3 + 1) (False, pEnd, ri) (\<lambda>p4.
      let ri = ri\<lparr>dataLen := unat (atoull (slice buf (p3 + 1) p4))\<rparr> in
      if requestType ri = CAS
      then field is_sp_cr buf limit (p4 + 1) (False, pEnd, ri) (\<lambda>p5.
             parseStoreEnd buf p5 (ri\<lparr>reqCasTicket := atoull (slice buf (p4 + 1) p5)\<rparr>))
      else parseStoreEnd buf p4 ri))))))"

text \<open>The further keys of a \<open>get\<close>; they are appended to a list that an earlier attempt may have left.\<close>

function parseKeys :: "byte list \<Rightarrow> nat \<Rightarrow> nat \<Rightarrow> nat \<Rightarrow> request_info \<Rightarrow> parsed res" where
  "parseKeys buf limit pEnd cur ri =
     bind_res (arr_get buf cur) (\<lambda>c.
       if c = 32 then
         let ks = (case getKeysList ri of None \<Rightarrow> [] | Some ks \<Rightarrow> ks) in
         bind_res (scan is_sp_cr buf limit (cur + 1)) (\<lambda>p.
           if p = limit then Inr (False, pEnd, ri\<lparr>getKeysList := Some ks\<rparr>)
           else parseKeys buf limit pEnd p
                  (ri\<lparr>getKeysList := Some (ks @ [(cur + 1, of_nat (p - (cur + 1)))])\<rparr>))
       else Inr (True, cur + 2, ri))"
  by pat_completeness auto
termination
  by (relation "measure (\<lambda>(buf, limit, pEnd, cur, ri). length buf - cur)")
    (auto simp: arr_get_def dest!: scan_ge split: if_splits)

declare parseKeys.simps [simp del]

definition parseGet :: "byte list \<Rightarrow> nat \<Rightarrow> nat \<Rightarrow> nat \<Rightarrow> request_info \<Rightarrow> parsed res" where
  "parseGet buf limit pEnd cur ri =
     (let ri = ri\<lparr>pKeyBuffer := Some (cur + 1)\<rparr> in
      field is_sp_cr buf limit (cur + 1) (False, pEnd, ri) (\<lambda>p.
        parseKeys buf limit pEnd p (ri\<lparr>keyBufferLen := of_nat (p - (cur + 1))\<rparr>)))"

definition request_of :: "nat \<Rightarrow> CacheRequestType" where
  "request_of i =
     (let ts = [GET, SET, ADD, DELETE, REPLACE, CAS, GETS, APPEND, PREPEND, INCR, DECR, TOUCH,
                WATCH, LRU_CRAWLER, STATS, SLABS, STAT, UNSUPPORTED]
      in if i < length ts then ts ! i else TYPE_MAX)"

definition parseMemcachedHeader ::
    "matcher \<Rightarrow> byte list \<Rightarrow> nat \<Rightarrow> nat \<Rightarrow> request_info \<Rightarrow> parsed res" where
  "parseMemcachedHeader m buf pBeg maxCharsToParse ri =
     (let limit = pBeg + maxCharsToParse; pEnd = pBeg in
      field is_sp_cr buf limit pBeg (False, pEnd, ri) (\<lambda>cur.
      bind_res (MatchSubstring m (slice buf pBeg cur)) (\<lambda>r.
      case r of
        None \<Rightarrow> Inr (False, pEnd, ri)
      | Some commandIndex \<Rightarrow>
          (let ri = ri\<lparr>requestType := request_of commandIndex\<rparr> in
           case requestType ri of
             SET \<Rightarrow> parseStore buf limit pEnd cur ri
           | ADD \<Rightarrow> parseStore buf limit pEnd cur ri
           | REPLACE \<Rightarrow> parseStore buf limit pEnd cur ri
           | APPEND \<Rightarrow> parseStore buf limit pEnd cur ri
           | PREPEND \<Rightarrow> parseStore buf limit pEnd cur ri
           | CAS \<Rightarrow> parseStore buf limit pEnd cur ri
           | GET \<Rightarrow> parseGet buf limit pEnd cur ri
           | GETS \<Rightarrow> parseGet buf limit pEnd cur ri
           | STATS \<Rightarrow> Inr (True, cur + 2, ri)
           | _ \<Rightarrow> Inl Aborted))))"

section \<open>The output buffer\<close>

text \<open>The buffer with the number of bytes in it; \<open>grow\<close> is the doubling loop.\<close>

type_synonym outbuf = "byte list \<times> nat"

definition out_short :: "byte list \<Rightarrow> nat \<Rightarrow> nat \<Rightarrow> bool" where
  "out_short out used need \<longleftrightarrow>
     (if used \<le> length out then length out - used < need else 2 ^ 64 - (used - length out) < need)"

function grow :: "byte list \<Rightarrow> nat \<Rightarrow> nat \<Rightarrow> byte list res" where
  "grow out used need =
     (if out_short out used need
      then if out = [] then Inl Spins else grow (out @ replicate (length out) 0) used need
      else Inr out)"
  by pat_completeness auto
termination
  by (relation "measure (\<lambda>(out, used, need). need + used - length out)") (auto simp: out_short_def intro!: diff_less_mono2 split: if_splits)

declare grow.simps [simp del]

definition put_bytes :: "byte list \<Rightarrow> outbuf \<Rightarrow> outbuf res" where
  "put_bytes s ob = (case ob of (out, used) \<Rightarrow>
     if used + length s \<le> length out then Inr (blit out used s, used + length s) else Inl OutOfBounds)"

text \<open>\<open>strncpy\<close> of a whole string: up to its first NUL, then NULs.\<close>

definition strncpy_all :: "byte list \<Rightarrow> byte list" where
  "strncpy_all s = c_string s @ replicate (length s - length (c_string s)) 0"

definition put_reply :: "byte list \<Rightarrow> outbuf \<Rightarrow> outbuf res" where
  "put_reply s ob = (case ob of (out, used) \<Rightarrow>
     bind_res (grow out used (length s + 1)) (\<lambda>out. put_bytes s (out, used)))"

definition put_num :: "nat \<Rightarrow> outbuf \<Rightarrow> outbuf res" where
  "put_num v ob = (case ob of (out, used) \<Rightarrow>
     bind_res (itoa v (drop used out)) (\<lambda>(str, n). Inr (take used out @ str, used + n)))"

definition crlf :: "byte list" where "crlf = [13, 10]"

definition SOME_TEXT_LEN :: nat where "SOME_TEXT_LEN = 128"

text \<open>The reply of \<open>get\<close> for one key, and that of \<open>stats\<close>.\<close>

definition put_value :: "byte list \<Rightarrow> storage_value \<Rightarrow> outbuf \<Rightarrow> outbuf res" where
  "put_value k sv ob = (case ob of (out, used) \<Rightarrow>
     bind_res (grow out used (length k + length (sv_value sv) + SOME_TEXT_LEN)) (\<lambda>out.
     bind_res (put_bytes (asc ''VALUE '') (out, used)) (\<lambda>ob.
     bind_res (put_bytes (strncpy_all k) ob) (\<lambda>ob.
     bind_res (put_bytes [32] ob) (\<lambda>ob.
     bind_res (put_num (unat (sv_flags sv)) ob) (\<lambda>(out, used).
     bind_res (put_num (length (sv_value sv)) (out, used + 1)) (\<lambda>ob.
     bind_res (put_bytes crlf ob) (\<lambda>ob.
     bind_res (put_bytes (strncpy_all (sv_value sv)) ob) (\<lambda>ob.
     put_bytes crlf ob)))))))))"

definition put_count :: "nat \<Rightarrow> outbuf \<Rightarrow> outbuf res" where
  "put_count n ob = (case ob of (out, used) \<Rightarrow>
     bind_res (grow out used SOME_TEXT_LEN) (\<lambda>out.
     bind_res (put_num n (out, used)) (put_bytes crlf)))"

section \<open>The requests\<close>

definition answer :: "request_info \<Rightarrow> byte list \<Rightarrow> outbuf \<Rightarrow> outbuf res" where
  "answer ri s ob = (if requestFlags ri AND NOREPLY = 0 then put_reply (s @ crlf) ob else Inr ob)"

definition req_key :: "request_info \<Rightarrow> byte list \<Rightarrow> byte list res" where
  "req_key ri buf = (case pKeyBuffer ri of None \<Rightarrow> Inl OutOfBounds | Some p \<Rightarrow> read_bytes buf p (unat (keyBufferLen ri)))"

definition req_value :: "request_info \<Rightarrow> byte list \<Rightarrow> storage_value res" where
  "req_value ri buf = (case pDataBuffer ri of None \<Rightarrow> Inl OutOfBounds | Some p \<Rightarrow>
     bind_res (read_bytes buf p (dataLen ri)) (\<lambda>d.
     Inr \<lparr>sv_value = d, casTicket = reqCasTicket ri, sv_flags = ucast (flags ri)\<rparr>))"

definition do_set :: "nat \<Rightarrow> request_info \<Rightarrow> byte list \<Rightarrow> outbuf \<Rightarrow> cache \<Rightarrow> (outbuf \<times> cache) res" where
  "do_set tid ri buf ob t =
     bind_res (req_key ri buf) (\<lambda>k. bind_res (req_value ri buf) (\<lambda>v.
     bind_res (insertOrSet string_hash sso_eq tid k v (unat (expTime ri)) t) (\<lambda>(_, t).
     bind_res (answer ri (asc ''STORED'') ob) (\<lambda>ob. Inr (ob, t)))))"

definition do_add :: "nat \<Rightarrow> request_info \<Rightarrow> byte list \<Rightarrow> outbuf \<Rightarrow> cache \<Rightarrow> (outbuf \<times> cache) res" where
  "do_add tid ri buf ob t =
     bind_res (req_key ri buf) (\<lambda>k. bind_res (req_value ri buf) (\<lambda>v.
     bind_res (insert_kv string_hash sso_eq tid k v (unat (expTime ri)) t) (\<lambda>(inserted, t).
     bind_res (answer ri (if inserted then asc ''STORED'' else asc ''EXISTS'') ob) (\<lambda>ob. Inr (ob, t)))))"

definition do_replace :: "nat \<Rightarrow> request_info \<Rightarrow> byte list \<Rightarrow> outbuf \<Rightarrow> cache \<Rightarrow> (outbuf \<times> cache) res" where
  "do_replace tid ri buf ob t =
     bind_res (req_key ri buf) (\<lambda>k. bind_res (req_value ri buf) (\<lambda>v.
     bind_res (set_kv string_hash sso_eq tid k v (unat (expTime ri)) t) (\<lambda>(overwritten, t).
     bind_res (answer ri (if overwritten then asc ''STORED'' else asc ''NOT_STORED'') ob) (\<lambda>ob. Inr (ob, t)))))"

text \<open>
  \<open>cas\<close>: \<open>locals\<close> is the indeterminate content of the array \<open>casLocks\<close>. The range of locked slots
  stays (0, 0), since \<open>get\<close> takes it by value.
\<close>

definition do_cas :: "nat list \<Rightarrow> nat \<Rightarrow> request_info \<Rightarrow> byte list \<Rightarrow> outbuf \<Rightarrow> cache \<Rightarrow> (outbuf \<times> cache) res" where
  "do_cas locals tid ri buf ob t =
     bind_res (req_key ri buf) (\<lambda>k. bind_res (req_value ri buf) (\<lambda>v.
     bind_res (get string_hash sso_eq tid k (Some locals) t) (\<lambda>(old, ls, t).
     case old of
       None \<Rightarrow> bind_res (answer ri (asc ''NOT_STORED'') ob) (\<lambda>ob. Inr (ob, t))
     | Some old \<Rightarrow>
         if casTicket v = casTicket old
         then bind_res (set_cas tid (v\<lparr>casTicket := casTicket v + 1\<rparr>) (unat (expTime ri)) (the ls) 0 0 t) (\<lambda>(_, t).
              bind_res (answer ri (asc ''STORED'') ob) (\<lambda>ob. Inr (ob, t)))
         else bind_res (unlockElement (the ls) 0 0 t) (\<lambda>(_, t).
              bind_res (answer ri (asc ''NOT_STORED'') ob) (\<lambda>ob. Inr (ob, t))))))"

definition get_one :: "nat \<Rightarrow> byte list \<Rightarrow> outbuf \<Rightarrow> cache \<Rightarrow> (outbuf \<times> cache) res" where
  "get_one tid k ob t =
     bind_res (get string_hash sso_eq tid k None t) (\<lambda>(v, _, t).
     case v of None \<Rightarrow> Inr (ob, t) | Some sv \<Rightarrow> bind_res (put_value k sv ob) (\<lambda>ob. Inr (ob, t)))"

fun get_more :: "nat \<Rightarrow> byte list \<Rightarrow> (nat \<times> 16 word) list \<Rightarrow> outbuf \<Rightarrow> cache \<Rightarrow> (outbuf \<times> cache) res" where
  "get_more tid buf [] ob t = Inr (ob, t)"
| "get_more tid buf ((p, n) # ks) ob t =
     bind_res (read_bytes buf p (unat n)) (\<lambda>k.
     bind_res (get_one tid k ob t) (\<lambda>(ob, t). get_more tid buf ks ob t))"

definition do_get :: "nat \<Rightarrow> request_info \<Rightarrow> byte list \<Rightarrow> outbuf \<Rightarrow> cache \<Rightarrow> (outbuf \<times> cache) res" where
  "do_get tid ri buf ob t =
     bind_res (req_key ri buf) (\<lambda>k.
     bind_res (get_one tid k ob t) (\<lambda>(ob, t).
     bind_res (case getKeysList ri of None \<Rightarrow> Inr (ob, t) | Some ks \<Rightarrow> get_more tid buf ks ob t) (\<lambda>(ob, t).
     bind_res (put_reply (asc ''END'' @ crlf) ob) (\<lambda>ob. Inr (ob, t)))))"

definition do_delete :: "nat \<Rightarrow> request_info \<Rightarrow> byte list \<Rightarrow> outbuf \<Rightarrow> cache \<Rightarrow> (outbuf \<times> cache) res" where
  "do_delete tid ri buf ob t =
     bind_res (req_key ri buf) (\<lambda>k.
     bind_res (remove string_hash sso_eq tid k t) (\<lambda>(removed, t).
     bind_res (answer ri (if removed then asc ''DELETED'' else asc ''NOT_FOUND'') ob) (\<lambda>ob. Inr (ob, t))))"

definition do_stats :: "outbuf \<Rightarrow> cache \<Rightarrow> (outbuf \<times> cache) res" where
  "do_stats ob t =
     bind_res (processHash count_item 0 t) (\<lambda>(n, t).
     bind_res (put_count n ob) (\<lambda>ob. Inr (ob, t)))"

definition handle ::
    "nat list \<Rightarrow> nat \<Rightarrow> request_info \<Rightarrow> byte list \<Rightarrow> outbuf \<Rightarrow> cache \<Rightarrow> (outbuf \<times> cache) res" where
  "handle locals tid ri buf ob t =
     (case requestType ri of
        SET \<Rightarrow> do_set tid ri buf ob t
      | ADD \<Rightarrow> do_add tid ri buf ob t
      | REPLACE \<Rightarrow> do_replace tid ri buf ob t
      | CAS \<Rightarrow> do_cas locals tid ri buf ob t
      | GET \<Rightarrow> do_get tid ri buf ob t
      | GETS \<Rightarrow> do_get tid ri buf ob t
      | DELETE \<Rightarrow> do_delete tid ri buf ob t
      | STATS \<Rightarrow> do_stats ob t
      | _ \<Rightarrow> Inr (ob, t))"

section \<open>The state machine\<close>

text \<open>What \<open>processRequest\<close> gets by reference from the session.\<close>

record request_io =
  requestInfo :: request_info
  inBuffer :: "byte list"
  headerOffset :: nat
  headerLen :: nat
  headerBytesRequired :: nat
  dataOffset :: nat
  sessionDataLen :: nat
  dataBytesRequired :: nat
  inBufferOffset :: nat
  inBufferBytes :: nat
  outBuffer :: "byte list"
  outBufferBytes :: nat

definition ready_step :: "('z request_io_scheme) \<Rightarrow> 'z request_io_scheme" where
  "ready_step s = s\<lparr>headerBytesRequired := 32, requestInfo := (requestInfo s)\<lparr>state := PARSING_HEADER\<rparr>\<rparr>"

text \<open>\<open>PARSING_HEADER\<close>: whether the header is complete.\<close>

definition header_step :: "matcher \<Rightarrow> 'z request_io_scheme \<Rightarrow> (bool \<times> 'z request_io_scheme) res" where
  "header_step m s =
     (if inBufferOffset s < inBufferBytes s then
        bind_res (parseMemcachedHeader m (inBuffer s) (inBufferOffset s) (inBufferBytes s - inBufferOffset s) (requestInfo s))
          (\<lambda>(parsed, pEnd, ri).
             if parsed then
               let hl = pEnd - inBufferOffset s; n = (if dataLen ri \<noteq> 0 then (dataLen ri + 2) mod 2 ^ 64 else 0)
               in Inr (True, s\<lparr>headerBytesRequired := 0, headerOffset := inBufferOffset s, headerLen := hl,
                    dataOffset := inBufferOffset s + hl, dataBytesRequired := n, sessionDataLen := n,
                    requestInfo := ri\<lparr>state := PARSING_DATA\<rparr>\<rparr>)
             else Inr (False, s\<lparr>requestInfo := ri\<rparr>))
      else Inr (False, s))"

text \<open>\<open>PARSING_DATA\<close>: whether the data is complete and the request was run.\<close>

definition data_step ::
    "nat list \<Rightarrow> nat \<Rightarrow> 'z request_io_scheme \<Rightarrow> cache \<Rightarrow> (bool \<times> 'z request_io_scheme \<times> cache) res" where
  "data_step locals tid s t =
     (if sub64 (sub64 (inBufferBytes s) (inBufferOffset s)) (headerLen s) \<ge> sessionDataLen s then
        bind_res (if sessionDataLen s = 0 then Inr True
                  else bind_res (arr_get (inBuffer s) (sub64 (dataOffset s + sessionDataLen s) 2)) (\<lambda>c.
                       bind_res (arr_get (inBuffer s) (sub64 (dataOffset s + sessionDataLen s) 1)) (\<lambda>d.
                       if c \<noteq> 13 \<or> d \<noteq> 10 then Inl Aborted else Inr True))) (\<lambda>_.
        let s = s\<lparr>dataBytesRequired := 0, inBufferOffset := (inBufferOffset s + sessionDataLen s + headerLen s) mod 2 ^ 64\<rparr> in
        bind_res (handle locals tid (requestInfo s) (inBuffer s) (outBuffer s, outBufferBytes s) t) (\<lambda>((out, used), t).
        bind_res (arr_set out used 0) (\<lambda>out.
        Inr (True, s\<lparr>outBuffer := out, outBufferBytes := used, requestInfo := (requestInfo s)\<lparr>state := DONE_STATE\<rparr>\<rparr>, t))))
      else
        Inr (False, s\<lparr>dataBytesRequired :=
          (if dataBytesRequired s = 0 then sub64 (sessionDataLen s) (sub64 (inBufferBytes s) (inBufferOffset s))
           else dataBytesRequired s)\<rparr>, t))"

definition state_rank :: "RequestParsingState \<Rightarrow> nat" where
  "state_rank st = (case st of DONE_STATE \<Rightarrow> 3 | READY_STATE \<Rightarrow> 2 | PARSING_HEADER \<Rightarrow> 1 | PARSING_DATA \<Rightarrow> 0)"

lemma header_step_state: "header_step m s = Inr (True, s') \<Longrightarrow> state (requestInfo s') = PARSING_DATA"
  by (auto simp: header_step_def bind_res_Inr_iff Let_def split: if_splits prod.splits)

function processRequest ::
    "matcher \<Rightarrow> nat list \<Rightarrow> nat \<Rightarrow> 'z request_io_scheme \<Rightarrow> cache \<Rightarrow> (bool \<times> 'z request_io_scheme \<times> cache) res" where
  "processRequest m locals tid s t =
     (case state (requestInfo s) of
        READY_STATE \<Rightarrow> processRequest m locals tid (ready_step s) t
      | PARSING_HEADER \<Rightarrow>
          bind_res (header_step m s) (\<lambda>r.
            if fst r then processRequest m locals tid (snd r) t else Inr (False, snd r, t))
      | PARSING_DATA \<Rightarrow> data_step locals tid s t
      | DONE_STATE \<Rightarrow> processRequest m locals tid (s\<lparr>requestInfo := reset (requestInfo s)\<rparr>) t)"
  by pat_completeness auto
termination
proof (relation "measure (\<lambda>(m, locals, tid, s, t). state_rank (state (requestInfo s)))", goal_cases)
  case (3 m locals tid s t r)
  then show ?case using header_step_state[of m s "snd r"] by (simp add: state_rank_def prod_eq_iff)
qed (simp_all add: state_rank_def ready_step_def reset_def)

declare processRequest.simps [simp del]

end
