(* ===== verification/Session.thy ===== *)
theory Session
  imports Text_Protocol
begin

text \<open>
  A client session, \<open>src/src/Session.{hh,cpp}\<close>: \<open>process\<close> reads what the socket has, runs the requests
  in the input buffer, moves a partial request to the front of the buffer and sends the replies.
  \<open>recv\<close> and \<open>send\<close> of the operating system are parameters that act on a state \<open>'n\<close> of the network;
  pointers into the input buffer are offsets, so that growing the buffer moves none of them.
  \<open>fuel\<close> bounds the number of rounds of each loop.
\<close>

section \<open>The state\<close>

datatype SessionState = SESSION_READY_STATE | READING_REQUEST | WRITING_REPLY | WRITING_WITH_PENDING_READ

datatype SessionResult = SUCCESS | FAILURE | POSTPONED

record session = request_io +
  socket :: int
  sessionState :: SessionState
  outBufferOffset :: nat
  postponedEpollFlags :: nat

definition MIN_IN_BUFFER_SIZE :: nat where "MIN_IN_BUFFER_SIZE = 4 * 1024"
definition MIN_OUT_BUFFER_SIZE :: nat where "MIN_OUT_BUFFER_SIZE = 4 * 1024"
definition EPOLL_READ_THRESHOLD :: nat where "EPOLL_READ_THRESHOLD = 16 * 1024 * 1024"
definition EPOLLIN :: nat where "EPOLLIN = 1"
definition EPOLLOUT :: nat where "EPOLLOUT = 4"

text \<open>\<open>memset(&requestInfo, 0, \<dots>)\<close>: the zero of the request type is \<open>GET\<close>.\<close>

definition zeroed_info :: request_info where
  "zeroed_info = RequestInfo\<lparr>requestType := GET\<rparr>"

text \<open>The fields that \<open>reset\<close>, \<open>clear\<close> and the end of a batch of requests set to 0.\<close>

definition zero_offsets :: "session \<Rightarrow> session" where
  "zero_offsets s = s\<lparr>headerOffset := 0, headerLen := 0, headerBytesRequired := 0, dataOffset := 0, sessionDataLen := 0,
     dataBytesRequired := 0\<rparr>"

definition new_session :: session where
  "new_session = \<lparr>requestInfo = zeroed_info, inBuffer = replicate MIN_IN_BUFFER_SIZE 0, headerOffset = 0, headerLen = 0,
     headerBytesRequired = 0, dataOffset = 0, sessionDataLen = 0, dataBytesRequired = 0, inBufferOffset = 0, inBufferBytes = 0,
     outBuffer = replicate MIN_OUT_BUFFER_SIZE 0, outBufferBytes = 0, socket = - 1, sessionState = SESSION_READY_STATE,
     outBufferOffset = 0, postponedEpollFlags = 0\<rparr>"

definition reset_session :: "session \<Rightarrow> session" where
  "reset_session s = (zero_offsets s)\<lparr>sessionState := READING_REQUEST, inBufferBytes := 0, inBufferOffset := 0,
     outBufferBytes := 0, outBufferOffset := 0, postponedEpollFlags := 0, requestInfo := zeroed_info\<rparr>"

definition resize :: "nat \<Rightarrow> byte list \<Rightarrow> byte list" where
  "resize n b = take n b @ replicate (n - length b) 0"

definition clear_session :: "session \<Rightarrow> session" where
  "clear_session s = (zero_offsets s)\<lparr>socket := - 1, sessionState := SESSION_READY_STATE, inBufferBytes := 0, inBufferOffset := 0,
     outBufferBytes := 0, outBufferOffset := 0, postponedEpollFlags := 0, requestInfo := zeroed_info,
     inBuffer := resize MIN_IN_BUFFER_SIZE (inBuffer s), outBuffer := resize MIN_OUT_BUFFER_SIZE (outBuffer s)\<rparr>"

section \<open>Reading\<close>

datatype errno = EWOULDBLOCK | ECONNRESET | OTHER_ERRNO

text \<open>What \<open>recv\<close> returns: bytes (none when the peer is done), or -1 with an \<open>errno\<close>.\<close>

datatype recv_result = Received "byte list" | RecvError errno

datatype send_result = Sent nat | SendError errno

type_synonym 'n recv_fn = "nat \<Rightarrow> 'n \<Rightarrow> recv_result \<times> 'n"
type_synonym 'n send_fn = "byte list \<Rightarrow> 'n \<Rightarrow> send_result \<times> 'n"

text \<open>The doubling before the first \<open>recv\<close>: as long as the bytes announced do not fit behind the offset.\<close>

definition in_short :: "byte list \<Rightarrow> nat \<Rightarrow> nat \<Rightarrow> bool" where
  "in_short b off need \<longleftrightarrow>
     (if off \<le> length b then length b - off \<le> need else 2 ^ 64 - (off - length b) \<le> need)"

function grow_in :: "byte list \<Rightarrow> nat \<Rightarrow> nat \<Rightarrow> byte list res" where
  "grow_in b off need =
     (if in_short b off need
      then if b = [] then Inl Spins else grow_in (b @ replicate (length b) 0) off need
      else Inr b)"
  by pat_completeness auto
termination
  by (relation "measure (\<lambda>(b, off, need). need + off + 1 - length b)")
    (auto simp: in_short_def intro!: diff_less_mono2 split: if_splits)

declare grow_in.simps [simp del]

definition make_room :: "session \<Rightarrow> session res" where
  "make_room s =
     (let need = (dataBytesRequired s + headerBytesRequired s) mod 2 ^ 64 in
      if need > 0 \<or> length (inBuffer s) = inBufferOffset s
      then bind_res (grow_in (inBuffer s) (inBufferOffset s) need) (\<lambda>b. Inr (s\<lparr>inBuffer := b\<rparr>))
      else Inr s)"

definition may_stop_reading :: "session \<Rightarrow> bool" where
  "may_stop_reading s \<longleftrightarrow> state (requestInfo s) \<in> {DONE_STATE, READY_STATE, PARSING_HEADER}"

text \<open>
  The \<open>recv\<close> loop: the last result of \<open>recv\<close> (\<open>Received []\<close> when reading was broken off) and whether
  it was broken off. More bytes than were asked for is a write past the buffer.
\<close>

fun recv_loop :: "nat \<Rightarrow> 'n recv_fn \<Rightarrow> nat \<Rightarrow> session \<Rightarrow> 'n \<Rightarrow> (session \<times> recv_result \<times> bool \<times> 'n) res" where
  "recv_loop 0 recv bytesRead s net = Inl Spins"
| "recv_loop (Suc fuel) recv bytesRead s net =
     (case recv (length (inBuffer s) - inBufferBytes s) net of
        (Received bs, net) \<Rightarrow>
          if bs = [] then Inr (s, Received [], False, net)
          else if length (inBuffer s) < inBufferBytes s + length bs then Inl OutOfBounds
          else
            let s = s\<lparr>inBuffer := blit (inBuffer s) (inBufferBytes s) bs, inBufferBytes := inBufferBytes s + length bs\<rparr>;
                bytesRead = bytesRead + length bs
            in if EPOLL_READ_THRESHOLD \<le> bytesRead \<and> may_stop_reading s then Inr (s, Received [], True, net)
               else recv_loop fuel recv bytesRead
                 (if inBufferBytes s = length (inBuffer s)
                  then s\<lparr>inBuffer := inBuffer s @ replicate (length (inBuffer s)) 0\<rparr> else s) net
      | (RecvError e, net) \<Rightarrow> Inr (s, RecvError e, False, net))"

section \<open>Serving\<close>

text \<open>The processing loop with the number of requests it completed.\<close>

fun serve_loop :: "nat \<Rightarrow> matcher \<Rightarrow> nat list \<Rightarrow> nat \<Rightarrow> nat \<Rightarrow> session \<Rightarrow> cache \<Rightarrow> (nat \<times> session \<times> cache) res" where
  "serve_loop 0 m locals tid n s t = Inl Spins"
| "serve_loop (Suc fuel) m locals tid n s t =
     (if inBufferOffset s < inBufferBytes s
      then bind_res (processRequest m locals tid s t) (\<lambda>(ok, s, t).
             if ok then serve_loop fuel m locals tid (n + 1) s t else Inr (n, s, t))
      else Inr (n, s, t))"

text \<open>After at least one request: move a partial request to the front, or start with an empty buffer.\<close>

definition leftovers :: "session \<Rightarrow> session res" where
  "leftovers s =
     (if inBufferOffset s < inBufferBytes s \<and> state (requestInfo s) \<noteq> DONE_STATE then
        let rest = slice (inBuffer s) (inBufferOffset s) (inBufferBytes s)
        in Inr ((zero_offsets s)\<lparr>inBuffer := blit (inBuffer s) 0 rest, inBufferOffset := 0,
             requestInfo := reset (requestInfo s), inBufferBytes := length rest\<rparr>)
      else if inBufferOffset s = inBufferBytes s \<and> state (requestInfo s) \<in> {DONE_STATE, READY_STATE} then
        Inr ((zero_offsets s)\<lparr>inBufferBytes := 0, inBufferOffset := 0, requestInfo := reset (requestInfo s)\<rparr>)
      else Inl Aborted)"

section \<open>Writing\<close>

text \<open>The \<open>send\<close> loop; the result is that of the last \<open>send\<close> (\<open>Sent 0\<close> when there was none).\<close>

fun send_loop :: "nat \<Rightarrow> 'n send_fn \<Rightarrow> send_result \<Rightarrow> session \<Rightarrow> 'n \<Rightarrow> (send_result \<times> session \<times> 'n) res" where
  "send_loop 0 send r s net = Inl Spins"
| "send_loop (Suc fuel) send r s net =
     (if sub64 (outBufferBytes s) (outBufferOffset s) = 0 then Inr (r, s, net)
      else if length (outBuffer s) < outBufferBytes s \<or> outBufferBytes s < outBufferOffset s then Inl OutOfBounds
      else case send (slice (outBuffer s) (outBufferOffset s) (outBufferBytes s)) net of
             (Sent n, net) \<Rightarrow>
               if n = 0 then Inr (Sent 0, s, net)
               else send_loop fuel send (Sent n) (s\<lparr>outBufferOffset := outBufferOffset s + n\<rparr>) net
           | (SendError e, net) \<Rightarrow> Inr (SendError e, s, net))"

text \<open>What follows the loop. When all is sent, the session reads again; \<open>all_sent\<close> is the result for that.\<close>

definition after_send :: "SessionResult \<Rightarrow> send_result \<Rightarrow> session \<Rightarrow> SessionResult \<times> session" where
  "after_send all_sent r s =
     (case r of
        Sent n \<Rightarrow>
          if n = 0 then (FAILURE, s)
          else if outBufferBytes s = outBufferOffset s
          then (all_sent, s\<lparr>outBufferBytes := 0, outBufferOffset := 0, sessionState := READING_REQUEST\<rparr>)
          else (SUCCESS, s)
      | SendError e \<Rightarrow> if e = EWOULDBLOCK then (SUCCESS, s) else (FAILURE, s))"

definition write_out ::
    "nat \<Rightarrow> 'n send_fn \<Rightarrow> SessionResult \<Rightarrow> session \<Rightarrow> 'n \<Rightarrow> (SessionResult \<times> session \<times> 'n) res" where
  "write_out fuel send all_sent s net =
     bind_res (send_loop fuel send (Sent 0) s net) (\<lambda>(r, s, net).
     case after_send all_sent r s of (res, s) \<Rightarrow> Inr (res, s, net))"

section \<open>Events\<close>

text \<open>\<open>EPOLLIN\<close> while the session reads.\<close>

definition on_readable ::
    "nat \<Rightarrow> 'n recv_fn \<Rightarrow> 'n send_fn \<Rightarrow> matcher \<Rightarrow> nat list \<Rightarrow> nat \<Rightarrow> session \<Rightarrow> 'n \<Rightarrow> cache \<Rightarrow>
     (SessionResult \<times> session \<times> 'n \<times> cache) res" where
  "on_readable fuel recv send m locals tid s net t =
     bind_res (make_room s) (\<lambda>s.
     bind_res (recv_loop fuel recv 0 s net) (\<lambda>(s, r, readAborted, net).
     if r = RecvError ECONNRESET \<or> r = RecvError OTHER_ERRNO \<or> (r = Received [] \<and> inBufferBytes s = 0)
     then Inr (FAILURE, s, net, t)
     else
       bind_res (serve_loop fuel m locals tid 0 s t) (\<lambda>(elementsProcessed, s, t).
       if elementsProcessed = 0 then Inr (SUCCESS, s\<lparr>sessionState := READING_REQUEST\<rparr>, net, t)
       else
         bind_res (leftovers s) (\<lambda>s.
         if outBufferBytes s = outBufferOffset s
         then Inr (SUCCESS, s\<lparr>outBufferBytes := 0, outBufferOffset := 0, sessionState := READING_REQUEST\<rparr>, net, t)
         else
           let s = s\<lparr>sessionState := (if readAborted then WRITING_WITH_PENDING_READ else WRITING_REPLY)\<rparr>
           in bind_res (write_out fuel send (if readAborted then POSTPONED else SUCCESS) s net) (\<lambda>(res, s, net).
              Inr (res, s, net, t))))))"

definition on_in ::
    "nat \<Rightarrow> 'n recv_fn \<Rightarrow> 'n send_fn \<Rightarrow> matcher \<Rightarrow> nat list \<Rightarrow> nat \<Rightarrow> session \<Rightarrow> 'n \<Rightarrow> cache \<Rightarrow>
     (SessionResult \<times> session \<times> 'n \<times> cache) res" where
  "on_in fuel recv send m locals tid s net t =
     (if sessionState s \<in> {SESSION_READY_STATE, READING_REQUEST} then on_readable fuel recv send m locals tid s net t
      else Inr (SUCCESS, s\<lparr>sessionState := WRITING_WITH_PENDING_READ\<rparr>, net, t))"

text \<open>\<open>EPOLLOUT\<close>, with the result of the first half.\<close>

definition on_out ::
    "nat \<Rightarrow> 'n send_fn \<Rightarrow> SessionResult \<Rightarrow> session \<Rightarrow> 'n \<Rightarrow> (SessionResult \<times> session \<times> 'n) res" where
  "on_out fuel send res s net =
     bind_res (case sessionState s of
         WRITING_REPLY \<Rightarrow> write_out fuel send SUCCESS s net
       | WRITING_WITH_PENDING_READ \<Rightarrow> write_out fuel send POSTPONED (s\<lparr>sessionState := WRITING_REPLY\<rparr>) net
       | _ \<Rightarrow> if res \<noteq> POSTPONED then Inr (SUCCESS, s\<lparr>sessionState := READING_REQUEST\<rparr>, net) else Inr (res, s, net))
     (\<lambda>(res, s, net).
        Inr (res, if res = POSTPONED then s\<lparr>postponedEpollFlags := postponedEpollFlags s OR EPOLLIN\<rparr> else s, net))"

definition process ::
    "nat \<Rightarrow> 'n recv_fn \<Rightarrow> 'n send_fn \<Rightarrow> matcher \<Rightarrow> nat list \<Rightarrow> nat \<Rightarrow> nat \<Rightarrow> session \<Rightarrow> 'n \<Rightarrow> cache \<Rightarrow>
     (SessionResult \<times> session \<times> 'n \<times> cache) res" where
  "process fuel recv send m locals events tid s net t =
     (let s = s\<lparr>postponedEpollFlags := 0\<rparr> in
      bind_res (if events AND EPOLLIN \<noteq> 0 then on_in fuel recv send m locals tid s net t else Inr (FAILURE, s, net, t))
        (\<lambda>(res, s, net, t).
         if events AND EPOLLIN \<noteq> 0 \<and> res = FAILURE then Inr (FAILURE, s, net, t)
         else if events AND EPOLLOUT \<noteq> 0
         then bind_res (on_out fuel send res s net) (\<lambda>(res, s, net). Inr (res, s, net, t))
         else Inr (if events AND EPOLLIN \<noteq> 0 then res else FAILURE, s, net, t)))"

end
