(* ===== verification/Text_Output.thy ===== *)
theory Text_Output
  imports Text_Protocol
begin

text \<open>
  What the output side of the text protocol writes: every helper appends its bytes behind those
  already in the buffer, growing it as needed, and never writes outside it.
\<close>

section \<open>Appending\<close>

text \<open>
  \<open>emits s ob ob'\<close>: the second buffer holds the first one's bytes followed by \<open>s\<close>. \<open>room\<close> is the
  number of bytes that fit without growing; \<open>out_ok\<close> is what every request relies on and restores:
  there is always room for the final NUL.
\<close>

definition emits :: "byte list \<Rightarrow> outbuf \<Rightarrow> outbuf \<Rightarrow> bool" where
  "emits s ob ob' \<longleftrightarrow> snd ob' = snd ob + length s \<and> snd ob' \<le> length (fst ob') \<and>
     take (snd ob') (fst ob') = take (snd ob) (fst ob) @ s \<and> length (fst ob) \<le> length (fst ob')"

definition room :: "outbuf \<Rightarrow> nat" where "room ob = length (fst ob) - snd ob"

definition out_ok :: "outbuf \<Rightarrow> bool" where "out_ok ob \<longleftrightarrow> snd ob < length (fst ob)"

lemma emits_trans: "emits s ob ob1 \<Longrightarrow> emits s' ob1 ob2 \<Longrightarrow> emits (s @ s') ob ob2"
  by (clarsimp simp: emits_def)

lemma grow_run:
  assumes "used < length out"
  shows "\<exists>z. grow out used need = Inr (out @ z) \<and> need \<le> length (out @ z) - used"
  using assms
proof (induction out used need rule: grow.induct)
  case (1 out used need)
  show ?case
  proof (cases "out_short out used need")
    case True
    then obtain z where "grow (out @ replicate (length out) 0) used need = Inr ((out @ replicate (length out) 0) @ z)"
        "need \<le> length ((out @ replicate (length out) 0) @ z) - used"
      using 1 by fastforce
    then show ?thesis using True 1(2) by (subst grow.simps) auto
  next
    case False
    then show ?thesis using 1(2) by (subst grow.simps) (auto simp: out_short_def)
  qed
qed

lemma put_bytes_run:
  assumes "snd ob \<le> length (fst ob)" and "length s + R \<le> room ob"
  shows "\<exists>ob'. put_bytes s ob = Inr ob' \<and> emits s ob ob' \<and> R \<le> room ob'"
  using assms by (cases ob) (auto simp: put_bytes_def emits_def room_def blit_def)

lemma put_num_run:
  assumes "snd ob \<le> length (fst ob)" and "length (decimal v) + R \<le> room ob" and "0 < R"
  shows "\<exists>ob'. put_num v ob = Inr ob' \<and> emits (decimal v) ob ob' \<and> R \<le> room ob' \<and> fst ob' ! snd ob' = 32"
  using assms itoa_run[of v "drop (snd ob) (fst ob)"]
  by (cases ob) (auto simp: put_num_def emits_def room_def nth_append)

text \<open>The space that \<open>itoa\<close> leaves behind the digits becomes part of the reply.\<close>

lemma emits_space:
  assumes "emits s ob ob'" and "fst ob' ! snd ob' = 32" and "Suc R \<le> room ob'"
  shows "emits (s @ [32]) ob (fst ob', snd ob' + 1)" and "R \<le> room (fst ob', snd ob' + 1)"
  using assms by (auto simp: emits_def room_def take_Suc_conv_app_nth)

lemma emits_used: "emits s ob ob' \<Longrightarrow> snd ob' \<le> length (fst ob')" by (simp add: emits_def)

lemma put_reply_run:
  assumes "out_ok ob"
  shows "\<exists>ob'. put_reply s ob = Inr ob' \<and> emits s ob ob' \<and> out_ok ob'"
proof -
  obtain out used where ob: "ob = (out, used)" by (cases ob)
  then obtain z where z: "grow out used (length s + 1) = Inr (out @ z)" "length s + 1 \<le> length (out @ z) - used"
    using grow_run[of used out "length s + 1"] assms by (auto simp: out_ok_def)
  obtain ob' where ob': "put_bytes s (out @ z, used) = Inr ob'" "emits s (out @ z, used) ob'" "1 \<le> room ob'"
    using put_bytes_run[of "(out @ z, used)" s 1] z(2) assms ob by (auto simp: room_def out_ok_def)
  have "emits s ob ob'" using ob'(2) ob assms by (auto simp: emits_def out_ok_def)
  moreover have "out_ok ob'" using ob'(2,3) z(2) by (auto simp: out_ok_def room_def emits_def)
  ultimately show ?thesis using ob' z(1) by (auto simp: put_reply_def ob)
qed

section \<open>The reply for one key\<close>

definition value_block :: "byte list \<Rightarrow> storage_value \<Rightarrow> byte list" where
  "value_block k sv = asc ''VALUE '' @ strncpy_all k @ [32] @ decimal (unat (sv_flags sv)) @ [32] @
     decimal (length (sv_value sv)) @ crlf @ strncpy_all (sv_value sv) @ crlf"

lemma strncpy_all_length [simp]: "length (strncpy_all s) = length s"
  using length_takeWhile_le[of "\<lambda>c. c \<noteq> 0" s] by (simp add: strncpy_all_def c_string_def)

lemma strncpy_all_nul_free: "nul_free s \<Longrightarrow> strncpy_all s = s"
proof -
  assume "nul_free s"
  then have "c_string s = s" unfolding c_string_def nul_free_def takeWhile_eq_all_conv by metis
  then show ?thesis by (simp add: strncpy_all_def)
qed

lemma decimal_bounds:
  "length (decimal (unat (w :: 32 word))) \<le> 10" "n < 2 ^ 64 \<Longrightarrow> length (decimal n) \<le> 20"
proof -
  have "unat w < 2 ^ 32" using unsigned_less[of w] by simp
  then have "unat w < 10 ^ 10" by simp
  then show "length (decimal (unat w)) \<le> 10" by (rule decimal_length) simp
  assume "n < 2 ^ 64"
  then have "n < 10 ^ 20" by simp
  then show "length (decimal n) \<le> 20" by (rule decimal_length) simp
qed

lemma put_value_run:
  assumes ok: "out_ok ob" and n: "length (sv_value sv) < 2 ^ 64"
  shows "\<exists>ob'. put_value k sv ob = Inr ob' \<and> emits (value_block k sv) ob ob' \<and> out_ok ob'"
proof -
  let ?n = "length (sv_value sv)" and ?f = "unat (sv_flags sv)"
  let ?need = "length k + ?n + SOME_TEXT_LEN"
  obtain out used where ob: "ob = (out, used)" by (cases ob)
  then obtain z where z: "grow out used ?need = Inr (out @ z)" "?need \<le> room (out @ z, used)"
    using grow_run[of used out ?need] ok by (auto simp: out_ok_def room_def)
  note d = decimal_bounds(1)[of "sv_flags sv"] decimal_bounds(2)[OF n]
  have e0: "emits [] ob (out @ z, used)" using ok by (simp add: emits_def ob out_ok_def)
  have "length (asc ''VALUE '') + (length k + ?n + 122) \<le> room (out @ z, used)" using z(2) by (simp add: asc_def SOME_TEXT_LEN_def)
  from put_bytes_run[OF emits_used[OF e0] this] obtain b1 where
    b1: "put_bytes (asc ''VALUE '') (out @ z, used) = Inr b1" "emits (asc ''VALUE '') (out @ z, used) b1" "length k + ?n + 122 \<le> room b1" by blast
  have "length (strncpy_all k) + (?n + 122) \<le> room b1" using b1(3) by simp
  from put_bytes_run[OF emits_used[OF b1(2)] this] obtain b2 where
    b2: "put_bytes (strncpy_all k) b1 = Inr b2" "emits (strncpy_all k) b1 b2" "?n + 122 \<le> room b2" by blast
  have "length [32 :: byte] + (?n + 121) \<le> room b2" using b2(3) by simp
  from put_bytes_run[OF emits_used[OF b2(2)] this] obtain b3 where
    b3: "put_bytes [32] b2 = Inr b3" "emits [32] b2 b3" "?n + 121 \<le> room b3" by blast
  have "length (decimal ?f) + (?n + 111) \<le> room b3" using b3(3) d by linarith
  from put_num_run[OF emits_used[OF b3(2)] this] obtain b4 where
    b4: "put_num ?f b3 = Inr b4" "emits (decimal ?f) b3 b4" "?n + 111 \<le> room b4" "fst b4 ! snd b4 = 32" by auto
  let ?b5 = "(fst b4, snd b4 + 1)"
  have "Suc (?n + 110) \<le> room b4" using b4(3) by simp
  note b5 = emits_space[OF b4(2,4) this]
  have "length (decimal ?n) + (?n + 90) \<le> room ?b5" using b5(2) d by linarith
  from put_num_run[OF emits_used[OF b5(1)] this] obtain b6 where
    b6: "put_num ?n ?b5 = Inr b6" "emits (decimal ?n) ?b5 b6" "?n + 90 \<le> room b6" by auto
  have "length crlf + (?n + 88) \<le> room b6" using b6(3) by (simp add: crlf_def)
  from put_bytes_run[OF emits_used[OF b6(2)] this] obtain b7 where
    b7: "put_bytes crlf b6 = Inr b7" "emits crlf b6 b7" "?n + 88 \<le> room b7" by blast
  have "length (strncpy_all (sv_value sv)) + 88 \<le> room b7" using b7(3) by simp
  from put_bytes_run[OF emits_used[OF b7(2)] this] obtain b8 where
    b8: "put_bytes (strncpy_all (sv_value sv)) b7 = Inr b8" "emits (strncpy_all (sv_value sv)) b7 b8" "88 \<le> room b8" by blast
  have "length crlf + 86 \<le> room b8" using b8(3) by (simp add: crlf_def)
  from put_bytes_run[OF emits_used[OF b8(2)] this] obtain b9 where
    b9: "put_bytes crlf b8 = Inr b9" "emits crlf b8 b9" "86 \<le> room b9" by blast
  have "emits (value_block k sv) ob b9"
    using emits_trans[OF e0 emits_trans[OF b1(2) emits_trans[OF b2(2) emits_trans[OF b3(2) emits_trans[OF b5(1)
      emits_trans[OF b6(2) emits_trans[OF b7(2) emits_trans[OF b8(2) b9(2)]]]]]]]] by (simp add: value_block_def)
  moreover have "out_ok b9" using b9(3) by (simp add: out_ok_def room_def)
  moreover have "put_value k sv ob = Inr b9"
    using z(1) b1(1) b2(1) b3(1) b4(1) b6(1) b7(1) b8(1) b9(1) by (simp add: put_value_def ob split_beta)
  ultimately show ?thesis by blast
qed

end
