(* ===== verification/Text_Requests.thy ===== *)
theory Text_Requests
  imports Text_Output Cache_Props
begin

text \<open>
  Requests of the text protocol end to end: parsing a well-formed header, running the request on the
  cache, the reply, and the defects of the parser.
\<close>

section \<open>Scanning and cutting\<close>

lemma scan_run:
  assumes "cur \<le> p" and "p < length buf" and "stop (buf ! p) \<or> p = limit"
    and "\<And>i. cur \<le> i \<Longrightarrow> i < p \<Longrightarrow> \<not> stop (buf ! i) \<and> i \<noteq> limit"
  shows "scan stop buf limit cur = Inr p"
  using assms
proof (induction stop buf limit cur rule: scan.induct)
  case (1 stop buf limit cur)
  show ?case
  proof (cases "cur = p")
    case True
    then show ?thesis using 1 by (subst scan.simps) auto
  next
    case False
    then have c: "\<not> stop (buf ! cur) \<and> cur \<noteq> limit" "cur < length buf" using 1(2-5) by auto
    then have "scan stop buf limit (cur + 1) = Inr p" using 1(1)[of "buf ! cur"] 1(2-5) False by auto
    then show ?thesis using c by (subst scan.simps) simp
  qed
qed

text \<open>A word \<open>w\<close> that ends in a separator before the limit.\<close>

lemma scan_word:
  assumes "buf = pre @ w @ c # rest" and "\<forall>x \<in> set w. \<not> stop x" and "stop c" and "length pre + length w < limit"
  shows "scan stop buf limit (length pre) = Inr (length pre + length w)"
  using assms by (intro scan_run) (auto simp: nth_append)

lemma scan_word_at:
  assumes "buf = pre @ w @ c # rest" and "a = length pre" and "\<forall>x \<in> set w. \<not> stop x" and "stop c" and "a + length w < limit"
  shows "field stop buf limit a inc k = k (a + length w)"
  using scan_word[OF assms(1,3,4)] assms by (simp add: field_def)

lemma slice_word: "buf = pre @ w @ rest \<Longrightarrow> a = length pre \<Longrightarrow> b = a + length w \<Longrightarrow> slice buf a b = w"
  by (simp add: slice_def)

lemma decimal_no_sep: "\<forall>x \<in> set (decimal v). \<not> is_sp x" "\<forall>x \<in> set (decimal v). \<not> is_sp_cr x"
  using decimal_digits[of v] by (auto simp: digits_def is_sp_def is_sp_cr_def)

lemma decimal_readers:
  "v < 2 ^ 16 \<Longrightarrow> atous (decimal v) = of_nat v" "v < 2 ^ 31 \<Longrightarrow> atoui (decimal v) = Inr (of_nat v)"
proof -
  assume v: "v < 2 ^ 16"
  then have "length (decimal v) \<le> 5" by (intro decimal_length) simp_all
  then show "atous (decimal v) = of_nat v" using v decimal_digits[of v]
    by (simp add: atous_def switch_text_short fall_through_dec decimal_value unsigned_of_nat take_bit_eq_mod)
next
  assume v: "v < 2 ^ 31"
  then have "length (decimal v) \<le> 10" by (intro decimal_length) simp_all
  then show "atoui (decimal v) = Inr (of_nat v)" using v fall_int_dec[OF decimal_digits, of 0 v]
    by (simp add: atoui_def switch_text_short decimal_value)
qed

section \<open>Headers\<close>

definition store_header :: "byte list \<Rightarrow> byte list \<Rightarrow> nat \<Rightarrow> nat \<Rightarrow> nat \<Rightarrow> byte list" where
  "store_header cmd k f e n = cmd @ [32] @ k @ [32] @ decimal f @ [32] @ decimal e @ [32] @ decimal n"

definition word_ok :: "byte list \<Rightarrow> bool" where
  "word_ok k \<longleftrightarrow> 32 \<notin> set k \<and> 13 \<notin> set k \<and> length k < 2 ^ 16"

definition stored_info :: "request_info \<Rightarrow> CacheRequestType \<Rightarrow> nat \<Rightarrow> byte list \<Rightarrow> nat \<Rightarrow> nat \<Rightarrow> nat \<Rightarrow> request_info" where
  "stored_info ri ty pk k f e n = ri\<lparr>requestType := ty, pKeyBuffer := Some pk, keyBufferLen := of_nat (length k),
     flags := of_nat f, expTime := of_nat e, dataLen := n\<rparr>"

lemma parseStore_run:
  assumes buf: "buf = pre @ [32] @ k @ [32] @ decimal f @ [32] @ decimal e @ [32] @ decimal n @ c # rest"
    and c: "is_sp_cr c" and k: "word_ok k" and f: "f < 2 ^ 16" and e: "e < 2 ^ 31" and n: "n < 2 ^ 64"
    and ty: "requestType ri \<noteq> CAS"
    and lim: "length pre + length ([32] @ k @ [32] @ decimal f @ [32] @ decimal e @ [32] @ decimal n :: byte list) < limit"
  shows "parseStore buf limit pEnd (length pre) ri =
    parseStoreEnd buf (length (pre @ [32] @ k @ [32] @ decimal f @ [32] @ decimal e @ [32] @ decimal n :: byte list))
      (stored_info ri (requestType ri) (length pre + 1) k f e n)"
proof -
  let ?p0 = "pre @ [32] :: byte list" and ?p1 = "pre @ [32] @ k @ [32]" and ?p2 = "pre @ [32] @ k @ [32] @ decimal f @ [32]"
  let ?p3 = "pre @ [32] @ k @ [32] @ decimal f @ [32] @ decimal e @ [32]"
  have ws: "\<forall>x \<in> set k. \<not> is_sp x" using k by (auto simp: word_ok_def is_sp_def)
  have s1: "field is_sp buf limit (length pre + 1) inc K = K (length pre + 1 + length k)" for inc K
    by (rule scan_word_at[of _ ?p0 k 32 "decimal f @ [32] @ decimal e @ [32] @ decimal n @ c # rest"])
      (use buf ws lim in \<open>simp_all add: is_sp_def\<close>)
  have s2: "field is_sp buf limit (length pre + 1 + length k + 1) inc K = K (length pre + 1 + length k + 1 + length (decimal f))" for inc K
    by (rule scan_word_at[of _ ?p1 "decimal f" 32 "decimal e @ [32] @ decimal n @ c # rest"])
      (use buf lim decimal_no_sep(1)[of f] in \<open>simp_all add: is_sp_def\<close>)
  have s3: "field is_sp buf limit (length pre + 1 + length k + 1 + length (decimal f) + 1) inc K =
      K (length pre + 1 + length k + 1 + length (decimal f) + 1 + length (decimal e))" for inc K
    by (rule scan_word_at[of _ ?p2 "decimal e" 32 "decimal n @ c # rest"])
      (use buf lim decimal_no_sep(1)[of e] in \<open>simp_all add: is_sp_def\<close>)
  have s4: "field is_sp_cr buf limit (length pre + 1 + length k + 1 + length (decimal f) + 1 + length (decimal e) + 1) inc K =
      K (length pre + 1 + length k + 1 + length (decimal f) + 1 + length (decimal e) + 1 + length (decimal n))" for inc K
    by (rule scan_word_at[of _ ?p3 "decimal n" c rest])
      (use buf lim c decimal_no_sep(2)[of n] in \<open>simp_all\<close>)
  have l1: "slice buf (length pre + 1 + length k + 1) (length pre + 1 + length k + 1 + length (decimal f)) = decimal f"
    by (rule slice_word[of _ ?p1 _ "[32] @ decimal e @ [32] @ decimal n @ c # rest"]) (use buf in simp_all)
  have l2: "slice buf (length pre + 1 + length k + 1 + length (decimal f) + 1)
      (length pre + 1 + length k + 1 + length (decimal f) + 1 + length (decimal e)) = decimal e"
    by (rule slice_word[of _ ?p2 _ "[32] @ decimal n @ c # rest"]) (use buf in simp_all)
  have l3: "slice buf (length pre + 1 + length k + 1 + length (decimal f) + 1 + length (decimal e) + 1)
      (length pre + 1 + length k + 1 + length (decimal f) + 1 + length (decimal e) + 1 + length (decimal n)) = decimal n"
    by (rule slice_word[of _ ?p3 _ "c # rest"]) (use buf in simp_all)
  have un: "unat (of_nat n :: 64 word) = n" using n by (simp add: unat_of_nat take_bit_eq_mod)
  have "parseStore buf limit pEnd (length pre) ri =
      parseStoreEnd buf (length pre + 1 + length k + 1 + length (decimal f) + 1 + length (decimal e) + 1 + length (decimal n))
        (ri\<lparr>pKeyBuffer := Some (length pre + 1), keyBufferLen := of_nat (length k), flags := of_nat f, expTime := of_nat e, dataLen := n\<rparr>)"
    unfolding parseStore_def Let_def s1 s2 s3 s4 l1 l2 l3
    using ty by (simp add: decimal_readers(1)[OF f] decimal_readers(2)[OF e] decimal_atoull[OF n] un)
  then show ?thesis by (simp add: stored_info_def add.assoc)
qed

lemma commands_no_sep: "i < 16 \<Longrightarrow> \<forall>x \<in> set (memcachedCommands ! i). \<not> is_sp_cr x"
proof -
  have "\<forall>i \<in> set [0..<16]. \<forall>x \<in> set (memcachedCommands ! i). \<not> is_sp_cr x" by code_simp
  then show "i < 16 \<Longrightarrow> \<forall>x \<in> set (memcachedCommands ! i). \<not> is_sp_cr x" by (simp del: upt_rec_numeral)
qed

text \<open>Up to the command, whatever follows it.\<close>

lemma parse_command:
  assumes m: "server_matcher = Inr m" and i: "i < 16" and c: "is_sp_cr c"
    and buf: "buf = pre @ memcachedCommands ! i @ c # rest" and lim: "length (pre @ memcachedCommands ! i) < length pre + n"
  shows "parseMemcachedHeader m buf (length pre) n ri =
    (let ri = ri\<lparr>requestType := request_of i\<rparr>; limit = length pre + n; cur = length (pre @ memcachedCommands ! i) in
     case requestType ri of
       SET \<Rightarrow> parseStore buf limit (length pre) cur ri | ADD \<Rightarrow> parseStore buf limit (length pre) cur ri
     | REPLACE \<Rightarrow> parseStore buf limit (length pre) cur ri | APPEND \<Rightarrow> parseStore buf limit (length pre) cur ri
     | PREPEND \<Rightarrow> parseStore buf limit (length pre) cur ri | CAS \<Rightarrow> parseStore buf limit (length pre) cur ri
     | GET \<Rightarrow> parseGet buf limit (length pre) cur ri | GETS \<Rightarrow> parseGet buf limit (length pre) cur ri
     | STATS \<Rightarrow> Inr (True, cur + 2, ri) | _ \<Rightarrow> Inl Aborted)"
proof -
  have s: "field is_sp_cr buf (length pre + n) (length pre) inc K = K (length pre + length (memcachedCommands ! i))" for inc K
    by (rule scan_word_at[of _ pre "memcachedCommands ! i" c rest]) (use buf lim c commands_no_sep[OF i] in simp_all)
  have sl: "slice buf (length pre) (length pre + length (memcachedCommands ! i)) = memcachedCommands ! i"
    by (rule slice_word[of _ pre _ "c # rest"]) (use buf in simp_all)
  show ?thesis unfolding parseMemcachedHeader_def Let_def s sl server_match_command[OF m i] length_append by simp
qed

lemma parse_store_header:
  assumes m: "server_matcher = Inr m" and i: "i \<in> {1, 2, 4}" and c: "is_sp_cr c"
    and k: "word_ok k" and f: "f < 2 ^ 16" and e: "e < 2 ^ 31" and n: "n < 2 ^ 64"
    and buf: "buf = pre @ store_header (memcachedCommands ! i) k f e n @ c # rest"
    and lim: "length (pre @ store_header (memcachedCommands ! i) k f e n) < length pre + l"
  shows "parseMemcachedHeader m buf (length pre) l ri =
    parseStoreEnd buf (length (pre @ store_header (memcachedCommands ! i) k f e n))
      (stored_info ri (request_of i) (length (pre @ memcachedCommands ! i) + 1) k f e n)"
proof -
  let ?pre = "pre @ memcachedCommands ! i" and ?r = "ri\<lparr>requestType := request_of i\<rparr>"
  let ?tail = "k @ [32] @ decimal f @ [32] @ decimal e @ [32] @ decimal n @ c # rest"
  have b: "buf = pre @ memcachedCommands ! i @ 32 # ?tail" using buf by (simp add: store_header_def)
  have "parseStore buf (length pre + l) (length pre) (length ?pre) ?r =
      parseStoreEnd buf (length (pre @ store_header (memcachedCommands ! i) k f e n))
        (stored_info ?r (request_of i) (length ?pre + 1) k f e n)"
    using parseStore_run[of buf ?pre k f e n c rest ?r "length pre + l" "length pre", OF _ c k f e n] buf lim i
    by (auto simp: store_header_def request_of_def)
  moreover have "stored_info ?r (request_of i) (length ?pre + 1) k f e n = stored_info ri (request_of i) (length ?pre + 1) k f e n"
    by (simp add: stored_info_def)
  moreover have "length ?pre < length pre + l" using lim by (simp add: store_header_def)
  ultimately show ?thesis
    using parse_command[OF m _ _ b, of l ri] i by (auto simp: is_sp_cr_def request_of_def Let_def)
qed

section \<open>The states of a request\<close>

definition fresh :: "'z request_io_scheme \<Rightarrow> bool" where
  "fresh s \<longleftrightarrow> state (requestInfo s) = DONE_STATE \<or> requestInfo s = RequestInfo"

text \<open>The unread input starts with \<open>x\<close>; one byte of the buffer behind the input is readable.\<close>

definition pending :: "'z request_io_scheme \<Rightarrow> byte list \<Rightarrow> bool" where
  "pending s x \<longleftrightarrow> (\<exists>pre rest. inBuffer s = pre @ x @ rest \<and> inBufferOffset s = length pre \<and>
     length pre + length x \<le> inBufferBytes s) \<and> inBufferBytes s < length (inBuffer s) \<and> length (inBuffer s) < 2 ^ 64"

definition started :: "'z request_io_scheme \<Rightarrow> 'z request_io_scheme" where
  "started s = s\<lparr>headerBytesRequired := 32, requestInfo := RequestInfo\<lparr>state := PARSING_HEADER\<rparr>\<rparr>"

lemma process_fresh:
  assumes "fresh s"
  shows "processRequest m l tid s t = bind_res (header_step m (started s)) (\<lambda>r.
    if fst r then data_step l tid (snd r) t else Inr (False, snd r, t))"
proof -
  have h: "processRequest m l tid (started s) t = bind_res (header_step m (started s)) (\<lambda>r.
      if fst r then data_step l tid (snd r) t else Inr (False, snd r, t))"
  proof (cases "header_step m (started s)")
    case (Inr r)
    have "processRequest m l tid (snd r) t = data_step l tid (snd r) t" if "fst r"
    proof -
      have "state (requestInfo (snd r)) = PARSING_DATA" using header_step_state[of m "started s" "snd r"] Inr that by (cases r) simp
      then show ?thesis by (subst processRequest.simps) simp
    qed
    then show ?thesis using Inr by (subst processRequest.simps) (simp add: started_def RequestInfo_def)
  qed (subst processRequest.simps, simp add: started_def RequestInfo_def)
  have r: "processRequest m l tid (s\<lparr>requestInfo := RequestInfo\<rparr>) t = processRequest m l tid (started s) t"
    by (subst processRequest.simps) (simp add: RequestInfo_def ready_step_def started_def)
  show ?thesis
  proof (cases "requestInfo s = RequestInfo")
    case True
    then have "s\<lparr>requestInfo := RequestInfo\<rparr> = s" by simp
    then show ?thesis using r h by simp
  next
    case False
    then have "processRequest m l tid s t = processRequest m l tid (s\<lparr>requestInfo := RequestInfo\<rparr>) t"
      using assms by (subst processRequest.simps) (simp add: fresh_def reset_initial)
    then show ?thesis using r h by simp
  qed
qed

lemma sub64_le:
  assumes "b \<le> a" and "a < 2 ^ 64"
  shows "sub64 a b = a - b"
proof -
  have "a + 2 ^ 64 - b = (a - b) + 2 ^ 64" using assms(1) by simp
  then show ?thesis unfolding sub64_def using assms(2) by (simp only: mod_add_self2) simp
qed

section \<open>Storing\<close>

lemma store_end:
  assumes "buf ! p = c" and "p < length buf"
  shows "parseStoreEnd buf p ri =
    (if c = 32 then Inr (True, p + 9, ri\<lparr>requestFlags := requestFlags ri OR NOREPLY, pDataBuffer := Some (p + 9)\<rparr>)
     else Inr (True, p + 2, ri\<lparr>pDataBuffer := Some (p + 2)\<rparr>))"
  using assms by (simp add: parseStoreEnd_def)

text \<open>The header of a store, ended by \<open>c\<close>, parsed in the session; \<open>q\<close> is where the data starts.\<close>

lemma header_step_store:
  assumes m: "server_matcher = Inr m" and i: "i \<in> {1, 2, 4}" and c: "c = 13 \<or> c = 32"
    and k: "word_ok k" and f: "f < 2 ^ 16" and e: "e < 2 ^ 31" and n: "n + 2 < 2 ^ 64"
    and buf: "inBuffer s = pre @ store_header (memcachedCommands ! i) k f e n @ c # rest" and off: "inBufferOffset s = length pre"
    and lim: "length (pre @ store_header (memcachedCommands ! i) k f e n) < inBufferBytes s"
    and q: "q = length (pre @ store_header (memcachedCommands ! i) k f e n) + (if c = 32 then 9 else 2)"
  shows "\<exists>s'. header_step m s = Inr (True, s') \<and> inBuffer s' = inBuffer s \<and> inBufferOffset s' = inBufferOffset s \<and>
    inBufferBytes s' = inBufferBytes s \<and> outBuffer s' = outBuffer s \<and> outBufferBytes s' = outBufferBytes s \<and>
    headerLen s' = q - length pre \<and> dataOffset s' = q \<and> sessionDataLen s' = (if n = 0 then 0 else n + 2) \<and>
    requestInfo s' = (stored_info (requestInfo s) (request_of i) (length (pre @ memcachedCommands ! i) + 1) k f e n)
      \<lparr>pDataBuffer := Some q, requestFlags := (if c = 32 then requestFlags (requestInfo s) OR NOREPLY else requestFlags (requestInfo s)),
       state := PARSING_DATA\<rparr>"
proof -
  let ?H = "store_header (memcachedCommands ! i) k f e n" and ?l = "inBufferBytes s - length pre"
  have p: "inBuffer s ! length (pre @ ?H) = c" "length (pre @ ?H) < length (inBuffer s)" unfolding buf by (simp_all add: nth_append)
  let ?ri = "stored_info (requestInfo s) (request_of i) (length (pre @ memcachedCommands ! i) + 1) k f e n"
  let ?rf = "if c = 32 then requestFlags (requestInfo s) OR NOREPLY else requestFlags (requestInfo s)"
  have "parseMemcachedHeader m (inBuffer s) (length pre) ?l (requestInfo s) = parseStoreEnd (inBuffer s) (length (pre @ ?H)) ?ri"
    by (rule parse_store_header[OF m i _ k f e _ buf]) (use c n lim in \<open>auto simp: is_sp_cr_def\<close>)
  also have "\<dots> = Inr (True, q, ?ri\<lparr>pDataBuffer := Some q, requestFlags := ?rf\<rparr>)"
    unfolding store_end[OF p] q using c by (auto simp: stored_info_def)
  finally have P: "parseMemcachedHeader m (inBuffer s) (inBufferOffset s) (inBufferBytes s - inBufferOffset s) (requestInfo s) =
      Inr (True, q, ?ri\<lparr>pDataBuffer := Some q, requestFlags := ?rf\<rparr>)" unfolding off .
  have "length pre < inBufferBytes s" "length pre \<le> q" using lim q by simp_all
  moreover have "(n + 2) mod 2 ^ 64 = n + 2" by (rule mod_less[OF n])
  moreover have "dataLen ?ri = n" by (simp add: stored_info_def)
  ultimately show ?thesis unfolding header_step_def P using off by (simp add: Let_def)
qed

definition store_op :: "CacheRequestType \<Rightarrow> byte list \<Rightarrow> storage_value \<Rightarrow> nat \<Rightarrow> cache_op" where
  "store_op ty k v e = (case ty of ADD \<Rightarrow> OInsert k v e | REPLACE \<Rightarrow> OSet k v e | _ \<Rightarrow> OInsertOrSet k v e)"

definition store_answer :: "CacheRequestType \<Rightarrow> reply \<Rightarrow> byte list" where
  "store_answer ty r = (case ty of
     ADD \<Rightarrow> if r = RBool True then asc ''STORED'' else asc ''EXISTS''
   | REPLACE \<Rightarrow> if r = RBool True then asc ''STORED'' else asc ''NOT_STORED''
   | _ \<Rightarrow> asc ''STORED'')"

abbreviation out_of :: "'z request_io_scheme \<Rightarrow> outbuf" where
  "out_of s \<equiv> (outBuffer s, outBufferBytes s)"

lemma answer_run:
  assumes "out_ok ob" and "requestFlags ri AND NOREPLY = 0"
  shows "\<exists>ob'. answer ri w ob = Inr ob' \<and> emits (w @ crlf) ob ob' \<and> out_ok ob'"
  using put_reply_run[OF assms(1), of "w @ crlf"] assms(2) by (simp add: answer_def)

lemma handle_store:
  assumes ty: "requestType ri \<in> {SET, ADD, REPLACE}" and k: "req_key ri buf = Inr k" and v: "req_value ri buf = Inr v"
    and nr: "requestFlags ri AND NOREPLY = 0" and inv: "table_inv string_hash nul_free t C"
    and ok: "op_ok t C tid (store_op (requestType ri) k v (unat (expTime ri)))" and ob: "out_ok ob"
  shows "\<exists>ob' t' C' r. handle l tid ri buf ob t = Inr (ob', t') \<and> emits (store_answer (requestType ri) r @ crlf) ob ob' \<and>
    out_ok ob' \<and> spec_step (store_op (requestType ri) k v (unat (expTime ri))) (contents t) r (contents t') \<and>
    same_shape t t' \<and> table_inv string_hash nul_free t' C' \<and>
    exec_op tid (store_op (requestType ri) k v (unat (expTime ri))) t = Inr (r, t')"
proof -
  obtain r t' C' where x: "exec_op tid (store_op (requestType ri) k v (unat (expTime ri))) t = Inr (r, t')"
      "spec_step (store_op (requestType ri) k v (unat (expTime ri))) (contents t) r (contents t')"
      "same_shape t t'" "table_inv string_hash nul_free t' C'" using op_refines[OF inv ok] by blast
  obtain ob' where a: "answer ri (store_answer (requestType ri) r) ob = Inr ob'"
      "emits (store_answer (requestType ri) r @ crlf) ob ob'" "out_ok ob'" using answer_run[OF ob nr] by blast
  have "handle l tid ri buf ob t = Inr (ob', t')"
  proof -
    consider (set) "requestType ri = SET" | (add) "requestType ri = ADD" | (repl) "requestType ri = REPLACE" using ty by blast
    then show ?thesis
    proof cases
      case set
      then obtain b where "insertOrSet string_hash sso_eq tid k v (unat (expTime ri)) t = Inr (b, t')"
        using x(1) by (auto simp: store_op_def bind_res_Inr_iff)
      then show ?thesis using set a(1) k v by (simp add: handle_def do_set_def store_answer_def)
    next
      case add
      then obtain b where "insert_kv string_hash sso_eq tid k v (unat (expTime ri)) t = Inr (b, t')" "r = RBool b"
        using x(1) by (auto simp: store_op_def bind_res_Inr_iff)
      then show ?thesis using add a(1) k v by (simp add: handle_def do_add_def store_answer_def)
    next
      case repl
      then obtain b where "set_kv string_hash sso_eq tid k v (unat (expTime ri)) t = Inr (b, t')" "r = RBool b"
        using x(1) by (auto simp: store_op_def bind_res_Inr_iff)
      then show ?thesis using repl a(1) k v by (simp add: handle_def do_replace_def store_answer_def)
    qed
  qed
  then show ?thesis using a x by blast
qed

text \<open>The data behind the header is complete and ends in CR LF: the request runs.\<close>

lemma data_step_run:
  assumes off: "sessionDataLen s = 0 \<or> inBufferOffset s + headerLen s + sessionDataLen s \<le> inBufferBytes s \<and> inBufferBytes s < 2 ^ 64"
    and wrap: "inBufferOffset s + headerLen s + sessionDataLen s < 2 ^ 64" "dataOffset s + sessionDataLen s < 2 ^ 64 \<or> sessionDataLen s = 0"
    and end_ok: "sessionDataLen s = 0 \<or> dataOffset s + sessionDataLen s \<le> length (inBuffer s) \<and> 2 \<le> sessionDataLen s \<and>
      inBuffer s ! (dataOffset s + sessionDataLen s - 2) = 13 \<and> inBuffer s ! (dataOffset s + sessionDataLen s - 1) = 10"
    and run: "handle l tid (requestInfo s) (inBuffer s) (out_of s) t = Inr (ob', t')" and ok: "out_ok ob'" and em: "emits w (out_of s) ob'"
  shows "\<exists>s'. data_step l tid s t = Inr (True, s', t') \<and> fresh s' \<and> inBuffer s' = inBuffer s \<and> inBufferBytes s' = inBufferBytes s \<and>
    inBufferOffset s' = inBufferOffset s + headerLen s + sessionDataLen s \<and> emits w (out_of s) (out_of s') \<and> out_ok (out_of s')"
proof -
  obtain out used where o: "ob' = (out, used)" by (cases ob')
  have u: "used < length out" using ok o by (simp add: out_ok_def)
  have "sessionDataLen s \<le> sub64 (sub64 (inBufferBytes s) (inBufferOffset s)) (headerLen s)"
    using off by (auto simp: sub64_le)
  moreover have "emits w (out_of s) (out[used := 0], used)" "out_ok (out[used := 0], used)"
    using em u o by (auto simp: emits_def out_ok_def)
  moreover have "(inBufferOffset s + sessionDataLen s + headerLen s) mod 2 ^ 64 = inBufferOffset s + headerLen s + sessionDataLen s"
    using wrap(1) by (simp only: mod_less add_ac)
  moreover have "sessionDataLen s \<noteq> 0 \<Longrightarrow> sub64 (dataOffset s + sessionDataLen s) 2 = dataOffset s + sessionDataLen s - 2"
    "sessionDataLen s \<noteq> 0 \<Longrightarrow> sub64 (dataOffset s + sessionDataLen s) 1 = dataOffset s + sessionDataLen s - 1"
    using wrap(2) end_ok by (auto intro!: sub64_le)
  ultimately show ?thesis using end_ok run o u by (auto simp: data_step_def Let_def fresh_def)
qed

definition store_request :: "nat \<Rightarrow> byte list \<Rightarrow> nat \<Rightarrow> nat \<Rightarrow> byte list \<Rightarrow> byte list" where
  "store_request i k f e d = store_header (memcachedCommands ! i) k f e (length d) @ crlf @ d @ crlf"

definition store_value :: "byte list \<Rightarrow> nat \<Rightarrow> storage_value" where
  "store_value d f = \<lparr>sv_value = d, casTicket = 0, sv_flags = of_nat f\<rparr>"

lemma store_request_run:
  assumes m: "server_matcher = Inr m" and i: "i \<in> {1, 2, 4}" and fr: "fresh s" and pend: "pending s (store_request i k f e d)"
    and k: "word_ok k" and f: "f < 2 ^ 16" and e: "e < 2 ^ 31"
    and inv: "table_inv string_hash nul_free t C" and ok: "op_ok t C tid (store_op (request_of i) k (store_value d f) e)"
    and ob: "out_ok (out_of s)"
  shows "\<exists>s' t' C' r. processRequest m l tid s t = Inr (True, s', t') \<and> fresh s' \<and> inBuffer s' = inBuffer s \<and>
    inBufferBytes s' = inBufferBytes s \<and> inBufferOffset s' = inBufferOffset s + length (store_request i k f e d) - (if d = [] then 2 else 0) \<and>
    emits (store_answer (request_of i) r @ crlf) (out_of s) (out_of s') \<and> out_ok (out_of s') \<and>
    spec_step (store_op (request_of i) k (store_value d f) e) (contents t) r (contents t') \<and>
    same_shape t t' \<and> table_inv string_hash nul_free t' C' \<and>
    exec_op tid (store_op (request_of i) k (store_value d f) e) t = Inr (r, t')"
proof -
  let ?H = "store_header (memcachedCommands ! i) k f e (length d)" and ?n = "length d"
  obtain pre rest where b: "inBuffer s = pre @ ?H @ crlf @ d @ crlf @ rest" "inBufferOffset s = length pre"
      "length pre + length (?H @ crlf @ d @ crlf) \<le> inBufferBytes s" "inBufferBytes s < length (inBuffer s)" "length (inBuffer s) < 2 ^ 64"
    using pend by (auto simp: pending_def store_request_def)
  let ?q = "length (pre @ ?H) + 2"
  have n: "?n + 2 < 2 ^ 64" using b(1,5) by (simp add: crlf_def)
  obtain s1 where s1: "header_step m (started s) = Inr (True, s1)" "inBuffer s1 = inBuffer s" "inBufferOffset s1 = length pre"
      "inBufferBytes s1 = inBufferBytes s" "out_of s1 = out_of s" "headerLen s1 = ?q - length pre" "dataOffset s1 = ?q"
      "sessionDataLen s1 = (if d = [] then 0 else ?n + 2)"
      "requestInfo s1 = (stored_info (RequestInfo\<lparr>state := PARSING_HEADER\<rparr>) (request_of i) (length (pre @ memcachedCommands ! i) + 1) k f e ?n)
        \<lparr>pDataBuffer := Some ?q, requestFlags := 0, state := PARSING_DATA\<rparr>"
    using header_step_store[OF m i, of 13 k f e ?n "started s" pre "[10] @ d @ crlf @ rest" ?q] k f e n b
    by (auto simp: started_def crlf_def RequestInfo_def)
  let ?ri = "requestInfo s1"
  have ty: "requestType ?ri = request_of i" "request_of i \<in> {SET, ADD, REPLACE}" using i by (auto simp: s1(9) stored_info_def request_of_def)
  have "take (length k) (drop (length (pre @ memcachedCommands ! i) + 1) (inBuffer s)) = k"
    unfolding b(1) by (simp add: store_header_def)
  moreover have "unat (of_nat (length k) :: 16 word) = length k" using k by (simp add: word_ok_def unat_of_nat take_bit_eq_mod)
  ultimately have key: "req_key ?ri (inBuffer s) = Inr k"
    unfolding b(1) by (simp add: req_key_def read_bytes_def s1(9) stored_info_def store_header_def)
  have "take ?n (drop ?q (inBuffer s)) = d" "?q + ?n \<le> length (inBuffer s)" unfolding b(1) by (simp_all add: crlf_def)
  moreover have "ucast (of_nat f :: 16 word) = (of_nat f :: 32 word)" using f by (simp add: unsigned_of_nat take_bit_eq_mod)
  ultimately have val: "req_value ?ri (inBuffer s) = Inr (store_value d f)"
    by (simp add: req_value_def read_bytes_def s1(9) stored_info_def store_value_def RequestInfo_def)
  have ex: "unat (expTime ?ri) = e" using e by (simp add: s1(9) stored_info_def unat_of_nat take_bit_eq_mod)
  obtain ob' t' C' r where h: "handle l tid ?ri (inBuffer s1) (out_of s1) t = Inr (ob', t')"
      "emits (store_answer (request_of i) r @ crlf) (out_of s1) ob'" "out_ok ob'"
      "spec_step (store_op (request_of i) k (store_value d f) e) (contents t) r (contents t')" "same_shape t t'" "table_inv string_hash nul_free t' C'"
      "exec_op tid (store_op (request_of i) k (store_value d f) e) t = Inr (r, t')"
    using handle_store[of ?ri "inBuffer s1" k "store_value d f" t C tid "out_of s1" l] ty key val ex inv ok ob s1(2,5)
    by (auto simp: s1(9))
  have nl: "inBuffer s ! (?q + ?n) = 13" "inBuffer s ! (?q + ?n + 1) = 10" unfolding b(1) by (simp_all add: nth_append crlf_def)
  have z: "inBufferOffset s1 + headerLen s1 = ?q" using s1(3,6) by simp
  have q: "?q + (?n + 2) \<le> inBufferBytes s" using b(3) by (simp add: crlf_def)
  have d1: "sessionDataLen s1 = 0 \<or> inBufferOffset s1 + headerLen s1 + sessionDataLen s1 \<le> inBufferBytes s1 \<and> inBufferBytes s1 < 2 ^ 64"
    using q b(4,5) unfolding z s1(4,8) by simp
  have d2: "inBufferOffset s1 + headerLen s1 + sessionDataLen s1 < 2 ^ 64" "dataOffset s1 + sessionDataLen s1 < 2 ^ 64 \<or> sessionDataLen s1 = 0"
    using q b(4,5) unfolding z s1(7,8) by auto
  have d3: "sessionDataLen s1 = 0 \<or> dataOffset s1 + sessionDataLen s1 \<le> length (inBuffer s1) \<and> 2 \<le> sessionDataLen s1 \<and>
      inBuffer s1 ! (dataOffset s1 + sessionDataLen s1 - 2) = 13 \<and> inBuffer s1 ! (dataOffset s1 + sessionDataLen s1 - 1) = 10"
    using q b(4) nl unfolding s1(2,7,8) by simp
  obtain s' where s': "data_step l tid s1 t = Inr (True, s', t')" "fresh s'" "inBuffer s' = inBuffer s1"
      "inBufferBytes s' = inBufferBytes s1" "inBufferOffset s' = inBufferOffset s1 + headerLen s1 + sessionDataLen s1"
      "emits (store_answer (request_of i) r @ crlf) (out_of s1) (out_of s')" "out_ok (out_of s')"
    using data_step_run[OF d1 d2 d3 h(1,3,2)] s1(2) by auto
  have "processRequest m l tid s t = Inr (True, s', t')" using process_fresh[OF fr, of m l tid t] s1(1) s'(1) by simp
  moreover have "inBufferOffset s' = inBufferOffset s + length (store_request i k f e d) - (if d = [] then 2 else 0)"
    unfolding s'(5) s1(3,6,8) b(2) by (simp add: store_request_def crlf_def)
  ultimately show ?thesis using s' s1(2,4,5) h(4-7) by metis
qed

section \<open>A store, end to end\<close>

text \<open>
  C20: a complete \<open>set\<close>, \<open>add\<close> or \<open>replace\<close> request without \<open>noreply\<close> at the read position of a
  session, its expiry time below $2^{31}$, runs the matching cache operation with the key, value,
  flags and expiry time it spells, wherever that operation is safe, appends exactly the reply of the
  protocol for its outcome (\<open>add\<close> of a present key answers \<open>EXISTS\<close>) and leaves the session ready for
  the next request. It consumes exactly the bytes of the request when the value has at least one
  byte; after an empty value it leaves the CR LF that ends the request in the input.
\<close>

theorem store_request_served:
  assumes "server_matcher = Inr m" and "i \<in> {1, 2, 4}" and "fresh s" and "pending s (store_request i k f e d)"
    and "word_ok k" and "f < 2 ^ 16" and "e < 2 ^ 31"
    and "table_inv string_hash nul_free t C" and "op_ok t C tid (store_op (request_of i) k (store_value d f) e)"
    and "out_ok (outBuffer s, outBufferBytes s)"
  shows "\<exists>s' t' C' r. processRequest m l tid s t = Inr (True, s', t') \<and> fresh s' \<and> inBuffer s' = inBuffer s \<and>
    inBufferBytes s' = inBufferBytes s \<and> inBufferOffset s' = inBufferOffset s + length (store_request i k f e d) - (if d = [] then 2 else 0) \<and>
    emits (store_answer (request_of i) r @ crlf) (outBuffer s, outBufferBytes s) (outBuffer s', outBufferBytes s') \<and>
    out_ok (outBuffer s', outBufferBytes s') \<and>
    spec_step (store_op (request_of i) k (store_value d f) e) (contents t) r (contents t') \<and>
    same_shape t t' \<and> table_inv string_hash nul_free t' C'"
  using store_request_run[OF assms] by blast

text \<open>A session that has just received \<open>x\<close>.\<close>

definition demo_io :: "byte list \<Rightarrow> request_io" where
  "demo_io x = \<lparr>requestInfo = RequestInfo, inBuffer = x @ [0], headerOffset = 0, headerLen = 0, headerBytesRequired = 0,
     dataOffset = 0, sessionDataLen = 0, dataBytesRequired = 0, inBufferOffset = 0, inBufferBytes = length x,
     outBuffer = replicate 16 0, outBufferBytes = 0\<rparr>"

lemma demo_io_ready:
  "fresh (demo_io x)" "out_ok (outBuffer (demo_io x), outBufferBytes (demo_io x))"
  "length x + 1 < 2 ^ 64 \<Longrightarrow> pending (demo_io x) x"
  by (auto simp: fresh_def demo_io_def out_ok_def pending_def)

theorem store_request_served_witness:
  "\<exists>m t s' t' s2 t2. server_matcher = Inr m \<and> demo_table 8 = Inr t \<and>
     processRequest m [] 0 (demo_io (asc ''set k 7 0 1'' @ crlf @ asc ''v'' @ crlf)) t = Inr (True, s', t') \<and>
     take (outBufferBytes s') (outBuffer s') = asc ''STORED'' @ crlf \<and>
     processRequest m [] 0 (demo_io (asc ''set k 7 0 0'' @ crlf @ crlf)) t = Inr (True, s2, t2) \<and>
     drop (inBufferOffset s2) (inBuffer s2) = crlf @ [0]"
proof -
  obtain m where m: "server_matcher = Inr m" using server_matcher_built by blast
  obtain t where t: "demo_table 8 = Inr t" "contents t = Map.empty" "hashSize t = 16" "length (lruLists t) = 1"
    "length (elementStorage t) = 8" "table_inv string_hash nul_free t (init_chains 8 1)"
    using demo_empty[of 8] by auto
  have "window_ok string_hash t [107]" using demo_window[OF t(6,3)] t(5) by simp
  moreover have "tl (init_chains 8 1 (Free 0)) \<noteq> []" by (simp add: init_chains_def tl_upt)
  ultimately have ok: "op_ok t (init_chains 8 1) 0 (store_op (request_of 1) [107] (store_value d 7) 0)" for d
    using t(2,4) by (simp add: op_ok_def insert_safe_def store_op_def request_of_def nul_free_def)
  let ?x = "\<lambda>d. store_request 1 [107] 7 0 d"
  have x: "?x [118] = asc ''set k 7 0 1'' @ crlf @ asc ''v'' @ crlf" "?x [] = asc ''set k 7 0 0'' @ crlf @ crlf"
    by (simp_all add: store_request_def store_header_def memcachedCommands_def asc_def decimal.simps dig_def)
  then have p: "pending (demo_io (?x [118])) (?x [118])" "pending (demo_io (?x [])) (?x [])"
    by (intro demo_io_ready(3); simp add: asc_def crlf_def)+
  have "word_ok [107]" by (simp add: word_ok_def)
  note served = store_request_served[where l = "[]", OF m _ demo_io_ready(1) _ this _ _ t(6) ok demo_io_ready(2)]
  have a: "store_answer (request_of (Suc 0)) r = asc ''STORED''" for r by (simp add: store_answer_def request_of_def)
  obtain s' t' where 1: "processRequest m [] 0 (demo_io (?x [118])) t = Inr (True, s', t')"
    "emits (asc ''STORED'' @ crlf) (outBuffer (demo_io (?x [118])), outBufferBytes (demo_io (?x [118]))) (outBuffer s', outBufferBytes s')"
    using served[OF _ p(1)] by (auto simp: a)
  obtain s2 t2 where 2: "processRequest m [] 0 (demo_io (?x [])) t = Inr (True, s2, t2)" "inBuffer s2 = ?x [] @ [0]"
    "inBufferOffset s2 = length (?x []) - 2"
    using served[OF _ p(2)] by (auto simp: demo_io_def)
  have "drop (inBufferOffset s2) (inBuffer s2) = crlf @ [0]" unfolding 2 x(2) by (simp add: asc_def crlf_def)
  moreover have "take (outBufferBytes s') (outBuffer s') = asc ''STORED'' @ crlf" using 1(2) by (auto simp: emits_def demo_io_def)
  ultimately show ?thesis using m t(1) 1(1) 2(1) unfolding x by blast
qed

end
