(* ===== verification/Text_Get.thy ===== *)
theory Text_Get
  imports Text_Requests
begin

text \<open>
  The \<open>get\<close> and \<open>gets\<close> requests of the text protocol with any number of keys, end to end.
\<close>

section \<open>The keys of the header\<close>

definition key_words :: "byte list list \<Rightarrow> byte list" where
  "key_words ks = concat (map (\<lambda>k. 32 # k) ks)"

definition get_request :: "nat \<Rightarrow> byte list list \<Rightarrow> byte list" where
  "get_request i ks = memcachedCommands ! i @ key_words ks @ crlf"

text \<open>Where the keys stand when the first space is at \<open>p\<close>.\<close>

fun key_places :: "nat \<Rightarrow> byte list list \<Rightarrow> (nat \<times> 16 word) list" where
  "key_places p [] = []"
| "key_places p (k # ks) = (p + 1, of_nat (length k)) # key_places (p + 1 + length k) ks"

lemma key_words_simps [simp]:
  "key_words [] = []" "key_words (k # ks) = 32 # k @ key_words ks"
  by (simp_all add: key_words_def)

lemma key_words_sep: "\<exists>c z. key_words ks @ 13 # rest = c # z \<and> is_sp_cr c"
  by (cases ks) (auto simp: is_sp_cr_def)

lemma word_ok_sep: "word_ok k \<Longrightarrow> \<forall>x \<in> set k. \<not> is_sp_cr x" by (auto simp: word_ok_def is_sp_cr_def)

lemma parseKeys_run:
  assumes "buf = pre @ key_words ks @ 13 # rest" and "\<forall>k \<in> set ks. word_ok k" and "length pre + length (key_words ks) < limit"
  shows "parseKeys buf limit pEnd (length pre) ri =
    Inr (True, length pre + length (key_words ks) + 2,
      ri\<lparr>getKeysList := (if ks = [] then getKeysList ri
         else Some ((case getKeysList ri of None \<Rightarrow> [] | Some l \<Rightarrow> l) @ key_places (length pre) ks))\<rparr>)"
  using assms
proof (induction ks arbitrary: pre ri)
  case Nil
  then have "arr_get buf (length pre) = Inr 13" by (simp add: arr_get_def)
  then show ?case by (subst parseKeys.simps) simp
next
  case (Cons k ks)
  let ?pre = "pre @ 32 # k" and ?l = "case getKeysList ri of None \<Rightarrow> [] | Some l \<Rightarrow> l"
  obtain c z where z: "key_words ks @ 13 # rest = c # z" "is_sp_cr c" using key_words_sep by blast
  have buf: "buf = (pre @ [32]) @ k @ c # z" using Cons.prems(1) z(1) by simp
  have a: "arr_get buf (length pre) = Inr 32" using Cons.prems(1) by (simp add: arr_get_def)
  have "scan is_sp_cr buf limit (length (pre @ [32])) = Inr (length (pre @ [32]) + length k)"
    by (rule scan_word[OF buf word_ok_sep z(2)]) (use Cons.prems in simp_all)
  moreover have "length (pre @ [32]) = length pre + 1" by simp
  ultimately have s: "scan is_sp_cr buf limit (length pre + 1) = Inr (length pre + 1 + length k)" by metis
  have "length pre + 1 + length k \<noteq> limit" using Cons.prems(3) by simp
  then have "parseKeys buf limit pEnd (length pre) ri =
      parseKeys buf limit pEnd (length ?pre) (ri\<lparr>getKeysList := Some (?l @ [(length pre + 1, of_nat (length k))])\<rparr>)"
    using a s by (subst parseKeys.simps) simp
  also have "\<dots> = Inr (True, length ?pre + length (key_words ks) + 2, ri\<lparr>getKeysList := Some (?l @ key_places (length pre) (k # ks))\<rparr>)"
    using Cons.IH[of ?pre] Cons.prems by simp
  finally show ?case by simp
qed

section \<open>The lookups\<close>

definition value_reply :: "(cache_key \<rightharpoonup> storage_value) \<Rightarrow> byte list \<Rightarrow> byte list" where
  "value_reply m k = (case m k of None \<Rightarrow> [] | Some sv \<Rightarrow> value_block k sv)"

definition values_fit :: "(cache_key \<rightharpoonup> storage_value) \<Rightarrow> bool" where
  "values_fit m \<longleftrightarrow> (\<forall>sv \<in> ran m. length (sv_value sv) < 2 ^ 64)"

definition keys_ok :: "cache \<Rightarrow> byte list list \<Rightarrow> bool" where
  "keys_ok t ks \<longleftrightarrow> (\<forall>k \<in> set ks. nul_free k \<and> window_ok string_hash t k)"

text \<open>What a lookup keeps of the cache: everything but the order of the lists.\<close>

definition looked_up :: "cache \<Rightarrow> cache \<Rightarrow> bool" where
  "looked_up t t' \<longleftrightarrow> contents t' = contents t \<and> same_shape t t' \<and> elementLinks t' = elementLinks t \<and>
     (\<exists>C. table_inv string_hash nul_free t' C)"

lemma looked_up_trans: "looked_up t t1 \<Longrightarrow> looked_up t1 t2 \<Longrightarrow> looked_up t t2"
  by (auto simp: looked_up_def intro: same_shape_trans)

lemma keys_ok_looked_up: "keys_ok t ks \<Longrightarrow> looked_up t t' \<Longrightarrow> keys_ok t' ks"
  by (auto simp: keys_ok_def looked_up_def window_ok_def slot_def same_shape_def)

lemma get_one_run:
  assumes inv: "table_inv string_hash nul_free t C" and tid: "tid < length (lruLists t)" and k: "keys_ok t [k]"
    and fit: "values_fit (contents t)" and ob: "out_ok ob"
  shows "\<exists>ob' t'. get_one tid k ob t = Inr (ob', t') \<and> emits (value_reply (contents t) k) ob ob' \<and> out_ok ob' \<and> looked_up t t' \<and>
    exec_op tid (OGet k) t = Inr (RValue (contents t k), t')"
proof -
  obtain t' where g: "get string_hash sso_eq tid k None t = Inr (contents t k, None, t')" "looked_up t t'"
    using yam.get_map_index[OF inv tid, of k] k by (auto simp: keys_ok_def looked_up_def)
  show ?thesis
  proof (cases "contents t k")
    case None
    then show ?thesis using g ob by (auto simp: get_one_def value_reply_def emits_def out_ok_def)
  next
    case (Some sv)
    then have "length (sv_value sv) < 2 ^ 64" using fit by (auto simp: values_fit_def ran_def)
    then obtain ob' where "put_value k sv ob = Inr ob'" "emits (value_block k sv) ob ob'" "out_ok ob'"
      using put_value_run[OF ob] by blast
    then show ?thesis using g Some by (auto simp: get_one_def value_reply_def)
  qed
qed

lemma get_more_run:
  assumes "buf = pre @ key_words ks @ rest" and "\<forall>k \<in> set ks. length k < 2 ^ 16"
    and "table_inv string_hash nul_free t C" and "tid < length (lruLists t)" and "keys_ok t ks"
    and "values_fit (contents t)" and "out_ok ob"
  shows "\<exists>ob' t'. get_more tid buf (key_places (length pre) ks) ob t = Inr (ob', t') \<and>
    emits (concat (map (value_reply (contents t)) ks)) ob ob' \<and> out_ok ob' \<and> looked_up t t' \<and>
    exec_run (map (\<lambda>k. (tid, OGet k)) ks) t = Inr (map (\<lambda>k. (OGet k, RValue (contents t k))) ks, t')"
  using assms
proof (induction ks arbitrary: pre t C ob)
  case Nil
  then show ?case by (auto simp: emits_def looked_up_def out_ok_def)
next
  case (Cons k ks)
  have "unat (of_nat (length k) :: 16 word) = length k" using Cons.prems(2) by (simp add: unat_of_nat take_bit_eq_mod)
  then have rd: "read_bytes buf (length pre + 1) (unat (of_nat (length k) :: 16 word)) = Inr k"
    using Cons.prems(1) by (simp add: read_bytes_def)
  have k: "keys_ok t [k]" "keys_ok t ks" using Cons.prems(5) by (simp_all add: keys_ok_def)
  obtain ob1 t1 where g: "get_one tid k ob t = Inr (ob1, t1)" "emits (value_reply (contents t) k) ob ob1" "out_ok ob1" "looked_up t t1"
      "exec_op tid (OGet k) t = Inr (RValue (contents t k), t1)"
    using get_one_run[OF Cons.prems(3,4) k(1) Cons.prems(6,7)] by blast
  obtain C1 where C1: "table_inv string_hash nul_free t1 C1" "tid < length (lruLists t1)" "contents t1 = contents t"
    using g(4) Cons.prems(4) by (auto simp: looked_up_def same_shape_def)
  obtain ob2 t2 where "get_more tid buf (key_places (length (pre @ 32 # k)) ks) ob1 t1 = Inr (ob2, t2)"
      "emits (concat (map (value_reply (contents t)) ks)) ob1 ob2" "out_ok ob2" "looked_up t1 t2"
      "exec_run (map (\<lambda>k. (tid, OGet k)) ks) t1 = Inr (map (\<lambda>k. (OGet k, RValue (contents t k))) ks, t2)"
    using Cons.IH[of "pre @ 32 # k" t1 C1 ob1] Cons.prems(1,2,6) C1 g(3) keys_ok_looked_up[OF k(2) g(4)] by auto
  then show ?case using rd g by (auto intro: emits_trans looked_up_trans)
qed

lemma do_get_run:
  assumes buf: "buf = pre @ key_words (k # ks) @ rest" and len: "\<forall>k \<in> set (k # ks). length k < 2 ^ 16"
    and key: "pKeyBuffer ri = Some (length pre + 1)" "keyBufferLen ri = of_nat (length k)"
    and list: "getKeysList ri = (if ks = [] then None else Some (key_places (length pre + 1 + length k) ks))"
    and inv: "table_inv string_hash nul_free t C" and tid: "tid < length (lruLists t)" and ok: "keys_ok t (k # ks)"
    and fit: "values_fit (contents t)" and ob: "out_ok ob"
  shows "\<exists>ob' t'. do_get tid ri buf ob t = Inr (ob', t') \<and>
    emits (concat (map (value_reply (contents t)) (k # ks)) @ asc ''END'' @ crlf) ob ob' \<and> out_ok ob' \<and> looked_up t t' \<and>
    exec_run (map (\<lambda>k. (tid, OGet k)) (k # ks)) t = Inr (map (\<lambda>k. (OGet k, RValue (contents t k))) (k # ks), t')"
proof -
  let ?p = "length (pre @ 32 # k)"
  have "getKeysList ri = None \<and> ks = [] \<or> getKeysList ri = Some (key_places ?p ks)" using list by simp
  then have "do_get tid ri buf ob t = bind_res (get_more tid buf (key_places (length pre) (k # ks)) ob t)
      (\<lambda>(ob, t). bind_res (put_reply (asc ''END'' @ crlf) ob) (\<lambda>ob. Inr (ob, t)))"
    using key by (auto simp: do_get_def req_key_def bind_res_def split: sum.splits)
  moreover obtain ob1 t1 where g: "get_more tid buf (key_places (length pre) (k # ks)) ob t = Inr (ob1, t1)"
      "emits (concat (map (value_reply (contents t)) (k # ks))) ob ob1" "out_ok ob1" "looked_up t t1"
      "exec_run (map (\<lambda>k. (tid, OGet k)) (k # ks)) t = Inr (map (\<lambda>k. (OGet k, RValue (contents t k))) (k # ks), t1)"
    using get_more_run[OF buf len inv tid ok fit ob] by blast
  moreover obtain ob2 where "put_reply (asc ''END'' @ crlf) ob1 = Inr ob2" "emits (asc ''END'' @ crlf) ob1 ob2" "out_ok ob2"
    using put_reply_run[OF g(3)] by blast
  ultimately show ?thesis using emits_trans[OF g(2)] by auto
qed

section \<open>A get, end to end\<close>

text \<open>The request without its final LF, which the parser takes for granted.\<close>

lemma header_step_get:
  assumes m: "server_matcher = Inr m" and i: "i \<in> {0, 6}" and ks: "\<forall>k \<in> set (k # ks). word_ok k"
    and buf: "inBuffer s = pre @ memcachedCommands ! i @ key_words (k # ks) @ 13 # rest" and off: "inBufferOffset s = length pre"
    and lim: "length (pre @ memcachedCommands ! i @ key_words (k # ks)) < inBufferBytes s"
    and ri: "requestInfo s = RequestInfo\<lparr>state := PARSING_HEADER\<rparr>"
  defines "p \<equiv> length (pre @ memcachedCommands ! i)"
  shows "\<exists>s'. header_step m s = Inr (True, s') \<and> inBuffer s' = inBuffer s \<and> inBufferOffset s' = inBufferOffset s \<and>
    inBufferBytes s' = inBufferBytes s \<and> out_of s' = out_of s \<and> headerLen s' = length (get_request i (k # ks)) \<and> sessionDataLen s' = 0 \<and>
    requestInfo s' = (requestInfo s)\<lparr>requestType := request_of i, pKeyBuffer := Some (p + 1), keyBufferLen := of_nat (length k),
      getKeysList := (if ks = [] then None else Some (key_places (p + 1 + length k) ks)), state := PARSING_DATA\<rparr>"
proof -
  let ?c = "memcachedCommands ! i" and ?l = "inBufferBytes s - length pre"
  let ?pre1 = "pre @ ?c @ [32]" and ?pre2 = "pre @ ?c @ 32 # k"
  let ?q = "length pre + length (get_request i (k # ks))"
  let ?ri = "(requestInfo s)\<lparr>requestType := request_of i, pKeyBuffer := Some (p + 1), keyBufferLen := of_nat (length k)\<rparr>"
  let ?L = "if ks = [] then None else Some (key_places (p + 1 + length k) ks)"
  have l: "length pre + ?l = inBufferBytes s" using lim by simp
  obtain c z where z: "key_words ks @ 13 # rest = c # z" "is_sp_cr c" using key_words_sep by blast
  have "field is_sp_cr (inBuffer s) (inBufferBytes s) (p + 1) inc K = K (p + 1 + length k)" for inc K
    by (rule scan_word_at[of _ ?pre1 k c z]) (use buf z ks lim word_ok_sep in \<open>auto simp: p_def\<close>)
  moreover have p2: "length ?pre2 = p + 1 + length k" "p + 1 + length k + length (key_words ks) + 2 = ?q"
    by (simp_all add: p_def get_request_def crlf_def)
  have "parseKeys (inBuffer s) (inBufferBytes s) (length pre) (p + 1 + length k) ?ri = Inr (True, ?q, ?ri\<lparr>getKeysList := ?L\<rparr>)"
    using parseKeys_run[of "inBuffer s" ?pre2 ks rest "inBufferBytes s" "length pre" ?ri, unfolded p2] buf ks lim
    by (simp add: p_def ri RequestInfo_def)
  ultimately have "parseGet (inBuffer s) (inBufferBytes s) (length pre) p ((requestInfo s)\<lparr>requestType := request_of i\<rparr>) =
      Inr (True, ?q, ?ri\<lparr>getKeysList := ?L\<rparr>)" by (simp add: parseGet_def)
  then have "parseMemcachedHeader m (inBuffer s) (length pre) ?l (requestInfo s) = Inr (True, ?q, ?ri\<lparr>getKeysList := ?L\<rparr>)"
    using parse_command[OF m, of i 32 "inBuffer s" pre _ ?l "requestInfo s"] i buf lim
    by (auto simp: is_sp_cr_def request_of_def Let_def p_def l)
  then show ?thesis unfolding header_step_def off using lim off by (simp add: ri RequestInfo_def Let_def)
qed

lemma get_request_run:
  assumes m: "server_matcher = Inr m" and i: "i \<in> {0, 6}" and fr: "fresh s" and ks: "\<forall>k \<in> set (k # ks). word_ok k"
    and buf: "inBuffer s = pre @ memcachedCommands ! i @ key_words (k # ks) @ 13 # rest" and off: "inBufferOffset s = length pre"
    and lim: "length (pre @ memcachedCommands ! i @ key_words (k # ks)) < inBufferBytes s"
    and fin: "inBufferBytes s < length (inBuffer s)" "length (inBuffer s) < 2 ^ 64"
    and inv: "table_inv string_hash nul_free t C" and tid: "tid < length (lruLists t)" and ok: "keys_ok t (k # ks)"
    and fit: "values_fit (contents t)" and ob: "out_ok (out_of s)"
  shows "\<exists>s' t'. processRequest m l tid s t = Inr (True, s', t') \<and> fresh s' \<and> inBuffer s' = inBuffer s \<and>
    inBufferBytes s' = inBufferBytes s \<and> inBufferOffset s' = inBufferOffset s + length (get_request i (k # ks)) \<and>
    emits (concat (map (value_reply (contents t)) (k # ks)) @ asc ''END'' @ crlf) (out_of s) (out_of s') \<and> out_ok (out_of s') \<and>
    looked_up t t' \<and>
    exec_run (map (\<lambda>k. (tid, OGet k)) (k # ks)) t = Inr (map (\<lambda>k. (OGet k, RValue (contents t k))) (k # ks), t')"
proof -
  let ?p = "length (pre @ memcachedCommands ! i)"
  obtain s1 where s1: "header_step m (started s) = Inr (True, s1)" "inBuffer s1 = inBuffer s" "inBufferOffset s1 = inBufferOffset s"
      "inBufferBytes s1 = inBufferBytes s" "out_of s1 = out_of s" "headerLen s1 = length (get_request i (k # ks))" "sessionDataLen s1 = 0"
      "requestInfo s1 = RequestInfo\<lparr>requestType := request_of i, pKeyBuffer := Some (?p + 1), keyBufferLen := of_nat (length k),
         getKeysList := (if ks = [] then None else Some (key_places (?p + 1 + length k) ks)), state := PARSING_DATA\<rparr>"
    using header_step_get[OF m i ks, of "started s" pre rest] buf off lim by (auto simp: started_def)
  have "\<forall>k \<in> set (k # ks). length k < 2 ^ 16" using ks by (simp add: word_ok_def)
  then obtain ob' t' where g: "do_get tid (requestInfo s1) (inBuffer s) (out_of s) t = Inr (ob', t')"
      "emits (concat (map (value_reply (contents t)) (k # ks)) @ asc ''END'' @ crlf) (out_of s) ob'" "out_ok ob'" "looked_up t t'"
      "exec_run (map (\<lambda>k. (tid, OGet k)) (k # ks)) t = Inr (map (\<lambda>k. (OGet k, RValue (contents t k))) (k # ks), t')"
    using do_get_run[of "inBuffer s" "pre @ memcachedCommands ! i" k ks "13 # rest" "requestInfo s1" t C tid "out_of s"] buf inv tid ok fit ob
    by (auto simp: s1(8))
  have "handle l tid (requestInfo s1) (inBuffer s1) (out_of s1) t = Inr (ob', t')"
    using g(1) i s1(2,5) by (auto simp: handle_def s1(8) request_of_def)
  moreover have "inBufferOffset s1 + headerLen s1 + sessionDataLen s1 < 2 ^ 64"
    using off lim fin by (simp add: s1(3,6,7) get_request_def crlf_def)
  ultimately obtain s' where s': "data_step l tid s1 t = Inr (True, s', t')" "fresh s'" "inBuffer s' = inBuffer s1"
      "inBufferBytes s' = inBufferBytes s1" "inBufferOffset s' = inBufferOffset s1 + headerLen s1 + sessionDataLen s1"
      "emits (concat (map (value_reply (contents t)) (k # ks)) @ asc ''END'' @ crlf) (out_of s1) (out_of s')" "out_ok (out_of s')"
    using data_step_run[of s1 l tid t ob' t'] s1(5,7) g(2,3) by auto
  have "processRequest m l tid s t = Inr (True, s', t')" using process_fresh[OF fr, of m l tid t] s1(1) s'(1) by simp
  then show ?thesis using s' s1(2-7) g(4,5) by auto
qed

text \<open>
  C21: a complete \<open>get\<close> or \<open>gets\<close> request with any number of keys answers with one \<open>VALUE\<close> block for
  each key the cache holds, in the order of the request, and \<open>END\<close>; it consumes exactly the bytes
  of the request, changes no entry of the cache and leaves the session ready for the next request.
\<close>

theorem get_request_served:
  assumes "server_matcher = Inr m" and "i \<in> {0, 6}" and "fresh s" and "pending s (get_request i ks)"
    and "ks \<noteq> []" and "\<forall>k \<in> set ks. word_ok k"
    and "table_inv string_hash nul_free t C" and "tid < length (lruLists t)" and "keys_ok t ks"
    and "values_fit (contents t)" and "out_ok (outBuffer s, outBufferBytes s)"
  shows "\<exists>s' t'. processRequest m l tid s t = Inr (True, s', t') \<and> fresh s' \<and> inBuffer s' = inBuffer s \<and>
    inBufferBytes s' = inBufferBytes s \<and> inBufferOffset s' = inBufferOffset s + length (get_request i ks) \<and>
    emits (concat (map (value_reply (contents t)) ks) @ asc ''END'' @ crlf)
      (outBuffer s, outBufferBytes s) (outBuffer s', outBufferBytes s') \<and>
    out_ok (outBuffer s', outBufferBytes s') \<and> looked_up t t'"
proof -
  obtain k ks' where k: "ks = k # ks'" using assms(5) by (cases ks) simp_all
  obtain pre rest where "inBuffer s = pre @ get_request i ks @ rest" "inBufferOffset s = length pre"
      "length pre + length (get_request i ks) \<le> inBufferBytes s" "inBufferBytes s < length (inBuffer s)" "length (inBuffer s) < 2 ^ 64" using assms(4) by (auto simp: pending_def)
  then show ?thesis using get_request_run[OF assms(1-3), of k ks' pre "10 # rest" t C tid l] assms(6-11)
    unfolding k by (auto simp: get_request_def crlf_def)
qed

text \<open>A value without NUL is answered byte for byte, under the key as it was asked for.\<close>

lemma value_reply_exact:
  assumes "nul_free k" and "m k = Some sv" and "nul_free (sv_value sv)"
  shows "value_reply m k = asc ''VALUE '' @ k @ [32] @ decimal (unat (sv_flags sv)) @ [32] @
    decimal (length (sv_value sv)) @ crlf @ sv_value sv @ crlf"
  using assms by (simp add: value_reply_def value_block_def strncpy_all_nul_free)

theorem get_request_served_witness:
  "\<exists>m t t1 s' t'. server_matcher = Inr m \<and> demo_table 8 = Inr t \<and>
     insertOrSet string_hash sso_eq 0 [107] demo_value 0 t = Inr (True, t1) \<and>
     processRequest m [] 0 (demo_io (asc ''get a k'' @ crlf)) t1 = Inr (True, s', t') \<and>
     take (outBufferBytes s') (outBuffer s') = asc ''VALUE k 7 1'' @ crlf @ asc ''v'' @ crlf @ asc ''END'' @ crlf"
proof -
  let ?ks = "[[97], [107]] :: byte list list"
  let ?x = "get_request 0 ?ks"
  obtain m where m: "server_matcher = Inr m" using server_matcher_built by blast
  obtain t t1 where t: "demo_table 8 = Inr t" "insertOrSet string_hash sso_eq 0 [107] demo_value 0 t = Inr (True, t1)"
    "contents t1 = [[107] \<mapsto> demo_value]" "hashSize t1 = 16" "length (lruLists t1) = 1" "length (elementStorage t1) = 8"
    "table_inv string_hash nul_free t1 (inserted 0 (init_chains 8 1))"
    using demo_one[of 8 "[107]" demo_value 0] by (auto simp: nul_free_def)
  have ok: "keys_ok t1 ?ks" using demo_window[OF t(7,4)] t(6) by (simp add: keys_ok_def nul_free_def)
  have fit: "values_fit (contents t1)" using t(3) by (auto simp: values_fit_def demo_value_def)
  have x: "?x = asc ''get a k'' @ crlf" by (simp add: get_request_def memcachedCommands_def asc_def)
  then have p: "pending (demo_io ?x) ?x" by (intro demo_io_ready(3)) (simp add: asc_def crlf_def)
  from get_request_served[OF m _ demo_io_ready(1) p _ _ t(7) _ ok fit demo_io_ready(2), of 0 "[]"] obtain s' t' where
    "processRequest m [] 0 (demo_io ?x) t1 = Inr (True, s', t')"
    "emits (concat (map (value_reply (contents t1)) ?ks) @ asc ''END'' @ crlf)
      (outBuffer (demo_io ?x), outBufferBytes (demo_io ?x)) (outBuffer s', outBufferBytes s')"
    using t(5) by (auto simp: word_ok_def)
  moreover have "value_reply (contents t1) [97] = []" using t(3) by (simp add: value_reply_def)
  moreover have "value_reply (contents t1) [107] = asc ''VALUE k 7 1'' @ crlf @ asc ''v'' @ crlf"
    using value_reply_exact[of "[107]" "contents t1" demo_value] t(3)
    by (simp add: nul_free_def demo_value_def asc_def decimal.simps dig_def)
  ultimately show ?thesis using m t(1,2) unfolding x by (auto simp: emits_def demo_io_def)
qed

end
