(* ===== verification/Session_Requests.thy ===== *)
theory Session_Requests
  imports Session Text_Get
begin

text \<open>
  Sessions that serve text requests: a batch of requests that arrives in any number of pieces during
  one event is served in order, and its replies are sent in order.
\<close>

section \<open>Requests and what they mean\<close>

text \<open>
  A \<open>Store\<close> is a \<open>set\<close>, \<open>add\<close> or \<open>replace\<close> without \<open>noreply\<close>, a \<open>Fetch\<close> a \<open>get\<close> or \<open>gets\<close>. \<open>req_wf\<close> asks of
  a store that its value has at least one byte and its expiry time is below $2^{31}$: a store of an
  empty value leaves its last CR LF in the input, after which nothing more is served
  (\<open>empty_store_stalls\<close> of \<open>Text_Faults\<close>), and a larger expiry time overflows in \<open>atoui\<close>.
\<close>

datatype text_request =
    Store nat cache_key nat nat "byte list"
  | Fetch nat "cache_key list"

fun req_bytes :: "text_request \<Rightarrow> byte list" where
  "req_bytes (Store i k f e d) = store_request i k f e d"
| "req_bytes (Fetch i ks) = get_request i ks"

fun req_wf :: "text_request \<Rightarrow> bool" where
  "req_wf (Store i k f e d) \<longleftrightarrow> i \<in> {1, 2, 4} \<and> word_ok k \<and> f < 2 ^ 16 \<and> e < 2 ^ 31 \<and> d \<noteq> []"
| "req_wf (Fetch i ks) \<longleftrightarrow> i \<in> {0, 6} \<and> ks \<noteq> [] \<and> (\<forall>k \<in> set ks. word_ok k)"

text \<open>The cache operations a request stands for, and its reply given what they return.\<close>

fun req_ops :: "text_request \<Rightarrow> cache_op list" where
  "req_ops (Store i k f e d) = [store_op (request_of i) k (store_value d f) e]"
| "req_ops (Fetch i ks) = map OGet ks"

fun found_block :: "cache_op \<times> reply \<Rightarrow> byte list" where
  "found_block (OGet k, RValue (Some sv)) = value_block k sv"
| "found_block _ = []"

fun req_reply :: "text_request \<Rightarrow> (cache_op \<times> reply) list \<Rightarrow> byte list" where
  "req_reply (Store i k f e d) log = concat (map (\<lambda>(x, r). store_answer (request_of i) r @ crlf) log)"
| "req_reply (Fetch i ks) log = concat (map found_block log) @ asc ''END'' @ crlf"

fun run_requests :: "nat \<Rightarrow> text_request list \<Rightarrow> cache \<Rightarrow> (byte list \<times> cache) res" where
  "run_requests tid [] t = Inr ([], t)"
| "run_requests tid (rq # rqs) t =
     bind_res (exec_run (map (Pair tid) (req_ops rq)) t) (\<lambda>(log, t).
     bind_res (run_requests tid rqs t) (\<lambda>(out, t). Inr (req_reply rq log @ out, t)))"

text \<open>Requests are safe where their cache operations are.\<close>

fun req_safe :: "nat \<Rightarrow> text_request \<Rightarrow> cache \<Rightarrow> chains \<Rightarrow> bool" where
  "req_safe tid (Store i k f e d) t C \<longleftrightarrow> op_ok t C tid (store_op (request_of i) k (store_value d f) e)"
| "req_safe tid (Fetch i ks) t C \<longleftrightarrow> tid < length (lruLists t) \<and> keys_ok t ks"

fun reqs_safe :: "nat \<Rightarrow> text_request list \<Rightarrow> cache \<Rightarrow> chains \<Rightarrow> bool" where
  "reqs_safe tid [] t C = True"
| "reqs_safe tid (rq # rqs) t C \<longleftrightarrow> req_safe tid rq t C \<and>
     (\<forall>log t1 C1. exec_run (map (Pair tid) (req_ops rq)) t = Inr (log, t1) \<and> table_inv string_hash nul_free t1 C1 \<longrightarrow>
        reqs_safe tid rqs t1 C1)"

section \<open>What a request keeps of the session\<close>

lemma header_step_more: "header_step m s = Inr (b, s') \<Longrightarrow> request_io.more s' = request_io.more s"
  by (auto simp: header_step_def bind_res_Inr_iff Let_def split: if_splits prod.splits)

lemma data_step_more: "data_step l tid s t = Inr (b, s', t') \<Longrightarrow> request_io.more s' = request_io.more s"
  by (auto simp: data_step_def bind_res_Inr_iff Let_def split: if_splits prod.splits)

lemma process_fresh_more:
  assumes "fresh s" and "processRequest m l tid s t = Inr (b, s', t')"
  shows "request_io.more s' = request_io.more s"
proof -
  obtain x where x: "header_step m (started s) = Inr x"
      "(if fst x then data_step l tid (snd x) t else Inr (False, snd x, t)) = Inr (b, s', t')"
    using assms(2) unfolding process_fresh[OF assms(1)] bind_res_Inr_iff by blast
  have "request_io.more (started s) = request_io.more s" by (simp add: started_def)
  moreover have "request_io.more s' = request_io.more (snd x)"
    using x(2) data_step_more[of l tid "snd x" t b s' t'] by (cases "fst x") auto
  ultimately show ?thesis using header_step_more[of m "started s" "fst x" "snd x"] x(1) by simp
qed

lemma values_fit_step:
  assumes "spec_step x m r m'" and "values_fit m" and "\<forall>k v e. x \<in> {OSet k v e, OInsert k v e, OInsertOrSet k v e} \<longrightarrow> length (sv_value v) < 2 ^ 64"
  shows "values_fit m'"
  using assms by cases (auto simp: values_fit_def ran_def split: if_splits)

lemma found_blocks: "concat (map found_block (map (\<lambda>k. (OGet k, RValue (m k))) ks)) = concat (map (value_reply m) ks)"
  by (induction ks) (auto simp: value_reply_def split: option.splits)

text \<open>One request of either kind.\<close>

lemma request_run:
  assumes m: "server_matcher = Inr m" and fr: "fresh s" and pend: "pending s (req_bytes rq)" and wf: "req_wf rq"
    and inv: "table_inv string_hash nul_free t C" and safe: "req_safe tid rq t C" and fit: "values_fit (contents t)"
    and ob: "out_ok (out_of s)"
  shows "\<exists>s' t' C' log. processRequest m l tid s t = Inr (True, s', t') \<and> fresh s' \<and> inBuffer s' = inBuffer s \<and>
    inBufferBytes s' = inBufferBytes s \<and> inBufferOffset s' = inBufferOffset s + length (req_bytes rq) \<and>
    exec_run (map (Pair tid) (req_ops rq)) t = Inr (log, t') \<and>
    emits (req_reply rq log) (out_of s) (out_of s') \<and> out_ok (out_of s') \<and>
    table_inv string_hash nul_free t' C' \<and> values_fit (contents t') \<and> request_io.more s' = request_io.more s"
proof (cases rq)
  case (Store i k f e d)
  let ?x = "store_op (request_of i) k (store_value d f) e"
  have b: "i \<in> {1, 2, 4}" "word_ok k" "f < 2 ^ 16" "e < 2 ^ 31" "d \<noteq> []" "op_ok t C tid ?x" "pending s (store_request i k f e d)"
    using wf safe pend Store by simp_all
  from store_request_run[OF m b(1) fr b(7) b(2-4) inv b(6) ob, of l] obtain s' t' C' r where
    r: "processRequest m l tid s t = Inr (True, s', t')" "fresh s'" "inBuffer s' = inBuffer s" "inBufferBytes s' = inBufferBytes s"
      "inBufferOffset s' = inBufferOffset s + length (store_request i k f e d) - (if d = [] then 2 else 0)"
      "emits (store_answer (request_of i) r @ crlf) (out_of s) (out_of s')" "out_ok (out_of s')"
      "spec_step ?x (contents t) r (contents t')" "table_inv string_hash nul_free t' C'" "exec_op tid ?x t = Inr (r, t')"
    by blast
  have "length d < 2 ^ 64" using b(7) by (auto simp: pending_def store_request_def)
  then have "values_fit (contents t')"
    using b(1) by (intro values_fit_step[OF r(8) fit]) (auto simp: store_op_def store_value_def request_of_def)
  moreover have "exec_run (map (Pair tid) (req_ops rq)) t = Inr ([(?x, r)], t')" using r(10) Store by simp
  ultimately show ?thesis using r(1-7,9) b(5) process_fresh_more[OF fr r(1)] Store by auto
next
  case (Fetch i ks)
  then obtain k ks' where k: "ks = k # ks'" using wf by (cases ks) auto
  have b: "i \<in> {0, 6}" "\<forall>k \<in> set (k # ks'). word_ok k" "tid < length (lruLists t)" "keys_ok t (k # ks')"
    using wf safe Fetch k by simp_all
  obtain pre rest where p: "inBuffer s = pre @ memcachedCommands ! i @ key_words (k # ks') @ 13 # 10 # rest" "inBufferOffset s = length pre"
      "length (pre @ memcachedCommands ! i @ key_words (k # ks')) < inBufferBytes s" "inBufferBytes s < length (inBuffer s)" "length (inBuffer s) < 2 ^ 64"
    using pend Fetch k by (auto simp: pending_def get_request_def crlf_def)
  let ?log = "map (\<lambda>k. (OGet k, RValue (contents t k))) (k # ks')"
  from get_request_run[OF m b(1) fr b(2) p inv b(3,4) fit ob, of l] obtain s' t' where
    r: "processRequest m l tid s t = Inr (True, s', t')" "fresh s'" "inBuffer s' = inBuffer s" "inBufferBytes s' = inBufferBytes s"
      "inBufferOffset s' = inBufferOffset s + length (get_request i (k # ks'))"
      "emits (concat (map (value_reply (contents t)) (k # ks')) @ asc ''END'' @ crlf) (out_of s) (out_of s')" "out_ok (out_of s')"
      "looked_up t t'" "exec_run (map (\<lambda>k. (tid, OGet k)) (k # ks')) t = Inr (?log, t')"
    by blast
  obtain C' where C': "table_inv string_hash nul_free t' C'" "contents t' = contents t" using r(8) by (auto simp: looked_up_def)
  have e: "exec_run (map (Pair tid) (req_ops rq)) t = Inr (?log, t')" using r(9) Fetch k by (simp add: comp_def)
  have "emits (req_reply rq ?log) (out_of s) (out_of s')" using r(6) unfolding Fetch req_reply.simps found_blocks .
  moreover have "inBufferOffset s' = inBufferOffset s + length (req_bytes rq)" using r(5) Fetch k by simp
  moreover have "values_fit (contents t')" using fit C'(2) by simp
  ultimately show ?thesis using r(1-4,7) C'(1) e process_fresh_more[OF fr r(1)] by blast
qed

section \<open>A batch of requests\<close>

lemma serve_run:
  assumes "server_matcher = Inr m" and "fresh s" and "inBuffer s = pre @ concat (map req_bytes rqs) @ rest" and "inBufferOffset s = length pre"
    and "inBufferBytes s = length pre + length (concat (map req_bytes rqs))" and "inBufferBytes s < length (inBuffer s)" and "length (inBuffer s) < 2 ^ 64"
    and "\<forall>rq \<in> set rqs. req_wf rq" and "table_inv string_hash nul_free t C" and "reqs_safe tid rqs t C" and "values_fit (contents t)"
    and "out_ok (out_of s)" and "length rqs < fuel"
  shows "\<exists>s' t' C' out. serve_loop fuel m l tid n s t = Inr (n + length rqs, s', t') \<and> run_requests tid rqs t = Inr (out, t') \<and>
    fresh s' \<and> inBuffer s' = inBuffer s \<and> inBufferBytes s' = inBufferBytes s \<and> inBufferOffset s' = inBufferBytes s \<and>
    emits out (out_of s) (out_of s') \<and> out_ok (out_of s') \<and> table_inv string_hash nul_free t' C' \<and> request_io.more s' = request_io.more s"
  using assms
proof (induction rqs arbitrary: s t C pre n fuel)
  case Nil
  then obtain fu where "fuel = Suc fu" by (cases fuel) auto
  then show ?case using Nil by (auto simp: emits_def out_ok_def)
next
  case (Cons rq rqs)
  let ?R = "concat (map req_bytes rqs)"
  obtain fu where fu: "fuel = Suc fu" using Cons.prems(13) by (cases fuel) auto
  have wf: "req_wf rq" "\<forall>rq \<in> set rqs. req_wf rq" and sf: "req_safe tid rq t C" using Cons.prems(8,10) by simp_all
  have pend: "pending s (req_bytes rq)"
    using Cons.prems(3-7) by (auto simp: pending_def)
  have ne: "0 < length (req_bytes rq)" by (cases rq) (auto simp: store_request_def get_request_def crlf_def)
  from request_run[OF Cons.prems(1,2) pend wf(1) Cons.prems(9) sf Cons.prems(11,12), of l] obtain s1 t1 C1 log where
    r: "processRequest m l tid s t = Inr (True, s1, t1)" "fresh s1" "inBuffer s1 = inBuffer s" "inBufferBytes s1 = inBufferBytes s"
      "inBufferOffset s1 = inBufferOffset s + length (req_bytes rq)" "exec_run (map (Pair tid) (req_ops rq)) t = Inr (log, t1)"
      "emits (req_reply rq log) (out_of s) (out_of s1)" "out_ok (out_of s1)" "table_inv string_hash nul_free t1 C1"
      "values_fit (contents t1)" "request_io.more s1 = request_io.more s" by blast
  have sf1: "reqs_safe tid rqs t1 C1" using Cons.prems(10) r(6,9) by simp
  have "\<exists>s' t' C' out. serve_loop fu m l tid (n + 1) s1 t1 = Inr (n + 1 + length rqs, s', t') \<and> run_requests tid rqs t1 = Inr (out, t') \<and>
      fresh s' \<and> inBuffer s' = inBuffer s1 \<and> inBufferBytes s' = inBufferBytes s1 \<and> inBufferOffset s' = inBufferBytes s1 \<and>
      emits out (out_of s1) (out_of s') \<and> out_ok (out_of s') \<and> table_inv string_hash nul_free t' C' \<and> request_io.more s' = request_io.more s1"
    by (rule Cons.IH[OF Cons.prems(1) r(2), of "pre @ req_bytes rq"]) (use Cons.prems(3-7,13) r(3-5,8-10) wf(2) sf1 fu in simp_all)
  then obtain s' t' C' out where
    i: "serve_loop fu m l tid (n + 1) s1 t1 = Inr (n + 1 + length rqs, s', t')" "run_requests tid rqs t1 = Inr (out, t')" "fresh s'"
      "inBuffer s' = inBuffer s1" "inBufferBytes s' = inBufferBytes s1" "inBufferOffset s' = inBufferBytes s1"
      "emits out (out_of s1) (out_of s')" "out_ok (out_of s')" "table_inv string_hash nul_free t' C'" "request_io.more s' = request_io.more s1"
    by blast
  have "serve_loop fuel m l tid n s t = Inr (n + length (rq # rqs), s', t')" using fu r(1) i(1) Cons.prems(4,5) ne by simp
  moreover have "run_requests tid (rq # rqs) t = Inr (req_reply rq log @ out, t')" using r(6) i(2) by simp
  moreover have "emits (req_reply rq log @ out) (out_of s) (out_of s')" by (rule emits_trans[OF r(7) i(7)])
  ultimately show ?case using i(3-6,8-10) r(3,4,11) by auto
qed

section \<open>Receiving and sending\<close>

text \<open>
  What the socket does during one event: it delivers the given pieces, one per \<open>recv\<close>, and then has
  no more; the buffer of \<open>b\<close> bytes, \<open>n\<close> of them in use, doubles whenever it is full.
\<close>

fun delivers :: "'n recv_fn \<Rightarrow> nat \<Rightarrow> nat \<Rightarrow> 'n \<Rightarrow> byte list list \<Rightarrow> 'n \<Rightarrow> bool" where
  "delivers recv b n net [] net' \<longleftrightarrow> recv (b - n) net = (RecvError EWOULDBLOCK, net')"
| "delivers recv b n net (x # xs) net' \<longleftrightarrow>
     x \<noteq> [] \<and> n + length x \<le> b \<and> fst (recv (b - n) net) = Received x \<and>
     delivers recv (if n + length x = b then 2 * b else b) (n + length x) (snd (recv (b - n) net)) xs net'"

text \<open>The peer takes the bytes \<open>x\<close> in portions of the given sizes.\<close>

fun takes :: "'n send_fn \<Rightarrow> byte list \<Rightarrow> 'n \<Rightarrow> nat list \<Rightarrow> 'n \<Rightarrow> bool" where
  "takes send x net [] net' \<longleftrightarrow> x = [] \<and> net' = net"
| "takes send x net (n # ns) net' \<longleftrightarrow>
     0 < n \<and> n \<le> length x \<and> fst (send x net) = Sent n \<and> takes send (drop n x) (snd (send x net)) ns net'"

lemma recv_run:
  assumes "delivers recv (length (inBuffer s)) (inBufferBytes s) net xs net'" and "inBufferBytes s < length (inBuffer s)"
    and "br + length (concat xs) < EPOLL_READ_THRESHOLD" and "length xs < fuel"
  shows "\<exists>b. recv_loop fuel recv br s net =
      Inr (s\<lparr>inBuffer := b, inBufferBytes := inBufferBytes s + length (concat xs)\<rparr>, RecvError EWOULDBLOCK, False, net') \<and>
    take (inBufferBytes s + length (concat xs)) b = take (inBufferBytes s) (inBuffer s) @ concat xs \<and>
    inBufferBytes s + length (concat xs) < length b \<and> length b \<le> max (length (inBuffer s)) (2 * (inBufferBytes s + length (concat xs)))"
  using assms
proof (induction xs arbitrary: s net br fuel)
  case Nil
  then obtain fu where "fuel = Suc fu" by (cases fuel) auto
  then show ?case using Nil by (auto intro!: exI[of _ "inBuffer s"])
next
  case (Cons x xs)
  obtain fu where fu: "fuel = Suc fu" using Cons.prems(4) by (cases fuel) auto
  let ?n = "inBufferBytes s + length x" and ?b = "blit (inBuffer s) (inBufferBytes s) x"
  obtain net1 where r: "recv (length (inBuffer s) - inBufferBytes s) net = (Received x, net1)" "x \<noteq> []" "?n \<le> length (inBuffer s)"
      "delivers recv (if ?n = length (inBuffer s) then 2 * length (inBuffer s) else length (inBuffer s)) ?n net1 xs net'"
    using Cons.prems(1) by (cases "recv (length (inBuffer s) - inBufferBytes s) net") auto
  have lb: "length ?b = length (inBuffer s)" using r(3) by (simp add: blit_def)
  let ?s = "s\<lparr>inBuffer := (if ?n = length (inBuffer s) then ?b @ replicate (length (inBuffer s)) 0 else ?b), inBufferBytes := ?n\<rparr>"
  have tk: "take ?n (inBuffer ?s) = take (inBufferBytes s) (inBuffer s) @ x" using r(3) by (auto simp: blit_def)
  have "recv_loop fuel recv br s net = recv_loop fu recv (br + length x) ?s net1"
    using r fu Cons.prems(3) lb by (simp add: Let_def not_less) (cases s, simp)
  moreover have "\<exists>b. recv_loop fu recv (br + length x) ?s net1 =
      Inr (?s\<lparr>inBuffer := b, inBufferBytes := inBufferBytes ?s + length (concat xs)\<rparr>, RecvError EWOULDBLOCK, False, net') \<and>
    take (inBufferBytes ?s + length (concat xs)) b = take (inBufferBytes ?s) (inBuffer ?s) @ concat xs \<and>
    inBufferBytes ?s + length (concat xs) < length b \<and> length b \<le> max (length (inBuffer ?s)) (2 * (inBufferBytes ?s + length (concat xs)))"
    by (rule Cons.IH) (use r(3,4) Cons.prems(2-4) fu lb in \<open>auto simp: mult_2\<close>)
  then obtain b where b: "recv_loop fu recv (br + length x) ?s net1 =
      Inr (?s\<lparr>inBuffer := b, inBufferBytes := inBufferBytes ?s + length (concat xs)\<rparr>, RecvError EWOULDBLOCK, False, net')"
    "take (inBufferBytes ?s + length (concat xs)) b = take (inBufferBytes ?s) (inBuffer ?s) @ concat xs"
    "inBufferBytes ?s + length (concat xs) < length b" "length b \<le> max (length (inBuffer ?s)) (2 * (inBufferBytes ?s + length (concat xs)))" by blast
  have "?s\<lparr>inBuffer := b, inBufferBytes := inBufferBytes ?s + length (concat xs)\<rparr> =
      s\<lparr>inBuffer := b, inBufferBytes := inBufferBytes s + length (concat (x # xs))\<rparr>" by simp
  moreover have "length b \<le> max (length (inBuffer s)) (2 * (inBufferBytes s + length (concat (x # xs))))"
    using b(4) lb by (auto simp: max_def split: if_splits)
  ultimately show ?case using b(1-3) tk by (intro exI[of _ b]) (simp add: add.assoc)
qed

lemma send_run:
  assumes "takes send (slice (outBuffer s) (outBufferOffset s) (outBufferBytes s)) net ns net'" and "outBufferOffset s \<le> outBufferBytes s"
    and "outBufferBytes s \<le> length (outBuffer s)" and "outBufferBytes s < 2 ^ 64" and "length ns < fuel"
  shows "send_loop fuel send r s net = Inr (if ns = [] then r else Sent (last ns), s\<lparr>outBufferOffset := outBufferBytes s\<rparr>, net')"
  using assms
proof (induction ns arbitrary: s net r fuel)
  case Nil
  then obtain fu where "fuel = Suc fu" by (cases fuel) auto
  moreover have "outBufferOffset s = outBufferBytes s" using Nil by (auto simp: slice_def)
  moreover from this have "s\<lparr>outBufferOffset := outBufferBytes s\<rparr> = s" by simp
  ultimately show ?case using Nil by (simp add: sub64_le)
next
  case (Cons n ns)
  obtain fu where fu: "fuel = Suc fu" using Cons.prems(5) by (cases fuel) auto
  let ?x = "slice (outBuffer s) (outBufferOffset s) (outBufferBytes s)" and ?s = "s\<lparr>outBufferOffset := outBufferOffset s + n\<rparr>"
  obtain net1 where r: "send ?x net = (Sent n, net1)" "0 < n" "n \<le> length ?x" "takes send (drop n ?x) net1 ns net'"
    using Cons.prems(1) by (cases "send ?x net") auto
  have n: "outBufferOffset s + n \<le> outBufferBytes s" using r(2,3) Cons.prems(2,3) by (simp add: slice_def)
  have "drop n ?x = slice (outBuffer ?s) (outBufferOffset ?s) (outBufferBytes ?s)"
    by (simp add: slice_def drop_take add.commute)
  then have "send_loop fu send (Sent n) ?s net1 = Inr (if ns = [] then Sent n else Sent (last ns), ?s\<lparr>outBufferOffset := outBufferBytes ?s\<rparr>, net')"
    using Cons.IH[of ?s net1 fu "Sent n"] r(4) n Cons.prems(3-5) fu by simp
  moreover have "sub64 (outBufferBytes s) (outBufferOffset s) = outBufferBytes s - outBufferOffset s"
    by (rule sub64_le) (use Cons.prems(2,4) in simp_all)
  ultimately show ?case using r n fu Cons.prems(2,3) by simp
qed

section \<open>One event\<close>

text \<open>A session between requests: nothing read, nothing to send.\<close>

definition idle :: "session \<Rightarrow> bool" where
  "idle s \<longleftrightarrow> requestInfo s = RequestInfo \<and> inBufferOffset s = 0 \<and> inBufferBytes s = 0 \<and> headerBytesRequired s = 0 \<and>
     dataBytesRequired s = 0 \<and> outBufferBytes s = 0 \<and> outBufferOffset s = 0 \<and>
     sessionState s \<in> {SESSION_READY_STATE, READING_REQUEST} \<and> 0 < length (inBuffer s) \<and> length (inBuffer s) < 2 ^ 63 \<and>
     0 < length (outBuffer s)"

lemma exec_run_length: "exec_run ops t = Inr (log, t') \<Longrightarrow> length log = length ops"
  by (induction ops arbitrary: t log) (auto simp: bind_res_Inr_iff split: prod.splits)

lemma run_requests_replies: "run_requests tid rqs t = Inr (out, t') \<Longrightarrow> rqs \<noteq> [] \<Longrightarrow> out \<noteq> []"
proof (cases rqs)
  case (Cons rq rqs')
  assume "run_requests tid rqs t = Inr (out, t')"
  then obtain log t1 out' where l: "exec_run (map (Pair tid) (req_ops rq)) t = Inr (log, t1)" "out = req_reply rq log @ out'"
    using Cons by (auto simp: bind_res_Inr_iff)
  have "req_reply rq log \<noteq> []"
  proof (cases rq)
    case (Store i k f e d)
    then have "length log = 1" using exec_run_length[OF l(1)] by simp
    then obtain x where "log = [x]" by (cases log) auto
    then show ?thesis using Store by (cases x) (simp add: crlf_def)
  qed (simp add: crlf_def)
  then show ?thesis using l(2) by simp
qed simp

lemma reading_run:
  assumes "idle s" and "delivers recv (length (inBuffer s)) 0 net xs net1" and "length (concat xs) < EPOLL_READ_THRESHOLD" and "length xs < fuel"
  shows "\<exists>b. bind_res (make_room s) (\<lambda>s. recv_loop fuel recv 0 s net) =
      Inr (s\<lparr>inBuffer := b, inBufferBytes := length (concat xs)\<rparr>, RecvError EWOULDBLOCK, False, net1) \<and>
    take (length (concat xs)) b = concat xs \<and> length (concat xs) < length b \<and> length b < 2 ^ 63"
proof -
  have "make_room s = Inr s" using assms(1) by (simp add: make_room_def idle_def)
  moreover obtain b where b: "recv_loop fuel recv 0 s net =
      Inr (s\<lparr>inBuffer := b, inBufferBytes := length (concat xs)\<rparr>, RecvError EWOULDBLOCK, False, net1)"
    "take (length (concat xs)) b = concat xs" "length (concat xs) < length b" "length b \<le> max (length (inBuffer s)) (2 * length (concat xs))"
    using recv_run[of recv s net xs net1 0 fuel] assms by (auto simp: idle_def)
  moreover have "length b < 2 ^ 63" using b(4) assms(1,3) by (auto simp: idle_def EPOLL_READ_THRESHOLD_def max_def split: if_splits)
  ultimately show ?thesis by auto
qed

lemma takes_positive: "takes send x net ns net' \<Longrightarrow> n \<in> set ns \<Longrightarrow> 0 < n"
  by (induction ns arbitrary: x net) auto

lemma write_run:
  assumes "takes send out net ns net'" and "out \<noteq> []" and "length ns < fuel" and "length out < 2 ^ 64"
    and "outBufferOffset s = 0" and "outBufferBytes s = length out" and "take (length out) (outBuffer s) = out"
  shows "write_out fuel send res s net =
    Inr (res, s\<lparr>outBufferBytes := 0, outBufferOffset := 0, sessionState := READING_REQUEST\<rparr>, net')"
proof -
  have "slice (outBuffer s) (outBufferOffset s) (outBufferBytes s) = out" using assms(5-7) by (simp add: slice_def)
  moreover have "length out \<le> length (outBuffer s)" using assms(7) by (metis length_take min.cobounded1 min.commute)
  moreover have "ns \<noteq> []" using assms(1,2) by auto
  moreover from this have "0 < last ns" using takes_positive[OF assms(1)] last_in_set by blast
  ultimately show ?thesis
    using send_run[of send s net ns net' fuel "Sent 0"] assms by (simp add: write_out_def after_send_def)
qed

text \<open>Serving a batch that has been read; \<open>a\<close> says whether reading was broken off.\<close>

lemma batch_run:
  assumes m: "server_matcher = Inr m" and s: "idle s"
    and b: "bind_res (make_room s) (\<lambda>s. recv_loop fuel recv 0 s net) = Inr (s\<lparr>inBuffer := b, inBufferBytes := length x\<rparr>, r, a, net1)"
      "r = RecvError EWOULDBLOCK \<or> r = Received []" "take (length x) b = x" "length x < length b" "length b < 2 ^ 63"
    and x: "x = concat (map req_bytes rqs)" "x \<noteq> []" and rqs: "rqs \<noteq> []" "\<forall>rq \<in> set rqs. req_wf rq"
    and inv: "table_inv string_hash nul_free t C" and safe: "reqs_safe tid rqs t C" and fit: "values_fit (contents t)"
    and fuel: "length rqs < fuel"
  shows "\<exists>out t' C'. run_requests tid rqs t = Inr (out, t') \<and> table_inv string_hash nul_free t' C' \<and>
    (\<forall>ns net2. takes send out net1 ns net2 \<and> length ns < fuel \<and> length out < 2 ^ 64 \<longrightarrow>
      (\<exists>s'. on_readable fuel recv send m l tid s net t = Inr (if a then POSTPONED else SUCCESS, s', net2, t') \<and> idle s' \<and>
         socket s' = socket s \<and> sessionState s' = READING_REQUEST \<and> postponedEpollFlags s' = postponedEpollFlags s))"
proof -
  let ?s = "s\<lparr>inBuffer := b, inBufferBytes := length x\<rparr>" and ?res = "if a then POSTPONED else SUCCESS"
  have "inBuffer ?s = [] @ concat (map req_bytes rqs) @ drop (length x) b"
    unfolding x(1)[symmetric] using append_take_drop_id[of "length x" b] b(3) by (simp only: append_Nil) simp
  from serve_run[OF m _ this, of t C tid fuel l 0] obtain s1 t' C' out where
    r: "serve_loop fuel m l tid 0 ?s t = Inr (length rqs, s1, t')" "run_requests tid rqs t = Inr (out, t')" "fresh s1" "inBuffer s1 = b"
      "inBufferBytes s1 = length x" "inBufferOffset s1 = length x" "emits out (outBuffer s, 0) (out_of s1)" "out_ok (out_of s1)"
      "table_inv string_hash nul_free t' C'" "request_io.more s1 = request_io.more s"
    using s b(4,5) x(1) rqs inv safe fit fuel by (auto simp: idle_def fresh_def out_ok_def)
  have o: "out \<noteq> []" by (rule run_requests_replies[OF r(2) rqs(1)])
  have mo: "socket s1 = socket s" "outBufferOffset s1 = 0" "postponedEpollFlags s1 = postponedEpollFlags s"
    using r(10) s by (cases s1, cases s, simp add: idle_def)+
  let ?s2 = "(zero_offsets s1)\<lparr>inBufferBytes := 0, inBufferOffset := 0, requestInfo := RequestInfo,
    sessionState := (if a then WRITING_WITH_PENDING_READ else WRITING_REPLY)\<rparr>"
  have st: "state (requestInfo s1) \<in> {DONE_STATE, READY_STATE}" using r(3) by (auto simp: fresh_def RequestInfo_def)
  have out: "outBufferBytes s1 = length out" "length out \<le> length (outBuffer s1)" "take (length out) (outBuffer s1) = out"
    using r(7) by (auto simp: emits_def)
  have "\<exists>s'. on_readable fuel recv send m l tid s net t = Inr (?res, s', net2, t') \<and> idle s' \<and> socket s' = socket s \<and>
      sessionState s' = READING_REQUEST \<and> postponedEpollFlags s' = postponedEpollFlags s"
    if t: "takes send out net1 ns net2 \<and> length ns < fuel \<and> length out < 2 ^ 64" for ns net2
  proof -
    let ?s' = "?s2\<lparr>outBufferBytes := 0, outBufferOffset := 0, sessionState := READING_REQUEST\<rparr>"
    have "write_out fuel send ?res ?s2 net1 = Inr (?res, ?s', net2)"
      using t out mo(2) by (intro write_run[where ns = ns, OF _ o]) (simp_all add: zero_offsets_def)
    moreover have "leftovers s1 = Inr ((zero_offsets s1)\<lparr>inBufferBytes := 0, inBufferOffset := 0, requestInfo := RequestInfo\<rparr>)"
      using r(5,6) st by (simp add: leftovers_def reset_initial)
    ultimately have "on_readable fuel recv send m l tid s net t = Inr (?res, ?s', net2, t')"
      using b(1,2) x(2) r(1) rqs(1) o out(1) mo(2) unfolding on_readable_def bind_res_assoc[symmetric]
      by (auto simp: zero_offsets_def Let_def)
    moreover have "idle ?s'" using r(4,8) b(4,5) by (auto simp: idle_def zero_offsets_def out_ok_def)
    moreover have "socket ?s' = socket s \<and> sessionState ?s' = READING_REQUEST \<and> postponedEpollFlags ?s' = postponedEpollFlags s"
      using mo by (simp add: zero_offsets_def)
    ultimately show ?thesis by blast
  qed
  then show ?thesis using r(2,9) by blast
qed

lemma req_bytes_nonempty: "rqs \<noteq> [] \<Longrightarrow> concat (map req_bytes rqs) \<noteq> []"
  by (cases rqs; cases "hd rqs") (simp_all add: store_request_def get_request_def crlf_def)

lemma batch_served:
  assumes m: "server_matcher = Inr m" and s: "idle s" and inp: "delivers recv (length (inBuffer s)) 0 net xs net1"
    and x: "concat xs = concat (map req_bytes rqs)" "length (concat xs) < EPOLL_READ_THRESHOLD" and rqs: "rqs \<noteq> []" "\<forall>rq \<in> set rqs. req_wf rq"
    and inv: "table_inv string_hash nul_free t C" and safe: "reqs_safe tid rqs t C" and fit: "values_fit (contents t)"
    and fuel: "length xs < fuel" "length rqs < fuel"
  shows "\<exists>out t' C'. run_requests tid rqs t = Inr (out, t') \<and> table_inv string_hash nul_free t' C' \<and>
    (\<forall>ns net2. takes send out net1 ns net2 \<and> length ns < fuel \<and> length out < 2 ^ 64 \<longrightarrow>
      (\<exists>s'. on_readable fuel recv send m l tid s net t = Inr (SUCCESS, s', net2, t') \<and> idle s' \<and> socket s' = socket s \<and>
         sessionState s' = READING_REQUEST \<and> postponedEpollFlags s' = postponedEpollFlags s))"
proof -
  obtain b where b: "bind_res (make_room s) (\<lambda>s. recv_loop fuel recv 0 s net) =
      Inr (s\<lparr>inBuffer := b, inBufferBytes := length (concat xs)\<rparr>, RecvError EWOULDBLOCK, False, net1)"
    "take (length (concat xs)) b = concat xs" "length (concat xs) < length b" "length b < 2 ^ 63"
    using reading_run[OF s inp x(2) fuel(1)] by blast
  have ne: "concat xs \<noteq> []" unfolding x(1) by (rule req_bytes_nonempty[OF rqs(1)])
  show ?thesis using batch_run[OF m s b(1) _ b(2-4) x(1) ne rqs inv safe fit fuel(2)] by simp
qed

text \<open>
  A client that sends faster than the session reads: pieces without end in sight, the last of which
  reaches the read threshold and leaves a byte of the buffer free.
\<close>

fun floods :: "'n recv_fn \<Rightarrow> nat \<Rightarrow> nat \<Rightarrow> 'n \<Rightarrow> byte list list \<Rightarrow> 'n \<Rightarrow> bool" where
  "floods recv b n net [] net' \<longleftrightarrow> False"
| "floods recv b n net (x # xs) net' \<longleftrightarrow>
     x \<noteq> [] \<and> fst (recv (b - n) net) = Received x \<and>
     (if xs = [] then n + length x < b \<and> net' = snd (recv (b - n) net)
      else n + length x \<le> b \<and>
        floods recv (if n + length x = b then 2 * b else b) (n + length x) (snd (recv (b - n) net)) xs net')"

lemma flood_run:
  assumes "floods recv (length (inBuffer s)) (inBufferBytes s) net xs net'" and "inBufferBytes s < length (inBuffer s)"
    and "br + length (concat (butlast xs)) < EPOLL_READ_THRESHOLD" and "EPOLL_READ_THRESHOLD \<le> br + length (concat xs)"
    and "length xs \<le> fuel" and "requestInfo s = RequestInfo"
  shows "\<exists>b. recv_loop fuel recv br s net =
      Inr (s\<lparr>inBuffer := b, inBufferBytes := inBufferBytes s + length (concat xs)\<rparr>, Received [], True, net') \<and>
    take (inBufferBytes s + length (concat xs)) b = take (inBufferBytes s) (inBuffer s) @ concat xs \<and>
    inBufferBytes s + length (concat xs) < length b \<and>
    length b \<le> max (length (inBuffer s)) (2 * (inBufferBytes s + length (concat (butlast xs))))"
  using assms
proof (induction xs arbitrary: s net br fuel)
  case (Cons x xs)
  obtain fu where fu: "fuel = Suc fu" using Cons.prems(5) by (cases fuel) auto
  let ?n = "inBufferBytes s + length x" and ?b = "blit (inBuffer s) (inBufferBytes s) x"
  obtain net1 where r: "recv (length (inBuffer s) - inBufferBytes s) net = (Received x, net1)" "x \<noteq> []" "?n \<le> length (inBuffer s)"
    using Cons.prems(1) by (cases "recv (length (inBuffer s) - inBufferBytes s) net") (auto split: if_splits)
  have lb: "length ?b = length (inBuffer s)" using r(3) by (simp add: blit_def)
  have may: "may_stop_reading (s\<lparr>inBuffer := b, inBufferBytes := n\<rparr>)" for b n
    using Cons.prems(6) by (simp add: may_stop_reading_def RequestInfo_def)
  show ?case
  proof (cases "xs = []")
    case True
    have "?n < length (inBuffer s)" "net' = net1" using Cons.prems(1) r(1) True by simp_all
    moreover have "take ?n ?b = take (inBufferBytes s) (inBuffer s) @ x" using r(3) by (auto simp: blit_def)
    ultimately show ?thesis using r fu may Cons.prems(4) lb True by (intro exI[of _ ?b]) (simp add: Let_def)
  next
    case False
    let ?s = "s\<lparr>inBuffer := (if ?n = length (inBuffer s) then ?b @ replicate (length (inBuffer s)) 0 else ?b), inBufferBytes := ?n\<rparr>"
    have tk: "take ?n (inBuffer ?s) = take (inBufferBytes s) (inBuffer s) @ x" using r(3) by (auto simp: blit_def)
    have fl: "floods recv (if ?n = length (inBuffer s) then 2 * length (inBuffer s) else length (inBuffer s)) ?n net1 xs net'"
      using Cons.prems(1) r(1) False by simp
    have "recv_loop fuel recv br s net = recv_loop fu recv (br + length x) ?s net1"
      using r fu Cons.prems(3) lb False by (simp add: Let_def not_less) (cases s, simp)
    moreover have "\<exists>b. recv_loop fu recv (br + length x) ?s net1 =
        Inr (?s\<lparr>inBuffer := b, inBufferBytes := inBufferBytes ?s + length (concat xs)\<rparr>, Received [], True, net') \<and>
      take (inBufferBytes ?s + length (concat xs)) b = take (inBufferBytes ?s) (inBuffer ?s) @ concat xs \<and>
      inBufferBytes ?s + length (concat xs) < length b \<and>
      length b \<le> max (length (inBuffer ?s)) (2 * (inBufferBytes ?s + length (concat (butlast xs))))"
      by (rule Cons.IH) (use r(3) fl False Cons.prems(2-6) fu lb in \<open>auto simp: mult_2\<close>)
    then obtain b where b: "recv_loop fu recv (br + length x) ?s net1 =
        Inr (?s\<lparr>inBuffer := b, inBufferBytes := inBufferBytes ?s + length (concat xs)\<rparr>, Received [], True, net')"
      "take (inBufferBytes ?s + length (concat xs)) b = take (inBufferBytes ?s) (inBuffer ?s) @ concat xs"
      "inBufferBytes ?s + length (concat xs) < length b"
      "length b \<le> max (length (inBuffer ?s)) (2 * (inBufferBytes ?s + length (concat (butlast xs))))" by blast
    have "?s\<lparr>inBuffer := b, inBufferBytes := inBufferBytes ?s + length (concat xs)\<rparr> =
        s\<lparr>inBuffer := b, inBufferBytes := inBufferBytes s + length (concat (x # xs))\<rparr>" by simp
    moreover have "length b \<le> max (length (inBuffer s)) (2 * (inBufferBytes s + length (concat (butlast (x # xs)))))"
      using b(4) lb False by (auto simp: max_def split: if_splits)
    ultimately show ?thesis using b(1-3) tk by (intro exI[of _ b]) (simp add: add.assoc)
  qed
qed simp

lemma flood_reading_run:
  assumes "idle s" and "floods recv (length (inBuffer s)) 0 net xs net1" and "length (concat (butlast xs)) < EPOLL_READ_THRESHOLD"
    and "EPOLL_READ_THRESHOLD \<le> length (concat xs)" and "length xs \<le> fuel"
  shows "\<exists>b. bind_res (make_room s) (\<lambda>s. recv_loop fuel recv 0 s net) =
      Inr (s\<lparr>inBuffer := b, inBufferBytes := length (concat xs)\<rparr>, Received [], True, net1) \<and>
    take (length (concat xs)) b = concat xs \<and> length (concat xs) < length b \<and> length b < 2 ^ 63"
proof -
  have "make_room s = Inr s" using assms(1) by (simp add: make_room_def idle_def)
  moreover obtain b where b: "recv_loop fuel recv 0 s net =
      Inr (s\<lparr>inBuffer := b, inBufferBytes := length (concat xs)\<rparr>, Received [], True, net1)"
    "take (length (concat xs)) b = concat xs" "length (concat xs) < length b"
    "length b \<le> max (length (inBuffer s)) (2 * length (concat (butlast xs)))"
    using flood_run[of recv s net xs net1 0 fuel] assms by (auto simp: idle_def)
  moreover have "length b < 2 ^ 63" using b(4) assms(1,3) by (auto simp: idle_def EPOLL_READ_THRESHOLD_def max_def split: if_splits)
  ultimately show ?thesis by auto
qed

end
