(* ===== verification/Text_Faults.thy ===== *)
theory Text_Faults
  imports Text_Get
begin

text \<open>
  Where the text protocol departs from what clients may send: stores with \<open>noreply\<close>, command words
  that are not commands, and requests whose parts arrive separately.
\<close>

section \<open>Requests without a reply\<close>

definition noreply_request :: "nat \<Rightarrow> byte list \<Rightarrow> nat \<Rightarrow> nat \<Rightarrow> byte list \<Rightarrow> byte list" where
  "noreply_request i k f e d = store_header (memcachedCommands ! i) k f e (length d) @ asc '' noreply'' @ crlf @ d @ crlf"

text \<open>
  C22: a complete \<open>set\<close>, \<open>add\<close> or \<open>replace\<close> with \<open>noreply\<close> and a value of at least one byte aborts
  the server, whatever the cache holds: the parser skips nine bytes for \<open>" noreply\r\n"\<close>, which has
  ten, so the data is looked for one byte early and the check of the CR LF behind it fails. (With an
  empty value there is no such check; the theorem does not speak of it. The expiry time is below
  $2^{31}$.)
\<close>

theorem noreply_store_aborts:
  assumes m: "server_matcher = Inr m" and i: "i \<in> {1, 2, 4}" and fr: "fresh s" and pend: "pending s (noreply_request i k f e d)"
    and k: "word_ok k" and f: "f < 2 ^ 16" and e: "e < 2 ^ 31" and d: "d \<noteq> []"
  shows "processRequest m l tid s t = Inl Aborted"
proof -
  let ?H = "store_header (memcachedCommands ! i) k f e (length d)" and ?n = "length d"
  let ?z = "asc ''noreply'' @ crlf @ d @ crlf"
  have sp: "asc '' noreply'' = 32 # asc ''noreply''" "length (asc ''noreply'') = 7" by (simp_all add: asc_def)
  obtain pre rest where b: "inBuffer s = pre @ ?H @ 32 # ?z @ rest" "inBufferOffset s = length pre"
      "length pre + length (?H @ 32 # ?z) \<le> inBufferBytes s" "inBufferBytes s < length (inBuffer s)" "length (inBuffer s) < 2 ^ 64"
    using pend by (auto simp: pending_def noreply_request_def sp)
  let ?q = "length (pre @ ?H) + 9"
  obtain s1 where s1: "header_step m (started s) = Inr (True, s1)" "inBuffer s1 = inBuffer s" "inBufferOffset s1 = length pre"
      "inBufferBytes s1 = inBufferBytes s" "headerLen s1 = ?q - length pre" "dataOffset s1 = ?q" "sessionDataLen s1 = ?n + 2"
    using header_step_store[OF m i, of 32 k f e ?n "started s" pre "?z @ rest" ?q] k f e d b
    by (auto simp: started_def)
  have len: "?q + ?n + 2 \<le> inBufferBytes s" using b(3) by (simp add: sp crlf_def)
  have "inBuffer s ! (?q + ?n + 1) = 13" unfolding b(1) by (simp add: nth_append sp crlf_def)
  moreover have "?q + ?n + 1 < length (inBuffer s)" "?q + ?n < length (inBuffer s)" using len b(4) by simp_all
  moreover have "sub64 (sub64 (inBufferBytes s) (length pre)) (?q - length pre) = inBufferBytes s - length pre - (?q - length pre)"
    using len b(4,5) by (simp add: sub64_le)
  moreover have "sub64 (?q + ?n + 2) 2 = ?q + ?n" "sub64 (?q + ?n + 2) 1 = ?q + ?n + 1" using len b(4,5) by (simp_all add: sub64_le)
  ultimately have "data_step l tid s1 t = Inl Aborted" using len s1(2-7) by (auto simp: data_step_def arr_get_def)
  then show ?thesis using process_fresh[OF fr, of m l tid t] s1(1) by simp
qed

theorem noreply_store_aborts_witness:
  "\<exists>m t. server_matcher = Inr m \<and> demo_table 8 = Inr t \<and>
     processRequest m [] 0 (demo_io (asc ''set k 0 0 1 noreply'' @ crlf @ asc ''v'' @ crlf)) t = Inl Aborted"
proof -
  obtain t where t: "demo_table 8 = Inr t" using demo_empty[of 8] by auto
  let ?x = "noreply_request 1 [107] 0 0 [118]"
  obtain m where m: "server_matcher = Inr m" using server_matcher_built by blast
  have x: "?x = asc ''set k 0 0 1 noreply'' @ crlf @ asc ''v'' @ crlf"
    by (simp add: noreply_request_def store_header_def memcachedCommands_def asc_def decimal.simps dig_def)
  then have p: "pending (demo_io ?x) ?x" by (intro demo_io_ready(3)) (simp add: asc_def crlf_def)
  show ?thesis using noreply_store_aborts[OF m _ demo_io_ready(1) p] m t unfolding x by (auto simp: word_ok_def)
qed

section \<open>Words that are no commands\<close>

lemma unknown_word:
  assumes "server_matcher = Inr m" and "length w < 256"
    and "\<And>i. i < 16 \<Longrightarrow> length (memcachedCommands ! i) = length w \<Longrightarrow>
      memcachedCommands ! i ! test_pos (length w) \<noteq> w ! test_pos (length w)"
  shows "MatchSubstring m w = Inr None"
proof (cases "find (\<lambda>i. memcachedCommands ! i ! test_pos (length w) = w ! test_pos (length w)) (commands_of (length w))")
  case (Some j)
  then have "j < 16 \<and> length (memcachedCommands ! j) = length w \<and> memcachedCommands ! j ! test_pos (length w) = w ! test_pos (length w)"
    using find_command[of w j] assms(2) by blast
  then show ?thesis using assms(3) by blast
qed (simp add: server_match_find[OF assms(1,2)])

lemma unknown_word_step:
  assumes "MatchSubstring m w = Inr None" and "\<forall>x \<in> set w. \<not> is_sp_cr x" and "is_sp_cr c"
    and "inBuffer s = pre @ w @ c # rest" and "inBufferOffset s = length pre" and "length (pre @ w) < inBufferBytes s"
    and "state (requestInfo s) = PARSING_HEADER"
  shows "processRequest m l tid s t = Inr (False, s, t)"
proof -
  let ?n = "inBufferBytes s - length pre"
  have n: "length pre + ?n = inBufferBytes s" using assms(6) by simp
  have "field is_sp_cr (inBuffer s) (length pre + ?n) (length pre) inc K = K (length pre + length w)" for inc K
    by (rule scan_word_at[of _ pre w c rest]) (use assms n in simp_all)
  moreover have "slice (inBuffer s) (length pre) (length pre + length w) = w"
    by (rule slice_word[of _ pre _ "c # rest"]) (use assms in simp_all)
  ultimately have "parseMemcachedHeader m (inBuffer s) (length pre) ?n (requestInfo s) = Inr (False, length pre, requestInfo s)"
    using assms(1) by (simp add: parseMemcachedHeader_def Let_def)
  then have "header_step m s = Inr (False, s)" using assms(5,6) by (simp add: header_step_def)
  then show ?thesis using assms(7) by (subst processRequest.simps) simp
qed

lemma unknown_word_fresh:
  assumes u: "MatchSubstring m w = Inr None" and fr: "fresh s" and w: "\<forall>x \<in> set w. \<not> is_sp_cr x" and c: "is_sp_cr c"
    and buf: "inBuffer s = pre @ w @ c # rest" and off: "inBufferOffset s = length pre" and lim: "length (pre @ w) < inBufferBytes s"
  shows "processRequest m l tid s t = Inr (False, started s, t)"
proof -
  have h: "processRequest m l tid (started s) t = Inr (False, started s, t)"
    by (rule unknown_word_step[OF u w c, of _ pre rest]) (use buf off lim in \<open>simp_all add: started_def RequestInfo_def\<close>)
  have "processRequest m l tid (started s) t = bind_res (header_step m (started s)) (\<lambda>r.
      if fst r then processRequest m l tid (snd r) t else Inr (False, snd r, t))"
    by (subst processRequest.simps) (simp add: started_def RequestInfo_def)
  moreover have "header_step m (started s) = Inr (True, s1) \<Longrightarrow> processRequest m l tid s1 t = data_step l tid s1 t" for s1
    using header_step_state[of m "started s" s1] by (subst processRequest.simps) simp
  ultimately show ?thesis
    using h process_fresh[OF fr, of m l tid t] by (auto simp: bind_res_def split: sum.splits if_splits prod.splits)
qed

text \<open>The CR LF that a store with an empty value leaves in the input is such a word, the empty one.\<close>

lemma empty_word_unknown:
  assumes "server_matcher = Inr m"
  shows "MatchSubstring m [] = Inr None"
proof -
  have "\<forall>i \<in> set [0..<16]. memcachedCommands ! i \<noteq> []" by code_simp
  then have "\<forall>i < 16. length (memcachedCommands ! i) \<noteq> 0" by (simp del: upt_rec_numeral)
  then show ?thesis by (intro unknown_word[OF assms]) simp_all
qed

lemma empty_store_stalls:
  assumes m: "server_matcher = Inr m" and fr: "fresh s" and pend: "pending s (store_request i k f e [])"
    and hyps: "i \<in> {1, 2, 4}" "word_ok k" "f < 2 ^ 16" "e < 2 ^ 31" "table_inv string_hash nul_free t C"
      "op_ok t C tid (store_op (request_of i) k (store_value [] f) e)" "out_ok (out_of s)"
  shows "\<exists>s' t'. processRequest m l tid s t = Inr (True, s', t') \<and> inBufferOffset s' + 2 = inBufferOffset s + length (store_request i k f e []) \<and>
    processRequest m l tid s' t' = Inr (False, started s', t')"
proof -
  let ?x = "store_request i k f e []"
  obtain s' t' where r: "processRequest m l tid s t = Inr (True, s', t')" "fresh s'" "inBuffer s' = inBuffer s"
      "inBufferBytes s' = inBufferBytes s" "inBufferOffset s' = inBufferOffset s + length ?x - 2"
    using store_request_run[OF m hyps(1) fr pend hyps(2-7), of l] by auto
  obtain pre rest where b: "inBuffer s = pre @ ?x @ rest" "inBufferOffset s = length pre" "length pre + length ?x \<le> inBufferBytes s"
    using pend by (auto simp: pending_def)
  let ?y = "store_header (memcachedCommands ! i) k f e 0 @ crlf"
  have x: "?x = ?y @ [] @ 13 # [10]" by (simp add: store_request_def crlf_def)
  have "processRequest m l tid s' t' = Inr (False, started s', t')"
    by (rule unknown_word_fresh[OF empty_word_unknown[OF m] r(2), of 13 "pre @ ?y" "10 # rest"])
      (use r b x in \<open>simp_all add: is_sp_cr_def\<close>)
  moreover have "inBufferOffset s' + 2 = inBufferOffset s + length ?x" unfolding r(5) x by simp
  ultimately show ?thesis using r(1) by blast
qed

text \<open>
  C23: a command word that the matcher does not take for a command (the empty word before a stray CR
  among them) is neither consumed nor answered: the request reports that it needs more input, and it
  does so again however much more input arrives, so nothing behind the word is ever served.
\<close>

theorem unknown_command_stalls:
  assumes m: "server_matcher = Inr m" and fr: "fresh s" and buf: "inBuffer s = pre @ w @ c # rest" and off: "inBufferOffset s = length pre"
    and lim: "length (pre @ w) < inBufferBytes s" and w: "\<forall>x \<in> set w. \<not> is_sp_cr x" and c: "c = 32 \<or> c = 13"
    and len: "length w < 256"
    and no: "\<forall>i < 16. length (memcachedCommands ! i) = length w \<longrightarrow>
      memcachedCommands ! i ! test_pos (length w) \<noteq> w ! test_pos (length w)"
  shows "processRequest m l tid s t = Inr (False, started s, t) \<and>
    (\<forall>more n. inBufferBytes s \<le> n \<longrightarrow>
      (let s' = (started s)\<lparr>inBuffer := pre @ w @ c # more, inBufferBytes := n\<rparr>
       in processRequest m l tid s' t = Inr (False, s', t)))"
proof -
  have u: "MatchSubstring m w = Inr None" using no by (intro unknown_word[OF m len]) blast
  have c': "is_sp_cr c" using c by (auto simp: is_sp_cr_def)
  have st: "processRequest m l tid s' t = Inr (False, s', t)"
    if "inBuffer s' = pre @ w @ c # r" "inBufferOffset s' = length pre" "length (pre @ w) < inBufferBytes s'"
      "state (requestInfo s') = PARSING_HEADER" for s' :: "'a request_io_scheme" and r
    by (rule unknown_word_step[OF u w c' that])
  have "processRequest m l tid s t = Inr (False, started s, t)" by (rule unknown_word_fresh[OF u fr w c' buf off lim])
  moreover have "processRequest m l tid s' t = Inr (False, s', t)"
    if "inBufferBytes s \<le> n" "s' = (started s)\<lparr>inBuffer := pre @ w @ c # more, inBufferBytes := n\<rparr>" for s' more n
    by (rule st[of _ more]) (use that off lim in \<open>simp_all add: started_def RequestInfo_def\<close>)
  ultimately show ?thesis by (simp add: Let_def)
qed

theorem unknown_command_stalls_witness:
  "\<exists>m t. server_matcher = Inr m \<and> demo_table 8 = Inr t \<and>
     processRequest m [] 0 (demo_io (crlf @ asc ''get k'' @ crlf)) t =
       Inr (False, started (demo_io (crlf @ asc ''get k'' @ crlf)), t)"
proof -
  obtain t where t: "demo_table 8 = Inr t" using demo_empty[of 8] by auto
  obtain m where m: "server_matcher = Inr m" using server_matcher_built by blast
  have "\<forall>i \<in> set [0..<16]. memcachedCommands ! i \<noteq> []" by code_simp
  then have "\<forall>i < 16. length (memcachedCommands ! i) \<noteq> 0" by (simp del: upt_rec_numeral)
  then show ?thesis
    using unknown_command_stalls[OF m demo_io_ready(1), of "crlf @ asc ''get k'' @ crlf" "[]" "[]" 13 "10 # asc ''get k'' @ crlf @ [0]" "[]" 0 t] m t
    by (auto simp: demo_io_def crlf_def)
qed

end
