(* ===== verification/Session_Props.thy ===== *)
theory Session_Props
  imports Session_Requests Text_Faults
begin

text \<open>
  What a session promises to its client and to the server thread, and where it fails them.
\<close>

section \<open>Pipelined requests\<close>

text \<open>
  C28: when an idle session is told that its socket is readable and the socket delivers, in any pieces,
  a batch of complete requests (\<open>get\<close>, \<open>gets\<close>, and \<open>set\<close>, \<open>add\<close> or \<open>replace\<close> without \<open>noreply\<close> whose value has
  at least one byte and whose expiry time is below $2^{31}$; a store of an empty value is excluded,
  since it leaves a CR LF at which the session stalls), the session runs them in order on the cache,
  wherever their cache operations are safe, and sends exactly the concatenation of their replies,
  however many portions the peer takes them in; it reports success and is idle again. The batch must
  be below the read threshold; \<open>fuel\<close> bounds the rounds of the loops and suffices when it exceeds the
  numbers of pieces, requests and portions.
\<close>

theorem pipelined_requests_served:
  assumes "server_matcher = Inr m" and "idle s" and "events AND EPOLLIN \<noteq> 0"
    and "delivers recv (length (inBuffer s)) 0 net xs net1" and "concat xs = concat (map req_bytes rqs)"
    and "length (concat xs) < EPOLL_READ_THRESHOLD" and "rqs \<noteq> []" and "\<forall>rq \<in> set rqs. req_wf rq"
    and "table_inv string_hash nul_free t C" and "reqs_safe tid rqs t C" and "values_fit (contents t)"
    and "length xs < fuel" and "length rqs < fuel"
  shows "\<exists>out t' C'. run_requests tid rqs t = Inr (out, t') \<and> table_inv string_hash nul_free t' C' \<and>
    (\<forall>ns net2. takes send out net1 ns net2 \<and> length ns < fuel \<and> length out < 2 ^ 64 \<longrightarrow>
      (\<exists>s'. process fuel recv send m l events tid s net t = Inr (SUCCESS, s', net2, t') \<and> idle s' \<and> socket s' = socket s))"
proof -
  let ?s = "s\<lparr>postponedEpollFlags := 0\<rparr>"
  have s: "idle ?s" "sessionState ?s \<in> {SESSION_READY_STATE, READING_REQUEST}" using assms(2) by (simp_all add: idle_def)
  have d: "delivers recv (length (inBuffer ?s)) 0 net xs net1" using assms(4) by simp
  obtain out t' C' where r: "run_requests tid rqs t = Inr (out, t')" "table_inv string_hash nul_free t' C'"
    and o: "\<forall>ns net2. takes send out net1 ns net2 \<and> length ns < fuel \<and> length out < 2 ^ 64 \<longrightarrow>
      (\<exists>s'. on_readable fuel recv send m l tid ?s net t = Inr (SUCCESS, s', net2, t') \<and> idle s' \<and> socket s' = socket ?s \<and>
         sessionState s' = READING_REQUEST \<and> postponedEpollFlags s' = postponedEpollFlags ?s)"
    using batch_served[OF assms(1) s(1) d assms(5-13), of send l] by blast
  have "\<exists>s'. process fuel recv send m l events tid s net t = Inr (SUCCESS, s', net2, t') \<and> idle s' \<and> socket s' = socket s"
    if tk: "takes send out net1 ns net2 \<and> length ns < fuel \<and> length out < 2 ^ 64" for ns net2
  proof -
    obtain s' where s': "on_readable fuel recv send m l tid ?s net t = Inr (SUCCESS, s', net2, t')" "idle s'" "socket s' = socket s"
      "sessionState s' = READING_REQUEST" using o tk by force
    then have "on_in fuel recv send m l tid ?s net t = Inr (SUCCESS, s', net2, t')" using s(2) by (simp add: on_in_def)
    moreover have "on_out fuel send SUCCESS s' net2 = Inr (SUCCESS, s'\<lparr>sessionState := READING_REQUEST\<rparr>, net2)"
      using s'(4) by (simp add: on_out_def)
    moreover have "idle (s'\<lparr>sessionState := READING_REQUEST\<rparr>)" using s'(2) by (simp add: idle_def)
    ultimately show ?thesis using assms(3) s' by (auto simp: process_def Let_def)
  qed
  then show ?thesis using r by blast
qed

text \<open>A socket that delivers prepared pieces and takes everything.\<close>

type_synonym script = "byte list list \<times> byte list"

fun script_recv :: "script recv_fn" where
  "script_recv cap ([], out) = (RecvError EWOULDBLOCK, [], out)"
| "script_recv cap (x # xs, out) = (Received x, xs, out)"

fun script_send :: "script send_fn" where
  "script_send bs (xs, out) = (Sent (length bs), xs, out @ bs)"

definition demo_session :: session where
  "demo_session = new_session\<lparr>requestInfo := RequestInfo\<rparr>"

lemma demo_session_idle: "idle demo_session" "length (inBuffer demo_session) = 4096"
  by (simp_all add: idle_def demo_session_def new_session_def MIN_IN_BUFFER_SIZE_def MIN_OUT_BUFFER_SIZE_def)

text \<open>A store and a lookup of the key stored.\<close>

text \<open>The first store of an empty cache.\<close>

lemma demo_store:
  fixes d :: "byte list"
  defines "v \<equiv> store_value d 7"
  shows "\<exists>t t1. demo_table 8 = Inr t \<and> contents t = Map.empty \<and> table_inv string_hash nul_free t (init_chains 8 1) \<and>
    op_ok t (init_chains 8 1) 0 (OInsertOrSet [107] v 0) \<and>
    exec_run (map (Pair 0) (req_ops (Store 1 [107] 7 0 d))) t = Inr ([(OInsertOrSet [107] v 0, RBool True)], t1) \<and>
    contents t1 = [[107] \<mapsto> v] \<and> table_inv string_hash nul_free t1 (inserted 0 (init_chains 8 1)) \<and>
    keys_ok t1 [[107]] \<and> length (lruLists t1) = 1"
proof -
  obtain t where t: "demo_table 8 = Inr t" "contents t = Map.empty" "hashSize t = 16" "length (lruLists t) = 1"
    "length (elementStorage t) = 8" "table_inv string_hash nul_free t (init_chains 8 1)"
    using demo_empty[of 8] by auto
  have tl: "tl (init_chains 8 1 (Free 0)) \<noteq> []" by (simp add: init_chains_def tl_upt)
  have nf: "nul_free [107]" by (simp add: nul_free_def)
  have w: "window_ok string_hash t [107]" using demo_window[OF t(6,3)] t(5) by simp
  have op: "store_op (request_of 1) [107] v 0 = OInsertOrSet [107] v 0" by (simp add: store_op_def request_of_def)
  obtain t1 where t1: "insertOrSet string_hash sso_eq 0 [107] v 0 t = Inr (True, t1)"
    "contents t1 = [[107] \<mapsto> v]" "same_shape t t1" "table_inv string_hash nul_free t1 (inserted 0 (init_chains 8 1))"
    using yam.insert_spare_map[OF t(6) _ nf w, of 0 v 0] t tl by auto
  have k: "keys_ok t1 [[107]]" "length (lruLists t1) = 1"
    using demo_window[OF t1(4)] t1(3) t nf by (simp_all add: keys_ok_def same_shape_def)
  have "exec_run (map (Pair 0) (req_ops (Store 1 [107] 7 0 d))) t = Inr ([(OInsertOrSet [107] v 0, RBool True)], t1)"
    using t1(1) op by (simp add: v_def)
  moreover have "op_ok t (init_chains 8 1) 0 (OInsertOrSet [107] v 0)"
    using t(2,4) tl nf w by (simp add: op_ok_def insert_safe_def)
  ultimately show ?thesis using t(1,2,6) t1(2,4) k by blast
qed

lemma demo_batch:
  defines "rqs \<equiv> [Store 1 [107] 7 0 [118], Fetch 0 [[107]]]"
  shows "\<exists>t t'. demo_table 8 = Inr t \<and> table_inv string_hash nul_free t (init_chains 8 1) \<and> values_fit (contents t) \<and>
    reqs_safe 0 rqs t (init_chains 8 1) \<and>
    run_requests 0 rqs t = Inr (asc ''STORED'' @ crlf @ asc ''VALUE k 7 1'' @ crlf @ asc ''v'' @ crlf @ asc ''END'' @ crlf, t')"
proof -
  let ?v = "store_value [118] 7"
  obtain t t1 where t: "demo_table 8 = Inr t" "contents t = Map.empty" "table_inv string_hash nul_free t (init_chains 8 1)"
    "op_ok t (init_chains 8 1) 0 (OInsertOrSet [107] ?v 0)"
    and e1: "exec_run (map (Pair 0) (req_ops (Store 1 [107] 7 0 [118]))) t = Inr ([(OInsertOrSet [107] ?v 0, RBool True)], t1)"
    and t1: "contents t1 = [[107] \<mapsto> ?v]" "table_inv string_hash nul_free t1 (inserted 0 (init_chains 8 1))"
    and k: "keys_ok t1 [[107]]" "length (lruLists t1) = 1"
    using demo_store[of "[118]"] by blast
  have nf: "nul_free [107]" by (simp add: nul_free_def)
  have op: "store_op (request_of 1) [107] ?v 0 = OInsertOrSet [107] ?v 0" by (simp add: store_op_def request_of_def)
  have safe: "reqs_safe 0 rqs t (init_chains 8 1)" using t(4) e1 k op by (auto simp: rqs_def)
  obtain t2 where "get string_hash sso_eq 0 [107] None t1 = Inr (contents t1 [107], None, t2)"
    using yam.get_map[OF t1(2), of 0 "[107]"] k nf by (auto simp: keys_ok_def)
  then have e2: "exec_run (map (Pair 0) (req_ops (Fetch 0 [[107]]))) t1 = Inr ([(OGet [107], RValue (Some ?v))], t2)"
    using t1(1) by simp
  have "value_block [107] ?v = asc ''VALUE k 7 1'' @ crlf @ asc ''v'' @ crlf"
    by (simp add: value_block_def store_value_def strncpy_all_nul_free nul_free_def asc_def decimal.simps dig_def)
  moreover have "store_answer (request_of 1) r = asc ''STORED''" for r by (simp add: store_answer_def request_of_def)
  ultimately have "run_requests 0 rqs t = Inr (asc ''STORED'' @ crlf @ asc ''VALUE k 7 1'' @ crlf @ asc ''v'' @ crlf @ asc ''END'' @ crlf, t2)"
    using e1 e2 by (simp add: rqs_def del: exec_run.simps req_ops.simps)
  then show ?thesis using t(1-3) safe by (auto simp: values_fit_def)
qed

theorem pipelined_requests_served_witness:
  "\<exists>m t s' t'. server_matcher = Inr m \<and> demo_table 8 = Inr t \<and>
     process 5 script_recv script_send m [] EPOLLIN 0 demo_session
       ([asc ''set k 7 0 1'' @ crlf @ asc ''v'', crlf @ asc ''get k'' @ crlf], []) t =
     Inr (SUCCESS, s', ([], asc ''STORED'' @ crlf @ asc ''VALUE k 7 1'' @ crlf @ asc ''v'' @ crlf @ asc ''END'' @ crlf), t') \<and> idle s'"
proof -
  let ?rqs = "[Store 1 [107] 7 0 [118], Fetch 0 [[107]]]"
  let ?xs = "[asc ''set k 7 0 1'' @ crlf @ asc ''v'', crlf @ asc ''get k'' @ crlf]"
  let ?out = "asc ''STORED'' @ crlf @ asc ''VALUE k 7 1'' @ crlf @ asc ''v'' @ crlf @ asc ''END'' @ crlf"
  obtain m where m: "server_matcher = Inr m" using server_matcher_built by blast
  obtain t t1 where t: "demo_table 8 = Inr t" "table_inv string_hash nul_free t (init_chains 8 1)" "values_fit (contents t)"
    "reqs_safe 0 ?rqs t (init_chains 8 1)" "run_requests 0 ?rqs t = Inr (?out, t1)" using demo_batch by blast
  have x: "concat ?xs = concat (map req_bytes ?rqs)"
    by (simp add: store_request_def store_header_def get_request_def memcachedCommands_def asc_def decimal.simps dig_def)
  have d: "delivers script_recv (length (inBuffer demo_session)) 0 (?xs, []) ?xs ([], [])"
    unfolding demo_session_idle(2) by (simp add: asc_def crlf_def)
  have ev: "EPOLLIN AND EPOLLIN \<noteq> 0" by (simp add: EPOLLIN_def)
  have len: "length (concat ?xs) < EPOLL_READ_THRESHOLD" by (simp add: asc_def crlf_def EPOLL_READ_THRESHOLD_def)
  have wf: "?rqs \<noteq> []" "\<forall>rq \<in> set ?rqs. req_wf rq" "length ?xs < 5" "length ?rqs < 5" by (simp_all add: word_ok_def)
  obtain out t' where o: "run_requests 0 ?rqs t = Inr (out, t')"
    "\<And>ns net2. takes script_send out ([], []) ns net2 \<and> length ns < 5 \<and> length out < 2 ^ 64 \<Longrightarrow>
      \<exists>s'. process 5 script_recv script_send m [] EPOLLIN 0 demo_session (?xs, []) t = Inr (SUCCESS, s', net2, t') \<and> idle s'"
    using pipelined_requests_served[OF m demo_session_idle(1) ev d x len wf(1,2) t(2,4,3) wf(3,4), of script_send "[]"] by blast
  have e: "out = ?out" using o(1) t(5) by simp
  have "takes script_send ?out ([], []) [length ?out] ([], ?out)" by (simp add: crlf_def)
  then have "\<exists>s'. process 5 script_recv script_send m [] EPOLLIN 0 demo_session (?xs, []) t = Inr (SUCCESS, s', ([], ?out), t') \<and> idle s'"
    by (intro o(2)[of "[length ?out]"]) (simp add: e asc_def crlf_def)
  then show ?thesis using m t(1) by blast
qed

section \<open>A request whose last byte is late\<close>

text \<open>
  C29: when the input of an event ends between the CR and the LF of a \<open>get\<close>, the server aborts: the
  request is answered as if it were complete, the read position is then behind the input, and
  \<open>process\<close> takes that for a corrupted session.
\<close>

theorem split_get_aborts:
  assumes m: "server_matcher = Inr m" and s: "idle s" and ev: "events AND EPOLLIN \<noteq> 0"
    and inp: "delivers recv (length (inBuffer s)) 0 net xs net1" and x: "concat xs @ [10] = get_request i ks"
    and thr: "length (concat xs) < EPOLL_READ_THRESHOLD" and i: "i \<in> {0, 6}" and ks: "ks \<noteq> []" "\<forall>k \<in> set ks. word_ok k"
    and inv: "table_inv string_hash nul_free t C" and tid: "tid < length (lruLists t)" and ok: "keys_ok t ks"
    and fit: "values_fit (contents t)" and fuel: "length xs < fuel" "1 < fuel"
  shows "process fuel recv send m l events tid s net t = Inl Aborted"
proof -
  let ?s = "s\<lparr>postponedEpollFlags := 0\<rparr>" and ?n = "length (concat xs)"
  have s': "idle ?s" "sessionState ?s \<in> {SESSION_READY_STATE, READING_REQUEST}" using s by (simp_all add: idle_def)
  have d: "delivers recv (length (inBuffer ?s)) 0 net xs net1" using inp by simp
  obtain b where b: "bind_res (make_room ?s) (\<lambda>s. recv_loop fuel recv 0 s net) =
      Inr (?s\<lparr>inBuffer := b, inBufferBytes := ?n\<rparr>, RecvError EWOULDBLOCK, False, net1)"
    "take ?n b = concat xs" "?n < length b" "length b < 2 ^ 63"
    using reading_run[OF s'(1) d thr fuel(1)] by blast
  let ?s1 = "?s\<lparr>inBuffer := b, inBufferBytes := ?n\<rparr>"
  obtain k ks' where k: "ks = k # ks'" using ks(1) by (cases ks) simp_all
  have c: "concat xs = memcachedCommands ! i @ key_words (k # ks') @ [13]"
    using x k by (simp add: get_request_def crlf_def)
  have "b = concat xs @ drop ?n b" using append_take_drop_id[of ?n b] unfolding b(2) by (rule sym)
  then have bf: "inBuffer ?s1 = [] @ memcachedCommands ! i @ key_words (k # ks') @ 13 # drop ?n b"
    unfolding c by (simp del: key_words_simps)
  have q: "inBufferOffset ?s1 = length ([] :: byte list)" "length ([] @ memcachedCommands ! i @ key_words (k # ks')) < inBufferBytes ?s1"
    "inBufferBytes ?s1 < length (inBuffer ?s1)" "length (inBuffer ?s1) < 2 ^ 64" "fresh ?s1" "out_ok (out_of ?s1)"
    using s c b(3,4) by (simp_all add: idle_def fresh_def out_ok_def)
  have w: "\<forall>k \<in> set (k # ks'). word_ok k" "keys_ok t (k # ks')" using ks(2) ok k by simp_all
  obtain s2 t' where "processRequest m l tid ?s1 t = Inr (True, s2, t')" "inBufferBytes s2 = inBufferBytes ?s1"
      "inBufferOffset s2 = inBufferOffset ?s1 + length (get_request i (k # ks'))"
    using get_request_run[OF m i q(5) w(1) bf q(1-4) inv tid w(2) fit q(6), of l] by blast
  then have r: "processRequest m l tid ?s1 t = Inr (True, s2, t')" "inBufferBytes s2 = ?n" "inBufferOffset s2 = length (get_request i (k # ks'))"
    using s by (simp_all add: idle_def)
  have off: "inBufferOffset s2 = Suc ?n" using r(3) arg_cong[OF x, of length] k by simp
  have fu: "fuel = Suc (Suc (fuel - 2))" using fuel(2) by simp
  have "serve_loop fuel m l tid 0 ?s1 t = Inr (1, s2, t')"
    by (subst fu) (use r(1,2) off s c in \<open>simp add: idle_def\<close>)
  moreover have "leftovers s2 = Inl Aborted" using r(2) off by (simp add: leftovers_def)
  ultimately have "on_readable fuel recv send m l tid ?s net t = Inl Aborted"
    using b(1) unfolding on_readable_def bind_res_assoc[symmetric] by simp
  then show ?thesis using s'(2) ev by (simp add: process_def on_in_def Let_def)
qed

theorem split_get_aborts_witness:
  "\<exists>m t. server_matcher = Inr m \<and> demo_table 8 = Inr t \<and>
     process 5 script_recv script_send m [] EPOLLIN 0 demo_session ([asc ''get k'' @ [13]], []) t = Inl Aborted"
proof -
  let ?xs = "[asc ''get k'' @ [13]] :: byte list list" and ?ks = "[[107]] :: byte list list"
  obtain m where m: "server_matcher = Inr m" using server_matcher_built by blast
  obtain t where t: "demo_table 8 = Inr t" "contents t = Map.empty" "hashSize t = 16" "length (lruLists t) = 1"
    "length (elementStorage t) = 8" "table_inv string_hash nul_free t (init_chains 8 1)"
    using demo_empty[of 8] by auto
  have ok: "keys_ok t ?ks" using demo_window[OF t(6,3)] t(5) by (simp add: keys_ok_def nul_free_def)
  have x: "concat ?xs @ [10] = get_request 0 ?ks" by (simp add: get_request_def memcachedCommands_def asc_def crlf_def)
  have d: "delivers script_recv (length (inBuffer demo_session)) 0 (?xs, []) ?xs ([], [])"
    unfolding demo_session_idle(2) by (simp add: asc_def crlf_def)
  have len: "length (concat ?xs) < EPOLL_READ_THRESHOLD" by (simp add: asc_def EPOLL_READ_THRESHOLD_def)
  show ?thesis
    using split_get_aborts[OF m demo_session_idle(1) _ d x len _ _ _ t(6) _ ok] m t(1,2,4)
    by (auto simp: EPOLLIN_def word_ok_def values_fit_def)
qed

section \<open>More input than one event may read\<close>

text \<open>
  C30: when the pieces that an idle session reads in one event reach 16 MB, it stops reading; if what
  it has read then is a batch of complete requests as in the property on batches (none of them cut
  off at the end) and a byte of its buffer is still free, it serves them all, sends the replies and
  reports that it is postponed. When the event said that the socket is writable, the session is left
  with the flag by which the thread makes it read on; when it did not, no flag is left, and the
  next attempt reports failure without reading, upon which the thread closes the client. Nothing is
  said of input of which the last request is incomplete, such as a part of one larger value.
\<close>

theorem large_batch_postponed:
  assumes m: "server_matcher = Inr m" and s: "idle s" and ev: "events AND EPOLLIN \<noteq> 0"
    and rc: "floods recv (length (inBuffer s)) 0 net xs net1" and x: "concat xs = concat (map req_bytes rqs)"
    and big: "length (concat (butlast xs)) < EPOLL_READ_THRESHOLD" "EPOLL_READ_THRESHOLD \<le> length (concat xs)"
    and wf: "\<forall>rq \<in> set rqs. req_wf rq"
    and t: "table_inv string_hash nul_free t C" "reqs_safe tid rqs t C" "values_fit (contents t)"
    and fuel: "length xs \<le> fuel" "length rqs < fuel"
  shows "\<exists>out t' C'. run_requests tid rqs t = Inr (out, t') \<and> table_inv string_hash nul_free t' C' \<and>
    (\<forall>ns net2. takes send out net1 ns net2 \<and> length ns < fuel \<and> length out < 2 ^ 64 \<longrightarrow>
      (\<exists>s'. process fuel recv send m l events tid s net t = Inr (POSTPONED, s', net2, t') \<and> idle s' \<and> socket s' = socket s \<and>
        (if events AND EPOLLOUT \<noteq> 0 then postponedEpollFlags s' = EPOLLIN
         else \<forall>net t. process fuel recv send m l (postponedEpollFlags s') tid s' net t = Inr (FAILURE, s', net, t))))"
proof -
  let ?s = "s\<lparr>postponedEpollFlags := 0\<rparr>"
  have s': "idle ?s" "sessionState ?s \<in> {SESSION_READY_STATE, READING_REQUEST}" using s by (simp_all add: idle_def)
  have ne: "concat xs \<noteq> []"
  proof
    assume "concat xs = []"
    then show False using big(2) by (simp only: EPOLL_READ_THRESHOLD_def list.size)
  qed
  then have rq: "rqs \<noteq> []" using x by auto
  obtain b where b: "bind_res (make_room ?s) (\<lambda>s. recv_loop fuel recv 0 s net) =
      Inr (?s\<lparr>inBuffer := b, inBufferBytes := length (concat xs)\<rparr>, Received [], True, net1)"
    "take (length (concat xs)) b = concat xs" "length (concat xs) < length b" "length b < 2 ^ 63"
    using flood_reading_run[OF s'(1), of recv net xs net1 fuel] rc big fuel(1) by auto
  obtain out t' C' where r: "run_requests tid rqs t = Inr (out, t')" "table_inv string_hash nul_free t' C'"
    and o: "\<forall>ns net2. takes send out net1 ns net2 \<and> length ns < fuel \<and> length out < 2 ^ 64 \<longrightarrow>
      (\<exists>s'. on_readable fuel recv send m l tid ?s net t = Inr (POSTPONED, s', net2, t') \<and> idle s' \<and> socket s' = socket ?s \<and>
         sessionState s' = READING_REQUEST \<and> postponedEpollFlags s' = postponedEpollFlags ?s)"
    using batch_run[OF m s'(1) b(1) _ b(2-4) x ne rq wf t fuel(2), of send l] by auto
  have "\<exists>s'. process fuel recv send m l events tid s net t = Inr (POSTPONED, s', net2, t') \<and> idle s' \<and> socket s' = socket s \<and>
      (if events AND EPOLLOUT \<noteq> 0 then postponedEpollFlags s' = EPOLLIN
       else \<forall>net t. process fuel recv send m l (postponedEpollFlags s') tid s' net t = Inr (FAILURE, s', net, t))"
    if tk: "takes send out net1 ns net2 \<and> length ns < fuel \<and> length out < 2 ^ 64" for ns net2
  proof -
    obtain s1 where s1: "on_readable fuel recv send m l tid ?s net t = Inr (POSTPONED, s1, net2, t')" "idle s1" "socket s1 = socket s"
      "sessionState s1 = READING_REQUEST" "postponedEpollFlags s1 = 0" using o tk by force
    let ?s1 = "if events AND EPOLLOUT \<noteq> 0 then s1\<lparr>postponedEpollFlags := EPOLLIN\<rparr> else s1"
    have oi: "on_in fuel recv send m l tid ?s net t = Inr (POSTPONED, s1, net2, t')" using s1(1) s'(2) by (simp add: on_in_def)
    have oo: "on_out fuel send POSTPONED s1 net2 = Inr (POSTPONED, s1\<lparr>postponedEpollFlags := EPOLLIN\<rparr>, net2)"
      using s1(4,5) by (simp add: on_out_def)
    have "process fuel recv send m l events tid s net t = Inr (POSTPONED, ?s1, net2, t')"
      using oi oo ev by (simp add: process_def Let_def)
    moreover have "idle ?s1 \<and> socket ?s1 = socket s" using s1 by (simp add: idle_def)
    moreover have "process fuel recv send m l 0 tid s1 net t = Inr (FAILURE, s1, net, t)" for net t
      using s1(5) by (cases s1) (simp add: process_def Let_def)
    ultimately show ?thesis using s1(5) by (intro exI[of _ ?s1]) simp
  qed
  then show ?thesis using r by blast
qed

text \<open>One value of 16 MB, its header in a piece of its own.\<close>

theorem large_batch_postponed_witness:
  "\<exists>m t s' t'. server_matcher = Inr m \<and> demo_table 8 = Inr t \<and>
     process 5 script_recv script_send m [] (EPOLLIN OR EPOLLOUT) 0 (demo_session\<lparr>inBuffer := replicate (2 ^ 25) 0\<rparr>)
       ([asc ''set k 7 0 16777216'' @ crlf, replicate (2 ^ 24) 118 @ crlf], []) t =
     Inr (POSTPONED, s', ([], asc ''STORED'' @ crlf), t') \<and> idle s' \<and> postponedEpollFlags s' = EPOLLIN"
proof -
  let ?d = "replicate (2 ^ 24) 118" and ?s = "demo_session\<lparr>inBuffer := replicate (2 ^ 25) 0\<rparr>"
  let ?rqs = "[Store 1 [107] 7 0 ?d]" and ?out = "asc ''STORED'' @ crlf"
  let ?xs = "[asc ''set k 7 0 16777216'' @ crlf, ?d @ crlf]" and ?ev = "EPOLLIN OR EPOLLOUT"
  obtain m where m: "server_matcher = Inr m" using server_matcher_built by blast
  obtain t t1 where t: "demo_table 8 = Inr t" "contents t = Map.empty" "table_inv string_hash nul_free t (init_chains 8 1)"
    "op_ok t (init_chains 8 1) 0 (OInsertOrSet [107] (store_value ?d 7) 0)"
    and e: "exec_run (map (Pair 0) (req_ops (Store 1 [107] 7 0 ?d))) t = Inr ([(OInsertOrSet [107] (store_value ?d 7) 0, RBool True)], t1)"
    using demo_store[of ?d] by blast
  have op: "store_op (request_of 1) [107] (store_value ?d 7) 0 = OInsertOrSet [107] (store_value ?d 7) 0"
    "store_answer (request_of 1) r = asc ''STORED''" for r by (simp_all add: store_op_def store_answer_def request_of_def)
  have safe: "reqs_safe 0 ?rqs t (init_chains 8 1)" "values_fit (contents t)" using t(2,4) op(1) by (simp_all add: values_fit_def)
  have run: "run_requests 0 ?rqs t = Inr (?out, t1)" using e op(2) by (simp del: exec_run.simps req_ops.simps)
  have x: "concat ?xs = concat (map req_bytes ?rqs)"
    by (simp add: store_request_def store_header_def memcachedCommands_def asc_def decimal.simps dig_def)
  have id: "idle ?s" using demo_session_idle(1) by (simp add: idle_def)
  have ev: "?ev AND EPOLLIN \<noteq> 0" "?ev AND EPOLLOUT \<noteq> 0" by (simp_all add: EPOLLIN_def EPOLLOUT_def)
  have rc: "floods script_recv (length (inBuffer ?s)) 0 (?xs, []) ?xs ([], [])" by (simp add: asc_def crlf_def)
  have big: "length (concat (butlast ?xs)) < EPOLL_READ_THRESHOLD" "EPOLL_READ_THRESHOLD \<le> length (concat ?xs)"
    by (simp_all add: EPOLL_READ_THRESHOLD_def asc_def crlf_def)
  have wf: "\<forall>rq \<in> set ?rqs. req_wf rq" "length ?xs \<le> 5" "length ?rqs < 5" by (simp_all add: word_ok_def)
  obtain out t' where o: "run_requests 0 ?rqs t = Inr (out, t')"
    "\<And>ns net2. takes script_send out ([], []) ns net2 \<and> length ns < 5 \<and> length out < 2 ^ 64 \<Longrightarrow>
      \<exists>s'. process 5 script_recv script_send m [] ?ev 0 ?s (?xs, []) t = Inr (POSTPONED, s', net2, t') \<and> idle s' \<and> postponedEpollFlags s' = EPOLLIN"
    using large_batch_postponed[where send = script_send and recv = script_recv and net = "(?xs, [])" and l = "[]", OF m id ev(1) rc x big wf(1) t(3) safe wf(2,3)] ev(2) by fastforce
  have "takes script_send ?out ([], []) [length ?out] ([], ?out)" by (simp add: crlf_def)
  then have "\<exists>s'. process 5 script_recv script_send m [] ?ev 0 ?s (?xs, []) t = Inr (POSTPONED, s', ([], ?out), t') \<and> idle s' \<and> postponedEpollFlags s' = EPOLLIN"
    using o(1) run by (intro o(2)[of "[length ?out]"]) (simp add: asc_def crlf_def)
  then show ?thesis using m t(1) by blast
qed

end
