(* ===== verification/Binary_Protocol.thy ===== *)
theory Binary_Protocol
  imports Text_Protocol
begin

text \<open>
  The binary protocol over UDP, \<open>src/src/YAMBinaryProtocolProcessor.{h,cpp}\<close>, and its use for one
  datagram in \<open>ServerThread::threadProc\<close>. Input and output buffers are positions in one memory, since
  the server passes the same buffer for both: a reply overwrites the request. The header is read from
  the memory as a packed little-endian struct and without byte swapping. The parts of the response
  header that the code never assigns are the parameter \<open>garbage\<close>.
\<close>

section \<open>The header\<close>

record BinaryHeader =
  magic :: byte
  opCode :: byte
  keyLen :: "16 word"
  extrasLen :: byte
  dataType :: byte
  status :: "16 word"
  bodyLen :: "32 word"
  opaque :: "32 word"
  headerCas :: "64 word"

primrec put_le :: "nat \<Rightarrow> 'a::len word \<Rightarrow> byte list" where
  "put_le 0 w = []"
| "put_le (Suc n) w = ucast w # put_le n (drop_bit 8 w)"

definition header_bytes :: "BinaryHeader \<Rightarrow> byte list" where
  "header_bytes h = [magic h, opCode h] @ put_le 2 (keyLen h) @ [extrasLen h, dataType h] @ put_le 2 (status h) @
     put_le 4 (bodyLen h) @ put_le 4 (opaque h) @ put_le 8 (headerCas h)"

definition header_of :: "byte list \<Rightarrow> BinaryHeader" where
  "header_of b = \<lparr>magic = b ! 0, opCode = b ! 1, keyLen = read_le 2 (drop 2 b), extrasLen = b ! 4, dataType = b ! 5,
     status = read_le 2 (drop 6 b), bodyLen = read_le 4 (drop 8 b), opaque = read_le 4 (drop 12 b), headerCas = read_le 8 (drop 16 b)\<rparr>"

definition HEADER_SIZE :: nat where "HEADER_SIZE = 24"
definition CAS_OFFSET :: nat where "CAS_OFFSET = 16"

definition OP_GET :: byte where "OP_GET = 0x00"
definition OP_SET :: byte where "OP_SET = 0x01"
definition OP_ADD :: byte where "OP_ADD = 0x02"
definition OP_REPLACE :: byte where "OP_REPLACE = 0x03"
definition OP_DELETE :: byte where "OP_DELETE = 0x04"
definition OP_GETQ :: byte where "OP_GETQ = 0x09"
definition OP_NOOP :: byte where "OP_NOOP = 0x0A"
definition OP_GETK :: byte where "OP_GETK = 0x0C"
definition OP_GETKQ :: byte where "OP_GETKQ = 0x0D"
definition OP_SETQ :: byte where "OP_SETQ = 0x11"
definition OP_ADDQ :: byte where "OP_ADDQ = 0x12"
definition OP_REPLACEQ :: byte where "OP_REPLACEQ = 0x13"
definition OP_DELETEQ :: byte where "OP_DELETEQ = 0x14"

lemmas opcode_defs = OP_GET_def OP_SET_def OP_ADD_def OP_REPLACE_def OP_DELETE_def OP_GETQ_def OP_NOOP_def OP_GETK_def
  OP_GETKQ_def OP_SETQ_def OP_ADDQ_def OP_REPLACEQ_def OP_DELETEQ_def

definition NO_ERROR :: "16 word" where "NO_ERROR = 0"
definition KEY_NOT_FOUND :: "16 word" where "KEY_NOT_FOUND = 1"
definition KEY_EXISTS :: "16 word" where "KEY_EXISTS = 2"
definition ITEM_NOT_STORED :: "16 word" where "ITEM_NOT_STORED = 5"

section \<open>Memory\<close>

text \<open>The memory, the position in the input and the number of bytes of output.\<close>

record bin_io =
  mem :: "byte list"
  inOff :: nat
  outLen :: nat

definition read_header :: "nat \<Rightarrow> bin_io \<Rightarrow> BinaryHeader res" where
  "read_header inB io = bind_res (read_bytes (mem io) (inB + inOff io) HEADER_SIZE) (\<lambda>b. Inr (header_of b))"

definition read_u32 :: "nat \<Rightarrow> bin_io \<Rightarrow> (32 word) res" where
  "read_u32 p io = bind_res (read_bytes (mem io) p 4) (\<lambda>b. Inr (read_le 4 b))"

definition skip_request :: "BinaryHeader \<Rightarrow> bin_io \<Rightarrow> bin_io" where
  "skip_request h io = io\<lparr>inOff := inOff io + HEADER_SIZE + unat (bodyLen h)\<rparr>"

text \<open>The response header and the body behind it.\<close>

definition response :: "BinaryHeader \<Rightarrow> 16 word \<Rightarrow> nat \<Rightarrow> byte \<Rightarrow> nat \<Rightarrow> BinaryHeader" where
  "response garbage st kl el bl =
     garbage\<lparr>magic := 0x81, status := st, keyLen := of_nat kl, extrasLen := el, bodyLen := of_nat bl\<rparr>"

definition bin_reply :: "nat \<Rightarrow> BinaryHeader \<Rightarrow> byte list \<Rightarrow> bin_io \<Rightarrow> bin_io res" where
  "bin_reply outB r body io =
     (if outB + outLen io + HEADER_SIZE + length body \<le> length (mem io)
      then Inr (io\<lparr>mem := blit (mem io) (outB + outLen io) (header_bytes r @ body), outLen := outLen io + HEADER_SIZE + length body\<rparr>)
      else Inl OutOfBounds)"

definition replyNotFound :: "byte list" where "replyNotFound = asc ''Not found'' @ [0]"

section \<open>The requests\<close>

type_synonym bin_handler = "bin_io \<Rightarrow> cache \<Rightarrow> (bin_io \<times> cache) res"

definition bin_get :: "BinaryHeader \<Rightarrow> nat \<Rightarrow> nat \<Rightarrow> nat \<Rightarrow> BinaryHeader \<Rightarrow> bin_handler" where
  "bin_get garbage tid inB outB h io t =
     (if keyLen h = 0 \<or> ucast (keyLen h) \<noteq> bodyLen h then Inr (skip_request h io, t)
      else
        bind_res (read_bytes (mem io) (inB + inOff io + HEADER_SIZE) (unat (keyLen h))) (\<lambda>k.
        bind_res (get string_hash sso_eq tid k None t) (\<lambda>(v, _, t).
        case v of
          Some sv \<Rightarrow>
            bind_res (bin_reply outB (response garbage NO_ERROR 0 4 (4 + length (sv_value sv)))
              (put_le 4 (sv_flags sv) @ sv_value sv) io) (\<lambda>io. Inr (io, t))
        | None \<Rightarrow>
            if opCode h = OP_GET
            then bind_res (bin_reply outB (response garbage KEY_NOT_FOUND 0 0 (length replyNotFound)) replyNotFound io) (\<lambda>io. Inr (io, t))
            else Inr (io, t))))"

definition bin_getk :: "BinaryHeader \<Rightarrow> nat \<Rightarrow> nat \<Rightarrow> nat \<Rightarrow> BinaryHeader \<Rightarrow> bin_handler" where
  "bin_getk garbage tid inB outB h io t =
     (if keyLen h = 0 \<or> ucast (keyLen h) \<noteq> bodyLen h then Inr (skip_request h io, t)
      else
        bind_res (read_bytes (mem io) (inB + inOff io + HEADER_SIZE) (unat (keyLen h))) (\<lambda>k.
        bind_res (get string_hash sso_eq tid k None t) (\<lambda>(v, _, t).
        case v of
          Some sv \<Rightarrow>
            bind_res (bin_reply outB (response garbage NO_ERROR (length k) 4 (4 + length (sv_value sv) + length k))
              (put_le 4 (sv_flags sv) @ k @ sv_value sv) io) (\<lambda>io. Inr (io, t))
        | None \<Rightarrow>
            if opCode h = OP_GETK
            then bind_res (bin_reply outB (response garbage KEY_NOT_FOUND (length k) 0 (length replyNotFound + length k))
                   (k @ replyNotFound) io) (\<lambda>io. Inr (io, t))
            else Inr (io, t))))"

text \<open>
  Key and value of a store. The length of the value is \<open>bodyLen - extrasLen + keyLen\<close> in 32 bit
  arithmetic, and the ticket is the lower half of the one in the header.
\<close>

definition bin_key :: "nat \<Rightarrow> BinaryHeader \<Rightarrow> bin_io \<Rightarrow> byte list res" where
  "bin_key inB h io = read_bytes (mem io) (inB + inOff io + HEADER_SIZE + unat (extrasLen h)) (unat (keyLen h))"

definition value_len :: "BinaryHeader \<Rightarrow> nat" where
  "value_len h = unat (bodyLen h - ucast (extrasLen h) + ucast (keyLen h))"

definition bin_value :: "nat \<Rightarrow> BinaryHeader \<Rightarrow> bin_io \<Rightarrow> storage_value res" where
  "bin_value inB h io =
     bind_res (read_u32 (inB + inOff io + HEADER_SIZE) io) (\<lambda>f.
     bind_res (read_u32 (inB + inOff io + CAS_OFFSET) io) (\<lambda>c.
     bind_res (read_bytes (mem io) (inB + inOff io + HEADER_SIZE + unat (extrasLen h) + unat (keyLen h)) (value_len h)) (\<lambda>v.
     Inr \<lparr>sv_value = v, casTicket = ucast c, sv_flags = f\<rparr>)))"

definition bin_add :: "BinaryHeader \<Rightarrow> nat \<Rightarrow> nat \<Rightarrow> nat \<Rightarrow> request_info \<Rightarrow> bin_handler" where
  "bin_add garbage tid inB outB ri io t =
     bind_res (read_header inB io) (\<lambda>h.
     if keyLen h = 0 \<or> extrasLen h = 0 then Inr (skip_request h io, t)
     else
       bind_res (bin_key inB h io) (\<lambda>k. bind_res (bin_value inB h io) (\<lambda>v.
       bind_res (insert_kv string_hash sso_eq tid k v (unat (expTime ri)) t) (\<lambda>(inserted, t).
       if inserted then
         if opCode h = OP_ADD
         then bind_res (bin_reply outB (response garbage NO_ERROR 0 0 0) [] io) (\<lambda>io. Inr (io, t))
         else Inr (io, t)
       else bind_res (bin_reply outB (response garbage KEY_EXISTS 0 0 0) [] io) (\<lambda>io. Inr (io, t))))))"

text \<open>\<open>SET\<close> has no \<open>break\<close>: it continues with \<open>ADD\<close>, which reads the header again.\<close>

definition bin_set :: "BinaryHeader \<Rightarrow> nat \<Rightarrow> nat \<Rightarrow> nat \<Rightarrow> request_info \<Rightarrow> BinaryHeader \<Rightarrow> bin_handler" where
  "bin_set garbage tid inB outB ri h io t =
     (if keyLen h = 0 \<or> extrasLen h = 0 then Inr (skip_request h io, t)
      else
        bind_res (bin_key inB h io) (\<lambda>k. bind_res (bin_value inB h io) (\<lambda>v.
        bind_res (insertOrSet string_hash sso_eq tid k v (unat (expTime ri)) t) (\<lambda>(_, t).
        bind_res (if opCode h = OP_SET then bin_reply outB (response garbage NO_ERROR 0 0 0) [] io else Inr io) (\<lambda>io.
        bin_add garbage tid inB outB ri io t)))))"

definition bin_replace :: "BinaryHeader \<Rightarrow> nat list \<Rightarrow> nat \<Rightarrow> nat \<Rightarrow> nat \<Rightarrow> request_info \<Rightarrow> BinaryHeader \<Rightarrow> bin_handler" where
  "bin_replace garbage locals tid inB outB ri h io t =
     (if keyLen h = 0 \<or> extrasLen h = 0 then Inr (skip_request h io, t)
      else if headerCas h = 0 then
        bind_res (bin_key inB h io) (\<lambda>k. bind_res (bin_value inB h io) (\<lambda>v.
        bind_res (set_kv string_hash sso_eq tid k v (unat (expTime ri)) t) (\<lambda>(overwritten, t).
        if overwritten then
          if opCode h = OP_REPLACE
          then bind_res (bin_reply outB (response garbage NO_ERROR 0 0 0) [] io) (\<lambda>io. Inr (io, t))
          else Inr (io, t)
        else bind_res (bin_reply outB (response garbage KEY_NOT_FOUND 0 0 0) [] io) (\<lambda>io. Inr (io, t)))))
      else
        bind_res (bin_key inB h io) (\<lambda>k.
        bind_res (get string_hash sso_eq tid k (Some locals) t) (\<lambda>(old, ls, t).
        case old of
          Some old \<Rightarrow>
            bind_res (bin_value inB h io) (\<lambda>v.
            if casTicket old = casTicket v
            then
              bind_res (set_cas tid (v\<lparr>casTicket := casTicket v + 1\<rparr>) (unat (expTime ri)) (the ls) 0 0 t) (\<lambda>(_, t).
              if opCode h = OP_REPLACE
              then bind_res (bin_reply outB ((response garbage NO_ERROR 0 0 0)\<lparr>headerCas := casTicket v + 1\<rparr>) [] io) (\<lambda>io. Inr (io, t))
              else Inr (io, t))
            else
              bind_res (unlockElement (the ls) 0 0 t) (\<lambda>(_, t).
              bind_res (bin_reply outB (response garbage ITEM_NOT_STORED 0 0 0) [] io) (\<lambda>io. Inr (io, t))))
        | None \<Rightarrow>
            bind_res (unlockElement (the ls) 0 0 t) (\<lambda>(_, t).
            bind_res (bin_reply outB (response garbage KEY_NOT_FOUND 0 0 0) [] io) (\<lambda>io. Inr (io, t))))))"

definition bin_delete :: "BinaryHeader \<Rightarrow> nat \<Rightarrow> nat \<Rightarrow> nat \<Rightarrow> BinaryHeader \<Rightarrow> bin_handler" where
  "bin_delete garbage tid inB outB h io t =
     (if keyLen h = 0 then Inr (skip_request h io, t)
      else
        bind_res (bin_key inB h io) (\<lambda>k.
        bind_res (remove string_hash sso_eq tid k t) (\<lambda>(deleted, t).
        if deleted then
          if opCode h = OP_DELETE
          then bind_res (bin_reply outB (response garbage NO_ERROR 0 0 0) [] io) (\<lambda>io. Inr (io, t))
          else Inr (io, t)
        else bind_res (bin_reply outB (response garbage KEY_NOT_FOUND 0 0 0) [] io) (\<lambda>io. Inr (io, t)))))"

definition processBinaryRequest :: "BinaryHeader \<Rightarrow> nat list \<Rightarrow> nat \<Rightarrow> request_info \<Rightarrow> nat \<Rightarrow> nat \<Rightarrow> bin_handler" where
  "processBinaryRequest garbage locals tid ri inB outB io t =
     bind_res (read_header inB io) (\<lambda>h.
     if magic h \<noteq> 0x80 then Inr (skip_request h io, t)
     else if opCode h \<in> {OP_GET, OP_GETQ} then bin_get garbage tid inB outB h io t
     else if opCode h \<in> {OP_GETK, OP_GETKQ} then bin_getk garbage tid inB outB h io t
     else if opCode h \<in> {OP_SET, OP_SETQ} then bin_set garbage tid inB outB ri h io t
     else if opCode h \<in> {OP_ADD, OP_ADDQ} then bin_add garbage tid inB outB ri io t
     else if opCode h \<in> {OP_REPLACE, OP_REPLACEQ} then bin_replace garbage locals tid inB outB ri h io t
     else if opCode h \<in> {OP_DELETE, OP_DELETEQ} then bin_delete garbage tid inB outB h io t
     else if opCode h = OP_NOOP then bind_res (bin_reply outB (response garbage NO_ERROR 0 0 0) [] io) (\<lambda>io. Inr (io, t))
     else Inr (io, t))"

section \<open>One datagram\<close>

text \<open>
  The loop body of \<open>threadProc\<close>: the request is at the start of the buffer and so is the reply; the
  size of the buffer for the next datagram becomes that of the reply.
\<close>

record udp_slot =
  udpBuffer :: "byte list"
  iovLen :: nat

definition udp_message :: "BinaryHeader \<Rightarrow> nat list \<Rightarrow> nat \<Rightarrow> udp_slot \<Rightarrow> cache \<Rightarrow> (udp_slot \<times> cache) res" where
  "udp_message garbage locals tid u t =
     bind_res (processBinaryRequest garbage locals tid RequestInfo 0 0 \<lparr>mem = udpBuffer u, inOff = 0, outLen = 0\<rparr> t)
       (\<lambda>(io, t). Inr (\<lparr>udpBuffer = mem io, iovLen = outLen io\<rparr>, t))"

definition udp_reply :: "udp_slot \<Rightarrow> byte list" where "udp_reply u = take (iovLen u) (udpBuffer u)"

end
