(* ===== verification/Binary_Props.thy ===== *)
theory Binary_Props
  imports Binary_Protocol Cache_Props
begin

text \<open>
  What the binary protocol does with the requests it supports: lookups are served, stores keep more
  bytes than the client sent and report the wrong outcome when they are quiet.
\<close>

section \<open>Reading back what was written\<close>

lemma length_put_le [simp]: "length (put_le n w) = n" by (induction n arbitrary: w) simp_all

lemma read_le_Suc: "read_le (Suc n) (b # p) = push_bit 8 (read_le n p) OR ucast b"
  by (simp add: read_le_def)

lemma read_put_le: "read_le n (put_le n (w :: 'a::len word) @ z) = take_bit (8 * n) w"
proof (induction n arbitrary: w)
  case (Suc n)
  have "push_bit 8 (take_bit (8 * n) (drop_bit 8 w)) OR ucast (ucast w :: byte) = take_bit (8 * Suc n) w"
    by (rule bit_eqI) (auto simp: bit_simps)
  then show ?case using Suc by (simp add: read_le_Suc)
qed (simp add: read_le_def)

lemma read_le_ucast: "read_le n (put_le m (w :: 'a::len word) @ z) = (ucast (take_bit (8 * n) w) :: 'b::len word)" if "n \<le> m"
  using that
proof (induction n arbitrary: m w)
  case (Suc n)
  then obtain m' where m: "m = Suc m'" "n \<le> m'" by (cases m) auto
  have "push_bit 8 (ucast (take_bit (8 * n) (drop_bit 8 w)) :: 'b word) OR ucast (ucast w :: byte) = ucast (take_bit (8 * Suc n) w)"
    by (rule bit_eqI) (auto simp: bit_simps)
  then show ?case using Suc.IH[OF m(2)] m(1) by (simp add: read_le_Suc)
qed (simp add: read_le_def)

lemma take_bit_word_id: "LENGTH('a) \<le> n \<Longrightarrow> take_bit n (w :: 'a::len word) = w"
  by (rule bit_eqI) (auto simp: bit_simps dest: bit_imp_le_length)

lemma header_bytes_length [simp]: "length (header_bytes h) = 24" by (simp add: header_bytes_def)

lemma header_roundtrip: "header_of (header_bytes h @ z) = h"
  by (cases h) (simp add: header_of_def header_bytes_def drop_Cons' nth_Cons' nth_append read_put_le take_bit_word_id)

lemma read_header_at: "mem io = pre @ header_bytes h @ z \<Longrightarrow> inB + inOff io = length pre \<Longrightarrow> read_header inB io = Inr h"
  using header_roundtrip[of h "[]"] by (simp add: read_header_def read_bytes_def HEADER_SIZE_def)

lemma read_bytes_at: "m = pre @ x @ z \<Longrightarrow> p = length pre \<Longrightarrow> n = length x \<Longrightarrow> read_bytes m p n = Inr x"
  by (simp add: read_bytes_def)

text \<open>A reply at the start of the buffer.\<close>

lemma bin_reply_run:
  assumes "outLen io = 0" and "24 + length body \<le> length (mem io)"
  shows "\<exists>io'. bin_reply 0 r body io = Inr io' \<and> outLen io' = 24 + length body \<and> inOff io' = inOff io \<and>
    mem io' = header_bytes r @ body @ drop (24 + length body) (mem io)"
  using assms by (simp add: bin_reply_def HEADER_SIZE_def blit_def)

section \<open>Lookups\<close>

text \<open>The answer to a lookup; the key is part of it for \<open>GETK\<close> and \<open>GETKQ\<close>.\<close>

definition bin_get_answer :: "BinaryHeader \<Rightarrow> byte \<Rightarrow> storage_value option \<Rightarrow> byte list \<Rightarrow> byte list" where
  "bin_get_answer garbage op v k =
     (let kk = (if op \<in> {OP_GETK, OP_GETKQ} then k else []) in
      case v of
        Some sv \<Rightarrow> header_bytes (response garbage NO_ERROR (length kk) 4 (4 + length (sv_value sv) + length kk)) @
          put_le 4 (sv_flags sv) @ kk @ sv_value sv
      | None \<Rightarrow> if op \<in> {OP_GET, OP_GETK}
          then header_bytes (response garbage KEY_NOT_FOUND (length kk) 0 (length replyNotFound + length kk)) @ kk @ replyNotFound
          else [])"

lemma bin_get_step:
  assumes op: "opCode h \<in> {OP_GET, OP_GETQ, OP_GETK, OP_GETKQ}"
    and len: "unat (keyLen h) = length k" "k \<noteq> []" "ucast (keyLen h) = bodyLen h" "magic h = 0x80"
    and m: "mem io = header_bytes h @ k @ rest" "inOff io = 0" "outLen io = 0"
    and g: "get string_hash sso_eq tid k None t = Inr (v, None, t')"
    and room: "length (bin_get_answer garbage (opCode h) v k) \<le> length (mem io)"
  shows "\<exists>io'. processBinaryRequest garbage l tid ri 0 0 io t = Inr (io', t') \<and>
    outLen io' = length (bin_get_answer garbage (opCode h) v k) \<and> take (outLen io') (mem io') = bin_get_answer garbage (opCode h) v k"
proof -
  have h: "read_header 0 io = Inr h" using read_header_at[of io "[]" h] m by simp
  have k: "read_bytes (mem io) (0 + inOff io + HEADER_SIZE) (unat (keyLen h)) = Inr k" "keyLen h \<noteq> 0"
    using m len(1,2) by (auto simp: HEADER_SIZE_def read_bytes_def)
  have R: "\<exists>io'. bin_reply 0 r body io = Inr io' \<and> outLen io' = 24 + length body \<and> take (24 + length body) (mem io') = header_bytes r @ body"
    if "24 + length body \<le> length (mem io)" for r body using bin_reply_run[OF m(3) that, of r] by auto
  show ?thesis
  proof (cases "opCode h \<in> {OP_GETK, OP_GETKQ}")
    case True
    then have "processBinaryRequest garbage l tid ri 0 0 io t = bin_getk garbage tid 0 0 h io t"
      using h len(4) by (auto simp: processBinaryRequest_def opcode_defs)
    then show ?thesis using True g k len(3) room m(3)
      R[of "put_le 4 (sv_flags (the v)) @ k @ sv_value (the v)" "response garbage NO_ERROR (length k) 4 (4 + length (sv_value (the v)) + length k)"]
      R[of "k @ replyNotFound" "response garbage KEY_NOT_FOUND (length k) 0 (length replyNotFound + length k)"]
      by (cases v) (auto simp: bin_getk_def bin_get_answer_def Let_def opcode_defs)
  next
    case False
    then have "processBinaryRequest garbage l tid ri 0 0 io t = bin_get garbage tid 0 0 h io t"
      using h len(4) op by (auto simp: processBinaryRequest_def)
    then show ?thesis using False op g k len(3) room m(3)
      R[of "put_le 4 (sv_flags (the v)) @ sv_value (the v)" "response garbage NO_ERROR 0 4 (4 + length (sv_value (the v)))"]
      R[of replyNotFound "response garbage KEY_NOT_FOUND 0 0 (length replyNotFound)"]
      by (cases v) (auto simp: bin_get_def bin_get_answer_def Let_def opcode_defs)
  qed
qed

text \<open>
  C36: a well-formed \<open>GET\<close>, \<open>GETQ\<close>, \<open>GETK\<close> or \<open>GETKQ\<close> datagram is answered with the flags and the value
  that the cache holds for the key (preceded by the key for the last two), with a \<open>Not found\<close> reply
  when it holds none, or not at all when the request is quiet; no entry changes. The reply, which
  overwrites the request, must fit into the buffer.
\<close>

theorem binary_get_served:
  assumes "udpBuffer u = header_bytes h @ k @ rest" and "magic h = 0x80" and "opCode h \<in> {OP_GET, OP_GETQ, OP_GETK, OP_GETKQ}"
    and "keyLen h = of_nat (length k)" and "bodyLen h = of_nat (length k)" and "0 < length k" and "length k < 2 ^ 16"
    and "table_inv string_hash nul_free t C" and "tid < length (lruLists t)" and "nul_free k" and "window_ok string_hash t k"
    and "length (bin_get_answer garbage (opCode h) (contents t k) k) \<le> length (udpBuffer u)"
  shows "\<exists>u' t' C'. udp_message garbage l tid u t = Inr (u', t') \<and>
    udp_reply u' = bin_get_answer garbage (opCode h) (contents t k) k \<and>
    contents t' = contents t \<and> table_inv string_hash nul_free t' C'"
proof -
  obtain t' where t': "get string_hash sso_eq tid k None t = Inr (contents t k, None, t')" "contents t' = contents t"
      "table_inv string_hash nul_free t' (lookup_chains tid (elem_of t k) C)"
    using yam.get_map[OF assms(8-11)] by blast
  have len: "unat (keyLen h) = length k" "ucast (keyLen h) = bodyLen h"
    using assms(4,5,7) by (simp_all add: unat_of_nat take_bit_eq_mod unsigned_of_nat)
  have "\<exists>io'. processBinaryRequest garbage l tid RequestInfo 0 0 \<lparr>mem = udpBuffer u, inOff = 0, outLen = 0\<rparr> t = Inr (io', t') \<and>
      outLen io' = length (bin_get_answer garbage (opCode h) (contents t k) k) \<and>
      take (outLen io') (mem io') = bin_get_answer garbage (opCode h) (contents t k) k"
    by (rule bin_get_step[OF assms(3) len(1) _ len(2) assms(2), of _ rest tid t]) (use assms(1,6,12) t'(1) in auto)
  then show ?thesis using t'(2,3) by (auto simp: udp_message_def udp_reply_def)
qed

definition zero_header :: BinaryHeader where
  "zero_header = \<lparr>magic = 0, opCode = 0, keyLen = 0, extrasLen = 0, dataType = 0, status = 0, bodyLen = 0, opaque = 0, headerCas = 0\<rparr>"

theorem binary_get_served_witness:
  "\<exists>t t1 u' t'. demo_table 8 = Inr t \<and> insertOrSet string_hash sso_eq 0 [107] demo_value 0 t = Inr (True, t1) \<and>
     udp_message zero_header [] 0
       \<lparr>udpBuffer = header_bytes (zero_header\<lparr>magic := 0x80, keyLen := 1, bodyLen := 1\<rparr>) @ [107] @ replicate 100 0, iovLen = 65536\<rparr> t1 = Inr (u', t') \<and>
     udp_reply u' = header_bytes (zero_header\<lparr>magic := 0x81, extrasLen := 4, bodyLen := 5\<rparr>) @ [7, 0, 0, 0] @ [118]"
proof -
  let ?h = "zero_header\<lparr>magic := 0x80, keyLen := 1, bodyLen := 1\<rparr>"
  let ?u = "\<lparr>udpBuffer = header_bytes ?h @ [107] @ replicate 100 0, iovLen = 65536\<rparr>"
  obtain t t1 where t: "demo_table 8 = Inr t" "insertOrSet string_hash sso_eq 0 [107] demo_value 0 t = Inr (True, t1)"
    "contents t1 = [[107] \<mapsto> demo_value]" "hashSize t1 = 16" "length (lruLists t1) = 1" "length (elementStorage t1) = 8"
    "table_inv string_hash nul_free t1 (inserted 0 (init_chains 8 1))"
    using demo_one[of 8 "[107]" demo_value 0] by (auto simp: nul_free_def)
  have w: "window_ok string_hash t1 [107]" using demo_window[OF t(7,4)] t(6) by simp
  have f: "put_le 4 (7 :: 32 word) = [7, 0, 0, 0]" by code_simp
  have a: "bin_get_answer zero_header (opCode ?h) (contents t1 [107]) [107] =
      header_bytes (zero_header\<lparr>magic := 0x81, extrasLen := 4, bodyLen := 5\<rparr>) @ [7, 0, 0, 0] @ [118]"
    using t(3) f by (simp add: bin_get_answer_def zero_header_def opcode_defs demo_value_def response_def NO_ERROR_def)
  show ?thesis
    using binary_get_served[of ?u ?h "[107]" "replicate 100 0" t1 _ 0 zero_header "[]", OF _ _ _ _ _ _ _ t(7) _ _ w, unfolded a] t
    by (auto simp: zero_header_def opcode_defs nul_free_def)
qed

section \<open>Stores\<close>

text \<open>What a store of the value \<open>v\<close> keeps: the bytes behind it too, as many as twice the key.\<close>

definition mangled :: "BinaryHeader \<Rightarrow> byte list \<Rightarrow> byte list \<Rightarrow> byte list \<Rightarrow> byte list \<Rightarrow> storage_value" where
  "mangled h ex k v rest = \<lparr>sv_value = v @ take (2 * length k) rest, casTicket = ucast (ucast (headerCas h) :: 32 word), sv_flags = read_le 4 ex\<rparr>"

lemma ucast_low: "(ucast (take_bit 32 (w :: 64 word)) :: 32 word) = ucast w" by (rule bit_eqI) (auto simp: bit_simps)

lemma bin_store_fields:
  assumes m: "mem io = header_bytes h @ ex @ k @ v @ rest" "inOff io = 0"
    and len: "unat (extrasLen h) = length ex" "unat (keyLen h) = length k" "value_len h = length v + 2 * length k"
    and ex: "4 \<le> length ex" and r: "2 * length k \<le> length rest"
  shows "bin_key 0 h io = Inr k" and "bin_value 0 h io = Inr (mangled h ex k v rest)"
proof -
  show "bin_key 0 h io = Inr k"
    unfolding bin_key_def by (rule read_bytes_at[of _ "header_bytes h @ ex" _ "v @ rest"]) (use m len in \<open>simp_all add: HEADER_SIZE_def\<close>)
  have "read_bytes (mem io) (0 + inOff io + HEADER_SIZE + unat (extrasLen h) + unat (keyLen h)) (value_len h) = Inr (v @ take (2 * length k) rest)"
    by (rule read_bytes_at[of _ "header_bytes h @ ex @ k" _ "drop (2 * length k) rest"])
      (use m len r in \<open>simp_all add: HEADER_SIZE_def\<close>)
  moreover have "read_u32 (0 + inOff io + HEADER_SIZE) io = Inr (read_le 4 ex)"
    using m ex by (simp add: read_u32_def read_bytes_def HEADER_SIZE_def read_le_def)
  moreover have "read_u32 (0 + inOff io + CAS_OFFSET) io = Inr (ucast (headerCas h))"
  proof -
    have "mem io = (take 16 (header_bytes h)) @ put_le 8 (headerCas h) @ ex @ k @ v @ rest"
      using m(1) by (simp add: header_bytes_def take_Cons')
    then have "read_bytes (mem io) 16 4 = Inr (take 4 (put_le 8 (headerCas h)))"
      by (simp add: read_bytes_def)
    moreover have "read_le 4 (take 4 (put_le 8 (headerCas h))) = (ucast (headerCas h) :: 32 word)"
      using read_le_ucast[of 4 8 "headerCas h" "[]", where 'b = 32] ucast_low[of "headerCas h"] by (simp add: read_le_def)
    ultimately show ?thesis using m(2) by (simp add: read_u32_def CAS_OFFSET_def)
  qed
  ultimately show "bin_value 0 h io = Inr (mangled h ex k v rest)" by (simp add: bin_value_def mangled_def)
qed

lemma ucast_small: "n < 256 \<Longrightarrow> ucast (of_nat n :: byte) = (of_nat n :: 32 word)"
  and ucast_small': "n < 2 ^ 16 \<Longrightarrow> ucast (of_nat n :: 16 word) = (of_nat n :: 32 word)"
  by (simp_all add: unsigned_of_nat take_bit_eq_mod)

text \<open>
  Room for the store and for the probe of the \<open>insert\<close> that follows it: a key that is present needs a
  free slot within the 246 slots that can be locked from its home slot, a new key a spare element
  and two such slots.
\<close>

definition two_free :: "('k \<Rightarrow> nat) \<Rightarrow> ('k, 'v) table \<Rightarrow> 'k \<Rightarrow> bool" where
  "two_free hasher t k \<longleftrightarrow>
     (\<exists>D E. D < E \<and> E < hashSize t \<and> E < HASH_MAX_LOCK_DEPTH \<and>
        slot t (hasher k mod hashSize t) D = HASH_FREE_MARK \<and> slot t (hasher k mod hashSize t) E = HASH_FREE_MARK)"

definition store_room :: "cache \<Rightarrow> chains \<Rightarrow> nat \<Rightarrow> cache_key \<Rightarrow> bool" where
  "store_room t C tid k \<longleftrightarrow>
     (if contents t k \<noteq> None then window_ok string_hash t k else tl (C (Free tid)) \<noteq> [] \<and> two_free string_hash t k)"

lemma two_free_window: "two_free hasher t k \<Longrightarrow> window_ok hasher t k"
  unfolding two_free_def window_ok_def by (meson order.strict_trans)

text \<open>Filling one slot leaves the other free.\<close>

lemma window_after_fill:
  assumes "two_free hasher t k" and "D0 < hashSize t" and "hashSize t' = hashSize t"
    and "elementLinks t' = (elementLinks t)[(hasher k mod hashSize t + D0) mod hashSize t := e]"
  shows "window_ok hasher t' k"
proof -
  let ?s = "hasher k mod hashSize t"
  obtain F where F: "F \<noteq> D0" "F < hashSize t" "F < HASH_MAX_LOCK_DEPTH" "slot t ?s F = HASH_FREE_MARK"
    using assms(1) unfolding two_free_def by (metis less_irrefl order.strict_trans)
  have "(?s + F) mod hashSize t \<noteq> (?s + D0) mod hashSize t" using mod_add_cancel_less[OF _ F(2) assms(2)] F(1) by blast
  then have "slot t' ?s F = HASH_FREE_MARK" using F(4) assms(3,4) by (simp add: slot_def)
  then show ?thesis unfolding window_ok_def assms(3) using F(2,3) by blast
qed

lemma store_then_insert:
  assumes inv: "table_inv string_hash nul_free t C" and tid: "tid < length (lruLists t)" and k: "nul_free k"
    and room: "store_room t C tid k"
  shows "\<exists>b t1 t2 C'. insertOrSet string_hash sso_eq tid k v e t = Inr (b, t1) \<and> contents t1 = (contents t)(k \<mapsto> v) \<and>
    (\<exists>C1. table_inv string_hash nul_free t1 C1) \<and>
    insert_kv string_hash sso_eq tid k v e t1 = Inr (False, t2) \<and> contents t2 = (contents t)(k \<mapsto> v) \<and> table_inv string_hash nul_free t2 C'"
proof -
  have "\<exists>b t1 C1. insertOrSet string_hash sso_eq tid k v e t = Inr (b, t1) \<and> contents t1 = (contents t)(k \<mapsto> v) \<and>
      same_shape t t1 \<and> table_inv string_hash nul_free t1 C1 \<and> window_ok string_hash t1 k"
  proof (cases "elem_of t k")
    case None
    then have c: "contents t k = None" by (simp add: elem_of_None)
    then have r: "tl (C (Free tid)) \<noteq> []" "two_free string_hash t k" using room by (simp_all add: store_room_def)
    obtain t1 D where t1: "insertOrSet string_hash sso_eq tid k v e t = Inr (True, t1)" "contents t1 = (contents t)(k \<mapsto> v)"
        "same_shape t t1" "table_inv string_hash nul_free t1 (inserted tid C)" "D < hashSize t"
        "elementLinks t1 = (elementLinks t)[(string_hash k mod hashSize t + D) mod hashSize t := hd (C (Free tid))]"
      using yam.insert_spare_map[OF inv tid k two_free_window[OF r(2)] c r(1), of v e] by blast
    have "window_ok string_hash t1 k" using window_after_fill[OF r(2) t1(5) _ t1(6)] t1(3) by (simp add: same_shape_def)
    then show ?thesis using t1(1-4) by blast
  next
    case (Some x)
    have "contents t k \<noteq> None" using Some elem_of_None[of t k] by fastforce
    then have w: "window_ok string_hash t k" using room by (simp add: store_room_def)
    obtain t1 C1 where t1: "insertOrSet string_hash sso_eq tid k v e t = Inr (False, t1)" "contents t1 = (contents t)(k \<mapsto> v)"
        "same_shape t t1" "table_inv string_hash nul_free t1 C1" "elementLinks t1 = elementLinks t"
      using yam.insertOrSet_hit_map[OF inv tid k w Some, of v e] by blast
    then have "window_ok string_hash t1 k" using w by (simp add: window_ok_def slot_def same_shape_def)
    then show ?thesis using t1(1-4) by blast
  qed
  then obtain b t1 C1 where t1: "insertOrSet string_hash sso_eq tid k v e t = Inr (b, t1)" "contents t1 = (contents t)(k \<mapsto> v)"
      "same_shape t t1" "table_inv string_hash nul_free t1 C1" "window_ok string_hash t1 k" by blast
  then show ?thesis using yam.insert_hit_map[OF t1(4) _ k t1(5), of tid v e] tid by (auto simp: same_shape_def)
qed

text \<open>
  C37: a \<open>SET\<close> or \<open>SETQ\<close> datagram stores more than the client sent: the length of the value adds the
  length of the key where it should subtract it, so the value is followed by as many bytes of the
  buffer as twice the key. \<open>SET\<close> answers \<open>NO_ERROR\<close> (its reply erases the header that \<open>ADD\<close>, into
  which it runs on, reads); \<open>SETQ\<close>, which should not answer a success at all, runs on into \<open>ADD\<close> and
  answers \<open>KEY_EXISTS\<close>. The key and the flags are those of a well-formed datagram, with as many
  bytes behind the value in the buffer, and there is room: a key that is present has a free slot
  within the 246 slots that can be locked from its home slot, a new one has two of them and a spare
  element.
\<close>

theorem binary_set_mangles:
  assumes buf: "udpBuffer u = header_bytes h @ ex @ k @ v @ rest" and mg: "magic h = 0x80" and op: "opCode h \<in> {OP_SET, OP_SETQ}"
    and ex: "extrasLen h = of_nat (length ex)" "4 \<le> length ex" "length ex < 256"
    and k: "keyLen h = of_nat (length k)" "0 < length k" "length k < 2 ^ 16" "nul_free k"
    and body: "bodyLen h = of_nat (length ex + length k + length v)" "length ex + 2 * length k + length v < 2 ^ 32" "2 * length k \<le> length rest"
    and inv: "table_inv string_hash nul_free t C" and tid: "tid < length (lruLists t)"
    and room: "store_room t C tid k"
  shows "\<exists>u' t' C'. udp_message garbage l tid u t = Inr (u', t') \<and> contents t' = (contents t)(k \<mapsto> mangled h ex k v rest) \<and>
    udp_reply u' = header_bytes (response garbage (if opCode h = OP_SET then NO_ERROR else KEY_EXISTS) 0 0 0) \<and>
    table_inv string_hash nul_free t' C'"
proof -
  let ?io = "\<lparr>mem = udpBuffer u, inOff = 0, outLen = 0\<rparr>" and ?sv = "mangled h ex k v rest"
  have len: "unat (extrasLen h) = length ex" "unat (keyLen h) = length k"
    using ex k by (simp_all add: unat_of_nat take_bit_eq_mod)
  have "bodyLen h - ucast (extrasLen h) + ucast (keyLen h) = of_nat (length v + 2 * length k)"
    unfolding ex(1) k(1) body(1) ucast_small[OF ex(3)] ucast_small'[OF k(3)] by simp
  then have vl: "value_len h = length v + 2 * length k"
    using body(2) by (simp add: value_len_def unat_of_nat take_bit_eq_mod del: of_nat_add of_nat_mult)
  have nz: "keyLen h \<noteq> 0" "extrasLen h \<noteq> 0" using len ex(2) k(2) by (auto simp del: length_greater_0_conv)
  have h: "read_header 0 ?io = Inr h" using read_header_at[of ?io "[]" h] buf by simp
  have io: "mem ?io = header_bytes h @ ex @ k @ v @ rest" "inOff ?io = 0" using buf by simp_all
  note f = bin_store_fields[OF io len vl ex(2) body(3)]
  obtain b t1 t2 C1 C2 where t: "insertOrSet string_hash sso_eq tid k ?sv 0 t = Inr (b, t1)" "contents t1 = (contents t)(k \<mapsto> ?sv)"
      "table_inv string_hash nul_free t1 C1" "insert_kv string_hash sso_eq tid k ?sv 0 t1 = Inr (False, t2)"
      "contents t2 = (contents t)(k \<mapsto> ?sv)" "table_inv string_hash nul_free t2 C2"
    using store_then_insert[OF inv tid k(4) room, of ?sv 0] by blast
  have x: "unat (expTime RequestInfo) = 0" by (simp add: RequestInfo_def)
  have L: "24 \<le> length (mem ?io)" using buf by simp
  obtain io1 where r: "bin_reply 0 (response garbage (if opCode h = OP_SET then NO_ERROR else KEY_EXISTS) 0 0 0) [] ?io = Inr io1" "outLen io1 = 24" "inOff io1 = 0"
      "mem io1 = header_bytes (response garbage (if opCode h = OP_SET then NO_ERROR else KEY_EXISTS) 0 0 0) @ drop 24 (mem ?io)"
    using bin_reply_run[of ?io "[]" "response garbage (if opCode h = OP_SET then NO_ERROR else KEY_EXISTS) 0 0 0"] L by auto
  have p: "processBinaryRequest garbage l tid RequestInfo 0 0 ?io t = bin_set garbage tid 0 0 RequestInfo h ?io t"
    using h mg op by (auto simp: processBinaryRequest_def opcode_defs)
  show ?thesis
  proof (cases "opCode h = OP_SET")
    case True
    have "read_header 0 io1 = Inr (response garbage NO_ERROR 0 0 0)" using read_header_at[of io1 "[]"] r(3,4) True by simp
    then have "bin_add garbage tid 0 0 RequestInfo io1 t1 = Inr (skip_request (response garbage NO_ERROR 0 0 0) io1, t1)"
      by (simp add: bin_add_def response_def)
    then have "processBinaryRequest garbage l tid RequestInfo 0 0 ?io t = Inr (skip_request (response garbage NO_ERROR 0 0 0) io1, t1)"
      using True r(1) t(1) f nz x by (simp add: p bin_set_def)
    then show ?thesis using t(2,3) r(2,4) True by (auto simp: udp_message_def udp_reply_def skip_request_def)
  next
    case False
    have "opCode h \<noteq> OP_ADD" using op by (auto simp: opcode_defs)
    then have "bin_add garbage tid 0 0 RequestInfo ?io t1 = Inr (io1, t2)" using False r(1) t(4) f nz x h by (simp add: bin_add_def)
    then have "processBinaryRequest garbage l tid RequestInfo 0 0 ?io t = Inr (io1, t2)"
      using False t(1) f nz x by (simp add: p bin_set_def)
    then show ?thesis using t(5,6) r(2,4) False by (auto simp: udp_message_def udp_reply_def)
  qed
qed

theorem binary_set_mangles_witness:
  "\<exists>t u' t'. demo_table 8 = Inr t \<and>
     udp_message zero_header [] 0
       \<lparr>udpBuffer = header_bytes (zero_header\<lparr>magic := 0x80, opCode := OP_SETQ, keyLen := 1, extrasLen := 8, bodyLen := 10\<rparr>) @
          [7, 0, 0, 0, 0, 0, 0, 0] @ [107] @ [118] @ replicate 40 65, iovLen = 65536\<rparr> t = Inr (u', t') \<and>
     contents t' = [[107] \<mapsto> \<lparr>sv_value = [118, 65, 65], casTicket = 0, sv_flags = 7\<rparr>] \<and>
     udp_reply u' = header_bytes (zero_header\<lparr>magic := 0x81, status := KEY_EXISTS\<rparr>)"
proof -
  let ?h = "zero_header\<lparr>magic := 0x80, opCode := OP_SETQ, keyLen := 1, extrasLen := 8, bodyLen := 10\<rparr>"
  let ?ex = "[7, 0, 0, 0, 0, 0, 0, 0] :: byte list"
  let ?u = "\<lparr>udpBuffer = header_bytes ?h @ ?ex @ [107] @ [118] @ replicate 40 65, iovLen = 65536\<rparr>"
  obtain t where t: "demo_table 8 = Inr t" "contents t = Map.empty" "hashSize t = 16" "length (lruLists t) = 1"
    "length (elementStorage t) = 8" "table_inv string_hash nul_free t (init_chains 8 1)"
    "elementLinks t = replicate 16 HASH_FREE_MARK"
    using demo_empty[of 8] by auto
  have "two_free string_hash t [107]"
    unfolding two_free_def using t(3,7) by (intro exI[of _ 0] exI[of _ 1]) (simp add: slot_def HASH_MAX_LOCK_DEPTH_def)
  then have sp: "store_room t (init_chains 8 1) 0 [107]"
    using t(2) by (simp add: store_room_def init_chains_def tl_upt)
  have fl: "read_le 4 ?ex = (7 :: 32 word)" by code_simp
  have sv: "mangled ?h ?ex [107] [118] (replicate 40 65) = \<lparr>sv_value = [118, 65, 65], casTicket = 0, sv_flags = 7\<rparr>"
    using fl by (simp add: mangled_def zero_header_def numeral_eq_Suc)
  have r: "response zero_header (if opCode ?h = OP_SET then NO_ERROR else KEY_EXISTS) 0 0 0 = zero_header\<lparr>magic := 0x81, status := KEY_EXISTS\<rparr>"
    by (simp add: response_def zero_header_def opcode_defs)
  show ?thesis
    using binary_set_mangles[of ?u ?h ?ex "[107]" "[118]" "replicate 40 65" t "init_chains 8 1" 0 zero_header "[]", unfolded sv r] t sp
    by (auto simp: zero_header_def opcode_defs nul_free_def HASH_MAX_LOCK_DEPTH_def)
qed

end
