(* ===== verification/Server_Thread.thy ===== *)
theory Server_Thread
  imports Session Binary_Protocol Lane_Queue
begin

text \<open>
  The worker threads, the acceptor and the start of the program: \<open>src/src/ServerThread.{hh,cpp}\<close>,
  \<open>src/src/Server.{hh,cpp}\<close> and \<open>src/src/YAMemcached.cpp\<close>. A \<open>Session*\<close> is the number of a session object
  of its thread; the pool is the two-lane queue of such numbers. The operating system is the record
  \<open>os\<close> of functions on a state \<open>'n\<close>; calls that only allocate are left out.
\<close>

section \<open>The operating system\<close>

text \<open>
  \<open>os_epoll_wait\<close> returns the events, each with the session it was registered for (none for the UDP
  socket), or nothing on failure; \<open>os_recvmmsg\<close> takes the sizes of the buffers and returns the
  datagrams received, none when it returns 0 or -1.
\<close>

record 'n os =
  os_recv :: "int \<Rightarrow> 'n recv_fn"
  os_send :: "int \<Rightarrow> 'n send_fn"
  os_close :: "int \<Rightarrow> 'n \<Rightarrow> 'n"
  os_getfl :: "int \<Rightarrow> 'n \<Rightarrow> int \<times> 'n"
  os_setfl :: "int \<Rightarrow> int \<Rightarrow> 'n \<Rightarrow> int \<times> 'n"
  os_nodelay :: "int \<Rightarrow> 'n \<Rightarrow> int \<times> 'n"
  os_epoll_add :: "int \<Rightarrow> nat \<Rightarrow> 'n \<Rightarrow> int \<times> 'n"
  os_epoll_wait :: "'n \<Rightarrow> (nat option \<times> nat) list option \<times> 'n"
  os_recvmmsg :: "nat list \<Rightarrow> 'n \<Rightarrow> byte list list \<times> 'n"
  os_sendmmsg :: "byte list list \<Rightarrow> 'n \<Rightarrow> 'n"
  os_accept :: "'n \<Rightarrow> int \<times> 'n"

section \<open>A worker thread\<close>

record server_thread =
  epollFd :: int
  shouldStop :: bool
  myThreadId :: nat
  sessions :: "session list"
  sessionPool :: "nat spsc"
  sessionBacklog :: "nat list"
  udpIncompleteRead :: bool
  udpSlots :: "udp_slot list"

definition MAX_CLIENTS_PER_THREAD :: nat where "MAX_CLIENTS_PER_THREAD = 4096"
definition UDP_BUF_SIZE :: nat where "UDP_BUF_SIZE = 65536"
definition UDP_MAX_MSGS :: nat where "UDP_MAX_MSGS = 512"

text \<open>The constructor; the datagram buffers are allocated by \<open>threadProc\<close>.\<close>

definition new_thread :: "server_thread res" where
  "new_thread =
     bind_res (LFSPSCQueue 0 MAX_CLIENTS_PER_THREAD) (\<lambda>q.
     Inr \<lparr>epollFd = - 1, shouldStop = False, myThreadId = 0, sessions = replicate MAX_CLIENTS_PER_THREAD new_session,
       sessionPool = snd (put_all push [0..<MAX_CLIENTS_PER_THREAD] q), sessionBacklog = [], udpIncompleteRead = False,
       udpSlots = []\<rparr>)"

text \<open>
  \<open>addSession\<close>: the result of \<open>epoll_ctl\<close>, or -1. What the calls that set the options of the socket
  return is not looked at.
\<close>

definition prepare_socket :: "'n os \<Rightarrow> int \<Rightarrow> 'n \<Rightarrow> 'n" where
  "prepare_socket os sock net =
     (case makeSocketTcpNoDelay (os_nodelay os sock) net of (_, net) \<Rightarrow>
      case makeSocketNonBlocking (os_getfl os sock) (os_setfl os sock) True net of (_, net) \<Rightarrow> net)"

definition attach :: "int \<Rightarrow> session \<Rightarrow> session" where
  "attach sock s = s\<lparr>socket := sock, requestInfo := reset (requestInfo s)\<rparr>"

definition addSession :: "'n os \<Rightarrow> int \<Rightarrow> server_thread \<Rightarrow> 'n \<Rightarrow> (int \<times> server_thread \<times> 'n) res" where
  "addSession os sock th net =
     (if epollFd th = - 1 then Inr (- 1, th, net)
      else
        let net = prepare_socket os sock net in
        case pop (sessionPool th) of
          (None, q) \<Rightarrow> Inr (- 1, th\<lparr>sessionPool := q\<rparr>, net)
        | (Some i, q) \<Rightarrow>
            bind_res (arr_get (sessions th) i) (\<lambda>s.
            case os_epoll_add os sock i net of (r, net) \<Rightarrow>
              Inr (r, th\<lparr>sessionPool := q, sessions := (sessions th)[i := attach sock s]\<rparr>, net)))"

text \<open>Running a session on its socket, and giving it back after a failure.\<close>

definition run_session ::
    "nat \<Rightarrow> 'n os \<Rightarrow> matcher \<Rightarrow> nat list \<Rightarrow> nat \<Rightarrow> nat \<Rightarrow> server_thread \<Rightarrow> 'n \<Rightarrow> cache \<Rightarrow>
     (SessionResult \<times> server_thread \<times> 'n \<times> cache) res" where
  "run_session fuel os m locals events i th net t =
     bind_res (arr_get (sessions th) i) (\<lambda>s.
     bind_res (process fuel (os_recv os (socket s)) (os_send os (socket s)) m locals events (myThreadId th) s net t)
       (\<lambda>(res, s, net, t). Inr (res, th\<lparr>sessions := (sessions th)[i := s]\<rparr>, net, t)))"

definition release :: "'n os \<Rightarrow> nat \<Rightarrow> server_thread \<Rightarrow> 'n \<Rightarrow> server_thread \<times> 'n" where
  "release os i th net =
     (let s = sessions th ! i
      in (th\<lparr>sessions := (sessions th)[i := reset_session s], sessionPool := snd (push i (sessionPool th))\<rparr>, os_close os (socket s) net))"

text \<open>The backlog of postponed sessions; those that stay in it are collected in order.\<close>

fun backlog_pass ::
    "nat \<Rightarrow> 'n os \<Rightarrow> matcher \<Rightarrow> nat list \<Rightarrow> nat list \<Rightarrow> nat list \<Rightarrow> server_thread \<Rightarrow> 'n \<Rightarrow> cache \<Rightarrow> (server_thread \<times> 'n \<times> cache) res" where
  "backlog_pass fuel os m locals [] kept th net t = Inr (th\<lparr>sessionBacklog := kept\<rparr>, net, t)"
| "backlog_pass fuel os m locals (i # todo) kept th net t =
     bind_res (arr_get (sessions th) i) (\<lambda>s.
     bind_res (run_session fuel os m locals (postponedEpollFlags s) i th net t) (\<lambda>(res, th, net, t).
     case res of
       FAILURE \<Rightarrow> (case release os i th net of (th, net) \<Rightarrow> backlog_pass fuel os m locals todo kept th net t)
     | SUCCESS \<Rightarrow> backlog_pass fuel os m locals todo kept th net t
     | POSTPONED \<Rightarrow> backlog_pass fuel os m locals todo (kept @ [i]) th net t))"

text \<open>One event of \<open>epoll_wait\<close>.\<close>

definition on_event ::
    "nat \<Rightarrow> 'n os \<Rightarrow> matcher \<Rightarrow> nat list \<Rightarrow> nat option \<Rightarrow> nat \<Rightarrow> server_thread \<Rightarrow> 'n \<Rightarrow> cache \<Rightarrow> (server_thread \<times> 'n \<times> cache) res" where
  "on_event fuel os m locals p events th net t =
     (case p of
        Some i \<Rightarrow>
          bind_res (run_session fuel os m locals events i th net t) (\<lambda>(res, th, net, t).
          case res of
            FAILURE \<Rightarrow> (case release os i th net of (th, net) \<Rightarrow> Inr (th, net, t))
          | POSTPONED \<Rightarrow> Inr (th\<lparr>sessionBacklog := sessionBacklog th @ [i]\<rparr>, net, t)
          | SUCCESS \<Rightarrow> Inr (th, net, t))
      | None \<Rightarrow> Inr (if events AND EPOLLIN \<noteq> 0 then th\<lparr>udpIncompleteRead := True\<rparr> else th, net, t))"

fun event_pass ::
    "nat \<Rightarrow> 'n os \<Rightarrow> matcher \<Rightarrow> nat list \<Rightarrow> (nat option \<times> nat) list \<Rightarrow> server_thread \<Rightarrow> 'n \<Rightarrow> cache \<Rightarrow> (server_thread \<times> 'n \<times> cache) res" where
  "event_pass fuel os m locals [] th net t = Inr (th, net, t)"
| "event_pass fuel os m locals ((p, events) # es) th net t =
     bind_res (on_event fuel os m locals p events th net t) (\<lambda>(th, net, t). event_pass fuel os m locals es th net t)"

text \<open>
  The datagrams. A datagram is received at the start of its buffer, which keeps the bytes behind it
  from before. When nothing was received the flag stays set.
\<close>

fun udp_messages :: "BinaryHeader \<Rightarrow> nat list \<Rightarrow> nat \<Rightarrow> byte list list \<Rightarrow> udp_slot list \<Rightarrow> cache \<Rightarrow> (udp_slot list \<times> cache) res" where
  "udp_messages garbage locals tid [] us t = Inr (us, t)"
| "udp_messages garbage locals tid (x # xs) [] t = Inl OutOfBounds"
| "udp_messages garbage locals tid (x # xs) (u # us) t =
     bind_res (udp_message garbage locals tid (u\<lparr>udpBuffer := blit (udpBuffer u) 0 x\<rparr>) t) (\<lambda>(u, t).
     bind_res (udp_messages garbage locals tid xs us t) (\<lambda>(us, t). Inr (u # us, t)))"

definition udp_round ::
    "BinaryHeader \<Rightarrow> 'n os \<Rightarrow> nat list \<Rightarrow> server_thread \<Rightarrow> 'n \<Rightarrow> cache \<Rightarrow> (server_thread \<times> 'n \<times> cache) res" where
  "udp_round garbage os locals th net t =
     (if udpIncompleteRead th then
        case os_recvmmsg os (map iovLen (udpSlots th)) net of (xs, net) \<Rightarrow>
          if xs = [] then Inr (th, net, t)
          else bind_res (udp_messages garbage locals (myThreadId th) xs (udpSlots th) t) (\<lambda>(us, t).
            Inr (th\<lparr>udpIncompleteRead := (length xs = UDP_MAX_MSGS), udpSlots := us\<rparr>,
              os_sendmmsg os (map udp_reply (take (length xs) us)) net, t))
      else Inr (th, net, t))"

text \<open>One round of the loop of \<open>threadProc\<close>, and the loop for a number of rounds.\<close>

definition thread_round ::
    "nat \<Rightarrow> BinaryHeader \<Rightarrow> 'n os \<Rightarrow> matcher \<Rightarrow> nat list \<Rightarrow> server_thread \<Rightarrow> 'n \<Rightarrow> cache \<Rightarrow> (server_thread \<times> 'n \<times> cache) res" where
  "thread_round fuel garbage os m locals th net t =
     bind_res (backlog_pass fuel os m locals (sessionBacklog th) [] th net t) (\<lambda>(th, net, t).
     case os_epoll_wait os net of
       (None, net) \<Rightarrow> Inl Aborted
     | (Some es, net) \<Rightarrow>
         bind_res (event_pass fuel os m locals es th net t) (\<lambda>(th, net, t).
         udp_round garbage os locals th net t))"

fun thread_rounds ::
    "nat \<Rightarrow> nat \<Rightarrow> BinaryHeader \<Rightarrow> 'n os \<Rightarrow> matcher \<Rightarrow> nat list \<Rightarrow> server_thread \<Rightarrow> 'n \<Rightarrow> cache \<Rightarrow> (server_thread \<times> 'n \<times> cache) res" where
  "thread_rounds 0 fuel garbage os m locals th net t = Inr (th, net, t)"
| "thread_rounds (Suc n) fuel garbage os m locals th net t =
     (if shouldStop th then Inr (th, net, t)
      else bind_res (thread_round fuel garbage os m locals th net t) (\<lambda>(th, net, t).
           thread_rounds n fuel garbage os m locals th net t))"

definition start_thread :: "int \<Rightarrow> server_thread \<Rightarrow> server_thread res" where
  "start_thread fd th = (if fd < 0 then Inl Aborted else Inr (th\<lparr>epollFd := fd\<rparr>))"

text \<open>
  \<open>threadProc\<close>: the thread takes its id from the cache, sets up its datagram socket (\<open>calls\<close> is what the
  four system calls for it return) and loops. The buffers for datagrams are allocated and not
  initialised: \<open>fill i\<close> is what the bytes of buffer \<open>i\<close> happen to be. A thread started is stopped by its flag.
\<close>

definition thread_begin ::
    "(nat \<Rightarrow> nat \<Rightarrow> byte) \<Rightarrow> int list \<Rightarrow> server_thread \<Rightarrow> cache \<Rightarrow> (server_thread \<times> cache) res" where
  "thread_begin fill calls th t =
     bind_res (getMyThreadId t) (\<lambda>(r, t).
     if - 1 \<in> set calls then Inl Aborted
     else Inr (th\<lparr>myThreadId := r, udpIncompleteRead := False,
       udpSlots := map (\<lambda>i. \<lparr>udpBuffer = map (fill i) [0..<UDP_BUF_SIZE], iovLen = UDP_BUF_SIZE\<rparr>) [0..<UDP_MAX_MSGS]\<rparr>, t))"

definition threadProc ::
    "nat \<Rightarrow> nat \<Rightarrow> BinaryHeader \<Rightarrow> 'n os \<Rightarrow> (nat \<Rightarrow> nat \<Rightarrow> byte) \<Rightarrow> int list \<Rightarrow> matcher \<Rightarrow> nat list \<Rightarrow> server_thread \<Rightarrow> 'n \<Rightarrow> cache \<Rightarrow>
     (server_thread \<times> 'n \<times> cache) res" where
  "threadProc n fuel garbage os fill calls m locals th net t =
     bind_res (thread_begin fill calls th t) (\<lambda>(th, t). thread_rounds n fuel garbage os m locals th net t)"

definition stop_thread :: "server_thread \<Rightarrow> server_thread" where
  "stop_thread th = th\<lparr>shouldStop := True\<rparr>"

section \<open>The server\<close>

record server =
  port :: nat
  numServerThreads :: nat
  nextThreadIdx :: nat
  serverThreads :: "server_thread list"
  udpEnabled :: bool
  maxHashSize :: nat
  listenSocket :: int

definition new_server :: server where
  "new_server = \<lparr>port = 11212, numServerThreads = 32, nextThreadIdx = 0, serverThreads = [], udpEnabled = False, maxHashSize = 0,
     listenSocket = - 1\<rparr>"

fun start_all :: "int list \<Rightarrow> server_thread list res" where
  "start_all [] = Inr []"
| "start_all (fd # fds) =
     bind_res new_thread (\<lambda>th. bind_res (start_thread fd th) (\<lambda>th. bind_res (start_all fds) (\<lambda>ths. Inr (th # ths))))"

text \<open>\<open>start\<close>: \<open>fds\<close> are the descriptors that \<open>epoll_create\<close> returns, one per thread.\<close>

definition start_server :: "nat \<Rightarrow> int list \<Rightarrow> server \<Rightarrow> server res" where
  "start_server numCpus fds s =
     (let n = (if numCpus < numServerThreads s then numCpus else numServerThreads s)
      in bind_res (start_all (take n fds)) (\<lambda>ths. Inr (s\<lparr>numServerThreads := n, serverThreads := ths\<rparr>)))"

text \<open>The threads get to \<open>threadProc\<close> in some \<open>order\<close>; \<open>fill j\<close> is the content of the new buffers of thread \<open>j\<close>.\<close>

fun begin_all :: "(nat \<Rightarrow> nat \<Rightarrow> nat \<Rightarrow> byte) \<Rightarrow> (nat \<times> int list) list \<Rightarrow> server_thread list \<Rightarrow> cache \<Rightarrow> (server_thread list \<times> cache) res" where
  "begin_all fill [] ths t = Inr (ths, t)"
| "begin_all fill ((j, calls) # order) ths t =
     bind_res (arr_get ths j) (\<lambda>th.
     bind_res (thread_begin (fill j) calls th t) (\<lambda>(th, t). begin_all fill order (ths[j := th]) t))"

text \<open>The acceptor opens its socket, with what \<open>setsockopt\<close>, \<open>bind\<close> and \<open>listen\<close> return in \<open>calls\<close>.\<close>

definition start_acceptor :: "int \<Rightarrow> int list \<Rightarrow> server \<Rightarrow> server res" where
  "start_acceptor sock calls s =
     (if sock < 0 \<or> (\<exists>r \<in> set calls. r < 0) then Inl Aborted else Inr (s\<lparr>listenSocket := sock\<rparr>))"

definition stop_server :: "'n os \<Rightarrow> server \<Rightarrow> 'n \<Rightarrow> server \<times> 'n" where
  "stop_server os s net = (s\<lparr>serverThreads := map stop_thread (serverThreads s)\<rparr>, os_close os (listenSocket s) net)"

text \<open>One round of the acceptor: the threads take turns.\<close>

definition accept_round :: "'n os \<Rightarrow> server \<Rightarrow> 'n \<Rightarrow> (server \<times> 'n) res" where
  "accept_round os s net =
     (case os_accept os net of (sock, net) \<Rightarrow>
      let net = (if sock < 0 then os_close os sock net else net) in
      if numServerThreads s = 0 then Inl DivByZero
      else
        let i = nextThreadIdx s mod numServerThreads s; s = s\<lparr>nextThreadIdx := (nextThreadIdx s + 1) mod 2 ^ 64\<rparr> in
        bind_res (arr_get (serverThreads s) i) (\<lambda>th.
        bind_res (addSession os sock th net) (\<lambda>(r, th, net).
        Inr (s\<lparr>serverThreads := (serverThreads s)[i := th]\<rparr>, if r \<noteq> 0 then os_close os sock net else net))))"

section \<open>The command line\<close>

text \<open>The options with the number that \<open>atoi\<close> returns, an \<open>int\<close> converted to \<open>size_t\<close>.\<close>

datatype cli_option = OptUdp | OptThreads int | OptPort int | OptSize int | OptLoad | OptVersion | OptUnknown

definition size_of_int :: "int \<Rightarrow> nat" where "size_of_int x = nat (x mod 2 ^ 64)"

definition MAX_HASH_SIZE :: nat where "MAX_HASH_SIZE = 4 * 1024 * 1024 * 1024 - 3"

datatype cli_result = Run server | Exit int

fun options :: "cli_option list \<Rightarrow> server \<Rightarrow> cli_result res" where
  "options [] s = Inr (Run s)"
| "options (OptUdp # os) s = options os (s\<lparr>udpEnabled := True\<rparr>)"
| "options (OptThreads x # os) s = options os (s\<lparr>numServerThreads := size_of_int x\<rparr>)"
| "options (OptPort x # os) s = options os (s\<lparr>port := size_of_int x\<rparr>)"
| "options (OptSize x # os) s =
     (if (size_of_int x * 2) mod 2 ^ 64 \<ge> MAX_HASH_SIZE then Inl Aborted
      else options os (s\<lparr>maxHashSize := size_of_int x\<rparr>))"
| "options (OptLoad # os) s = options os s"
| "options (OptVersion # os) s = Inr (Exit 0)"
| "options (OptUnknown # os) s = Inr (Exit 1)"

text \<open>\<open>main\<close> up to the start of the server, with the cache it creates.\<close>

definition main_start ::
    "thread_lru \<Rightarrow> byte list \<Rightarrow> storage_value \<Rightarrow> nat \<Rightarrow> nat \<Rightarrow> int list \<Rightarrow> cli_option list \<Rightarrow> (cli_result \<times> cache option) res" where
  "main_start garbage k0 v0 hardware_concurrency numCpus fds os =
     bind_res (options os (new_server\<lparr>maxHashSize := 1024 * 1024\<rparr>)) (\<lambda>r.
     case r of
       Exit c \<Rightarrow> Inr (Exit c, None)
     | Run s \<Rightarrow>
         bind_res (LFLRUHashTable garbage k0 v0 (maxHashSize s) ((2 * maxHashSize s) mod 2 ^ 64) hardware_concurrency) (\<lambda>t.
         bind_res (start_server numCpus fds s) (\<lambda>s. Inr (Run s, Some t))))"

text \<open>The signal handler: on the signals to end it stops the server and lets \<open>main\<close> return.\<close>

datatype signal = SIGUSR1 | SIGUSR2 | SIGHUP | SIGINT | SIGTERM

definition sig_handler :: "'n os \<Rightarrow> signal \<Rightarrow> bool \<Rightarrow> server \<Rightarrow> 'n \<Rightarrow> bool \<times> server \<times> 'n" where
  "sig_handler os signo exitMainThread s net =
     (case signo of
        SIGINT \<Rightarrow> (case stop_server os s net of (s, net) \<Rightarrow> (True, s, net))
      | SIGTERM \<Rightarrow> (case stop_server os s net of (s, net) \<Rightarrow> (True, s, net))
      | _ \<Rightarrow> (exitMainThread, s, net))"

end
