(* ===== verification/Session_Keep.thy ===== *)
theory Session_Keep
  imports Session
begin

text \<open>
  What every event leaves of a session, whatever the request, the socket and the cache do: the socket, the
  postponed flags (but for \<open>EPOLLOUT\<close>) and that neither buffer is empty, so that the doubling loops
  that grow them end.
\<close>

section \<open>The frame of a session\<close>

definition buffered :: "'z request_io_scheme \<Rightarrow> bool" where
  "buffered s \<longleftrightarrow> inBuffer s \<noteq> [] \<and> outBuffer s \<noteq> []"

definition keeps :: "session \<Rightarrow> session \<Rightarrow> bool" where
  "keeps s s' \<longleftrightarrow> socket s' = socket s \<and> postponedEpollFlags s' = postponedEpollFlags s \<and> (buffered s \<longrightarrow> buffered s')"

named_theorems keep "what a step of a session keeps"

lemma keeps_refl [simp]: "keeps s s"
  by (simp add: keeps_def)

lemma keeps_trans [trans]: "keeps s s' \<Longrightarrow> keeps s' s'' \<Longrightarrow> keeps s s''"
  by (simp add: keeps_def)

section \<open>The request\<close>

lemma header_step_frame:
  "header_step m s = Inr (b, s') \<Longrightarrow>
     inBuffer s' = inBuffer s \<and> outBuffer s' = outBuffer s \<and> request_io.more s' = request_io.more s"
  by (auto simp: header_step_def bind_res_Inr_iff Let_def split: if_splits prod.splits)

lemma data_step_frame:
  "data_step l tid s t = Inr (b, s', t') \<Longrightarrow>
     inBuffer s' = inBuffer s \<and> (buffered s \<longrightarrow> buffered s') \<and> request_io.more s' = request_io.more s"
  by (auto simp: data_step_def bind_res_Inr_iff Let_def arr_set_def buffered_def split: if_splits prod.splits)

lemma processRequest_frame:
  "processRequest m l tid s t = Inr (b, s', t') \<Longrightarrow>
     (buffered s \<longrightarrow> buffered s') \<and> request_io.more s' = request_io.more s"
proof (induction m l tid s t rule: processRequest.induct)
  case (1 m l tid s t)
  show ?case
  proof (cases "state (requestInfo s)")
    case READY_STATE
    then show ?thesis using 1 by (simp add: processRequest.simps[of m l tid s] ready_step_def buffered_def)
  next
    case PARSING_HEADER
    then obtain r where r: "header_step m s = Inr r" using 1(4) by (auto simp: processRequest.simps[of m l tid s] bind_res_Inr_iff)
    have f: "inBuffer (snd r) = inBuffer s" "outBuffer (snd r) = outBuffer s" "request_io.more (snd r) = request_io.more s"
      using header_step_frame[of m s "fst r" "snd r"] r by simp_all
    show ?thesis using 1(2)[OF PARSING_HEADER r] 1(4) r f PARSING_HEADER
      by (cases "fst r") (auto simp: processRequest.simps[of m l tid s] buffered_def)
  next
    case PARSING_DATA
    then show ?thesis using 1(4) data_step_frame[of l tid s t b s' t'] by (simp add: processRequest.simps[of m l tid s])
  next
    case DONE_STATE
    then show ?thesis using 1 by (simp add: processRequest.simps[of m l tid s] buffered_def)
  qed
qed

lemma processRequest_keeps [keep]:
  assumes "processRequest m l tid s t = Inr (b, s', t')" shows "keeps s s'"
proof -
  have "request_io.more s' = request_io.more s" "buffered s \<longrightarrow> buffered s'" using processRequest_frame[OF assms] by simp_all
  then show ?thesis by (cases s; cases s') (simp add: keeps_def)
qed

section \<open>Reading, serving, writing\<close>

lemma grow_in_nonempty: "grow_in b off need = Inr b' \<Longrightarrow> b \<noteq> [] \<Longrightarrow> b' \<noteq> []"
  by (induction b off need rule: grow_in.induct) (auto simp: grow_in.simps split: if_splits)

lemma make_room_keeps [keep]: "make_room s = Inr s' \<Longrightarrow> keeps s s'"
  by (auto simp: make_room_def Let_def bind_res_Inr_iff keeps_def buffered_def dest: grow_in_nonempty split: if_splits)

lemma blit_nonempty: "b \<noteq> [] \<Longrightarrow> blit b i xs \<noteq> []"
  by (cases xs) (auto simp: blit_def)

lemma recv_loop_keeps [keep]: "recv_loop fuel recv n s net = Inr (s', r, a, net') \<Longrightarrow> keeps s s'"
proof (induction fuel arbitrary: n s net)
  case (Suc fuel)
  obtain x net1 where x: "recv (length (inBuffer s) - inBufferBytes s) net = (x, net1)" by fastforce
  show ?case
  proof (cases x)
    case (Received bs)
    let ?s = "s\<lparr>inBuffer := blit (inBuffer s) (inBufferBytes s) bs, inBufferBytes := inBufferBytes s + length bs\<rparr>"
    let ?g = "if inBufferBytes ?s = length (inBuffer ?s) then ?s\<lparr>inBuffer := inBuffer ?s @ replicate (length (inBuffer ?s)) 0\<rparr> else ?s"
    have k: "keeps s ?s" "keeps s ?g" by (auto simp: keeps_def buffered_def blit_nonempty)
    show ?thesis
    proof (cases "bs = [] \<or> EPOLL_READ_THRESHOLD \<le> n + length bs \<and> may_stop_reading ?s")
      case True
      then show ?thesis using Suc.prems x Received k(1) by (auto simp: Let_def split: if_splits)
    next
      case False
      then have "recv_loop fuel recv (n + length bs) ?g net1 = Inr (s', r, a, net')"
        using Suc.prems x Received by (auto simp: Let_def split: if_splits)
      then show ?thesis using Suc.IH k(2) keeps_trans by blast
    qed
  qed (use Suc.prems x in simp)
qed simp

lemma serve_loop_keeps [keep]: "serve_loop fuel m l tid n s t = Inr (k, s', t') \<Longrightarrow> keeps s s'"
proof (induction fuel arbitrary: n s t)
  case (Suc fuel)
  then show ?case
    by (auto simp: bind_res_Inr_iff split: if_splits prod.splits dest!: processRequest_keeps intro: keeps_trans)
qed simp

lemma leftovers_keeps [keep]: "leftovers s = Inr s' \<Longrightarrow> keeps s s'"
  by (auto simp: leftovers_def Let_def keeps_def buffered_def zero_offsets_def blit_nonempty slice_def split: if_splits)

lemma send_loop_keeps [keep]: "send_loop fuel send r s net = Inr (r', s', net') \<Longrightarrow> keeps s s' \<and> sessionState s' = sessionState s"
proof (induction fuel arbitrary: r s net)
  case (Suc fuel)
  then show ?case
    by (auto split: if_splits prod.splits send_result.splits simp: keeps_def buffered_def dest!: Suc.IH)
qed simp

lemma write_out_keeps [keep]: "write_out fuel send a s net = Inr (r, s', net') \<Longrightarrow> keeps s s'"
  by (auto simp: write_out_def bind_res_Inr_iff after_send_def keeps_def buffered_def dest!: send_loop_keeps
    split: prod.splits send_result.splits if_splits)

lemma buffered_update [simp]:
  "buffered (s\<lparr>sessionState := x\<rparr>) = buffered s" "buffered (s\<lparr>outBufferBytes := a\<rparr>) = buffered s"
  "buffered (s\<lparr>outBufferOffset := b\<rparr>) = buffered s" "buffered (s\<lparr>postponedEpollFlags := c\<rparr>) = buffered s"
  by (simp_all add: buffered_def)

section \<open>Events\<close>

lemma on_readable_keeps [keep]:
  "on_readable fuel recv send m l tid s net t = Inr (res, s', net', t') \<Longrightarrow> keeps s s'"
  unfolding on_readable_def bind_res_Inr_iff Let_def
  by (clarsimp split: if_splits simp: bind_res_Inr_iff; drule make_room_keeps recv_loop_keeps)
    (auto simp: keeps_def dest!: keep split: if_splits)

lemma on_in_keeps [keep]: "on_in fuel recv send m l tid s net t = Inr (res, s', net', t') \<Longrightarrow> keeps s s'"
  by (auto simp: on_in_def keeps_def dest!: keep split: if_splits)

lemma on_out_frame:
  assumes "on_out fuel send r s net = Inr (res, s', net')"
  shows "socket s' = socket s \<and> (buffered s \<longrightarrow> buffered s') \<and>
    postponedEpollFlags s' = (if res = POSTPONED then postponedEpollFlags s OR EPOLLIN else postponedEpollFlags s)"
proof -
  have w: "socket s1 = socket s \<and> (buffered s \<longrightarrow> buffered s1) \<and> postponedEpollFlags s1 = postponedEpollFlags s"
    if "write_out fuel send a (s\<lparr>sessionState := x\<rparr>) net = Inr (b, s1, n1)" for a x b s1 n1
    using write_out_keeps[OF that] by (simp add: keeps_def)
  have w': "socket s1 = socket s \<and> (buffered s \<longrightarrow> buffered s1) \<and> postponedEpollFlags s1 = postponedEpollFlags s"
    if "write_out fuel send a s net = Inr (b, s1, n1)" for a b s1 n1
    using write_out_keeps[OF that] by (simp add: keeps_def)
  let ?r = "case sessionState s of
         WRITING_REPLY \<Rightarrow> write_out fuel send SUCCESS s net
       | WRITING_WITH_PENDING_READ \<Rightarrow> write_out fuel send POSTPONED (s\<lparr>sessionState := WRITING_REPLY\<rparr>) net
       | _ \<Rightarrow> if r \<noteq> POSTPONED then Inr (SUCCESS, s\<lparr>sessionState := READING_REQUEST\<rparr>, net) else Inr (r, s, net)"
  obtain x where "?r = Inr x" using assms unfolding on_out_def by (cases ?r) simp_all
  then obtain b s1 n1 where s1: "?r = Inr (b, s1, n1)" by (cases x) blast
  then have k: "socket s1 = socket s \<and> (buffered s \<longrightarrow> buffered s1) \<and> postponedEpollFlags s1 = postponedEpollFlags s"
  proof (cases "sessionState s")
    case WRITING_REPLY
    then show ?thesis using s1 by (intro w') simp
  next
    case WRITING_WITH_PENDING_READ
    then show ?thesis using s1 by (intro w) simp
  qed (auto split: if_splits)
  have "res = b \<and> s' = (if b = POSTPONED then s1\<lparr>postponedEpollFlags := postponedEpollFlags s1 OR EPOLLIN\<rparr> else s1)"
    using assms unfolding on_out_def s1 by auto
  then show ?thesis using k by simp
qed

text \<open>The flags that a session leaves for its next attempt.\<close>

lemma process_frame:
  assumes "process fuel recv send m l events tid s net t = Inr (res, s', net', t')"
  shows "socket s' = socket s \<and> (buffered s \<longrightarrow> buffered s') \<and>
    postponedEpollFlags s' = (if res = POSTPONED \<and> events AND EPOLLOUT \<noteq> 0 then EPOLLIN else 0)"
proof -
  let ?s = "s\<lparr>postponedEpollFlags := 0\<rparr>"
  obtain r1 s1 net1 where 1: "(if events AND EPOLLIN \<noteq> 0 then on_in fuel recv send m l tid ?s net t else Inr (FAILURE, ?s, net, t)) = Inr (r1, s1, net1, t')"
    and 2: "(s' = s1 \<and> (res = POSTPONED \<longrightarrow> events AND EPOLLOUT = 0)) \<or> events AND EPOLLOUT \<noteq> 0 \<and> on_out fuel send r1 s1 net1 = Inr (res, s', net')"
    using assms by (auto simp: process_def Let_def bind_res_Inr_iff split: if_splits)
  have "keeps ?s s1" using 1 by (auto split: if_splits intro: keep)
  then have k: "socket s1 = socket s" "buffered s \<longrightarrow> buffered s1" "postponedEpollFlags s1 = 0"
    by (auto simp: keeps_def buffered_def)
  from 2 show ?thesis
  proof
    assume o: "events AND EPOLLOUT \<noteq> 0 \<and> on_out fuel send r1 s1 net1 = Inr (res, s', net')"
    then show ?thesis using k on_out_frame[of fuel send r1 s1 net1 res s' net'] by (auto simp: buffered_def)
  qed (use k in auto)
qed

end
