(* ===== verification/Thread_Props.thy ===== *)
theory Thread_Props
  imports Server_Thread Session_Keep Session_Props Binary_Props Cache_Props2
begin

text \<open>
  What a worker thread does with its sessions: the pool hands out sessions that are ready to serve,
  each to one client at a time, and takes them back; where postponed sessions break that.
\<close>

section \<open>The pool of a thread\<close>

text \<open>A session in the pool is ready but for its request, which \<open>addSession\<close> resets.\<close>

definition parked :: "session \<Rightarrow> bool" where
  "parked s \<longleftrightarrow> inBufferOffset s = 0 \<and> inBufferBytes s = 0 \<and> headerBytesRequired s = 0 \<and> dataBytesRequired s = 0 \<and>
     outBufferBytes s = 0 \<and> outBufferOffset s = 0 \<and> sessionState s \<in> {SESSION_READY_STATE, READING_REQUEST} \<and> buffered s"

abbreviation free_sessions :: "server_thread \<Rightarrow> nat multiset" where
  "free_sessions th \<equiv> bag (sessionPool th)"

definition pool_ok :: "server_thread \<Rightarrow> bool" where
  "pool_ok th \<longleftrightarrow> queue_ok (sessionPool th) \<and> length (sessions th) \<le> capacity (sessionPool th) \<and>
     (\<forall>i. count (free_sessions th) i \<le> 1) \<and>
     (\<forall>i \<in># free_sessions th. i < length (sessions th) \<and> parked (sessions th ! i)) \<and>
     (\<forall>s \<in> set (sessions th). buffered s)"

text \<open>The sessions of \<open>bl\<close> are postponed: distinct and not in the pool.\<close>

definition backlog_ok :: "nat list \<Rightarrow> server_thread \<Rightarrow> bool" where
  "backlog_ok bl th \<longleftrightarrow> distinct bl \<and> (\<forall>i \<in> set bl. i < length (sessions th) \<and> i \<notin># free_sessions th)"

definition thread_ok :: "server_thread \<Rightarrow> bool" where
  "thread_ok th \<longleftrightarrow> pool_ok th \<and> backlog_ok (sessionBacklog th) th"

lemma new_session_parked: "parked new_session" "buffered new_session"
  by (simp_all add: parked_def buffered_def new_session_def MIN_IN_BUFFER_SIZE_def MIN_OUT_BUFFER_SIZE_def)

lemma reset_session_parked: "buffered s \<Longrightarrow> parked (reset_session s)"
  by (simp add: parked_def buffered_def reset_session_def zero_offsets_def)

lemma attach_idle: "parked s \<Longrightarrow> length (inBuffer s) < 2 ^ 63 \<Longrightarrow> idle (attach sock s)"
  by (simp add: parked_def attach_def idle_def reset_initial buffered_def)

text \<open>A pool without duplicates leaves room for every session that is out.\<close>

lemma pool_room:
  assumes "pool_ok th" and "i \<notin># free_sessions th" and "i < length (sessions th)"
  shows "size (free_sessions th) < length (sessions th)"
proof -
  have "free_sessions th = mset_set (set_mset (free_sessions th))"
  proof (rule multiset_eqI)
    fix j
    have c: "count (free_sessions th) j \<le> 1" using assms(1) by (simp add: pool_ok_def)
    show "count (free_sessions th) j = count (mset_set (set_mset (free_sessions th))) j"
    proof (cases "j \<in># free_sessions th")
      case True
      then have "0 < count (free_sessions th) j" by (simp only: count_greater_zero_iff)
      then have "count (free_sessions th) j = 1" using c by arith
      then show ?thesis using True by (simp only: count_mset_set(1) finite_set_mset)
    next
      case False
      then show ?thesis by (simp only: count_mset_set(3) not_in_iff)
    qed
  qed
  then have "size (free_sessions th) = card (set_mset (free_sessions th))" by (metis size_mset_set)
  also have "\<dots> < card {..<length (sessions th)}"
    using assms by (intro psubset_card_mono) (auto simp: pool_ok_def)
  finally show ?thesis by simp
qed

lemma pool_ok_update:
  assumes "pool_ok th" and "i \<notin># free_sessions th" and "buffered s"
  shows "pool_ok (th\<lparr>sessions := (sessions th)[i := s]\<rparr>)"
proof -
  have "parked ((sessions th)[i := s] ! j)" if "j \<in># free_sessions th" for j
    using that assms(1,2) by (cases "j = i") (auto simp: pool_ok_def)
  then show ?thesis using assms by (auto simp: pool_ok_def dest: set_update_subset_insert[THEN subsetD])
qed

lemma release_ok:
  assumes ok: "pool_ok th" and i: "i < length (sessions th)" "i \<notin># free_sessions th"
  shows "pool_ok (fst (release os i th net)) \<and> free_sessions (fst (release os i th net)) = add_mset i (free_sessions th) \<and>
    capacity (sessionPool (fst (release os i th net))) = capacity (sessionPool th)"
proof -
  obtain b q where p: "push i (sessionPool th) = (b, q)" by (cases "push i (sessionPool th)")
  have q: "queue_ok (sessionPool th)" "length (sessions th) \<le> capacity (sessionPool th)" and s: "buffered (sessions th ! i)"
    using ok i(1) by (simp_all add: pool_ok_def)
  have "b" using lq.put_iff[OF q(1) p] pool_room[OF ok i(2,1)] q(2) by simp
  then have q: "queue_ok q" "capacity q = capacity (sessionPool th)" "bag q = add_mset i (free_sessions th)" using lq.put[OF q(1) p] by simp_all
  note r = reset_session_parked[OF s]
  have "pool_ok (th\<lparr>sessions := (sessions th)[i := reset_session (sessions th ! i)]\<rparr>)"
    using pool_ok_update[OF ok i(2)] r by (simp add: parked_def)
  moreover have "count (bag q) j \<le> 1" for j using ok i(2) q(3) by (auto simp: pool_ok_def not_in_iff)
  ultimately have "pool_ok (th\<lparr>sessions := (sessions th)[i := reset_session (sessions th ! i)], sessionPool := q\<rparr>)"
    using q i(1) r by (simp add: pool_ok_def)
  then show ?thesis using p q(2,3) by (simp add: release_def Let_def)
qed

lemma release_simps [simp]:
  "length (sessions (fst (release os i th net))) = length (sessions th)"
  "sessionBacklog (fst (release os i th net)) = sessionBacklog th"
  by (simp_all add: release_def Let_def)

lemma new_thread_ok:
  "\<exists>th. new_thread = Inr th \<and> thread_ok th \<and> free_sessions th = mset [0..<MAX_CLIENTS_PER_THREAD] \<and>
     length (sessions th) = MAX_CLIENTS_PER_THREAD"
proof -
  let ?n = "MAX_CLIENTS_PER_THREAD"
  have n: "pow2_size ?n" "?n \<le> 2 * (?n - 1)" by (simp_all add: pow2_size_def MAX_CLIENTS_PER_THREAD_def)
  obtain q where q: "LFSPSCQueue (0 :: nat) ?n = Inr q" "queue_ok q" "bag q = {#}" "capacity q = 2 * (?n - 1)"
    using LFSPSCQueue_ok[OF n(1), of "0 :: nat"] by blast
  obtain q1 where q1: "put_all push [0..<?n] q = (True, q1)" "queue_ok q1" "capacity q1 = capacity q" "bag q1 = mset [0..<?n]"
    using lq.put_all_fits[OF q(2), of "[0..<?n]"] q(3,4) n(2) by auto
  have c: "count (mset [0..<?n]) i \<le> 1" for i using distinct_count_atmost_1[of "[0..<?n]"] by (auto simp: count_mset_0_iff)
  have "new_thread = Inr \<lparr>epollFd = - 1, shouldStop = False, myThreadId = 0, sessions = replicate ?n new_session, sessionPool = q1,
      sessionBacklog = [], udpIncompleteRead = False, udpSlots = []\<rparr>"
    using q(1) q1(1) by (simp add: new_thread_def)
  then show ?thesis using q1 q(4) n(2) c new_session_parked by (auto simp: thread_ok_def pool_ok_def backlog_ok_def)
qed

lemma addSession_takes:
  assumes "thread_ok th" and "epollFd th \<noteq> - 1"
  shows "(free_sessions th = {#} \<longrightarrow> (\<exists>th'. addSession os sock th net = Inr (- 1, th', prepare_socket os sock net) \<and> thread_ok th' \<and> free_sessions th' = {#})) \<and>
    (free_sessions th \<noteq> {#} \<longrightarrow> (\<exists>i th'. i \<in># free_sessions th \<and>
       addSession os sock th net = Inr (fst (os_epoll_add os sock i (prepare_socket os sock net)), th', snd (os_epoll_add os sock i (prepare_socket os sock net))) \<and>
       (length (inBuffer (sessions th ! i)) < 2 ^ 63 \<longrightarrow> idle (sessions th' ! i)) \<and> socket (sessions th' ! i) = sock \<and>
       thread_ok th' \<and> free_sessions th = add_mset i (free_sessions th') \<and> i \<notin># free_sessions th'))"
proof -
  obtain r q where p: "pop (sessionPool th) = (r, q)" by (cases "pop (sessionPool th)")
  have ok: "pool_ok th" and q: "queue_ok (sessionPool th)" using assms(1) by (simp_all add: thread_ok_def pool_ok_def)
  note tk = lq.tk[OF q p] lq.tk_iff[OF q p]
  have A: "\<exists>th'. addSession os sock th net = Inr (- 1, th', prepare_socket os sock net) \<and> thread_ok th' \<and> free_sessions th' = {#}" if "free_sessions th = {#}"
    using that tk p assms by (auto simp: addSession_def Let_def thread_ok_def pool_ok_def backlog_ok_def)
  have B: "\<exists>i th'. i \<in># free_sessions th \<and>
      addSession os sock th net = Inr (fst (os_epoll_add os sock i (prepare_socket os sock net)), th', snd (os_epoll_add os sock i (prepare_socket os sock net))) \<and>
      (length (inBuffer (sessions th ! i)) < 2 ^ 63 \<longrightarrow> idle (sessions th' ! i)) \<and> socket (sessions th' ! i) = sock \<and>
      thread_ok th' \<and> free_sessions th = add_mset i (free_sessions th') \<and> i \<notin># free_sessions th'" if ne: "free_sessions th \<noteq> {#}"
  proof -
    have "r \<noteq> None" using tk(2) ne by simp
    then obtain i where i: "r = Some i" by blast
    then have b: "free_sessions th = add_mset i (bag q)" "queue_ok q" "capacity q = capacity (sessionPool th)" using tk(1) by auto
    have ii: "i < length (sessions th)" "parked (sessions th ! i)" using ok b(1) by (auto simp: pool_ok_def)
    have cnt: "count (add_mset i (bag q)) j \<le> 1" for j using ok unfolding b(1)[symmetric] by (simp add: pool_ok_def)
    have ni: "i \<notin># bag q" using cnt[of i] by (simp add: not_in_iff)
    let ?s = "attach sock (sessions th ! i)"
    let ?th = "th\<lparr>sessionPool := q, sessions := (sessions th)[i := ?s]\<rparr>"
    have add: "addSession os sock th net = Inr (fst (os_epoll_add os sock i (prepare_socket os sock net)), ?th, snd (os_epoll_add os sock i (prepare_socket os sock net)))"
      using p i ii(1) assms(2) by (simp add: addSession_def Let_def split_beta)
    have "count (bag q) j \<le> 1" for j using cnt[of j] by (simp split: if_splits)
    then have "pool_ok (th\<lparr>sessionPool := q\<rparr>)" using ok b by (simp add: pool_ok_def)
    then have "pool_ok ?th" using pool_ok_update[of "th\<lparr>sessionPool := q\<rparr>" i ?s] ni ii(2) by (simp add: parked_def attach_def buffered_def)
    moreover have "backlog_ok (sessionBacklog th) ?th" using assms(1) b(1) by (auto simp: thread_ok_def backlog_ok_def)
    ultimately have "thread_ok ?th" by (simp add: thread_ok_def)
    then show ?thesis using add attach_idle[OF ii(2), of sock] ii(1) b(1) ni by (intro exI[of _ i] exI[of _ ?th]) (simp add: attach_def)
  qed
  show ?thesis by (rule conjI, rule impI, erule A, rule impI, erule B)
qed

text \<open>
  C31: a thread hands out its sessions one by one. While the pool is not empty, \<open>addSession\<close> takes one
  session out of it, ready to serve its new client, sets the options of its socket and registers it,
  and otherwise reports failure. The pool never
  holds a session twice, nor one that is postponed.
\<close>

theorem thread_hands_out_sessions:
  assumes "thread_ok th" and "epollFd th \<noteq> - 1"
  shows "(free_sessions th = {#} \<longrightarrow> (\<exists>th'. addSession os sock th net = Inr (- 1, th', prepare_socket os sock net) \<and> thread_ok th' \<and> free_sessions th' = {#})) \<and>
    (free_sessions th \<noteq> {#} \<longrightarrow> (\<exists>i th'. i \<in># free_sessions th \<and>
       addSession os sock th net = Inr (fst (os_epoll_add os sock i (prepare_socket os sock net)), th', snd (os_epoll_add os sock i (prepare_socket os sock net))) \<and>
       (length (inBuffer (sessions th ! i)) < 2 ^ 63 \<longrightarrow> idle (sessions th' ! i)) \<and> socket (sessions th' ! i) = sock \<and>
       thread_ok th' \<and> free_sessions th = add_mset i (free_sessions th') \<and> i \<notin># free_sessions th'))"
  by (rule addSession_takes[OF assms])

section \<open>A round\<close>

lemma run_session_ok:
  assumes run: "run_session fuel os m l events i th net t = Inr (res, th', net', t')"
    and ok: "pool_ok th" "backlog_ok bl th" and i: "i \<notin># free_sessions th"
  shows "pool_ok th' \<and> backlog_ok bl th' \<and> i < length (sessions th') \<and> sessionPool th' = sessionPool th \<and>
    sessionBacklog th' = sessionBacklog th \<and> length (sessions th') = length (sessions th)"
proof -
  obtain s s' where s: "arr_get (sessions th) i = Inr s"
      "process fuel (os_recv os (socket s)) (os_send os (socket s)) m l events (myThreadId th) s net t = Inr (res, s', net', t')"
      "th' = th\<lparr>sessions := (sessions th)[i := s']\<rparr>"
    using run by (auto simp: run_session_def bind_res_Inr_iff)
  have "i < length (sessions th)" "buffered s" using s(1) ok(1) by (auto simp: arr_get_def pool_ok_def split: if_splits)
  moreover from this have "buffered s'" using process_frame[OF s(2)] by blast
  ultimately show ?thesis using pool_ok_update[OF ok(1) i, of s'] ok(2) s(3) by (simp add: backlog_ok_def)
qed

lemma release_backlog:
  assumes "pool_ok th" and "backlog_ok bl th" and "i < length (sessions th)" and "i \<notin># free_sessions th" and "i \<notin> set bl"
  shows "backlog_ok bl (fst (release os i th net))"
  using release_ok[OF assms(1,3,4), of os net] assms(2,5) by (auto simp: backlog_ok_def)

lemma backlog_ok_drop: "backlog_ok (kept @ i # todo) th \<Longrightarrow> backlog_ok (kept @ todo) th \<and> i \<notin> set (kept @ todo)"
  by (simp add: backlog_ok_def)

lemma backlog_pass_ok:
  assumes "backlog_pass fuel os m l todo kept th net t = Inr (th', net', t')"
    and "pool_ok th" and "backlog_ok (kept @ todo) th"
  shows "thread_ok th' \<and> set (sessionBacklog th') \<subseteq> set (kept @ todo) \<and> free_sessions th \<subseteq># free_sessions th'"
  using assms
proof (induction todo arbitrary: kept th net t)
  case Nil
  then show ?case by (auto simp: thread_ok_def pool_ok_def backlog_ok_def)
next
  case (Cons i todo)
  obtain s where s: "arr_get (sessions th) i = Inr s" using Cons.prems(1) by (auto simp: bind_res_Inr_iff)
  obtain res th1 net1 t1 where r: "run_session fuel os m l (postponedEpollFlags s) i th net t = Inr (res, th1, net1, t1)"
    using Cons.prems(1) s by (auto simp: bind_res_Inr_iff)
  have i: "i \<notin># free_sessions th" using Cons.prems(3) by (simp add: backlog_ok_def)
  note ok = run_session_ok[OF r Cons.prems(2,3) i]
  have d: "backlog_ok (kept @ todo) th1" "i \<notin> set (kept @ todo)" using ok backlog_ok_drop[of kept i todo] Cons.prems(3) by blast+
  show ?case
  proof (cases res)
    case FAILURE
    have f: "pool_ok (fst (release os i th1 net1))" "free_sessions (fst (release os i th1 net1)) = add_mset i (free_sessions th)" "backlog_ok (kept @ todo) (fst (release os i th1 net1))"
      using release_ok[of th1 i os net1] release_backlog[of th1 "kept @ todo" i os net1] ok i d by simp_all
    have "backlog_pass fuel os m l todo kept (fst (release os i th1 net1)) (snd (release os i th1 net1)) t1 = Inr (th', net', t')"
      using Cons.prems(1) s r FAILURE by (simp add: split_beta)
    then have ih: "thread_ok th'" "set (sessionBacklog th') \<subseteq> set (kept @ todo)" "add_mset i (free_sessions th) \<subseteq># free_sessions th'"
      using Cons.IH[of kept "fst (release os i th1 net1)"] f by auto
    from ih(3) have "free_sessions th \<subseteq># free_sessions th'" by (blast dest: mset_subset_eq_insertD intro: subset_mset.less_imp_le)
    with ih(1,2) show ?thesis by auto
  next
    case SUCCESS
    then show ?thesis using Cons.IH[of kept th1 net1 t1] Cons.prems(1) s r d(1) ok by auto
  next
    case POSTPONED
    then show ?thesis using Cons.IH[of "kept @ [i]" th1 net1 t1] Cons.prems(1) s r ok by auto
  qed
qed

text \<open>Events for distinct sessions that are neither in the pool nor postponed.\<close>

definition events_ok :: "server_thread \<Rightarrow> (nat option \<times> nat) list \<Rightarrow> bool" where
  "events_ok th es \<longleftrightarrow> distinct (List.map_filter fst es) \<and>
     (\<forall>i \<in> set (List.map_filter fst es). i \<notin># free_sessions th \<and> i \<notin> set (sessionBacklog th))"

lemma on_event_ok:
  assumes "on_event fuel os m l p events th net t = Inr (th', net', t')" and "thread_ok th" and "events_ok th ((p, events) # es)"
  shows "thread_ok th' \<and> events_ok th' es \<and> free_sessions th \<subseteq># free_sessions th'"
proof (cases p)
  case None
  then show ?thesis using assms by (auto simp: on_event_def thread_ok_def pool_ok_def backlog_ok_def events_ok_def map_filter_simps split: if_splits)
next
  case (Some i)
  have i: "i \<notin># free_sessions th" "i \<notin> set (sessionBacklog th)" "i \<notin> set (List.map_filter fst es)"
    using assms(3) Some by (simp_all add: events_ok_def map_filter_simps)
  have es: "events_ok th es" using assms(3) Some by (simp add: events_ok_def map_filter_simps)
  obtain res th1 net1 t1 where r: "run_session fuel os m l events i th net t = Inr (res, th1, net1, t1)"
    using assms(1) Some by (auto simp: on_event_def bind_res_Inr_iff)
  have tok: "pool_ok th" "backlog_ok (sessionBacklog th) th" using assms(2) by (simp_all add: thread_ok_def)
  note ok = run_session_ok[OF r tok i(1)]
  show ?thesis
  proof (cases res)
    case FAILURE
    then have th': "th' = fst (release os i th1 net1)" using assms(1) Some r by (auto simp: on_event_def split_beta)
    have "pool_ok th' \<and> free_sessions th' = add_mset i (free_sessions th)" "backlog_ok (sessionBacklog th) th'"
      using release_ok[of th1 i os net1] release_backlog[of th1 "sessionBacklog th" i os net1] ok i th' by simp_all
    then show ?thesis using es i ok th' by (auto simp: thread_ok_def events_ok_def)
  next
    case SUCCESS
    then show ?thesis using ok es assms(1) Some r by (auto simp: on_event_def thread_ok_def events_ok_def)
  next
    case POSTPONED
    then have "th' = th1\<lparr>sessionBacklog := sessionBacklog th @ [i]\<rparr>" using assms(1) Some r ok by (auto simp: on_event_def)
    then show ?thesis using ok es i by (auto simp: thread_ok_def events_ok_def pool_ok_def backlog_ok_def)
  qed
qed

lemma event_pass_ok:
  "event_pass fuel os m l es th net t = Inr (th', net', t') \<Longrightarrow> thread_ok th \<Longrightarrow> events_ok th es \<Longrightarrow>
     thread_ok th' \<and> free_sessions th \<subseteq># free_sessions th'"
proof (induction es arbitrary: th net t)
  case (Cons e es)
  obtain th1 net1 t1 where 1: "on_event fuel os m l (fst e) (snd e) th net t = Inr (th1, net1, t1)"
    "event_pass fuel os m l es th1 net1 t1 = Inr (th', net', t')"
    using Cons.prems(1) by (cases e) (auto simp: bind_res_Inr_iff)
  have "events_ok th ((fst e, snd e) # es)" using Cons.prems(3) by simp
  from on_event_ok[OF 1(1) Cons.prems(2) this] Cons.IH[OF 1(2)] show ?case by (meson subset_mset.order_trans)
qed simp

lemma udp_round_ok:
  "udp_round garbage os l th net t = Inr (th', net', t') \<Longrightarrow> thread_ok th \<Longrightarrow> thread_ok th' \<and> sessionPool th' = sessionPool th"
  by (auto simp: udp_round_def bind_res_Inr_iff thread_ok_def pool_ok_def backlog_ok_def split: if_splits prod.splits)

text \<open>
  C32: a round of a worker thread in which the events for sessions that \<open>epoll_wait\<close> reports are for different ones, none of them
  in the pool or, after the pass over the backlog, postponed, keeps the sessions in order: each is afterwards still in at
  most one place, those in the pool are ready, those that failed have gone back to it and none has been taken from it.
  The condition is one on the round, not a promise of the operating system: an event for a postponed session can
  occur, and the property on postponed failures shows what comes of it.
\<close>

theorem thread_round_keeps_sessions:
  assumes ok: "thread_ok th" and run: "thread_round fuel garbage os m l th net t = Inr (th', net', t')"
    and ev: "\<forall>th1 net1 t1 es net2. backlog_pass fuel os m l (sessionBacklog th) [] th net t = Inr (th1, net1, t1) \<and>
      os_epoll_wait os net1 = (Some es, net2) \<longrightarrow> events_ok th1 es"
  shows "thread_ok th' \<and> free_sessions th \<subseteq># free_sessions th'"
proof -
  obtain th1 net1 t1 where 1: "backlog_pass fuel os m l (sessionBacklog th) [] th net t = Inr (th1, net1, t1)"
    using run by (auto simp: thread_round_def bind_res_Inr_iff)
  obtain es net2 where 2: "os_epoll_wait os net1 = (Some es, net2)"
    using run 1 by (cases "os_epoll_wait os net1"; cases "fst (os_epoll_wait os net1)") (auto simp: thread_round_def)
  obtain th3 net3 t3 where 3: "event_pass fuel os m l es th1 net2 t1 = Inr (th3, net3, t3)" "udp_round garbage os l th3 net3 t3 = Inr (th', net', t')"
    using run 1 2 by (auto simp: thread_round_def bind_res_Inr_iff)
  have "thread_ok th1 \<and> free_sessions th \<subseteq># free_sessions th1"
    using backlog_pass_ok[OF 1] ok by (simp add: thread_ok_def)
  moreover from this have "thread_ok th3 \<and> free_sessions th1 \<subseteq># free_sessions th3" using event_pass_ok[OF 3(1)] ev 1 2 by blast
  moreover from this have "thread_ok th' \<and> sessionPool th' = sessionPool th3" using udp_round_ok[OF 3(2)] by blast
  ultimately show ?thesis by (metis subset_mset.order_trans)
qed

section \<open>A thread with one client\<close>

text \<open>
  An operating system whose sockets all answer \<open>recv\<close> with \<open>r\<close> and which reports the events \<open>es\<close>;
  its state are the descriptors that have been closed.
\<close>

definition demo_os :: "recv_result \<Rightarrow> (nat option \<times> nat) list \<Rightarrow> int list os" where
  "demo_os r es = \<lparr>os_recv = \<lambda>_ _ n. (r, n), os_send = \<lambda>_ bs n. (Sent (length bs), n), os_close = \<lambda>fd n. n @ [fd],
     os_getfl = \<lambda>_ n. (2, n), os_setfl = \<lambda>_ _ n. (0, n), os_nodelay = \<lambda>_ n. (0, n),
     os_epoll_add = \<lambda>_ _ n. (0, n), os_epoll_wait = \<lambda>n. (Some es, n), os_recvmmsg = \<lambda>_ n. ([], n), os_sendmmsg = \<lambda>_ n. n,
     os_accept = \<lambda>n. (7, n)\<rparr>"

lemma demo_os_prepare [simp]: "prepare_socket (demo_os r es) sock n = n"
  by (simp add: demo_os_def prepare_socket_def makeSocketTcpNoDelay_def makeSocketNonBlocking_def)

lemma demo_os_add: "os_epoll_add (demo_os r es) sock i n = (0, n)"
  by (simp add: demo_os_def)

text \<open>A thread whose only session serves the client at socket 7.\<close>

definition demo_thread :: "nat spsc \<Rightarrow> nat list \<Rightarrow> server_thread" where
  "demo_thread q bl = \<lparr>epollFd = 3, shouldStop = False, myThreadId = 0, sessions = [attach 7 new_session], sessionPool = q,
     sessionBacklog = bl, udpIncompleteRead = False, udpSlots = []\<rparr>"

lemma demo_thread_ok:
  "\<exists>q. LFSPSCQueue 0 2 = Inr q \<and> bag q = {#} \<and> capacity q = 2 \<and> queue_ok q \<and>
    (\<forall>bl. bl = [] \<or> bl = [0] \<longrightarrow> thread_ok (demo_thread q bl))"
proof -
  obtain q :: "nat spsc" where q: "LFSPSCQueue 0 2 = Inr q" "queue_ok q" "bag q = {#}" "capacity q = 2"
    using LFSPSCQueue_ok[of 2 "0 :: nat"] by (auto simp: pow2_size_def)
  have "buffered (attach 7 new_session)" using new_session_parked(2) by (simp add: attach_def buffered_def)
  then show ?thesis using q by (auto simp: demo_thread_def thread_ok_def pool_ok_def backlog_ok_def)
qed

theorem thread_hands_out_sessions_witness:
  "\<exists>th i th'. new_thread = Inr th \<and> addSession (demo_os (RecvError EWOULDBLOCK) []) 7 (th\<lparr>epollFd := 3\<rparr>) [] = Inr (0, th', []) \<and>
     i < 4096 \<and> idle (sessions th' ! i) \<and> socket (sessions th' ! i) = 7"
proof -
  let ?os = "demo_os (RecvError EWOULDBLOCK) []"
  obtain th where th: "new_thread = Inr th" "thread_ok th" "free_sessions th = mset [0..<MAX_CLIENTS_PER_THREAD]"
      "sessions th = replicate MAX_CLIENTS_PER_THREAD new_session"
    using new_thread_ok by (auto simp: new_thread_def bind_res_Inr_iff)
  have ok: "thread_ok (th\<lparr>epollFd := 3\<rparr>)" using th(2) by (simp add: thread_ok_def pool_ok_def backlog_ok_def)
  have ne: "free_sessions (th\<lparr>epollFd := 3\<rparr>) \<noteq> {#}" by (simp add: th(3) MAX_CLIENTS_PER_THREAD_def del: mset_upt)
  obtain i th' where i: "i \<in># free_sessions th" "addSession ?os 7 (th\<lparr>epollFd := 3\<rparr>) [] = Inr (0, th', [])"
      "length (inBuffer (sessions th ! i)) < 2 ^ 63 \<longrightarrow> idle (sessions th' ! i)" "socket (sessions th' ! i) = 7"
    using thread_hands_out_sessions[OF ok, of ?os 7 "[]"] ne demo_os_add by auto
  have "i < 4096" using i(1) th(3) by (simp add: MAX_CLIENTS_PER_THREAD_def)
  moreover from this have "length (inBuffer (sessions th ! i)) < 2 ^ 63"
    by (simp add: th(4) MAX_CLIENTS_PER_THREAD_def new_session_def MIN_IN_BUFFER_SIZE_def)
  ultimately show ?thesis using th(1) i(2-4) by blast
qed

text \<open>The peer of a session that waits for input resets the connection.\<close>

lemma peer_reset_fails:
  assumes "parked s" and "recv (length (inBuffer s)) net = (RecvError ECONNRESET, net1)" and "events AND EPOLLIN \<noteq> 0"
  shows "process (Suc fuel) recv send m l events tid s net t = Inr (FAILURE, s\<lparr>postponedEpollFlags := 0\<rparr>, net1, t)"
proof -
  let ?s = "s\<lparr>postponedEpollFlags := 0\<rparr>"
  have "make_room ?s = Inr ?s" using assms(1) by (auto simp: make_room_def parked_def buffered_def)
  then have "on_in (Suc fuel) recv send m l tid ?s net t = Inr (FAILURE, ?s, net1, t)"
    using assms(1,2) by (auto simp: on_in_def on_readable_def parked_def)
  then show ?thesis using assms(3) by (simp add: process_def Let_def)
qed

lemma demo_run_fails:
  "run_session 5 (demo_os (RecvError ECONNRESET) es) m l EPOLLIN 0 (demo_thread q bl) net t =
     Inr (FAILURE, (demo_thread q bl)\<lparr>sessions := [(attach 7 new_session)\<lparr>postponedEpollFlags := 0\<rparr>]\<rparr>, net, t)"
proof -
  have "parked (attach 7 new_session)" using new_session_parked(1) by (simp add: parked_def attach_def buffered_def)
  then show ?thesis
    using peer_reset_fails[of "attach 7 new_session" "\<lambda>_ n. (RecvError ECONNRESET, n)" net net EPOLLIN 4]
    by (simp add: run_session_def demo_thread_def demo_os_def arr_get_def EPOLLIN_def)
qed

theorem thread_round_keeps_sessions_witness:
  "\<exists>q m t th'. LFSPSCQueue 0 2 = Inr q \<and> server_matcher = Inr m \<and> demo_table 8 = Inr t \<and>
     thread_round 5 zero_header (demo_os (RecvError ECONNRESET) [(Some 0, EPOLLIN)]) m [] (demo_thread q []) [] t = Inr (th', [7], t) \<and>
     thread_ok th' \<and> free_sessions th' = {#0#}"
proof -
  let ?os = "demo_os (RecvError ECONNRESET) [(Some 0, EPOLLIN)]"
  obtain q where q: "LFSPSCQueue 0 2 = Inr q" "bag q = {#}" "capacity q = 2" "queue_ok q" "thread_ok (demo_thread q [])"
    using demo_thread_ok by blast
  obtain m t where mt: "server_matcher = Inr m" "demo_table 8 = Inr t" using server_matcher_built demo_empty[of 8] by auto
  let ?th = "demo_thread q []" and ?th1 = "(demo_thread q [])\<lparr>sessions := [(attach 7 new_session)\<lparr>postponedEpollFlags := 0\<rparr>]\<rparr>"
  let ?th' = "fst (release ?os 0 ?th1 [])"
  have b: "backlog_pass 5 ?os m [] (sessionBacklog ?th) [] ?th [] t = Inr (?th, [], t)" by (simp add: demo_thread_def)
  have e: "on_event 5 ?os m [] (Some 0) EPOLLIN ?th [] t = Inr (?th', [7], t)"
    using demo_run_fails[of "[(Some 0, EPOLLIN)]" m "[]" q "[]" "[]" t]
    by (simp add: on_event_def split_beta) (simp add: release_def demo_os_def attach_def)
  have w: "os_epoll_wait ?os n = (Some [(Some 0, EPOLLIN)], n)" for n by (simp add: demo_os_def)
  have u: "\<not> udpIncompleteRead ?th'" by (simp add: release_def demo_thread_def Let_def)
  have r: "thread_round 5 zero_header ?os m [] ?th [] t = Inr (?th', [7], t)"
    using b e u w by (simp add: thread_round_def udp_round_def)
  have ev: "\<forall>th1 net1 t1 es net2. backlog_pass 5 ?os m [] (sessionBacklog ?th) [] ?th [] t = Inr (th1, net1, t1) \<and>
      os_epoll_wait ?os net1 = (Some es, net2) \<longrightarrow> events_ok th1 es"
    using b q(2) by (auto simp: demo_os_def events_ok_def map_filter_simps) (auto simp: demo_thread_def)
  have "thread_ok ?th'" using thread_round_keeps_sessions[OF q(5) r ev] by blast
  moreover have "free_sessions ?th' = {#0#}"
  proof -
    have "thread_ok ?th1" using q(5) pool_ok_update[of ?th 0 "(attach 7 new_session)\<lparr>postponedEpollFlags := 0\<rparr>"] new_session_parked(2) q(2)
      by (auto simp: thread_ok_def backlog_ok_def demo_thread_def buffered_def attach_def)
    then show ?thesis using release_ok[of ?th1 0 ?os "[]"] q(2) by (auto simp: thread_ok_def) (simp add: demo_thread_def)
  qed
  ultimately show ?thesis using q(1) mt r by blast
qed

section \<open>A postponed session that fails\<close>

lemma process_no_events: "process fuel recv send m l 0 tid s net t = Inr (FAILURE, s\<lparr>postponedEpollFlags := 0\<rparr>, net, t)"
  by (simp add: process_def Let_def)

text \<open>
  C33: a postponed session for which an event arrives that makes it fail is put into the pool while it stays in the
  backlog. The next pass over the backlog, which has no flags to try it with, fails it again: its descriptor, which by then may belong
  to another client, is closed a second time and the pool holds the session twice, to be given to two clients.
\<close>

theorem postponed_failure_pools_twice:
  assumes ok: "thread_ok th" and bl: "sessionBacklog th = [i]" and cap: "length (sessions th) < capacity (sessionPool th)"
    and run: "run_session fuel os m l events i th net t = Inr (FAILURE, th1, net1, t1)"
  shows "\<exists>fd th2 th3. on_event fuel os m l (Some i) events th net t = Inr (th2, os_close os fd net1, t1) \<and>
    backlog_pass fuel os m l (sessionBacklog th2) [] th2 (os_close os fd net1) t1 =
      Inr (th3, os_close os fd (os_close os fd net1), t1) \<and>
    free_sessions th3 = add_mset i (add_mset i (free_sessions th)) \<and> \<not> thread_ok th3"
proof -
  have p: "pool_ok th" "backlog_ok [i] th" using ok bl by (simp_all add: thread_ok_def)
  then have i: "i \<notin># free_sessions th" by (simp add: backlog_ok_def)
  note r = run_session_ok[OF run p i]
  let ?s = "sessions th1 ! i" and ?th2 = "fst (release os i th1 net1)"
  let ?fd = "socket ?s" and ?net2 = "os_close os (socket ?s) net1"
  have e: "on_event fuel os m l (Some i) events th net t = Inr (?th2, ?net2, t1)"
    using run by (simp add: on_event_def split_beta) (simp add: release_def Let_def)
  have p2: "pool_ok ?th2" "free_sessions ?th2 = add_mset i (free_sessions th)" "capacity (sessionPool ?th2) = capacity (sessionPool th)"
    using release_ok[of th1 i os net1] r i by simp_all
  have s2: "sessions ?th2 ! i = reset_session ?s" "length (sessions ?th2) = length (sessions th1)" using r by (simp_all add: release_def Let_def)
  let ?th2' = "?th2\<lparr>sessions := (sessions ?th2)[i := (reset_session ?s)\<lparr>postponedEpollFlags := 0\<rparr>]\<rparr>"
  have run2: "run_session fuel os m l 0 i ?th2 ?net2 t1 = Inr (FAILURE, ?th2', ?net2, t1)"
    using s2 r by (simp add: run_session_def process_no_events)
  obtain b q where q: "push i (sessionPool ?th2) = (b, q)" by (cases "push i (sessionPool ?th2)")
  have qok: "queue_ok (sessionPool ?th2)" using p2(1) by (simp add: pool_ok_def)
  have "i < length (sessions th)" using r by simp
  then have "size (free_sessions ?th2) < capacity (sessionPool ?th2)" using pool_room[OF p(1) i] cap p2(2,3) by simp
  then have bq: "bag q = add_mset i (free_sessions ?th2)" using lq.put[OF qok q] lq.put_iff[OF qok q] by simp
  let ?th3 = "(fst (release os i ?th2' ?net2))\<lparr>sessionBacklog := []\<rparr>"
  have "socket (reset_session ?s) = ?fd" "postponedEpollFlags (reset_session ?s) = 0" by (simp_all add: reset_session_def zero_offsets_def)
  then have "backlog_pass fuel os m l (sessionBacklog ?th2) [] ?th2 ?net2 t1 = Inr (?th3, os_close os ?fd ?net2, t1)"
    using run2 s2 r bl by (simp add: split_beta) (simp add: release_def Let_def)
  moreover have f: "free_sessions ?th3 = add_mset i (add_mset i (free_sessions th))" using bq p2 q by (simp add: release_def Let_def)
  moreover have "\<not> thread_ok ?th3" using f by (auto simp: thread_ok_def pool_ok_def intro!: exI[of _ i])
  ultimately show ?thesis using e by blast
qed

theorem postponed_failure_pools_twice_witness:
  "\<exists>q m t th2 th3. LFSPSCQueue 0 2 = Inr q \<and> server_matcher = Inr m \<and> demo_table 8 = Inr t \<and>
     on_event 5 (demo_os (RecvError ECONNRESET) []) m [] (Some 0) EPOLLIN (demo_thread q [0]) [] t = Inr (th2, [7], t) \<and>
     backlog_pass 5 (demo_os (RecvError ECONNRESET) []) m [] (sessionBacklog th2) [] th2 [7] t = Inr (th3, [7, 7], t) \<and>
     free_sessions th3 = {#0, 0#}"
proof -
  let ?os = "demo_os (RecvError ECONNRESET) []"
  obtain q where q: "LFSPSCQueue 0 2 = Inr q" "bag q = {#}" "capacity q = 2" "thread_ok (demo_thread q [0])"
    using demo_thread_ok by blast
  obtain m t where mt: "server_matcher = Inr m" "demo_table 8 = Inr t" using server_matcher_built demo_empty[of 8] by auto
  have th: "sessionBacklog (demo_thread q [0]) = [0]" "length (sessions (demo_thread q [0])) < capacity (sessionPool (demo_thread q [0]))"
    "free_sessions (demo_thread q [0]) = {#}" using q(2,3) by (simp_all add: demo_thread_def)
  have "\<exists>fd th2 th3. on_event 5 ?os m [] (Some 0) EPOLLIN (demo_thread q [0]) [] t = Inr (th2, os_close ?os fd [], t) \<and>
      backlog_pass 5 ?os m [] (sessionBacklog th2) [] th2 (os_close ?os fd []) t = Inr (th3, os_close ?os fd (os_close ?os fd []), t) \<and>
      free_sessions th3 = add_mset 0 (add_mset 0 (free_sessions (demo_thread q [0]))) \<and> \<not> thread_ok th3"
    by (rule postponed_failure_pools_twice[OF q(4) th(1,2) demo_run_fails])
  then obtain fd th2 th3 where r: "on_event 5 ?os m [] (Some 0) EPOLLIN (demo_thread q [0]) [] t = Inr (th2, [fd], t)"
      "backlog_pass 5 ?os m [] (sessionBacklog th2) [] th2 [fd] t = Inr (th3, [fd, fd], t)" "free_sessions th3 = {#0, 0#}"
    using th(3) by (auto simp: demo_os_def)
  have "fd = 7" using r(1) demo_run_fails[of "[]" m "[]" q "[0]" "[]" t]
    by (simp add: on_event_def split_beta) (simp add: release_def Let_def demo_os_def attach_def)
  then show ?thesis using q(1) mt r by blast
qed

section \<open>The start of the server\<close>

lemma begin_all_ids:
  assumes "nextThreadId t + length order \<le> numThreads t" and "numThreads t < 2 ^ 64" and "distinct (map fst order)"
    and "\<forall>(j, calls) \<in> set order. j < length ths \<and> - 1 \<notin> set calls"
  shows "\<exists>ths'. begin_all fill order ths t = Inr (ths', t\<lparr>nextThreadId := nextThreadId t + length order\<rparr>) \<and> length ths' = length ths \<and>
    (\<forall>j < length ths. j \<notin> fst ` set order \<longrightarrow> ths' ! j = ths ! j) \<and>
    (\<forall>n < length order. myThreadId (ths' ! fst (order ! n)) = nextThreadId t + n)"
  using assms
proof (induction order arbitrary: ths t)
  case Nil
  then show ?case by simp
next
  case (Cons x order)
  obtain j calls where x: "x = (j, calls)" by (cases x)
  let ?t = "t\<lparr>nextThreadId := nextThreadId t + 1\<rparr>"
  let ?th = "(ths ! j)\<lparr>myThreadId := nextThreadId t, udpIncompleteRead := False,
     udpSlots := map (\<lambda>i. \<lparr>udpBuffer = map (fill j i) [0..<UDP_BUF_SIZE], iovLen = UDP_BUF_SIZE\<rparr>) [0..<UDP_MAX_MSGS]\<rparr>"
  have b: "thread_begin (fill j) calls (ths ! j) t = Inr (?th, ?t)" "j < length ths"
    using Cons.prems x by (simp_all add: thread_begin_def getMyThreadId_def Let_def del: upt_Suc)
  obtain ths' where ih: "begin_all fill order (ths[j := ?th]) ?t = Inr (ths', ?t\<lparr>nextThreadId := nextThreadId ?t + length order\<rparr>)"
      "length ths' = length ths" "\<forall>i < length ths. i \<notin> fst ` set order \<longrightarrow> ths' ! i = (ths[j := ?th]) ! i"
      "\<forall>n < length order. myThreadId (ths' ! fst (order ! n)) = nextThreadId ?t + n"
    using Cons.IH[of ?t "ths[j := ?th]"] Cons.prems x by auto
  have "j \<notin> fst ` set order" using Cons.prems(3) x by auto
  then have j: "ths' ! j = ?th" using ih(3) b(2) by simp
  have "myThreadId (ths' ! fst ((x # order) ! n)) = nextThreadId t + n" if "n < length (x # order)" for n
    using that ih(4) j x by (cases n) auto
  moreover have "ths' ! i = ths ! i" if "i < length ths" "i \<notin> fst ` set (x # order)" for i using that ih(3) x by auto
  ultimately show ?case using b ih(1,2) x by (intro exI[of _ ths']) simp
qed

end
