(* ===== verification/Server_Props.thy ===== *)
theory Server_Props
  imports Thread_Props
begin

text \<open>
  The start of the program and its acceptor: the cache and the threads that \<open>main\<close> sets up, the ids
  the threads take, and the turns in which clients are given to the threads.
\<close>

section \<open>The start\<close>

lemma init_threads_ids:
  "init_threads garbage per tid n t = Inr t' \<Longrightarrow> numThreads t' = numThreads t \<and> nextThreadId t' = nextThreadId t"
  by (induction n arbitrary: tid t)
    (auto simp: Let_def bind_res_Inr_iff store_links_def put_links_def split: if_splits)

lemma constructor_ids:
  "LFLRUHashTable garbage k0 v0 N H T = Inr t \<Longrightarrow> numThreads t = T \<and> nextThreadId t = 0"
  by (auto simp: LFLRUHashTable_def bind_res_Inr_iff dest!: init_threads_ids split: if_splits)

lemma next_id_frame [simp]:
  "links_at (t\<lparr>nextThreadId := n\<rparr>) = links_at t" "key_at (t\<lparr>nextThreadId := n\<rparr>) = key_at t"
  "occupied (t\<lparr>nextThreadId := n\<rparr>) = occupied t" "slot (t\<lparr>nextThreadId := n\<rparr>) = slot t"
  "home h (t\<lparr>nextThreadId := n\<rparr>) = home h t"
  by (auto simp: fun_eq_iff links_at_def key_at_def occupied_def slot_def home_def)

lemma table_inv_next_id [simp]: "table_inv h v (t\<lparr>nextThreadId := n\<rparr>) C = table_inv h v t C"
  by (simp add: table_inv_def table_defs chain_inv_def lru_ok_def free_ok_def index_ok_def)

text \<open>The size of the cache is checked before it is set, which keeps it below a quarter of the range of the index.\<close>

lemma size_option_small:
  assumes "- (2 ^ 31) \<le> x" "x < 2 ^ 31" and "\<not> MAX_HASH_SIZE \<le> (size_of_int x * 2) mod 2 ^ 64"
  shows "2 * size_of_int x < MAX_HASH_SIZE"
proof -
  have "0 \<le> x"
  proof (rule ccontr)
    assume n: "\<not> 0 \<le> x"
    have "x mod 2 ^ 64 = (x + 2 ^ 64) mod 2 ^ 64" by simp
    also have "\<dots> = x + 2 ^ 64" using n assms(1) by (intro mod_pos_pos_trivial) simp_all
    finally have "size_of_int x * 2 = nat (2 * x + 2 ^ 64) + 2 ^ 64" using n assms(1) by (simp add: size_of_int_def)
    then have "(size_of_int x * 2) mod 2 ^ 64 = nat (2 * x + 2 ^ 64)" using n assms(1) by simp
    then show False using assms(1,3) n by (simp add: MAX_HASH_SIZE_def)
  qed
  then show ?thesis using assms(2,3) by (simp add: size_of_int_def)
qed

lemma options_size:
  assumes "options os s = Inr (Run s')" and "2 * maxHashSize s < MAX_HASH_SIZE"
    and "\<forall>x. OptSize x \<in> set os \<longrightarrow> - (2 ^ 31) \<le> x \<and> x < 2 ^ 31"
  shows "2 * maxHashSize s' < MAX_HASH_SIZE \<and> serverThreads s' = serverThreads s \<and> nextThreadIdx s' = nextThreadIdx s"
  using assms
proof (induction os s rule: options.induct)
  case (5 x os s)
  then show ?case using size_option_small[of x] by (auto split: if_splits)
qed auto

lemma start_all_ok:
  "\<forall>fd \<in> set fds. 0 \<le> fd \<Longrightarrow> \<exists>ths. start_all fds = Inr ths \<and> length ths = length fds \<and>
     (\<forall>th \<in> set ths. thread_ok th \<and> epollFd th \<noteq> - 1 \<and> size (free_sessions th) = MAX_CLIENTS_PER_THREAD)"
proof (induction fds)
  case (Cons fd fds)
  then obtain ths where ths: "start_all fds = Inr ths" "length ths = length fds"
    "\<forall>th \<in> set ths. thread_ok th \<and> epollFd th \<noteq> - 1 \<and> size (free_sessions th) = MAX_CLIENTS_PER_THREAD" by auto
  obtain th where th: "new_thread = Inr th" "thread_ok th" "free_sessions th = mset [0..<MAX_CLIENTS_PER_THREAD]"
    using new_thread_ok by blast
  have "thread_ok (th\<lparr>epollFd := fd\<rparr>)" using th(2) by (simp add: thread_ok_def pool_ok_def backlog_ok_def)
  moreover have "start_all (fd # fds) = Inr (th\<lparr>epollFd := fd\<rparr> # ths)"
    unfolding start_all.simps th(1) using ths(1) Cons.prems by (simp add: start_thread_def)
  ultimately show ?case using ths(2,3) th(3) Cons.prems by (intro exI[of _ "th\<lparr>epollFd := fd\<rparr> # ths"]) auto
qed simp

text \<open>
  C34: when the program has parsed its options, and the machine reports at least one processor and as many in \<open>hardware_concurrency\<close> as in
  \<open>sysconf\<close>, it creates an empty cache that satisfies the invariant, and one worker thread per processor or as many as asked for,
  each with its full pool of sessions. In whatever order the threads come to run, each takes an id of its own, and
  every id is that of a list of the cache.
\<close>

theorem server_starts:
  assumes opts: "options os (new_server\<lparr>maxHashSize := 1024 * 1024\<rparr>) = Inr (Run s)"
    and range: "\<forall>x. OptSize x \<in> set os \<longrightarrow> - (2 ^ 31) \<le> x \<and> x < 2 ^ 31"
    and T: "0 < T" "T \<le> maxHashSize s" and cpus: "cpus \<le> T" "cpus \<le> length fds" "\<forall>fd \<in> set fds. 0 \<le> fd"
    and g: "length (locks garbage) = HASH_MAX_LOCK_DEPTH"
  shows "\<exists>s' t C. main_start garbage k0 v0 T cpus fds os = Inr (Run s', Some t) \<and> contents t = Map.empty \<and>
    table_inv string_hash nul_free t C \<and> length (lruLists t) = T \<and> length (elementStorage t) = maxHashSize s \<and>
    numServerThreads s' = min cpus (numServerThreads s) \<and> length (serverThreads s') = numServerThreads s' \<and>
    (\<forall>th \<in> set (serverThreads s'). thread_ok th \<and> epollFd th \<noteq> - 1 \<and> size (free_sessions th) = MAX_CLIENTS_PER_THREAD) \<and>
    (\<forall>order fill. distinct (map fst order) \<and> (\<forall>(j, calls) \<in> set order. j < numServerThreads s' \<and> - 1 \<notin> set calls) \<longrightarrow>
      (\<exists>ths t'. begin_all fill order (serverThreads s') t = Inr (ths, t') \<and> table_inv string_hash nul_free t' C \<and> length (lruLists t') = T \<and>
        distinct (map (\<lambda>j. myThreadId (ths ! fst j)) order) \<and> (\<forall>j \<in> set order. myThreadId (ths ! fst j) < length (lruLists t'))))"
proof -
  have N: "2 * maxHashSize s < MAX_HASH_SIZE" using options_size[OF opts _ range] by (simp add: new_server_def MAX_HASH_SIZE_def)
  then have H: "(2 * maxHashSize s) mod 2 ^ 64 = 2 * maxHashSize s" "maxHashSize s < 2 * maxHashSize s" "maxHashSize s \<le> LIST_END_MARK"
    using T by (simp_all add: MAX_HASH_SIZE_def LIST_END_MARK_def)
  let ?C = "init_chains (maxHashSize s div T) T" and ?n = "min cpus (numServerThreads s)"
  obtain t where t: "LFLRUHashTable garbage k0 v0 (maxHashSize s) (2 * maxHashSize s) T = Inr t" "contents t = Map.empty"
      "length (lruLists t) = T" "length (elementStorage t) = maxHashSize s" "table_inv string_hash nul_free t ?C"
    using constructor_inv[OF T H(2,3) g, of k0 v0 string_hash nul_free] by blast
  have id: "numThreads t = T" "nextThreadId t = 0" using constructor_ids[OF t(1)] by simp_all
  obtain ths where ths: "start_all (take ?n fds) = Inr ths" "length ths = ?n"
      "\<forall>th \<in> set ths. thread_ok th \<and> epollFd th \<noteq> - 1 \<and> size (free_sessions th) = MAX_CLIENTS_PER_THREAD"
    using start_all_ok[of "take ?n fds"] cpus(2,3) by (auto dest: in_set_takeD)
  let ?s = "s\<lparr>numServerThreads := ?n, serverThreads := ths\<rparr>"
  have "(if cpus < numServerThreads s then cpus else numServerThreads s) = ?n" by simp
  then have "start_server cpus fds s = Inr ?s" unfolding start_server_def Let_def using ths(1) by simp
  then have main: "main_start garbage k0 v0 T cpus fds os = Inr (Run ?s, Some t)" using opts t(1) H(1) by (simp add: main_start_def)
  have "\<exists>ths' t'. begin_all fill order ths t = Inr (ths', t') \<and> table_inv string_hash nul_free t' ?C \<and> length (lruLists t') = T \<and>
      distinct (map (\<lambda>j. myThreadId (ths' ! fst j)) order) \<and> (\<forall>j \<in> set order. myThreadId (ths' ! fst j) < length (lruLists t'))"
    if o: "distinct (map fst order)" "\<forall>(j, calls) \<in> set order. j < ?n \<and> - 1 \<notin> set calls" for order fill
  proof -
    have "card (set (map fst order)) \<le> card {..<?n}" using o(2) by (intro card_mono) auto
    then have len: "length order \<le> T" using distinct_card[OF o(1)] cpus(1) by simp
    have "T < 2 ^ 64" using T(2) N by (simp add: MAX_HASH_SIZE_def)
    then obtain ths' where b: "begin_all fill order ths t = Inr (ths', t\<lparr>nextThreadId := length order\<rparr>)"
        "\<forall>n < length order. myThreadId (ths' ! fst (order ! n)) = n"
      using begin_all_ids[of t order ths fill] id len o ths(2) by auto
    have "map (\<lambda>j. myThreadId (ths' ! fst j)) order = [0..<length order]" using b(2) by (intro nth_equalityI) simp_all
    moreover have "\<forall>j \<in> set order. myThreadId (ths' ! fst j) < T"
    proof
      fix j assume "j \<in> set order"
      then obtain n where "n < length order" "j = order ! n" by (auto simp: in_set_conv_nth)
      then show "myThreadId (ths' ! fst j) < T" using b(2) len by simp
    qed
    ultimately show ?thesis using b(1) t(3,5) by simp
  qed
  then show ?thesis using main t ths(2,3) by (intro exI[of _ ?s] exI[of _ t] exI[of _ ?C]) simp
qed

text \<open>Two threads on a machine of four processors, with a cache of a thousand elements.\<close>

theorem server_starts_witness:
  "\<exists>s' t. main_start zero_lru [] zero_value 4 4 [3, 4, 5, 6] [OptThreads 2, OptSize 1000] = Inr (Run s', Some t) \<and>
     contents t = Map.empty \<and> length (serverThreads s') = 2 \<and>
     (\<exists>ths t'. begin_all (\<lambda>j i n. 0) [(1, [0, 0]), (0, [0, 0])] (serverThreads s') t = Inr (ths, t') \<and> myThreadId (ths ! 1) \<noteq> myThreadId (ths ! 0))"
proof -
  let ?s = "new_server\<lparr>maxHashSize := 1000, numServerThreads := 2\<rparr>"
  have o: "options [OptThreads 2, OptSize 1000] (new_server\<lparr>maxHashSize := 1024 * 1024\<rparr>) = Inr (Run ?s)"
    by (simp add: new_server_def size_of_int_def MAX_HASH_SIZE_def)
  have r: "\<forall>x. OptSize x \<in> set [OptThreads 2, OptSize 1000] \<longrightarrow> - (2 ^ 31) \<le> x \<and> x < 2 ^ 31" by simp
  have c: "(0 :: nat) < 4" "4 \<le> maxHashSize ?s" "(4 :: nat) \<le> 4" "4 \<le> length [3, 4, 5, 6 :: int]" "\<forall>fd \<in> set [3, 4, 5, 6 :: int]. 0 \<le> fd"
    "length (locks zero_lru) = HASH_MAX_LOCK_DEPTH" by (simp_all add: zero_lru_def)
  obtain s' t C where m: "main_start zero_lru [] zero_value 4 4 [3, 4, 5, 6] [OptThreads 2, OptSize 1000] = Inr (Run s', Some t)"
      "contents t = Map.empty" "numServerThreads s' = min 4 2" "length (serverThreads s') = numServerThreads s'"
    and b: "\<forall>order fill. distinct (map fst order) \<and> (\<forall>(j, calls) \<in> set order. j < numServerThreads s' \<and> - 1 \<notin> set calls) \<longrightarrow>
      (\<exists>ths t'. begin_all fill order (serverThreads s') t = Inr (ths, t') \<and> table_inv string_hash nul_free t' C \<and> length (lruLists t') = 4 \<and>
        distinct (map (\<lambda>j. myThreadId (ths ! fst j)) order) \<and> (\<forall>j \<in> set order. myThreadId (ths ! fst j) < length (lruLists t')))"
    using server_starts[OF o r c, of "[]" zero_value] by auto
  have "\<exists>ths t'. begin_all (\<lambda>j i n. 0) [(1, [0, 0]), (0, [0, 0])] (serverThreads s') t = Inr (ths, t') \<and> myThreadId (ths ! 1) \<noteq> myThreadId (ths ! 0)"
    using spec[OF spec[OF b, of "[(1, [0, 0]), (0, [0, 0])]"], of "\<lambda>j i n. 0"] m(3) by auto
  then show ?thesis using m by auto
qed

section \<open>The acceptor\<close>

text \<open>
  C35: the acceptor gives each connection to the next thread in turn and leaves the others alone: the thread hands out one of its
  sessions, or, when it has none left or the session cannot be registered, the connection is closed. The threads stay in order. A
  server started with 0 threads divides by zero at its first connection.
\<close>

theorem acceptor_takes_turns:
  assumes "length (serverThreads s) = numServerThreads s" and "\<forall>th \<in> set (serverThreads s). thread_ok th \<and> epollFd th \<noteq> - 1"
    and "os_accept os net = (sock, net1)" and "0 \<le> sock"
  shows "if numServerThreads s = 0 then accept_round os s net = Inl DivByZero
    else \<exists>th' net2 r. let i = nextThreadIdx s mod numServerThreads s; th = serverThreads s ! i in
      addSession os sock th net1 = Inr (r, th', net2) \<and>
      (if free_sessions th = {#} then r = - 1 else \<exists>j. j \<in># free_sessions th \<and> r = fst (os_epoll_add os sock j (prepare_socket os sock net1))) \<and>
      size (free_sessions th') = size (free_sessions th) - 1 \<and> thread_ok th' \<and>
      accept_round os s net = Inr (s\<lparr>nextThreadIdx := (nextThreadIdx s + 1) mod 2 ^ 64, serverThreads := (serverThreads s)[i := th']\<rparr>,
        if r = 0 then net2 else os_close os sock net2)"
proof (cases "numServerThreads s = 0")
  case False
  let ?i = "nextThreadIdx s mod numServerThreads s" let ?th = "serverThreads s ! ?i"
  have i: "?i < length (serverThreads s)" using assms(1) False by simp
  then have ok: "thread_ok ?th" "epollFd ?th \<noteq> - 1" using assms(2) by simp_all
  have "\<exists>r th' net2. addSession os sock ?th net1 = Inr (r, th', net2) \<and>
      (if free_sessions ?th = {#} then r = - 1 else \<exists>j. j \<in># free_sessions ?th \<and> r = fst (os_epoll_add os sock j (prepare_socket os sock net1))) \<and>
      size (free_sessions th') = size (free_sessions ?th) - 1 \<and> thread_ok th'"
    using addSession_takes[OF ok, of os sock net1] by (cases "free_sessions ?th = {#}") (auto simp: size_Suc_Diff1)
  then obtain r th' net2 where a: "addSession os sock ?th net1 = Inr (r, th', net2)"
      "if free_sessions ?th = {#} then r = - 1 else \<exists>j. j \<in># free_sessions ?th \<and> r = fst (os_epoll_add os sock j (prepare_socket os sock net1))"
      "size (free_sessions th') = size (free_sessions ?th) - 1" "thread_ok th'" by blast
  have "accept_round os s net = Inr (s\<lparr>nextThreadIdx := (nextThreadIdx s + 1) mod 2 ^ 64, serverThreads := (serverThreads s)[?i := th']\<rparr>,
      if r = 0 then net2 else os_close os sock net2)"
    using a(1) assms(3,4) False i by (simp add: accept_round_def Let_def)
  then show ?thesis using a False by (auto simp: Let_def)
qed (use assms in \<open>simp add: accept_round_def\<close>)

theorem acceptor_takes_turns_witness:
  "\<exists>th th'. start_all [3] = Inr [th] \<and>
     accept_round (demo_os (RecvError EWOULDBLOCK) []) (new_server\<lparr>numServerThreads := 1, serverThreads := [th]\<rparr>) [] =
       Inr (new_server\<lparr>numServerThreads := 1, serverThreads := [th'], nextThreadIdx := 1\<rparr>, []) \<and> size (free_sessions th') = 4095"
proof -
  let ?os = "demo_os (RecvError EWOULDBLOCK) []"
  obtain ths where ths: "start_all [3] = Inr ths" "length ths = 1"
      "\<forall>th \<in> set ths. thread_ok th \<and> epollFd th \<noteq> - 1 \<and> size (free_sessions th) = MAX_CLIENTS_PER_THREAD"
    using start_all_ok[of "[3]"] by auto
  then obtain th where th: "ths = [th]" by (cases ths) auto
  let ?s = "new_server\<lparr>numServerThreads := 1, serverThreads := [th]\<rparr>"
  have a: "length (serverThreads ?s) = numServerThreads ?s" "\<forall>th \<in> set (serverThreads ?s). thread_ok th \<and> epollFd th \<noteq> - 1"
    "os_accept ?os [] = (7, [])" "(0 :: int) \<le> 7" using ths(3) th by (simp_all add: demo_os_def)
  have os: "os_epoll_add ?os k j n = (0, n)" for k j n by (simp add: demo_os_def)
  have sz: "size (free_sessions th) = 4096" using ths(3) th by (simp add: MAX_CLIENTS_PER_THREAD_def)
  then have ne: "free_sessions th \<noteq> {#}" by auto
  obtain th' net2 r where r: "addSession ?os 7 th [] = Inr (r, th', net2)" "r = 0" "size (free_sessions th') = 4095"
      "accept_round ?os ?s [] = Inr (?s\<lparr>nextThreadIdx := 1, serverThreads := [th']\<rparr>, net2)"
    using acceptor_takes_turns[OF a] ne sz os by (auto simp: Let_def new_server_def)
  have "net2 = []" using r(1,2) os ne by (auto simp: addSession_def bind_res_Inr_iff split: if_splits option.splits prod.splits)
  then show ?thesis using ths(1) th r(3,4) by (intro exI[of _ th] exI[of _ th']) (simp add: new_server_def)
qed

end
