(* ===== verification/Trb_Tree.thy ===== *)
theory Trb_Tree
  imports YAM_Prelude "HOL-Library.Word"
begin

text \<open>
  The threaded red-black tree of \<open>src/src/trbtree.hh\<close>, meant to replace the expiry maps of the cache. A node has two link words
  whose two lowest bits are not part of the address: bit 1 tells a trail (the address of the inorder neighbour) from a child, bit 0
  of the left word is the colour. Memory maps addresses to nodes; an access to an address without a node is a fault.
  The tree object itself is the node at the address of its field \<open>pRoot\<close>, which the code casts to a
  node: its left word is \<open>pRoot\<close>.
\<close>

unbundle bit_operations_syntax

section \<open>Nodes\<close>

text \<open>
  The enumerations; their last values \<open>TRB_COLOR_MAX\<close> and \<open>TRB_SIDE_MAX\<close>, which no operation passes on, are left out.
\<close>

datatype TRBTreeNodeColor = TRB_BLACK | TRB_RED
datatype TRBTreeNodeTrailTag = TRB_CHILD | TRB_TRAIL | TRB_TAG_MAX
datatype TRBTreeNodeChildSide = TRB_LEFT | TRB_RIGHT

fun otherSide :: "TRBTreeNodeChildSide \<Rightarrow> TRBTreeNodeChildSide" where
  "otherSide TRB_LEFT = TRB_RIGHT"
| "otherSide TRB_RIGHT = TRB_LEFT"

type_synonym addr = "64 word"

record ('k, 'v) TRBTreeNode =
  pLeft :: addr
  pRight :: addr
  first :: 'k
  second :: 'v

type_synonym ('k, 'v) mem = "addr \<Rightarrow> ('k, 'v) TRBTreeNode option"

definition node :: "('k, 'v) mem \<Rightarrow> addr \<Rightarrow> ('k, 'v) TRBTreeNode res" where
  "node h p = (case h p of None \<Rightarrow> Inl OutOfBounds | Some n \<Rightarrow> Inr n)"

fun pLinks :: "TRBTreeNodeChildSide \<Rightarrow> ('k, 'v) TRBTreeNode \<Rightarrow> addr" where
  "pLinks TRB_LEFT n = pLeft n"
| "pLinks TRB_RIGHT n = pRight n"

fun set_pLinks :: "TRBTreeNodeChildSide \<Rightarrow> addr \<Rightarrow> ('k, 'v) TRBTreeNode \<Rightarrow> ('k, 'v) TRBTreeNode" where
  "set_pLinks TRB_LEFT w n = n\<lparr>pLeft := w\<rparr>"
| "set_pLinks TRB_RIGHT w n = n\<lparr>pRight := w\<rparr>"

text \<open>What the words of a node say.\<close>

definition link_of :: "TRBTreeNodeChildSide \<Rightarrow> ('k, 'v) TRBTreeNode \<Rightarrow> addr" where
  "link_of s n = pLinks s n AND NOT 3"

definition tag_of :: "TRBTreeNodeChildSide \<Rightarrow> ('k, 'v) TRBTreeNode \<Rightarrow> TRBTreeNodeTrailTag" where
  "tag_of s n = (if pLinks s n AND 2 \<noteq> 0 then TRB_TRAIL else TRB_CHILD)"

definition color_of :: "('k, 'v) TRBTreeNode \<Rightarrow> TRBTreeNodeColor" where
  "color_of n = (if pLeft n AND 1 \<noteq> 0 then TRB_RED else TRB_BLACK)"

definition with_link :: "addr \<Rightarrow> TRBTreeNodeChildSide \<Rightarrow> TRBTreeNodeTrailTag \<Rightarrow> ('k, 'v) TRBTreeNode \<Rightarrow> ('k, 'v) TRBTreeNode" where
  "with_link p s t n = set_pLinks s ((p AND NOT 3) OR
     (if t = TRB_TAG_MAX then (if tag_of s n = TRB_TRAIL then 2 else 0) else (if t = TRB_TRAIL then 2 else 0)) OR
     (if color_of n = TRB_RED then 1 else 0)) n"

definition with_tag :: "TRBTreeNodeChildSide \<Rightarrow> TRBTreeNodeTrailTag \<Rightarrow> ('k, 'v) TRBTreeNode \<Rightarrow> ('k, 'v) TRBTreeNode" where
  "with_tag s t n = set_pLinks s ((pLinks s n AND NOT 2) OR (if t = TRB_TRAIL then 2 else 0)) n"

definition with_color :: "TRBTreeNodeColor \<Rightarrow> ('k, 'v) TRBTreeNode \<Rightarrow> ('k, 'v) TRBTreeNode" where
  "with_color c n = n\<lparr>pLeft := (pLeft n AND NOT 1) OR (if c = TRB_RED then 1 else 0)\<rparr>"

text \<open>The node helpers on memory.\<close>

definition get_link :: "addr \<Rightarrow> TRBTreeNodeChildSide \<Rightarrow> ('k, 'v) mem \<Rightarrow> addr res" where
  "get_link p s h = bind_res (node h p) (\<lambda>n. Inr (link_of s n))"

definition get_trail_tag :: "addr \<Rightarrow> TRBTreeNodeChildSide \<Rightarrow> ('k, 'v) mem \<Rightarrow> TRBTreeNodeTrailTag res" where
  "get_trail_tag p s h = bind_res (node h p) (\<lambda>n. Inr (tag_of s n))"

definition get_color :: "addr \<Rightarrow> ('k, 'v) mem \<Rightarrow> TRBTreeNodeColor res" where
  "get_color p h = bind_res (node h p) (\<lambda>n. Inr (color_of n))"

definition set_link :: "addr \<Rightarrow> addr \<Rightarrow> TRBTreeNodeChildSide \<Rightarrow> TRBTreeNodeTrailTag \<Rightarrow> ('k, 'v) mem \<Rightarrow> ('k, 'v) mem res" where
  "set_link p l s t h = bind_res (node h p) (\<lambda>n. Inr (h(p \<mapsto> with_link l s t n)))"

definition set_trail_tag :: "addr \<Rightarrow> TRBTreeNodeChildSide \<Rightarrow> TRBTreeNodeTrailTag \<Rightarrow> ('k, 'v) mem \<Rightarrow> ('k, 'v) mem res" where
  "set_trail_tag p s t h = bind_res (node h p) (\<lambda>n. Inr (h(p \<mapsto> with_tag s t n)))"

definition set_color :: "addr \<Rightarrow> TRBTreeNodeColor \<Rightarrow> ('k, 'v) mem \<Rightarrow> ('k, 'v) mem res" where
  "set_color p c h = bind_res (node h p) (\<lambda>n. Inr (h(p \<mapsto> with_color c n)))"

section \<open>Construction\<close>

text \<open>
  The constructor: \<open>ob\<close> is what lies where the code takes the object for a node: in its right word the
  address of the comparator, and from its third word on, where a node has its key, the address of the
  allocator. No operation changes these, so \<open>first ob\<close> is constant; this is so for keys of at most 8
  bytes. A wider key would extend over the word behind, \<open>numElements\<close>, and change with the count.
\<close>

definition construct_tree :: "addr \<Rightarrow> ('k, 'v) TRBTreeNode \<Rightarrow> ('k, 'v) mem \<Rightarrow> nat \<times> ('k, 'v) mem" where
  "construct_tree this ob h = (0, h(this \<mapsto> ob\<lparr>pLeft := 0\<rparr>))"

section \<open>Searching\<close>

text \<open>
  \<open>fuel\<close> bounds the steps down; \<open>lt\<close> is the comparator. The null pointer is 0.
\<close>

fun find_loop :: "nat \<Rightarrow> ('k \<Rightarrow> 'k \<Rightarrow> bool) \<Rightarrow> 'k \<Rightarrow> addr \<Rightarrow> ('k, 'v) mem \<Rightarrow> addr res" where
  "find_loop 0 lt key p h = Inl Spins"
| "find_loop (Suc fuel) lt key p h =
     bind_res (node h p) (\<lambda>n.
       let itemLessThan = lt key (first n); itemGreaterThan = lt (first n) key in
       if itemLessThan \<or> itemGreaterThan then
         let dir = (if itemLessThan then TRB_LEFT else TRB_RIGHT) in
         if tag_of dir n = TRB_TRAIL then Inr 0 else find_loop fuel lt key (link_of dir n) h
       else Inr p)"

definition try_find :: "nat \<Rightarrow> ('k \<Rightarrow> 'k \<Rightarrow> bool) \<Rightarrow> 'k \<Rightarrow> addr \<Rightarrow> ('k, 'v) mem \<Rightarrow> addr res" where
  "try_find fuel lt key this h =
     bind_res (node h this) (\<lambda>ob. if pLeft ob = 0 then Inr 0 else find_loop fuel lt key (pLeft ob) h)"

section \<open>Insertion\<close>

definition maxHeight :: nat where "maxHeight = 48"

text \<open>
  The way down: the stack of ancestors with the sides taken, the top first. Either the node with the key, or nothing
  and the stack whose top is the node to attach to.
\<close>

fun descend ::
    "nat \<Rightarrow> ('k \<Rightarrow> 'k \<Rightarrow> bool) \<Rightarrow> 'k \<Rightarrow> addr \<Rightarrow> (addr \<times> TRBTreeNodeChildSide) list \<Rightarrow> ('k, 'v) mem \<Rightarrow>
     (addr option \<times> (addr \<times> TRBTreeNodeChildSide) list) res" where
  "descend 0 lt key p st h = Inl Spins"
| "descend (Suc fuel) lt key p st h =
     bind_res (node h p) (\<lambda>n.
       let itemKeyLess = lt key (first n); itemKeyMore = lt (first n) key in
       if \<not> itemKeyLess \<and> \<not> itemKeyMore then Inr (Some p, st)
       else if maxHeight \<le> length st then Inl OutOfBounds
       else
         let dir = (if itemKeyMore then TRB_RIGHT else TRB_LEFT); st = (p, dir) # st in
         if tag_of dir n = TRB_TRAIL then Inr (None, st) else descend fuel lt key (link_of dir n) st h)"

text \<open>Attaching the new node \<open>n\<close>, whose memory \<open>new\<close> has filled with zeros.\<close>

definition attach_node :: "bool \<Rightarrow> addr \<Rightarrow> addr \<Rightarrow> TRBTreeNodeChildSide \<Rightarrow> ('k, 'v) mem \<Rightarrow> ('k, 'v) mem res" where
  "attach_node rooted n p dir h =
     bind_res (set_trail_tag n TRB_LEFT TRB_TRAIL h) (\<lambda>h.
     bind_res (set_trail_tag n TRB_RIGHT TRB_TRAIL h) (\<lambda>h.
     bind_res (get_link p dir h) (\<lambda>l.
     bind_res (set_link n l dir TRB_TAG_MAX h) (\<lambda>h.
     bind_res (if rooted
               then bind_res (set_trail_tag p dir TRB_CHILD h) (set_link n p (otherSide dir) TRB_TAG_MAX)
               else set_link n 0 TRB_RIGHT TRB_TAG_MAX h) (\<lambda>h.
     bind_res (set_link p n dir TRB_TAG_MAX h)
     (set_color n TRB_RED))))))"

text \<open>
  A rotation: the grandparent \<open>x\<close>, whose child \<open>y\<close> on side \<open>s\<close> takes its place below \<open>q\<close>. The
  two halves of the loop are the same up to the sides.
\<close>

definition rotate_up :: "addr \<Rightarrow> addr \<Rightarrow> TRBTreeNodeChildSide \<Rightarrow> addr \<Rightarrow> TRBTreeNodeChildSide \<Rightarrow> ('k, 'v) mem \<Rightarrow> ('k, 'v) mem res" where
  "rotate_up x y s q ds h =
     bind_res (get_link y (otherSide s) h) (\<lambda>l.
     bind_res (set_link x l s TRB_TAG_MAX h) (\<lambda>h.
     bind_res (set_link y x (otherSide s) TRB_TAG_MAX h) (\<lambda>h.
     bind_res (set_link q y ds TRB_TAG_MAX h) (\<lambda>h.
     bind_res (get_trail_tag y (otherSide s) h) (\<lambda>t.
     if t = TRB_TRAIL
     then bind_res (set_trail_tag y (otherSide s) TRB_CHILD h) (\<lambda>h.
          bind_res (set_trail_tag x s TRB_TRAIL h)
          (set_link x y s TRB_TAG_MAX))
     else Inr h)))))"

text \<open>The loop that restores the colours; the stack has the parent of the red node on top.\<close>

fun fixup :: "(addr \<times> TRBTreeNodeChildSide) list \<Rightarrow> ('k, 'v) mem \<Rightarrow> ('k, 'v) mem res" where
  "fixup ((p, d) # (g, s) # (q, ds) # st) h =
     bind_res (get_color p h) (\<lambda>c.
     if c = TRB_RED then
       bind_res (get_link g (otherSide s) h) (\<lambda>y.
       bind_res (get_trail_tag g (otherSide s) h) (\<lambda>t.
       bind_res (if t = TRB_CHILD then get_color y h else Inr TRB_BLACK) (\<lambda>cy.
       if cy = TRB_RED then
         bind_res (set_color p TRB_BLACK h) (\<lambda>h.
         bind_res (set_color y TRB_BLACK h) (\<lambda>h.
         bind_res (set_color g TRB_RED h)
         (fixup ((q, ds) # st))))
       else
         bind_res (if d = s then Inr (p, h)
                   else bind_res (get_link p d h) (\<lambda>y. bind_res (rotate_up p y d g s h) (\<lambda>h. Inr (y, h)))) (\<lambda>(y, h).
         bind_res (set_color g TRB_RED h) (\<lambda>h.
         bind_res (set_color y TRB_BLACK h)
         (rotate_up g y s q ds))))))
     else Inr h)"
| "fixup st h = Inr h"

text \<open>\<open>try_insert\<close> with the address \<open>n\<close> that \<open>new\<close> returns, and the number of elements.\<close>

definition try_insert ::
    "nat \<Rightarrow> ('k \<Rightarrow> 'k \<Rightarrow> bool) \<Rightarrow> 'k \<Rightarrow> 'v \<Rightarrow> addr \<Rightarrow> addr \<Rightarrow> nat \<Rightarrow> ('k, 'v) mem \<Rightarrow> (addr \<times> nat \<times> ('k, 'v) mem) res" where
  "try_insert fuel lt k v n this numElements h =
     bind_res (node h this) (\<lambda>ob.
     let rooted = (pLeft ob \<noteq> 0) in
     bind_res (if rooted then descend fuel lt k (pLeft ob) [(this, TRB_LEFT)] h else Inr (None, [(this, TRB_LEFT)])) (\<lambda>(found, st).
     case found of
       Some p \<Rightarrow> Inr (p, numElements, h)
     | None \<Rightarrow>
         bind_res (attach_node rooted n (fst (hd st)) (snd (hd st)) (h(n \<mapsto> \<lparr>pLeft = 0, pRight = 0, first = k, second = v\<rparr>))) (\<lambda>h.
         bind_res (fixup st h) (\<lambda>h.
         bind_res (node h this) (\<lambda>ob.
         bind_res (set_color (pLeft ob) TRB_BLACK h) (\<lambda>h. Inr (n, (numElements + 1) mod 2 ^ 64, h)))))))"

section \<open>Destruction\<close>

text \<open>The steps to the left; only the first loop tests for the null pointer (\<open>nullable\<close>).\<close>

fun leftmost :: "bool \<Rightarrow> nat \<Rightarrow> addr \<Rightarrow> ('k, 'v) mem \<Rightarrow> addr res" where
  "leftmost nullable 0 p h = Inl Spins"
| "leftmost nullable (Suc fuel) p h =
     (if nullable \<and> p = 0 then Inr p
      else bind_res (get_trail_tag p TRB_LEFT h) (\<lambda>t.
           if t = TRB_CHILD then bind_res (get_link p TRB_LEFT h) (\<lambda>l. leftmost nullable fuel l h) else Inr p))"

text \<open>The destructor: the nodes in the order it deletes them, and the memory left.\<close>

fun destroy_loop :: "nat \<Rightarrow> addr \<Rightarrow> ('k, 'v) mem \<Rightarrow> (addr list \<times> ('k, 'v) mem) res" where
  "destroy_loop 0 p h = Inl Spins"
| "destroy_loop (Suc fuel) p h =
     (if p = 0 then Inr ([], h)
      else bind_res (get_link p TRB_RIGHT h) (\<lambda>n.
           bind_res (get_trail_tag p TRB_RIGHT h) (\<lambda>t.
           bind_res (if t = TRB_CHILD then leftmost False fuel n h else Inr n) (\<lambda>n.
           bind_res (destroy_loop fuel n (h(p := None))) (\<lambda>(ps, h). Inr (p # ps, h))))))"

definition destroy_tree :: "nat \<Rightarrow> addr \<Rightarrow> ('k, 'v) mem \<Rightarrow> (addr list \<times> ('k, 'v) mem) res" where
  "destroy_tree fuel this h =
     bind_res (node h this) (\<lambda>ob. bind_res (leftmost True fuel (pLeft ob) h) (\<lambda>p. destroy_loop fuel p h))"

end
