(* ===== verification/Trb_Shape.thy ===== *)
theory Trb_Shape
  imports Trb_Tree
begin

text \<open>
  The shapes that threaded trees have in memory: the packed words of a node are independent fields, and a
  tree of addresses is represented when every link leads to the child or, as a trail, to the inorder neighbour.
\<close>

section \<open>Packed words\<close>

lemma bit_numerals:
  "bit (3 :: addr) i \<longleftrightarrow> i = 0 \<or> i = 1" "bit (2 :: addr) i \<longleftrightarrow> i = 1" "bit (1 :: addr) i \<longleftrightarrow> i = 0"
  by (cases i; cases "i - 1"; simp_all add: bit_simps)+

lemma bit_masks:
  "bit (- 4 :: addr) i \<longleftrightarrow> i < 64 \<and> i \<noteq> 0 \<and> i \<noteq> 1" "bit (- 3 :: addr) i \<longleftrightarrow> i < 64 \<and> i \<noteq> 1" "bit (- 2 :: addr) i \<longleftrightarrow> i < 64 \<and> i \<noteq> 0"
proof -
  have m: "- 4 = NOT (3 :: addr)" "- 3 = NOT (2 :: addr)" "- 2 = NOT (1 :: addr)" by simp_all
  show "bit (- 4 :: addr) i \<longleftrightarrow> i < 64 \<and> i \<noteq> 0 \<and> i \<noteq> 1" "bit (- 3 :: addr) i \<longleftrightarrow> i < 64 \<and> i \<noteq> 1" "bit (- 2 :: addr) i \<longleftrightarrow> i < 64 \<and> i \<noteq> 0"
    unfolding m bit_not_iff bit_numerals by simp_all
qed

text \<open>Masks are treated bit by bit, not as numbers.\<close>

lemmas as_numbers = bit_0 bit_numeral_word_iff bit_neg_numeral_word_iff
lemmas word_bits = bit_and_iff bit_or_iff bit_not_iff bit_numerals bit_masks bit_0_eq

lemma and_bit:
  fixes w :: addr
  shows "w AND 2 = 0 \<longleftrightarrow> \<not> bit w 1" "w AND 1 = 0 \<longleftrightarrow> \<not> bit w 0"
proof -
  have "bit (w AND 2) 1 = bit w 1" "bit (w AND 1) 0 = bit w 0" by (simp_all add: word_bits del: as_numbers)
  moreover have "w AND 2 = 0" if "\<not> bit w 1" by (rule bit_word_eqI) (use that in \<open>auto simp: word_bits simp del: as_numbers intro!: gr0I\<close>)
  moreover have "w AND 1 = 0" if "\<not> bit w 0" by (rule bit_word_eqI) (use that in \<open>auto simp: word_bits simp del: as_numbers intro!: gr0I\<close>)
  ultimately show "w AND 2 = 0 \<longleftrightarrow> \<not> bit w 1" "w AND 1 = 0 \<longleftrightarrow> \<not> bit w 0" by auto
qed

definition aligned :: "addr \<Rightarrow> bool" where "aligned p \<longleftrightarrow> p AND 3 = 0"

lemma aligned_bits: "aligned p \<longleftrightarrow> \<not> bit p 0 \<and> \<not> bit p 1"
proof -
  have "bit (p AND 3) 1 = bit p 1" "bit (p AND 3) 0 = bit p 0" by (simp_all add: word_bits del: as_numbers)
  moreover have "p AND 3 = 0" if "\<not> bit p 0" "\<not> bit p 1" by (rule bit_word_eqI) (use that in \<open>auto simp: word_bits simp del: as_numbers intro!: gr0I\<close>)
  ultimately show ?thesis unfolding aligned_def by auto
qed

lemma aligned_mask [simp]: "aligned p \<Longrightarrow> p AND NOT 3 = p"
  by (rule bit_word_eqI) (auto simp: aligned_bits word_bits simp del: as_numbers intro!: gr0I)

lemma aligned_link [simp]: "aligned (link_of s n)"
  by (simp add: aligned_bits link_of_def word_bits del: as_numbers)

lemma aligned_0 [simp]: "aligned 0"
  by (simp add: aligned_def)

lemma side_cases: "s' = s \<or> s' = otherSide s"
  by (cases s; cases s') auto

lemma otherSide_simps [simp]: "otherSide s \<noteq> s" "s \<noteq> otherSide s" "otherSide (otherSide s) = s"
  by (cases s; simp)+

lemma pLinks_set [simp]:
  "pLinks s' (set_pLinks s w n) = (if s' = s then w else pLinks s' n)"
  "first (set_pLinks s w n) = first n" "second (set_pLinks s w n) = second n"
  by (cases s; cases s'; simp)+

lemma pLeft_pLinks: "pLeft n = pLinks TRB_LEFT n"
  by simp

lemma with_link_views [simp]:
  "aligned p \<Longrightarrow> link_of s' (with_link p s t n) = (if s' = s then p else link_of s' n)"
  "tag_of s' (with_link p s t n) = (if s' = s \<and> t \<noteq> TRB_TAG_MAX then t else tag_of s' n)"
  "color_of (with_link p s t n) = color_of n"
  "first (with_link p s t n) = first n" "second (with_link p s t n) = second n"
proof -
  show "aligned p \<Longrightarrow> link_of s' (with_link p s t n) = (if s' = s then p else link_of s' n)"
    by (auto simp: link_of_def with_link_def aligned_bits word_bits simp del: as_numbers intro!: bit_word_eqI gr0I)
  show "tag_of s' (with_link p s t n) = (if s' = s \<and> t \<noteq> TRB_TAG_MAX then t else tag_of s' n)"
    by (cases t) (auto simp: tag_of_def with_link_def and_bit word_bits simp del: as_numbers intro!: gr0I)
  show "color_of (with_link p s t n) = color_of n"
    unfolding color_of_def pLeft_pLinks by (cases s) (auto simp: with_link_def and_bit word_bits color_of_def simp del: as_numbers intro!: gr0I)
qed (simp_all add: with_link_def)

lemma with_tag_views [simp]:
  "link_of s' (with_tag s t n) = link_of s' n"
  "tag_of s' (with_tag s t n) = (if s' = s then if t = TRB_TRAIL then TRB_TRAIL else TRB_CHILD else tag_of s' n)"
  "color_of (with_tag s t n) = color_of n" "first (with_tag s t n) = first n" "second (with_tag s t n) = second n"
proof -
  show "link_of s' (with_tag s t n) = link_of s' n"
    by (auto simp: link_of_def with_tag_def word_bits simp del: as_numbers intro!: bit_word_eqI gr0I)
  show "tag_of s' (with_tag s t n) = (if s' = s then if t = TRB_TRAIL then TRB_TRAIL else TRB_CHILD else tag_of s' n)"
    by (auto simp: tag_of_def with_tag_def and_bit word_bits simp del: as_numbers intro!: gr0I)
  show "color_of (with_tag s t n) = color_of n"
    unfolding color_of_def pLeft_pLinks by (cases s) (auto simp: with_tag_def and_bit word_bits simp del: as_numbers intro!: gr0I)
qed (simp_all add: with_tag_def)

lemma with_color_views [simp]:
  "link_of s (with_color c n) = link_of s n" "tag_of s (with_color c n) = tag_of s n" "color_of (with_color c n) = c"
  "first (with_color c n) = first n" "second (with_color c n) = second n"
proof -
  show "link_of s (with_color c n) = link_of s n"
    by (cases s) (auto simp: link_of_def with_color_def word_bits simp del: as_numbers intro!: bit_word_eqI gr0I)
  show "tag_of s (with_color c n) = tag_of s n"
    by (cases s) (auto simp: tag_of_def with_color_def and_bit word_bits simp del: as_numbers intro!: gr0I)
  show "color_of (with_color c n) = c" by (cases c) (auto simp: color_of_def with_color_def and_bit word_bits simp del: as_numbers intro!: gr0I)
qed (simp_all add: with_color_def)

section \<open>Views of memory\<close>

text \<open>Links with their tags, colours and data of the nodes.\<close>

definition links :: "('k, 'v) mem \<Rightarrow> addr \<Rightarrow> (TRBTreeNodeChildSide \<Rightarrow> TRBTreeNodeTrailTag \<times> addr) option" where
  "links h p = map_option (\<lambda>n s. (tag_of s n, link_of s n)) (h p)"

definition colors :: "('k, 'v) mem \<Rightarrow> addr \<Rightarrow> TRBTreeNodeColor option" where
  "colors h p = map_option color_of (h p)"

definition entries :: "('k, 'v) mem \<Rightarrow> addr \<Rightarrow> ('k \<times> 'v) option" where
  "entries h p = map_option (\<lambda>n. (first n, second n)) (h p)"

lemma links_dom: "links h p = None \<longleftrightarrow> h p = None" "colors h p = None \<longleftrightarrow> h p = None" "entries h p = None \<longleftrightarrow> h p = None"
  by (simp_all add: links_def colors_def entries_def)

lemma get_link_view: "links h p = Some f \<Longrightarrow> get_link p s h = Inr (snd (f s))"
  by (auto simp: links_def get_link_def node_def)

lemma get_tag_view: "links h p = Some f \<Longrightarrow> get_trail_tag p s h = Inr (fst (f s))"
  by (auto simp: links_def get_trail_tag_def node_def)

lemma get_color_view: "colors h p = Some c \<Longrightarrow> get_color p h = Inr c"
  by (auto simp: colors_def get_color_def node_def)

lemma views_upd:
  "links (h(p \<mapsto> n)) = (links h)(p \<mapsto> (\<lambda>s. (tag_of s n, link_of s n)))" "colors (h(p \<mapsto> n)) = (colors h)(p \<mapsto> color_of n)"
  "entries (h(p \<mapsto> n)) = (entries h)(p \<mapsto> (first n, second n))"
  by (simp_all add: fun_eq_iff links_def colors_def entries_def)

lemma views_same: "h p = Some n \<Longrightarrow> color_of n' = color_of n \<Longrightarrow> colors (h(p \<mapsto> n')) = colors h"
  "h p = Some n \<Longrightarrow> first n' = first n \<Longrightarrow> second n' = second n \<Longrightarrow> entries (h(p \<mapsto> n')) = entries h"
  by (simp_all add: fun_eq_iff colors_def entries_def)

lemma links_node: "links h p = Some f \<Longrightarrow> \<exists>n. h p = Some n \<and> f = (\<lambda>s. (tag_of s n, link_of s n))"
  by (auto simp: links_def)

lemma set_link_view:
  assumes "links h p = Some f" and "aligned l"
  shows "\<exists>h'. set_link p l s TRB_TAG_MAX h = Inr h' \<and> links h' = (links h)(p \<mapsto> f(s := (fst (f s), l))) \<and> colors h' = colors h \<and> entries h' = entries h"
proof -
  obtain n where n: "h p = Some n" "f = (\<lambda>s. (tag_of s n, link_of s n))" using links_node[OF assms(1)] by blast
  have "(\<lambda>s'. (tag_of s' (with_link l s TRB_TAG_MAX n), link_of s' (with_link l s TRB_TAG_MAX n))) = f(s := (fst (f s), l))"
    using assms(2) by (simp add: n(2) fun_eq_iff)
  moreover have "set_link p l s TRB_TAG_MAX h = Inr (h(p \<mapsto> with_link l s TRB_TAG_MAX n))" by (simp add: set_link_def node_def n(1))
  ultimately show ?thesis
    using views_upd(1)[of h p "with_link l s TRB_TAG_MAX n"] views_same[of h p n "with_link l s TRB_TAG_MAX n"] n(1) by auto
qed

lemma set_tag_view:
  assumes "links h p = Some f" and "t \<noteq> TRB_TAG_MAX"
  shows "\<exists>h'. set_trail_tag p s t h = Inr h' \<and> links h' = (links h)(p \<mapsto> f(s := (t, snd (f s)))) \<and> colors h' = colors h \<and> entries h' = entries h"
proof -
  obtain n where n: "h p = Some n" "f = (\<lambda>s. (tag_of s n, link_of s n))" using links_node[OF assms(1)] by blast
  have "(\<lambda>s'. (tag_of s' (with_tag s t n), link_of s' (with_tag s t n))) = f(s := (t, snd (f s)))"
    using assms(2) by (cases t) (simp_all add: n(2) fun_eq_iff)
  moreover have "set_trail_tag p s t h = Inr (h(p \<mapsto> with_tag s t n))" by (simp add: set_trail_tag_def node_def n(1))
  ultimately show ?thesis
    using views_upd(1)[of h p "with_tag s t n"] views_same[of h p n "with_tag s t n"] n(1) by auto
qed

lemma set_color_view:
  assumes "links h p = Some f"
  shows "\<exists>h'. set_color p c h = Inr h' \<and> links h' = links h \<and> colors h' = (colors h)(p \<mapsto> c) \<and> entries h' = entries h"
proof -
  obtain n where n: "h p = Some n" "f = (\<lambda>s. (tag_of s n, link_of s n))" using links_node[OF assms(1)] by blast
  have "links (h(p \<mapsto> with_color c n)) = links h" using n(1) by (auto simp: fun_eq_iff links_def)
  moreover have "set_color p c h = Inr (h(p \<mapsto> with_color c n))" by (simp add: set_color_def node_def n(1))
  ultimately show ?thesis
    using views_upd(2)[of h p "with_color c n"] views_same(2)[of h p n "with_color c n"] n(1) by auto
qed

section \<open>Trees of addresses\<close>

datatype ptree = Tip | Bin ptree addr ptree

fun inord :: "ptree \<Rightarrow> addr list" where
  "inord Tip = []"
| "inord (Bin l p r) = inord l @ p # inord r"

fun height :: "ptree \<Rightarrow> nat" where
  "height Tip = 0"
| "height (Bin l p r) = Suc (max (height l) (height r))"

fun root_or :: "addr \<Rightarrow> ptree \<Rightarrow> addr" where
  "root_or d Tip = d"
| "root_or d (Bin l p r) = p"

text \<open>A node with the subtree \<open>a\<close> on side \<open>s\<close> and \<open>b\<close> on the other.\<close>

fun mk :: "TRBTreeNodeChildSide \<Rightarrow> ptree \<Rightarrow> addr \<Rightarrow> ptree \<Rightarrow> ptree" where
  "mk TRB_LEFT a p b = Bin a p b"
| "mk TRB_RIGHT a p b = Bin b p a"

text \<open>What a link to the subtree \<open>T\<close> is, when \<open>d\<close> is the inorder neighbour on that side.\<close>

definition view :: "addr \<Rightarrow> ptree \<Rightarrow> TRBTreeNodeTrailTag \<times> addr" where
  "view d T = (if T = Tip then TRB_TRAIL else TRB_CHILD, root_or d T)"

type_synonym bounds = "TRBTreeNodeChildSide \<Rightarrow> addr"

definition node_ok :: "('k, 'v) mem \<Rightarrow> addr \<Rightarrow> TRBTreeNodeChildSide \<Rightarrow> TRBTreeNodeTrailTag \<times> addr \<Rightarrow> TRBTreeNodeTrailTag \<times> addr \<Rightarrow> bool" where
  "node_ok h p s a b \<longleftrightarrow> (\<exists>f. links h p = Some f \<and> f s = a \<and> f (otherSide s) = b)"

fun rep :: "('k, 'v) mem \<Rightarrow> bounds \<Rightarrow> ptree \<Rightarrow> bool" where
  "rep h b Tip = True"
| "rep h b (Bin l p r) \<longleftrightarrow> node_ok h p TRB_LEFT (view (b TRB_LEFT) l) (view (b TRB_RIGHT) r) \<and>
     rep h (b(TRB_RIGHT := p)) l \<and> rep h (b(TRB_LEFT := p)) r"

lemma rep_mk:
  "rep h b (mk s x p y) \<longleftrightarrow> node_ok h p s (view (b s) x) (view (b (otherSide s)) y) \<and>
     rep h (b(otherSide s := p)) x \<and> rep h (b(s := p)) y"
  by (cases s) (auto simp: node_ok_def)

lemma mk_simps [simp]:
  "root_or d (mk s x p y) = p" "mk s x p y \<noteq> Tip" "set (inord (mk s x p y)) = insert p (set (inord x) \<union> set (inord y))"
  "view d (mk s x p y) = (TRB_CHILD, p)"
  by (cases s; auto simp: view_def)+

lemma mk_cases: "T = Tip \<or> (\<exists>x p y. T = mk s x p y)"
  by (cases T; cases s; simp; metis mk.simps)

lemma rep_cong: "(\<And>p. p \<in> set (inord T) \<Longrightarrow> links h' p = links h p) \<Longrightarrow> rep h' b T = rep h b T"
  by (induction T arbitrary: b) (auto simp: node_ok_def)

text \<open>
  Where a subtree hangs: the way up, with the side taken and the other subtree at each node. At the end of it is the
  tree object \<open>this\<close>.
\<close>

type_synonym ctx = "(addr \<times> TRBTreeNodeChildSide \<times> ptree) list"

fun plug :: "ctx \<Rightarrow> ptree \<Rightarrow> ptree" where
  "plug [] T = T"
| "plug ((p, s, y) # c) T = plug c (mk s T p y)"

fun bnd :: "ctx \<Rightarrow> bounds" where
  "bnd [] = (\<lambda>_. 0)"
| "bnd ((p, s, y) # c) = (bnd c)(otherSide s := p)"

fun stack :: "addr \<Rightarrow> ctx \<Rightarrow> (addr \<times> TRBTreeNodeChildSide) list" where
  "stack this [] = [(this, TRB_LEFT)]"
| "stack this ((p, s, y) # c) = (p, s) # stack this c"

fun ctx_ok :: "('k, 'v) mem \<Rightarrow> addr \<Rightarrow> ctx \<Rightarrow> ptree \<Rightarrow> bool" where
  "ctx_ok h this [] T \<longleftrightarrow> (\<exists>f. links h this = Some f \<and> f TRB_LEFT = (TRB_CHILD, root_or 0 T))"
| "ctx_ok h this ((p, s, y) # c) T \<longleftrightarrow> node_ok h p s (view (bnd c s) T) (view (bnd c (otherSide s)) y) \<and>
     rep h ((bnd c)(s := p)) y \<and> ctx_ok h this c (Bin Tip p Tip)"

definition hangs :: "('k, 'v) mem \<Rightarrow> addr \<Rightarrow> ctx \<Rightarrow> ptree \<Rightarrow> bool" where
  "hangs h this c T \<longleftrightarrow> ctx_ok h this c T \<and> rep h (bnd c) T"

lemma ctx_ok_root: "root_or 0 T = root_or 0 T' \<Longrightarrow> (T = Tip) = (T' = Tip) \<Longrightarrow> ctx_ok h this c T = ctx_ok h this c T'"
  by (cases c; cases T; cases T') (auto simp: view_def)

lemma hangs_plug: "hangs h this c T \<longleftrightarrow> hangs h this [] (plug c T)"
proof (induction c arbitrary: T)
  case (Cons e c)
  obtain p s y where e: "e = (p, s, y)" by (cases e)
  have "ctx_ok h this c (mk s T p y) = ctx_ok h this c (Bin Tip p Tip)" by (rule ctx_ok_root) simp_all
  then have "hangs h this (e # c) T = hangs h this c (mk s T p y)" by (auto simp: hangs_def e rep_mk)
  then show ?case using Cons.IH e by simp
qed simp

end
