(* ===== verification/Trb_Ops.thy ===== *)
theory Trb_Ops
  imports Trb_Shape
begin

text \<open>
  The operations of the threaded tree on the shapes of \<open>Trb_Shape\<close>: search, the way down to where a key belongs,
  attaching a node and rotating keep the links in order.
\<close>

section \<open>Search trees\<close>

definition key_at_node :: "('k, 'v) mem \<Rightarrow> addr \<Rightarrow> 'k" where
  "key_at_node h p = fst (the (entries h p))"

definition sorted_tree :: "('k :: linorder, 'v) mem \<Rightarrow> ptree \<Rightarrow> bool" where
  "sorted_tree h T \<longleftrightarrow> sorted_wrt (<) (map (key_at_node h) (inord T))"

lemma sorted_tree_Bin:
  "sorted_tree h (Bin l p r) \<longleftrightarrow> sorted_tree h l \<and> sorted_tree h r \<and>
     (\<forall>q \<in> set (inord l). key_at_node h q < key_at_node h p) \<and> (\<forall>q \<in> set (inord r). key_at_node h p < key_at_node h q)"
  by (auto simp: sorted_tree_def sorted_wrt_append) (meson less_trans)

lemma rep_node:
  assumes "rep h b (Bin l p r)"
  obtains n where "h p = Some n" "first n = key_at_node h p" "tag_of TRB_LEFT n = (if l = Tip then TRB_TRAIL else TRB_CHILD)"
    "tag_of TRB_RIGHT n = (if r = Tip then TRB_TRAIL else TRB_CHILD)" "link_of TRB_LEFT n = root_or (b TRB_LEFT) l"
    "link_of TRB_RIGHT n = root_or (b TRB_RIGHT) r"
  using assms that by (auto simp: node_ok_def links_def view_def key_at_node_def entries_def)

lemma find_loop_run:
  fixes k :: "'k :: linorder"
  assumes "rep h b T" and "sorted_tree h T" and "T \<noteq> Tip" and "height T \<le> fuel"
  shows "\<exists>r. find_loop fuel (<) k (root_or 0 T) h = Inr r \<and>
    (if \<exists>q \<in> set (inord T). key_at_node h q = k then r \<in> set (inord T) \<and> key_at_node h r = k else r = 0)"
  using assms
proof (induction T arbitrary: b fuel)
  case (Bin l p r)
  obtain n where n: "h p = Some n" "first n = key_at_node h p" "tag_of TRB_LEFT n = (if l = Tip then TRB_TRAIL else TRB_CHILD)"
    "tag_of TRB_RIGHT n = (if r = Tip then TRB_TRAIL else TRB_CHILD)" "link_of TRB_LEFT n = root_or (b TRB_LEFT) l"
    "link_of TRB_RIGHT n = root_or (b TRB_RIGHT) r" by (rule rep_node[OF Bin.prems(1)])
  obtain fu where fu: "fuel = Suc fu" "height l \<le> fu" "height r \<le> fu" using Bin.prems(4) by (cases fuel) auto
  have s: "sorted_tree h l" "sorted_tree h r" "\<forall>q \<in> set (inord l). key_at_node h q < key_at_node h p" "\<forall>q \<in> set (inord r). key_at_node h p < key_at_node h q"
    using Bin.prems(2) by (simp_all add: sorted_tree_Bin)
  have rp: "rep h (b(TRB_RIGHT := p)) l" "rep h (b(TRB_LEFT := p)) r" using Bin.prems(1) by simp_all
  have nd: "node h p = Inr n" using n(1) by (simp add: node_def)
  consider "k < key_at_node h p" | "key_at_node h p < k" | "k = key_at_node h p" by fastforce
  then show ?case
  proof cases
    case 1
    then have "key_at_node h q \<noteq> k" if "q \<in> set (inord r)" for q using s(4) that by fastforce
    then have ex: "(\<exists>q \<in> set (inord (Bin l p r)). key_at_node h q = k) \<longleftrightarrow> (\<exists>q \<in> set (inord l). key_at_node h q = k)"
      using 1 by auto
    show ?thesis
    proof (cases "l = Tip")
      case False
      then have "root_or (b TRB_LEFT) l = root_or 0 l" by (cases l) auto
      then have "find_loop fuel (<) k (root_or 0 (Bin l p r)) h = find_loop fu (<) k (root_or 0 l) h" using 1 n nd fu False by (simp add: Let_def)
      then show ?thesis using Bin.IH(1)[OF rp(1) s(1) False fu(2)] ex by (auto split: if_splits)
    qed (use 1 ex n nd fu in \<open>simp add: Let_def\<close>)
  next
    case 2
    then have "key_at_node h q \<noteq> k" if "q \<in> set (inord l)" for q using s(3) that by fastforce
    then have ex: "(\<exists>q \<in> set (inord (Bin l p r)). key_at_node h q = k) \<longleftrightarrow> (\<exists>q \<in> set (inord r). key_at_node h q = k)"
      using 2 by auto
    show ?thesis
    proof (cases "r = Tip")
      case False
      then have "root_or (b TRB_RIGHT) r = root_or 0 r" by (cases r) auto
      then have "find_loop fuel (<) k (root_or 0 (Bin l p r)) h = find_loop fu (<) k (root_or 0 r) h" using 2 n nd fu False by (auto simp: Let_def)
      then show ?thesis using Bin.IH(2)[OF rp(2) s(2) False fu(3)] ex by (auto split: if_splits)
    qed (use 2 ex n nd fu in \<open>auto simp: Let_def\<close>)
  qed (use n nd fu in \<open>auto simp: Let_def\<close>)
qed simp

text \<open>The tree of the object \<open>this\<close>.\<close>

definition tree_at :: "addr \<Rightarrow> ptree \<Rightarrow> ('k, 'v) mem \<Rightarrow> bool" where
  "tree_at this T h \<longleftrightarrow> hangs h this [] T \<and> colors h this = Some TRB_BLACK \<and> distinct (this # inord T) \<and>
     (\<forall>p \<in> set (inord T). aligned p \<and> p \<noteq> 0)"

lemma plain_word: "tag_of TRB_LEFT n = TRB_CHILD \<Longrightarrow> color_of n = TRB_BLACK \<Longrightarrow> pLeft n = link_of TRB_LEFT n"
proof -
  assume "tag_of TRB_LEFT n = TRB_CHILD" "color_of n = TRB_BLACK"
  then have "aligned (pLeft n)" by (auto simp: tag_of_def color_of_def and_bit aligned_bits split: if_splits simp del: bit_0)
  then show ?thesis by (simp only: link_of_def pLinks.simps aligned_mask)
qed

lemma tree_root:
  assumes "hangs h this [] T" and "colors h this = Some TRB_BLACK"
  obtains ob where "node h this = Inr ob" "pLeft ob = root_or 0 T"
proof -
  obtain ob where ob: "h this = Some ob" "tag_of TRB_LEFT ob = TRB_CHILD" "link_of TRB_LEFT ob = root_or 0 T" "color_of ob = TRB_BLACK"
    using assms by (auto simp: hangs_def links_def colors_def)
  then show ?thesis using that plain_word[of ob] by (simp add: node_def)
qed

lemma root_zero: "tree_at this T h \<Longrightarrow> root_or 0 T = 0 \<longleftrightarrow> T = Tip"
  by (cases T) (auto simp: tree_at_def)

lemma try_find_run:
  fixes k :: "'k :: linorder"
  assumes t: "tree_at this T h" and "sorted_tree h T" and "height T \<le> fuel"
  shows "\<exists>r. try_find fuel (<) k this h = Inr r \<and>
    (if \<exists>q \<in> set (inord T). key_at_node h q = k then r \<in> set (inord T) \<and> key_at_node h r = k else r = 0)"
proof -
  obtain ob where ob: "node h this = Inr ob" "pLeft ob = root_or 0 T"
    using t by (auto simp: tree_at_def elim!: tree_root)
  show ?thesis
  proof (cases "T = Tip")
    case False
    have "rep h (bnd []) T" using t by (simp add: tree_at_def hangs_def)
    then show ?thesis using find_loop_run[OF _ assms(2) False assms(3)] ob root_zero[OF t] False by (simp add: try_find_def)
  qed (use ob in \<open>simp add: try_find_def\<close>)
qed

section \<open>The way down\<close>

fun lft :: "ctx \<Rightarrow> addr list" where
  "lft [] = []"
| "lft ((p, s, y) # c) = (if s = TRB_RIGHT then lft c @ inord y @ [p] else lft c)"

fun rgt :: "ctx \<Rightarrow> addr list" where
  "rgt [] = []"
| "rgt ((p, s, y) # c) = (if s = TRB_LEFT then p # inord y @ rgt c else rgt c)"

lemma inord_plug: "inord (plug c T) = lft c @ inord T @ rgt c"
proof (induction c arbitrary: T)
  case (Cons e c)
  then show ?case by (cases e; cases "fst (snd e)") auto
qed simp

lemma length_stack: "length (stack this c) = Suc (length c)"
  by (induction c rule: stack.induct) auto

lemma descend_run:
  fixes k :: "'k :: linorder"
  assumes "rep h (bnd c) T" and "sorted_tree h T" and "T \<noteq> Tip" and "height T \<le> fuel" and "length c + height T < maxHeight"
    and "\<forall>q \<in> set (lft c). key_at_node h q < k" and "\<forall>q \<in> set (rgt c). k < key_at_node h q"
  shows "(\<exists>q st. descend fuel (<) k (root_or 0 T) (stack this c) h = Inr (Some q, st) \<and> q \<in> set (inord T) \<and> key_at_node h q = k) \<or>
    (\<exists>c'. descend fuel (<) k (root_or 0 T) (stack this c) h = Inr (None, stack this c') \<and> c' \<noteq> [] \<and> plug c' Tip = plug c T \<and>
       (\<forall>q \<in> set (lft c'). key_at_node h q < k) \<and> (\<forall>q \<in> set (rgt c'). k < key_at_node h q))"
  using assms
proof (induction T arbitrary: c fuel)
  case (Bin l p r)
  obtain n where n: "h p = Some n" "first n = key_at_node h p" "tag_of TRB_LEFT n = (if l = Tip then TRB_TRAIL else TRB_CHILD)"
    "tag_of TRB_RIGHT n = (if r = Tip then TRB_TRAIL else TRB_CHILD)" "link_of TRB_LEFT n = root_or (bnd c TRB_LEFT) l"
    "link_of TRB_RIGHT n = root_or (bnd c TRB_RIGHT) r" by (rule rep_node[OF Bin.prems(1)])
  obtain fu where fu: "fuel = Suc fu" "height l \<le> fu" "height r \<le> fu" using Bin.prems(4) by (cases fuel) auto
  have s: "sorted_tree h l" "sorted_tree h r" "\<forall>q \<in> set (inord l). key_at_node h q < key_at_node h p" "\<forall>q \<in> set (inord r). key_at_node h p < key_at_node h q"
    using Bin.prems(2) by (simp_all add: sorted_tree_Bin)
  have nd: "node h p = Inr n" using n(1) by (simp add: node_def)
  have len: "\<not> maxHeight \<le> length (stack this c)" using Bin.prems(5) by (simp add: length_stack)
  consider "k < key_at_node h p" | "key_at_node h p < k" | "k = key_at_node h p" by fastforce
  then show ?case
  proof cases
    case 1
    let ?c = "(p, TRB_LEFT, r) # c"
    have b: "\<forall>q \<in> set (lft ?c). key_at_node h q < k" "\<forall>q \<in> set (rgt ?c). k < key_at_node h q" "plug ?c l = plug c (Bin l p r)"
      using 1 s(4) Bin.prems(6,7) by auto
    show ?thesis
    proof (cases "l = Tip")
      case True
      then have "descend fuel (<) k (root_or 0 (Bin l p r)) (stack this c) h = Inr (None, stack this ?c)" using 1 n nd fu len by (auto simp: Let_def)
      then show ?thesis using b True by (intro disjI2 exI[of _ ?c]) simp
    next
      case False
      then have "root_or (bnd c TRB_LEFT) l = root_or 0 l" by (cases l) auto
      then have eq: "descend fuel (<) k (root_or 0 (Bin l p r)) (stack this c) h = descend fu (<) k (root_or 0 l) (stack this ?c) h"
        using 1 n nd fu len False by (auto simp: Let_def)
      have "rep h (bnd ?c) l" "length ?c + height l < maxHeight" using Bin.prems(1,5) by simp_all
      from Bin.IH(1)[OF this(1) s(1) False fu(2) this(2) b(1,2)] show ?thesis unfolding eq b(3) by auto
    qed
  next
    case 2
    let ?c = "(p, TRB_RIGHT, l) # c"
    have b: "\<forall>q \<in> set (lft ?c). key_at_node h q < k" "\<forall>q \<in> set (rgt ?c). k < key_at_node h q" "plug ?c r = plug c (Bin l p r)"
      using 2 s(3) Bin.prems(6,7) by auto
    show ?thesis
    proof (cases "r = Tip")
      case True
      then have "descend fuel (<) k (root_or 0 (Bin l p r)) (stack this c) h = Inr (None, stack this ?c)" using 2 n nd fu len by (auto simp: Let_def)
      then show ?thesis using b True by (intro disjI2 exI[of _ ?c]) simp
    next
      case False
      then have "root_or (bnd c TRB_RIGHT) r = root_or 0 r" by (cases r) auto
      then have eq: "descend fuel (<) k (root_or 0 (Bin l p r)) (stack this c) h = descend fu (<) k (root_or 0 r) (stack this ?c) h"
        using 2 n nd fu len False by (auto simp: Let_def)
      have "rep h (bnd ?c) r" "length ?c + height r < maxHeight" using Bin.prems(1,5) by simp_all
      from Bin.IH(2)[OF this(1) s(2) False fu(3) this(2) b(1,2)] show ?thesis unfolding eq b(3) by auto
    qed
  qed (use n nd fu in \<open>auto simp: Let_def\<close>)
qed simp

section \<open>Changing a subtree\<close>

text \<open>The addresses of a context.\<close>

fun cset :: "addr \<Rightarrow> ctx \<Rightarrow> addr set" where
  "cset this [] = {this}"
| "cset this ((p, s, y) # c) = insert p (set (inord y) \<union> cset this c)"

lemma cset_eq: "cset this c = insert this (set (lft c) \<union> set (rgt c))"
proof (induction c)
  case (Cons e c)
  then show ?case by (cases e; cases "fst (snd e)") auto
qed simp

lemma ctx_ok_cong: "(\<And>p. p \<in> cset this c \<Longrightarrow> links h' p = links h p) \<Longrightarrow> ctx_ok h' this c T = ctx_ok h this c T"
proof (induction c arbitrary: T)
  case (Cons e c)
  then show ?case using rep_cong[of "snd (snd e)" h' h] by (cases e) (auto simp: node_ok_def)
qed simp

text \<open>Another subtree is hung on a context by changing the link of the top of the stack.\<close>

lemma ctx_ok_swap:
  assumes "ctx_ok h this c T" and "(q, ds) = hd (stack this c)" and "links h q = Some f"
    and "links h' q = Some (f(ds := (TRB_CHILD, root_or 0 T')))" and "T' \<noteq> Tip"
    and "\<forall>p \<in> cset this c - {q}. links h' p = links h p" and "distinct (this # inord (plug c Tip))"
  shows "ctx_ok h' this c T'"
proof (cases c)
  case (Cons e c')
  obtain p s y where e: "e = (p, s, y)" by (cases e)
  have q: "q = p" "ds = s" using assms(2) Cons e by simp_all
  have v: "view d T' = (TRB_CHILD, root_or 0 T')" for d using assms(5) by (cases T') (simp_all add: view_def)
  have d: "distinct (this # inord (plug c' (mk s Tip p y)))" using assms(7) Cons e by simp
  have "p \<notin> set (inord y)" using d by (cases s) (auto simp: inord_plug)
  moreover have "p \<notin> cset this c'"
    using d by (cases s) (auto simp: inord_plug cset_eq)
  ultimately have o: "\<And>a. a \<in> set (inord y) \<Longrightarrow> links h' a = links h a" "\<And>a. a \<in> cset this c' \<Longrightarrow> links h' a = links h a"
    using assms(6) Cons e q by auto
  then show ?thesis using assms(1,3,4) Cons e q rep_cong[OF o(1)] ctx_ok_cong[OF o(2)] v by (auto simp: node_ok_def)
qed (use assms(2-4) in auto)

end
