(* ===== verification/Trb_Insert.thy ===== *)
theory Trb_Insert
  imports Trb_Ops
begin

text \<open>
  Insertion into the threaded tree: attaching the new node, rotating and recolouring.
\<close>

section \<open>Attaching a node\<close>

lemma rep_dom: "rep h b T \<Longrightarrow> p \<in> set (inord T) \<Longrightarrow> links h p \<noteq> None"
  by (induction T arbitrary: b) (auto simp: node_ok_def)

lemma ctx_dom: "ctx_ok h this c T \<Longrightarrow> p \<in> cset this c \<Longrightarrow> links h p \<noteq> None"
proof (induction c arbitrary: T)
  case (Cons e c)
  then show ?case by (cases e) (auto simp: node_ok_def dest: rep_dom)
qed auto

lemma links_aligned: "links h p = Some f \<Longrightarrow> aligned (snd (f s)) \<and> fst (f s) \<noteq> TRB_TAG_MAX"
  by (auto simp: links_def tag_of_def split: if_splits)

lemma stack_top: "(p, d) = hd (stack this c) \<Longrightarrow> p \<in> cset this c"
  by (cases c) auto

lemma attach_run:
  assumes hg: "hangs h this c Tip" and st: "(p, dir) = hd (stack this c)" and n: "h n = None" "aligned n"
    and dist: "distinct (this # inord (plug c Tip))" and al: "\<forall>q \<in> set (inord (plug c Tip)). aligned q"
  shows "\<exists>h2. attach_node (c \<noteq> []) n p dir (h(n \<mapsto> \<lparr>pLeft = 0, pRight = 0, first = k, second = v\<rparr>)) = Inr h2 \<and>
    hangs h2 this c (Bin Tip n Tip) \<and> colors h2 = (colors h)(n \<mapsto> TRB_RED) \<and> entries h2 = (entries h)(n \<mapsto> (k, v))"
proof -
  let ?new = "\<lparr>pLeft = 0, pRight = 0, first = k, second = v\<rparr>"
  let ?h = "h(n \<mapsto> ?new)"
  have ctx: "ctx_ok h this c Tip" using hg by (simp add: hangs_def)
  have nc: "n \<notin> cset this c" using ctx_dom[OF ctx, of n] n(1) by (auto simp: links_def)
  have pc: "p \<in> cset this c" by (rule stack_top[OF st])
  then obtain f where f: "links h p = Some f" using ctx_dom[OF ctx] by blast
  have np: "n \<noteq> p" using nc pc by auto
  have l0: "links ?h = (links h)(n \<mapsto> (\<lambda>_. (TRB_CHILD, 0)))"
    by (auto simp: fun_eq_iff links_def tag_of_def link_of_def) (case_tac x, simp_all)+
  have co: "colors ?h = (colors h)(n \<mapsto> TRB_BLACK)" "entries ?h = (entries h)(n \<mapsto> (k, v))"
    by (auto simp: fun_eq_iff colors_def entries_def color_of_def)
  obtain h1 where h1: "set_trail_tag n TRB_LEFT TRB_TRAIL ?h = Inr h1" "links h1 = (links h)(n \<mapsto> (\<lambda>_. (TRB_CHILD, 0))(TRB_LEFT := (TRB_TRAIL, 0)))"
      "colors h1 = colors ?h" "entries h1 = entries ?h"
    using set_tag_view[of ?h n "\<lambda>_. (TRB_CHILD, 0)" TRB_TRAIL TRB_LEFT] by (auto simp: l0)
  obtain h2 where h2: "set_trail_tag n TRB_RIGHT TRB_TRAIL h1 = Inr h2" "links h2 = (links h)(n \<mapsto> (\<lambda>_. (TRB_TRAIL, 0)))"
      "colors h2 = colors ?h" "entries h2 = entries ?h"
  proof -
    have "((\<lambda>_. (TRB_CHILD, 0 :: addr))(TRB_LEFT := (TRB_TRAIL, 0)))(TRB_RIGHT := (TRB_TRAIL, 0)) = (\<lambda>_. (TRB_TRAIL, 0))"
      by (auto simp: fun_eq_iff) (case_tac x, simp_all)
    then show ?thesis using that set_tag_view[of h1 n _ TRB_TRAIL TRB_RIGHT] h1 by auto
  qed
  have g3: "get_link p dir h2 = Inr (snd (f dir))" by (rule get_link_view) (use f h2(2) np in simp)
  let ?l = "snd (f dir)"
  obtain h4 where h4: "set_link n ?l dir TRB_TAG_MAX h2 = Inr h4" "links h4 = (links h)(n \<mapsto> (\<lambda>_. (TRB_TRAIL, 0))(dir := (TRB_TRAIL, ?l)))"
      "colors h4 = colors ?h" "entries h4 = entries ?h"
    using set_link_view[of h2 n _ ?l dir] h2 links_aligned[OF f, of dir] by auto
  have "\<exists>h5. (if c \<noteq> [] then bind_res (set_trail_tag p dir TRB_CHILD h4) (set_link n p (otherSide dir) TRB_TAG_MAX)
               else set_link n 0 TRB_RIGHT TRB_TAG_MAX h4) = Inr h5 \<and>
      links h5 = (links h)(n \<mapsto> (\<lambda>s. (TRB_TRAIL, bnd c s)), p \<mapsto> f(dir := (TRB_CHILD, ?l))) \<and> colors h5 = colors ?h \<and> entries h5 = entries ?h"
  proof (cases c)
    case Nil
    then have d: "p = this" "dir = TRB_LEFT" "f TRB_LEFT = (TRB_CHILD, 0)" using st ctx f by auto
    have g: "((\<lambda>_. (TRB_TRAIL, 0))(dir := (TRB_TRAIL, ?l)))(TRB_RIGHT := (TRB_TRAIL, 0)) = (\<lambda>s. (TRB_TRAIL, bnd c s))" "f(dir := (TRB_CHILD, ?l)) = f"
      using d Nil by (auto simp: fun_eq_iff)
    obtain h5 where h5: "set_link n 0 TRB_RIGHT TRB_TAG_MAX h4 = Inr h5" "links h5 = (links h)(n \<mapsto> (\<lambda>s. (TRB_TRAIL, bnd c s)))"
      "colors h5 = colors ?h" "entries h5 = entries ?h"
      using set_link_view[of h4 n _ 0 TRB_RIGHT] h4 g(1) d(2) by auto
    then show ?thesis using Nil g(2) f np by (auto simp: fun_upd_idem)
  next
    case (Cons e c')
    obtain y where e: "e = (p, dir, y)" using st Cons by (cases e) auto
    have fd: "f dir = (TRB_TRAIL, bnd c' dir)" using ctx f Cons e by (auto simp: node_ok_def view_def)
    obtain h5 where h5: "set_trail_tag p dir TRB_CHILD h4 = Inr h5"
        "links h5 = (links h)(n \<mapsto> (\<lambda>_. (TRB_TRAIL, 0))(dir := (TRB_TRAIL, ?l)), p \<mapsto> f(dir := (TRB_CHILD, ?l)))"
        "colors h5 = colors ?h" "entries h5 = entries ?h"
      using set_tag_view[of h4 p f TRB_CHILD dir] h4 f np by auto
    have ap: "aligned p" using al Cons e by (auto simp: inord_plug split: if_splits intro: TRBTreeNodeChildSide.exhaust[of dir])
    have g: "((\<lambda>_. (TRB_TRAIL, 0))(dir := (TRB_TRAIL, ?l)))(otherSide dir := (TRB_TRAIL, p)) = (\<lambda>s. (TRB_TRAIL, bnd c s))"
      using fd Cons e side_cases[of _ dir] by (auto simp: fun_eq_iff)
    obtain h6 where "set_link n p (otherSide dir) TRB_TAG_MAX h5 = Inr h6"
        "links h6 = (links h)(n \<mapsto> (\<lambda>s. (TRB_TRAIL, bnd c s)), p \<mapsto> f(dir := (TRB_CHILD, ?l)))" "colors h6 = colors ?h" "entries h6 = entries ?h"
      using set_link_view[of h5 n _ p "otherSide dir"] h5 np ap g by (auto simp: fun_upd_twist)
    then show ?thesis using Cons h5(1) by auto
  qed
  then obtain h5 where h5: "(if c \<noteq> [] then bind_res (set_trail_tag p dir TRB_CHILD h4) (set_link n p (otherSide dir) TRB_TAG_MAX)
               else set_link n 0 TRB_RIGHT TRB_TAG_MAX h4) = Inr h5"
      "links h5 = (links h)(n \<mapsto> (\<lambda>s. (TRB_TRAIL, bnd c s)), p \<mapsto> f(dir := (TRB_CHILD, ?l)))" "colors h5 = colors ?h" "entries h5 = entries ?h" by blast
  obtain h6 where h6: "set_link p n dir TRB_TAG_MAX h5 = Inr h6"
      "links h6 = (links h)(n \<mapsto> (\<lambda>s. (TRB_TRAIL, bnd c s)), p \<mapsto> f(dir := (TRB_CHILD, n)))" "colors h6 = colors ?h" "entries h6 = entries ?h"
    using set_link_view[of h5 p "f(dir := (TRB_CHILD, ?l))" n dir] h5 n(2) by auto
  obtain h7 where h7: "set_color n TRB_RED h6 = Inr h7" "links h7 = links h6" "colors h7 = (colors h6)(n \<mapsto> TRB_RED)" "entries h7 = entries h6"
    using set_color_view[of h6 n _ TRB_RED] h6(2) np by auto
  have run: "attach_node (c \<noteq> []) n p dir ?h = Inr h7"
    using h1(1) h2(1) g3 h4(1) h5(1) h6(1) h7(1) by (simp add: attach_node_def)
  have lk: "links h7 = (links h)(n \<mapsto> (\<lambda>s. (TRB_TRAIL, bnd c s)), p \<mapsto> f(dir := (TRB_CHILD, n)))" using h6(2) h7(2) by simp
  have "ctx_ok h7 this c (Bin Tip n Tip)"
    by (rule ctx_ok_swap[OF ctx st f]) (use lk nc dist in auto)
  moreover have "rep h7 (bnd c) (Bin Tip n Tip)" using lk np by (simp add: node_ok_def view_def)
  ultimately show ?thesis using run h7 h6(3,4) co by (auto simp: hangs_def)
qed

section \<open>Rotations\<close>

lemma rotate_view:
  assumes x: "links h x = Some fx" "fx s = (TRB_CHILD, y)" and y: "links h y = Some fy" and q: "links h q = Some fq"
    and ne: "x \<noteq> y" "q \<noteq> x" "q \<noteq> y" and al: "aligned x" "aligned y"
  shows "\<exists>h'. rotate_up x y s q ds h = Inr h' \<and> colors h' = colors h \<and> entries h' = entries h \<and>
    links h' = (links h)(x \<mapsto> fx(s := (if fst (fy (otherSide s)) = TRB_TRAIL then (TRB_TRAIL, y) else (TRB_CHILD, snd (fy (otherSide s))))),
      y \<mapsto> fy(otherSide s := (TRB_CHILD, x)), q \<mapsto> fq(ds := (fst (fq ds), y)))"
proof -
  let ?s = "otherSide s" let ?t = "fst (fy ?s)" and ?l = "snd (fy ?s)"
  have g: "get_link y ?s h = Inr ?l" by (rule get_link_view[OF y])
  obtain h1 where h1: "set_link x ?l s TRB_TAG_MAX h = Inr h1" "links h1 = (links h)(x \<mapsto> fx(s := (TRB_CHILD, ?l)))" "colors h1 = colors h" "entries h1 = entries h"
    using set_link_view[OF x(1), of ?l s] links_aligned[OF y, of ?s] x(2) by auto
  have y1: "links h1 y = Some fy" using h1(2) y ne by simp
  obtain h2 where h2: "set_link y x ?s TRB_TAG_MAX h1 = Inr h2" "links h2 = (links h1)(y \<mapsto> fy(?s := (?t, x)))" "colors h2 = colors h" "entries h2 = entries h"
    using set_link_view[OF y1 al(1), of ?s] h1 by auto
  have q2: "links h2 q = Some fq" using h1(2) h2(2) q ne by simp
  obtain h3 where h3: "set_link q y ds TRB_TAG_MAX h2 = Inr h3" "links h3 = (links h2)(q \<mapsto> fq(ds := (fst (fq ds), y)))" "colors h3 = colors h" "entries h3 = entries h"
    using set_link_view[OF q2 al(2), of ds] h2 by auto
  have y3: "links h3 y = Some (fy(?s := (?t, x)))" using h2(2) h3(2) ne by simp
  have t: "get_trail_tag y ?s h3 = Inr ?t" using get_tag_view[OF y3, of ?s] by simp
  show ?thesis
  proof (cases "?t = TRB_TRAIL")
    case True
    obtain h4 where h4: "set_trail_tag y ?s TRB_CHILD h3 = Inr h4" "links h4 = (links h3)(y \<mapsto> fy(?s := (TRB_CHILD, x)))" "colors h4 = colors h" "entries h4 = entries h"
      using set_tag_view[OF y3, of TRB_CHILD ?s] h3 by auto
    have x4: "links h4 x = Some (fx(s := (TRB_CHILD, ?l)))" using h1(2) h2(2) h3(2) h4(2) ne by simp
    obtain h5 where h5: "set_trail_tag x s TRB_TRAIL h4 = Inr h5" "links h5 = (links h4)(x \<mapsto> fx(s := (TRB_TRAIL, ?l)))" "colors h5 = colors h" "entries h5 = entries h"
      using set_tag_view[OF x4, of TRB_TRAIL s] h4 by auto
    have x5: "links h5 x = Some (fx(s := (TRB_TRAIL, ?l)))" using h5(2) by simp
    obtain h6 where h6: "set_link x y s TRB_TAG_MAX h5 = Inr h6" "links h6 = (links h5)(x \<mapsto> fx(s := (TRB_TRAIL, y)))" "colors h6 = colors h" "entries h6 = entries h"
      using set_link_view[OF x5 al(2), of s] h5 by auto
    have "rotate_up x y s q ds h = Inr h6" using g h1(1) h2(1) h3(1) t True h4(1) h5(1) h6(1) by (simp add: rotate_up_def)
    moreover have "links h6 = (links h)(x \<mapsto> fx(s := (TRB_TRAIL, y)), y \<mapsto> fy(?s := (TRB_CHILD, x)), q \<mapsto> fq(ds := (fst (fq ds), y)))"
      using h6(2) h5(2) h4(2) h3(2) h2(2) h1(2) ne by (auto simp: fun_eq_iff)
    ultimately show ?thesis using h6(3,4) True by auto
  next
    case False
    then have tc: "?t = TRB_CHILD" using links_aligned[OF y, of ?s] by (cases ?t) auto
    have "rotate_up x y s q ds h = Inr h3" using g h1(1) h2(1) h3(1) t False by (simp add: rotate_up_def)
    moreover have "links h3 = (links h)(x \<mapsto> fx(s := (TRB_CHILD, ?l)), y \<mapsto> fy(?s := (TRB_CHILD, x)), q \<mapsto> fq(ds := (fst (fq ds), y)))"
      using h3(2) h2(2) h1(2) ne tc by (auto simp: fun_eq_iff)
    ultimately show ?thesis using h3(3,4) False by auto
  qed
qed

lemma inord_mk: "inord (mk s x p y) = (if s = TRB_LEFT then inord x @ p # inord y else inord y @ p # inord x)"
  by (cases s) simp_all

text \<open>A rotation of the subtree below a context.\<close>

lemma rotate_run:
  assumes hg: "hangs h this c (mk s (mk s A y B) x C)" and st: "(q, ds) = hd (stack this c)"
    and dist: "distinct (this # inord (plug c (mk s (mk s A y B) x C)))" and al: "aligned x" "aligned y"
  shows "\<exists>h'. rotate_up x y s q ds h = Inr h' \<and> colors h' = colors h \<and> entries h' = entries h \<and>
    hangs h' this c (mk s A y (mk s B x C))"
proof -
  let ?s = "otherSide s" and ?b = "bnd c"
  have ctx: "ctx_ok h this c (mk s (mk s A y B) x C)" and rp: "rep h ?b (mk s (mk s A y B) x C)" using hg by (simp_all add: hangs_def)
  obtain fx where fx: "links h x = Some fx" "fx s = (TRB_CHILD, y)" "fx ?s = view (?b ?s) C" using rp by (auto simp: rep_mk node_ok_def)
  obtain fy where fy: "links h y = Some fy" "fy s = view (?b s) A" "fy ?s = view x B" using rp by (auto simp: rep_mk node_ok_def)
  have ABC: "rep h (?b(?s := y)) A" "rep h (?b(s := y, ?s := x)) B" "rep h (?b(s := x)) C"
    using rp by (simp_all add: rep_mk fun_upd_twist)
  have qc: "q \<in> cset this c" by (rule stack_top[OF st])
  then obtain fq where fq: "links h q = Some fq" using ctx_dom[OF ctx] by blast
  have fqd: "fq ds = (TRB_CHILD, x)" using ctx st fq by (cases c) (auto simp: node_ok_def)
  have d: "x \<noteq> y" "x \<notin> cset this c" "y \<notin> cset this c" "x \<notin> set (inord A) \<union> set (inord B) \<union> set (inord C)"
      "y \<notin> set (inord A) \<union> set (inord B) \<union> set (inord C)" "cset this c \<inter> (set (inord A) \<union> set (inord B) \<union> set (inord C)) = {}"
    using dist by (auto simp: inord_plug cset_eq inord_mk split: if_splits)
  have ne: "q \<noteq> x" "q \<noteq> y" using qc d(2,3) by auto
  obtain h' where h': "rotate_up x y s q ds h = Inr h'" "colors h' = colors h" "entries h' = entries h"
      "links h' = (links h)(x \<mapsto> fx(s := (if fst (fy ?s) = TRB_TRAIL then (TRB_TRAIL, y) else (TRB_CHILD, snd (fy ?s)))),
        y \<mapsto> fy(?s := (TRB_CHILD, x)), q \<mapsto> fq(ds := (TRB_CHILD, y)))"
    using rotate_view[OF fx(1,2) fy(1) fq d(1) ne al, of ds] fqd by auto
  have same: "links h' p = links h p" if "p \<notin> {x, y, q}" for p using that h'(4) by simp
  have xs: "(if fst (fy ?s) = TRB_TRAIL then (TRB_TRAIL, y) else (TRB_CHILD, snd (fy ?s))) = view y B"
    unfolding fy(3) by (cases B) (simp_all add: view_def)
  have "ctx_ok h' this c (mk s A y (mk s B x C))"
  proof (rule ctx_ok_swap[OF ctx st fq])
    show "links h' q = Some (fq(ds := (TRB_CHILD, root_or 0 (mk s A y (mk s B x C)))))" using h'(4) by simp
    show "\<forall>p \<in> cset this c - {q}. links h' p = links h p" by (intro ballI, rule same) (use d(2,3) in auto)
    show "distinct (this # inord (plug c Tip))" using dist by (auto simp: inord_plug)
  qed simp
  moreover have "rep h' ?b (mk s A y (mk s B x C))"
  proof -
    have "rep h' b T = rep h b T" if "T \<in> {A, B, C}" for b T
      by (rule rep_cong, rule same) (use that d qc in auto)
    then have "rep h' (?b(?s := y)) A" "rep h' (?b(s := y, ?s := x)) B" "rep h' (?b(s := y, s := x)) C" using ABC by simp_all
    moreover have "node_ok h' y s (view (?b s) A) (TRB_CHILD, x)" "node_ok h' x s (view y B) (view (?b ?s) C)"
      using h'(4) xs fx(3) fy(2) ne d(1) by (simp_all add: node_ok_def)
    ultimately show ?thesis by (simp add: rep_mk)
  qed
  ultimately show ?thesis using h'(1-3) by (auto simp: hangs_def)
qed

end
