(* ===== verification/Trb_Balance.thy ===== *)
theory Trb_Balance
  imports Trb_Insert
begin

text \<open>
  The colours of the threaded tree: every path has the same number of black nodes and no red node has a red child. The loop after an
  insertion restores this.
\<close>

section \<open>Red-black trees\<close>

type_synonym coloring = "addr \<Rightarrow> TRBTreeNodeColor option"

abbreviation red :: "coloring \<Rightarrow> addr \<Rightarrow> bool" where "red col p \<equiv> col p = Some TRB_RED"

fun red_root :: "coloring \<Rightarrow> ptree \<Rightarrow> bool" where
  "red_root col Tip = False"
| "red_root col (Bin l p r) = red col p"

fun bh :: "coloring \<Rightarrow> ptree \<Rightarrow> nat \<Rightarrow> bool" where
  "bh col Tip m \<longleftrightarrow> m = 0"
| "bh col (Bin l p r) m \<longleftrightarrow> (\<exists>i. bh col l i \<and> bh col r i \<and> m = (if red col p then i else Suc i))"

fun rr :: "coloring \<Rightarrow> ptree \<Rightarrow> bool" where
  "rr col Tip = True"
| "rr col (Bin l p r) \<longleftrightarrow> rr col l \<and> rr col r \<and> (red col p \<longrightarrow> \<not> red_root col l \<and> \<not> red_root col r)"

definition red_black :: "coloring \<Rightarrow> ptree \<Rightarrow> bool" where
  "red_black col T \<longleftrightarrow> rr col T \<and> (\<exists>m. bh col T m) \<and> \<not> red_root col T"

lemma color_mk [simp]:
  "red_root col (mk s x p y) = red col p"
  "bh col (mk s x p y) m \<longleftrightarrow> (\<exists>i. bh col x i \<and> bh col y i \<and> m = (if red col p then i else Suc i))"
  "rr col (mk s x p y) \<longleftrightarrow> rr col x \<and> rr col y \<and> (red col p \<longrightarrow> \<not> red_root col x \<and> \<not> red_root col y)"
  by (cases s; auto)+

lemma color_cong:
  assumes "\<And>p. p \<in> set (inord T) \<Longrightarrow> col' p = col p"
  shows "bh col' T m = bh col T m" "rr col' T = rr col T" "red_root col' T = red_root col T"
proof -
  show r: "red_root col' T = red_root col T" using assms by (cases T) auto
  show "bh col' T m = bh col T m" using assms by (induction T arbitrary: m) auto
  show "rr col' T = rr col T" using assms
  proof (induction T)
    case (Bin l p r)
    moreover have "red_root col' l = red_root col l" using Bin.prems by (cases l) auto
    moreover have "red_root col' r = red_root col r" using Bin.prems by (cases r) auto
    ultimately show ?case by auto
  qed simp
qed

text \<open>The same for contexts.\<close>

fun red_top :: "coloring \<Rightarrow> ctx \<Rightarrow> bool" where
  "red_top col [] = False"
| "red_top col ((p, s, y) # c) = red col p"

fun ctx_bh :: "coloring \<Rightarrow> ctx \<Rightarrow> nat \<Rightarrow> bool" where
  "ctx_bh col [] m = True"
| "ctx_bh col ((p, s, y) # c) m \<longleftrightarrow> bh col y m \<and> ctx_bh col c (if red col p then m else Suc m)"

fun ctx_rr :: "coloring \<Rightarrow> ctx \<Rightarrow> bool" where
  "ctx_rr col [] = True"
| "ctx_rr col ((p, s, y) # c) \<longleftrightarrow> rr col y \<and> (red col p \<longrightarrow> \<not> red_root col y \<and> \<not> red_top col c) \<and> ctx_rr col c"

lemma bh_plug: "(\<exists>m. bh col (plug c T) m) \<longleftrightarrow> (\<exists>m. bh col T m \<and> ctx_bh col c m)"
proof (induction c arbitrary: T)
  case (Cons e c)
  obtain p s y where e: "e = (p, s, y)" by (cases e)
  show ?case unfolding e plug.simps Cons.IH by (cases "red col p") auto
qed simp

lemma rr_plug: "rr col (plug c T) \<longleftrightarrow> rr col T \<and> ctx_rr col c \<and> (red_root col T \<longrightarrow> \<not> red_top col c)"
proof (induction c arbitrary: T)
  case (Cons e c)
  then show ?case by (cases e) auto
qed simp

lemma ctx_color_cong:
  assumes "\<And>p. p \<in> set (lft c) \<union> set (rgt c) \<Longrightarrow> col' p = col p"
  shows "ctx_bh col' c m = ctx_bh col c m \<and> ctx_rr col' c = ctx_rr col c \<and> red_top col' c = red_top col c"
  using assms
proof (induction c arbitrary: m)
  case (Cons e c)
  obtain p s y where e: "e = (p, s, y)" by (cases e)
  have "col' q = col q" if "q \<in> insert p (set (inord y))" for q using Cons.prems[of q] that e by (cases s) auto
  moreover have "col' q = col q" if "q \<in> set (lft c) \<union> set (rgt c)" for q using Cons.prems[of q] that e by (cases s) auto
  ultimately show ?case using Cons.IH color_cong[of y col' col] e by auto
qed simp

lemma mk_other: "mk (otherSide s) x p y = mk s y p x"
  by (cases s) simp_all

section \<open>The loop\<close>

text \<open>The tree when the loop ends: in order but for the colour of its root.\<close>

definition half_black :: "coloring \<Rightarrow> ptree \<Rightarrow> bool" where
  "half_black col T \<longleftrightarrow> (\<exists>m. bh col T m) \<and> (\<exists>l p r. T = Bin l p r \<and> rr col l \<and> rr col r)"

lemma half_blackI: "rr col T \<Longrightarrow> bh col T m \<Longrightarrow> T \<noteq> Tip \<Longrightarrow> half_black col T"
  by (cases T) (auto simp: half_black_def)

lemma plug_not_Tip: "T \<noteq> Tip \<Longrightarrow> plug c T \<noteq> Tip"
proof (induction c arbitrary: T)
  case (Cons e c)
  then show ?case by (cases e) simp
qed simp

lemma rep_colored: "rep h b T \<Longrightarrow> p \<in> set (inord T) \<Longrightarrow> \<exists>c. colors h p = Some c"
  using rep_dom[of h b T p] by (auto simp: links_def colors_def)

lemma get_uncle:
  assumes "node_ok h g s v (view b y)" and "rep h b' y"
  shows "get_link g (otherSide s) h = Inr (root_or b y)"
    "get_trail_tag g (otherSide s) h = Inr (if y = Tip then TRB_TRAIL else TRB_CHILD)"
    "(if y \<noteq> Tip then get_color (root_or b y) h else Inr TRB_BLACK) = Inr (if red_root (colors h) y then TRB_RED else TRB_BLACK)"
proof -
  obtain f where f: "links h g = Some f" "f (otherSide s) = view b y" using assms(1) by (auto simp: node_ok_def)
  show "get_link g (otherSide s) h = Inr (root_or b y)" using get_link_view[OF f(1), of "otherSide s"] f(2) by (simp add: view_def)
  show "get_trail_tag g (otherSide s) h = Inr (if y = Tip then TRB_TRAIL else TRB_CHILD)"
    using get_tag_view[OF f(1), of "otherSide s"] f(2) by (simp add: view_def)
  show "(if y \<noteq> Tip then get_color (root_or b y) h else Inr TRB_BLACK) = Inr (if red_root (colors h) y then TRB_RED else TRB_BLACK)"
  proof (cases y)
    case (Bin l u r)
    then obtain c where "colors h u = Some c" using rep_colored[OF assms(2), of u] by auto
    then show ?thesis using Bin get_color_view[of h u c] by (cases c) auto
  qed simp
qed

text \<open>One round on a parent \<open>p\<close> and grandparent \<open>g\<close>.\<close>

lemma fixup_eq:
  assumes "hangs h this ((p, d, y1) # (g, s, y2) # c) X" and "red (colors h) p" and "(q, ds) = hd (stack this c)"
  shows "fixup (stack this ((p, d, y1) # (g, s, y2) # c)) h =
    (if red_root (colors h) y2 then
       bind_res (set_color p TRB_BLACK h) (\<lambda>h. bind_res (set_color (root_or 0 y2) TRB_BLACK h) (\<lambda>h.
       bind_res (set_color g TRB_RED h) (fixup (stack this c))))
     else
       bind_res (if d = s then Inr (p, h)
                 else bind_res (get_link p d h) (\<lambda>y. bind_res (rotate_up p y d g s h) (\<lambda>h. Inr (y, h)))) (\<lambda>(y, h).
       bind_res (set_color g TRB_RED h) (\<lambda>h. bind_res (set_color y TRB_BLACK h) (rotate_up g y s q ds))))"
proof -
  obtain st where st: "stack this c = (q, ds) # st" using assms(3) by (cases c) auto
  have g: "node_ok h g s (view (bnd c s) (Bin Tip p Tip)) (view (bnd c (otherSide s)) y2)" "rep h ((bnd c)(s := g)) y2"
    using assms(1) by (simp_all add: hangs_def)
  note u = get_uncle[OF g]
  have c: "get_color p h = Inr TRB_RED" using get_color_view[OF assms(2)] .
  have r: "root_or (bnd c (otherSide s)) y2 = root_or 0 y2" if "red_root (colors h) y2" using that by (cases y2) auto
  show ?thesis
  proof (cases "y2 = Tip")
    case True
    then show ?thesis using u c st by simp
  next
    case False
    then show ?thesis using u c st r by (cases "red_root (colors h) y2") simp_all
  qed
qed

lemma hangs_cong: "links h' = links h \<Longrightarrow> hangs h' this c T = hangs h this c T"
  using ctx_ok_cong[of this c h' h T] rep_cong[of T h' h] by (simp add: hangs_def)

lemma hangs_dom: "hangs h this c T \<Longrightarrow> p \<in> insert this (set (inord (plug c T))) \<Longrightarrow> \<exists>f. links h p = Some f"
  using ctx_dom[of h this c T p] rep_dom[of h "bnd c" T p] by (auto simp: hangs_def cset_eq inord_plug)

lemma hangs_up: "hangs h this ((p, s, y) # c) T = hangs h this c (mk s T p y)"
  using hangs_plug[of h this "(p, s, y) # c" T] hangs_plug[of h this c "mk s T p y"] by simp

lemma recolor_run:
  fixes X c m h
  defines "col \<equiv> colors h"
  assumes hg: "hangs h this ((p, d, y1) # (g, s, y2) # c) X" and red: "red col p" "red_root col y2"
    and rrs: "rr col X" "ctx_rr col ((p, d, y1) # (g, s, y2) # c)" and bhs: "bh col X m" "ctx_bh col ((p, d, y1) # (g, s, y2) # c) m"
    and dist: "distinct (this # inord (plug ((p, d, y1) # (g, s, y2) # c) X))"
  defines "Z \<equiv> mk s (mk d X p y1) g y2"
  shows "\<exists>h'. bind_res (set_color p TRB_BLACK h) (\<lambda>h. bind_res (set_color (root_or 0 y2) TRB_BLACK h) (\<lambda>h.
      bind_res (set_color g TRB_RED h) k)) = k h' \<and> links h' = links h \<and> entries h' = entries h \<and> colors h' this = colors h this \<and>
    hangs h' this c Z \<and> red_root (colors h') Z \<and> rr (colors h') Z \<and> bh (colors h') Z (Suc m) \<and> ctx_bh (colors h') c (Suc m) \<and> ctx_rr (colors h') c"
proof -
  obtain a u b where y2: "y2 = Bin a u b" using red(2) by (cases y2) auto
  have dom: "\<exists>f. links h x = Some f" if "x \<in> {p, u, g}" for x
    by (rule hangs_dom[OF hg]) (use that y2 in \<open>auto simp: inord_plug inord_mk\<close>)
  obtain h1 where h1: "set_color p TRB_BLACK h = Inr h1" "links h1 = links h" "colors h1 = col(p \<mapsto> TRB_BLACK)" "entries h1 = entries h"
    using dom[of p] set_color_view[of h p _ TRB_BLACK] by (auto simp: col_def)
  obtain h2 where h2: "set_color u TRB_BLACK h1 = Inr h2" "links h2 = links h" "colors h2 = col(p \<mapsto> TRB_BLACK, u \<mapsto> TRB_BLACK)" "entries h2 = entries h"
    using dom[of u] set_color_view[of h1 u _ TRB_BLACK] h1 by auto
  obtain h3 where h3: "set_color g TRB_RED h2 = Inr h3" "links h3 = links h" "colors h3 = col(p \<mapsto> TRB_BLACK, u \<mapsto> TRB_BLACK, g \<mapsto> TRB_RED)" "entries h3 = entries h"
    using dom[of g] set_color_view[of h2 g _ TRB_RED] h2 by auto
  let ?col = "col(p \<mapsto> TRB_BLACK, u \<mapsto> TRB_BLACK, g \<mapsto> TRB_RED)"
  have d: "p \<noteq> g" "u \<noteq> g" "p \<noteq> u" "this \<notin> {p, u, g}" "{p, u, g} \<inter> (set (inord X) \<union> set (inord y1) \<union> set (inord a) \<union> set (inord b) \<union> set (lft c) \<union> set (rgt c)) = {}"
    using dist y2 by (auto simp: inord_plug inord_mk split: if_splits)
  have same: "?col x = col x" if "x \<in> set (inord X) \<union> set (inord y1) \<union> set (inord a) \<union> set (inord b) \<union> set (lft c) \<union> set (rgt c)" for x
    using that d(5) by auto
  have T: "bh ?col T i = bh col T i" "rr ?col T = rr col T" "red_root ?col T = red_root col T" if "T \<in> {X, y1, a, b}" for T i
    using that same by (auto intro!: color_cong)
  have C: "ctx_bh ?col c i = ctx_bh col c i \<and> ctx_rr ?col c = ctx_rr col c" for i using ctx_color_cong[of c ?col col i] same by auto
  have ng: "\<not> red col g" using rrs(2) red(1) by simp
  have ab: "bh col a m" "bh col b m" "rr col a" "rr col b" "\<not> red_root col a" "\<not> red_root col b"
    using bhs(2) rrs(2) red y2 by auto
  have "rr ?col Z" using T ab rrs red d y2 by (auto simp: Z_def)
  moreover have "bh ?col Z (Suc m)" using T ab bhs red d y2 by (auto simp: Z_def)
  moreover have "ctx_bh ?col c (Suc m)" "ctx_rr ?col c" using C bhs(2) rrs(2) red ng by auto
  moreover have "hangs h3 this c Z" using hg hangs_cong[OF h3(2)] by (simp add: hangs_up Z_def)
  ultimately show ?thesis using h1(1) h2(1) h3 y2 d(4) by (auto simp: Z_def col_def)
qed

text \<open>The last rotation: \<open>y\<close> comes up black over the red \<open>g\<close>.\<close>

lemma last_rotation:
  fixes h c g y
  defines "col \<equiv> (colors h)(g \<mapsto> TRB_RED, y \<mapsto> TRB_BLACK)"
  assumes hg: "hangs h this c (mk s (mk s A y B) g C)" and st: "(q, ds) = hd (stack this c)"
    and dist: "distinct (this # inord (plug c (mk s (mk s A y B) g C)))" and al: "aligned g" "aligned y"
  shows "\<exists>h'. bind_res (set_color g TRB_RED h) (\<lambda>h. bind_res (set_color y TRB_BLACK h) (rotate_up g y s q ds)) = Inr h' \<and>
    hangs h' this c (mk s A y (mk s B g C)) \<and> colors h' = col \<and> entries h' = entries h"
proof -
  have dom: "\<exists>f. links h x = Some f" if "x \<in> {g, y}" for x by (rule hangs_dom[OF hg]) (use that in \<open>auto simp: inord_plug inord_mk\<close>)
  obtain h1 where h1: "set_color g TRB_RED h = Inr h1" "links h1 = links h" "colors h1 = (colors h)(g \<mapsto> TRB_RED)" "entries h1 = entries h"
    using dom[of g] set_color_view[of h g _ TRB_RED] by auto
  obtain h2 where h2: "set_color y TRB_BLACK h1 = Inr h2" "links h2 = links h" "colors h2 = col" "entries h2 = entries h"
    using dom[of y] set_color_view[of h1 y _ TRB_BLACK] h1 by (auto simp: col_def)
  have "hangs h2 this c (mk s (mk s A y B) g C)" using hg hangs_cong[OF h2(2)] by simp
  from rotate_run[OF this st dist al] h1(1) h2 show ?thesis by auto
qed

text \<open>What a rotation hands up: the same data in a subtree with a black root, one black node higher.\<close>

definition lifted :: "('k, 'v) mem \<Rightarrow> ('k, 'v) mem \<Rightarrow> addr \<Rightarrow> ctx \<Rightarrow> ptree \<Rightarrow> nat \<Rightarrow> bool" where
  "lifted h h' this c Z m \<longleftrightarrow> entries h' = entries h \<and> colors h' this = colors h this \<and> hangs h' this c Z \<and>
     rr (colors h') Z \<and> \<not> red_root (colors h') Z \<and> Z \<noteq> Tip \<and> bh (colors h') Z (Suc m) \<and> ctx_bh (colors h') c (Suc m) \<and> ctx_rr (colors h') c"

text \<open>The red node is on the outer side: one rotation.\<close>

lemma rotation_outer:
  fixes X c m h
  defines "col \<equiv> colors h"
  assumes hg: "hangs h this ((p, s, y1) # (g, s, y2) # c) X" and red: "red col p" "\<not> red_root col y2"
    and rrs: "rr col X" "ctx_rr col ((p, s, y1) # (g, s, y2) # c)" and bhs: "bh col X m" "ctx_bh col ((p, s, y1) # (g, s, y2) # c) m"
    and dist: "distinct (this # inord (plug ((p, s, y1) # (g, s, y2) # c) X))" and ap: "aligned g" "aligned p"
    and st: "(q, ds) = hd (stack this c)"
  shows "\<exists>h'. bind_res (set_color g TRB_RED h) (\<lambda>h. bind_res (set_color p TRB_BLACK h) (rotate_up g p s q ds)) = Inr h' \<and>
    lifted h h' this c (mk s X p (mk s y1 g y2)) m"
proof -
  let ?col = "col(g \<mapsto> TRB_RED, p \<mapsto> TRB_BLACK)" and ?Z = "mk s X p (mk s y1 g y2)"
  have ng: "\<not> red col g" "\<not> red_root col y1" using rrs(2) red(1) by simp_all
  have h0: "hangs h this c (mk s (mk s X p y1) g y2)" "distinct (this # inord (plug c (mk s (mk s X p y1) g y2)))"
    using hg dist by (simp_all add: hangs_up)
  obtain h' where h': "bind_res (set_color g TRB_RED h) (\<lambda>h. bind_res (set_color p TRB_BLACK h) (rotate_up g p s q ds)) = Inr h'"
      "hangs h' this c ?Z" "colors h' = ?col" "entries h' = entries h"
    using last_rotation[OF h0(1) st h0(2) ap] by (auto simp: col_def)
  have dd: "p \<noteq> g" "this \<notin> {p, g}" "{p, g} \<inter> (set (inord X) \<union> set (inord y1) \<union> set (inord y2) \<union> set (lft c) \<union> set (rgt c)) = {}"
    using h0(2) by (auto simp: inord_plug inord_mk split: if_splits)
  have same: "?col x = col x" if "x \<in> set (inord X) \<union> set (inord y1) \<union> set (inord y2) \<union> set (lft c) \<union> set (rgt c)" for x
    using that dd(3) by auto
  have T: "bh ?col T i = bh col T i" "rr ?col T = rr col T" "red_root ?col T = red_root col T" if "T \<in> {X, y1, y2}" for T i
    using that same by (auto intro!: color_cong)
  have C: "ctx_bh ?col c i = ctx_bh col c i \<and> ctx_rr ?col c = ctx_rr col c" for i using ctx_color_cong[of c ?col col i] same by auto
  have "rr ?col ?Z" "bh ?col ?Z (Suc m)" using T rrs bhs red ng dd(1) by auto
  then have "lifted h h' this c ?Z m" using h' C bhs(2) rrs(2) red(1) ng dd(2) by (auto simp: lifted_def col_def)
  then show ?thesis using h'(1) by blast
qed

text \<open>The red node is on the inner side: it is rotated to the outer side first.\<close>

lemma inner_to_outer:
  assumes hg: "hangs h this ((p, otherSide s, y1) # (g, s, y2) # c) (mk (otherSide s) A y B)"
    and dist: "distinct (this # inord (plug ((p, otherSide s, y1) # (g, s, y2) # c) (mk (otherSide s) A y B)))" and al: "aligned p" "aligned y"
  shows "\<exists>h1. bind_res (get_link p (otherSide s) h) (\<lambda>y. bind_res (rotate_up p y (otherSide s) g s h) (\<lambda>h. Inr (y, h))) = Inr (y, h1) \<and>
    colors h1 = colors h \<and> entries h1 = entries h \<and> hangs h1 this c (mk s (mk s (mk (otherSide s) B p y1) y A) g y2)"
proof -
  let ?d = "otherSide s"
  have h0: "hangs h this ((g, s, y2) # c) (mk ?d (mk ?d A y B) p y1)" "distinct (this # inord (plug ((g, s, y2) # c) (mk ?d (mk ?d A y B) p y1)))"
    using hg dist by (simp_all add: hangs_up)
  obtain h1 where h1: "rotate_up p y ?d g s h = Inr h1" "colors h1 = colors h" "entries h1 = entries h"
      "hangs h1 this ((g, s, y2) # c) (mk ?d A y (mk ?d B p y1))"
    using rotate_run[OF h0(1) _ h0(2) al, of g s] by auto
  have "node_ok h p ?d (view (bnd ((g, s, y2) # c) ?d) (mk ?d A y B)) (view (bnd ((g, s, y2) # c) (otherSide ?d)) y1)"
    using hg by (simp add: hangs_def)
  then have "get_link p ?d h = Inr y" using get_link_view[of h p _ ?d] by (auto simp: node_ok_def)
  moreover have "hangs h1 this c (mk s (mk s (mk ?d B p y1) y A) g y2)" using h1(4) by (simp add: hangs_up mk_other)
  ultimately show ?thesis using h1 by simp
qed

lemma rotation_inner:
  fixes c m h A B y
  defines "col \<equiv> colors h"
  assumes hg: "hangs h this ((p, otherSide s, y1) # (g, s, y2) # c) (mk (otherSide s) A y B)" and red: "red col p" "\<not> red_root col y2" "red col y"
    and rrs: "rr col (mk (otherSide s) A y B)" "ctx_rr col ((p, otherSide s, y1) # (g, s, y2) # c)"
    and bhs: "bh col (mk (otherSide s) A y B) m" "ctx_bh col ((p, otherSide s, y1) # (g, s, y2) # c) m"
    and dist: "distinct (this # inord (plug ((p, otherSide s, y1) # (g, s, y2) # c) (mk (otherSide s) A y B)))"
    and al: "aligned g" "aligned p" "aligned y" and st: "(q, ds) = hd (stack this c)"
  shows "\<exists>h'. bind_res (bind_res (get_link p (otherSide s) h) (\<lambda>y. bind_res (rotate_up p y (otherSide s) g s h) (\<lambda>h. Inr (y, h)))) (\<lambda>(y, h).
       bind_res (set_color g TRB_RED h) (\<lambda>h. bind_res (set_color y TRB_BLACK h) (rotate_up g y s q ds))) = Inr h' \<and>
    lifted h h' this c (mk s (mk (otherSide s) B p y1) y (mk s A g y2)) m"
proof -
  let ?d = "otherSide s"
  let ?Z = "mk s (mk ?d B p y1) y (mk s A g y2)" and ?col = "col(g \<mapsto> TRB_RED, y \<mapsto> TRB_BLACK)"
  have ng: "\<not> red col g" "\<not> red_root col y1" using rrs(2) red(1) by simp_all
  obtain h1 where h1: "bind_res (get_link p ?d h) (\<lambda>y. bind_res (rotate_up p y ?d g s h) (\<lambda>h. Inr (y, h))) = Inr (y, h1)"
      "colors h1 = col" "entries h1 = entries h" "hangs h1 this c (mk s (mk s (mk ?d B p y1) y A) g y2)"
    using inner_to_outer[OF hg dist al(2,3)] by (auto simp: col_def)
  have "inord (plug c (mk s (mk s (mk ?d B p y1) y A) g y2)) = inord (plug ((p, ?d, y1) # (g, s, y2) # c) (mk ?d A y B))"
    by (cases s) (simp_all add: inord_plug)
  then have "distinct (this # inord (plug c (mk s (mk s (mk ?d B p y1) y A) g y2)))" using dist by simp
  from last_rotation[OF h1(4) st this al(1,3)] obtain h' where
    h': "bind_res (set_color g TRB_RED h1) (\<lambda>h. bind_res (set_color y TRB_BLACK h) (rotate_up g y s q ds)) = Inr h'"
      "hangs h' this c ?Z" "colors h' = ?col" "entries h' = entries h"
    using h1(2,3) by auto
  have dd: "p \<noteq> g" "y \<noteq> g" "p \<noteq> y" "this \<notin> {g, y}"
    "{y, g} \<inter> (set (inord A) \<union> set (inord B) \<union> set (inord y1) \<union> set (inord y2) \<union> set (lft c) \<union> set (rgt c)) = {}"
    using dist by (auto simp: inord_plug inord_mk split: if_splits)
  have same: "?col x = col x" if "x \<in> set (inord A) \<union> set (inord B) \<union> set (inord y1) \<union> set (inord y2) \<union> set (lft c) \<union> set (rgt c)" for x
    using that dd(5) by auto
  have T: "bh ?col T i = bh col T i" "rr ?col T = rr col T" "red_root ?col T = red_root col T" if "T \<in> {A, B, y1, y2}" for T i
    using that same by (auto intro!: color_cong)
  have C: "ctx_bh ?col c i = ctx_bh col c i \<and> ctx_rr ?col c = ctx_rr col c" for i using ctx_color_cong[of c ?col col i] same by auto
  have "\<not> red_root col A" "\<not> red_root col B" "rr col A" "rr col B" "bh col A m" "bh col B m" using red(3) rrs(1) bhs(1) by auto
  then have "rr ?col ?Z" "bh ?col ?Z (Suc m)" using T rrs(2) bhs(2) red ng dd by auto
  then have "lifted h h' this c ?Z m" using h' C bhs(2) rrs(2) red(1) ng dd(4) by (auto simp: lifted_def col_def)
  then show ?thesis using h'(1) h1(1) by auto
qed

lemma rotations_run:
  fixes X c m h
  defines "col \<equiv> colors h"
  assumes hg: "hangs h this ((p, d, y1) # (g, s, y2) # c) X" and red: "red col p" "\<not> red_root col y2" "red_root col X"
    and rrs: "rr col X" "ctx_rr col ((p, d, y1) # (g, s, y2) # c)" and bhs: "bh col X m" "ctx_bh col ((p, d, y1) # (g, s, y2) # c) m"
    and dist: "distinct (this # inord (plug ((p, d, y1) # (g, s, y2) # c) X))"
    and al: "\<forall>x \<in> set (inord (plug ((p, d, y1) # (g, s, y2) # c) X)). aligned x" and st: "(q, ds) = hd (stack this c)"
  shows "\<exists>h' Z. bind_res (if d = s then Inr (p, h)
                 else bind_res (get_link p d h) (\<lambda>y. bind_res (rotate_up p y d g s h) (\<lambda>h. Inr (y, h)))) (\<lambda>(y, h).
       bind_res (set_color g TRB_RED h) (\<lambda>h. bind_res (set_color y TRB_BLACK h) (rotate_up g y s q ds))) = Inr h' \<and>
    lifted h h' this c Z m \<and> inord Z = inord (plug [(p, d, y1), (g, s, y2)] X)"
proof -
  have ap: "aligned g" "aligned p" using al by (auto simp: inord_plug inord_mk)
  show ?thesis
  proof (cases "d = s")
    case True
    have "inord (mk s X p (mk s y1 g y2)) = inord (plug [(p, d, y1), (g, s, y2)] X)" using True by (simp add: inord_mk)
    then show ?thesis
      using rotation_outer[of h this p s y1 g y2 c X m q ds] hg red rrs bhs dist ap st True unfolding col_def by auto
  next
    case False
    then have ds: "d = otherSide s" using side_cases[of d s] by auto
    obtain A y B where X: "X = mk d A y B" using mk_cases[of X d] red(3) by auto
    have ay: "aligned y" "red col y" using al X red(3) by (auto simp: inord_plug inord_mk)
    have "inord (mk s (mk d B p y1) y (mk s A g y2)) = inord (plug [(p, d, y1), (g, s, y2)] X)" using X ds by (cases s; simp)
    then show ?thesis
      using rotation_inner[of h this p s y1 g y2 c A y B m q ds] hg red rrs bhs dist ap ay st False X unfolding col_def ds by auto
  qed
qed

lemma fixup_run:
  assumes "hangs h this c X" and "red_root (colors h) X" and "rr (colors h) X" and "ctx_rr (colors h) c" and "bh (colors h) X m" and "ctx_bh (colors h) c m"
    and "distinct (this # inord (plug c X))" and "\<forall>x \<in> set (inord (plug c X)). aligned x"
  shows "\<exists>h' T'. fixup (stack this c) h = Inr h' \<and> hangs h' this [] T' \<and> inord T' = inord (plug c X) \<and> entries h' = entries h \<and>
    colors h' this = colors h this \<and> half_black (colors h') T'"
  using assms
proof (induction c arbitrary: X h m rule: length_induct)
  case (1 c)
  let ?col = "colors h"
  have X: "X \<noteq> Tip" using 1(3) by auto
  obtain i where i: "bh ?col (plug c X) i" using bh_plug[of ?col c X] 1(6,7) by blast
  have here: ?case if "fixup (stack this c) h = Inr h" "half_black ?col (plug c X)"
    using that 1(2) hangs_plug[of h this c X] by (intro exI[of _ h] exI[of _ "plug c X"]) simp
  consider "c = []" | e where "c = [e]" | p d y1 g s y2 c' where "c = (p, d, y1) # (g, s, y2) # c'"
    by (metis list.exhaust prod_cases3)
  then show ?case
  proof cases
    case 1
    then show ?thesis using here i half_blackI[of ?col X] \<open>rr ?col X\<close> X by simp
  next
    case (2 e)
    obtain p d y1 where e: "e = (p, d, y1)" by (cases e)
    have "half_black ?col (mk d X p y1)" using i 2 e \<open>rr ?col X\<close> \<open>ctx_rr ?col c\<close> by (cases d) (auto simp: half_black_def)
    then show ?thesis using here 2 e by simp
  next
    case (3 p d y1 g s y2 c')
    obtain q ds where st: "(q, ds) = hd (stack this c')" by (cases "hd (stack this c')") auto
    have hg: "hangs h this ((p, d, y1) # (g, s, y2) # c') X" using 1(2) 3 by simp
    have cx: "ctx_rr ?col ((p, d, y1) # (g, s, y2) # c')" "ctx_bh ?col ((p, d, y1) # (g, s, y2) # c') m"
      "distinct (this # inord (plug ((p, d, y1) # (g, s, y2) # c') X))" "\<forall>x \<in> set (inord (plug ((p, d, y1) # (g, s, y2) # c') X)). aligned x"
      using 1(5,7,8,9) 3 by simp_all
    show ?thesis
    proof (cases "red ?col p")
      case False
      obtain q2 d2 st2 where "stack this c' = (q2, d2) # st2" by (cases c') auto
      moreover have "\<exists>x. ?col p = Some x" using hangs_dom[OF hg, of p] by (auto simp: inord_plug inord_mk links_def colors_def)
      then obtain x where "?col p = Some x" "x \<noteq> TRB_RED" using False by auto
      ultimately have "fixup (stack this c) h = Inr h" using 3 get_color_view[of h p x] by simp
      moreover have "rr ?col (plug c X)" using rr_plug[of ?col c X] 1(4,5) False 3 by simp
      ultimately show ?thesis using here half_blackI[OF _ i plug_not_Tip[OF X]] by blast
    next
      case True
      show ?thesis
      proof (cases "red_root ?col y2")
        case r: True
        let ?Z = "mk s (mk d X p y1) g y2"
        obtain h' where h': "bind_res (set_color p TRB_BLACK h) (\<lambda>h. bind_res (set_color (root_or 0 y2) TRB_BLACK h) (\<lambda>h.
            bind_res (set_color g TRB_RED h) (fixup (stack this c')))) = fixup (stack this c') h'" "entries h' = entries h" "colors h' this = ?col this"
            "hangs h' this c' ?Z" "red_root (colors h') ?Z" "rr (colors h') ?Z" "bh (colors h') ?Z (Suc m)" "ctx_bh (colors h') c' (Suc m)" "ctx_rr (colors h') c'"
          using recolor_run[OF hg True r 1(4) cx(1) 1(6) cx(2,3), of "fixup (stack this c')"] by blast
        have "fixup (stack this c) h = fixup (stack this c') h'" using fixup_eq[OF hg True st] r h'(1) 3 by simp
        moreover have "plug c X = plug c' ?Z" "length c' < length c" using 3 by simp_all
        ultimately show ?thesis using 1(1)[rule_format, of c' h' ?Z "Suc m"] h' 1(8,9) by auto
      next
        case False
        obtain h' Z where "fixup (stack this c) h = Inr h'" "lifted h h' this c' Z m" "inord Z = inord (plug [(p, d, y1), (g, s, y2)] X)"
          using rotations_run[OF hg True False 1(3,4) cx(1) 1(6) cx(2-4) st] fixup_eq[OF hg True st] False 3 by auto
        then have h': "fixup (stack this c) h = Inr h'" "entries h' = entries h" "colors h' this = ?col this" "hangs h' this c' Z"
            "inord Z = inord (plug [(p, d, y1), (g, s, y2)] X)" "rr (colors h') Z" "\<not> red_root (colors h') Z" "Z \<noteq> Tip"
            "bh (colors h') Z (Suc m)" "ctx_bh (colors h') c' (Suc m)" "ctx_rr (colors h') c'"
          by (auto simp: lifted_def)
        have "rr (colors h') (plug c' Z)" using rr_plug[of "colors h'" c' Z] h' by simp
        moreover obtain j where "bh (colors h') (plug c' Z) j" using bh_plug[of "colors h'" c' Z] h'(9,10) by blast
        ultimately have "half_black (colors h') (plug c' Z)" using half_blackI plug_not_Tip[OF h'(8)] by blast
        moreover have "inord (plug c' Z) = inord (plug c X)" using h'(5) 3 by (simp add: inord_plug)
        ultimately show ?thesis using h' hangs_plug[of h' this c' Z] by blast
      qed
    qed
  qed
qed

end
