(* ===== verification/Trb_Destroy.thy ===== *)
theory Trb_Destroy
  imports Trb_Insert
begin

text \<open>
  The destructor of the threaded tree: it follows the trails from the least node on and deletes every node once, without
  looking at a node that is deleted.
\<close>

lemma leftmost_run:
  assumes "rep h b T" and "T \<noteq> Tip" and "height T < fuel" and "0 \<notin> set (inord T)"
  shows "leftmost nullable fuel (root_or d T) h = Inr (hd (inord T))"
  using assms
proof (induction T arbitrary: b fuel d)
  case (Bin l p r)
  obtain f where f: "links h p = Some f" "f TRB_LEFT = view (b TRB_LEFT) l" using Bin.prems(1) by (auto simp: node_ok_def)
  obtain fu where fu: "fuel = Suc fu" "height l < fu" using Bin.prems(3) by (cases fuel) auto
  have p: "p \<noteq> 0" "rep h (b(TRB_RIGHT := p)) l" "0 \<notin> set (inord l)" using Bin.prems(1,4) by auto
  have go: "leftmost nullable fuel p h = (if l = Tip then Inr p else leftmost nullable fu (root_or (b TRB_LEFT) l) h)"
    using fu(1) p(1) get_tag_view[OF f(1), of TRB_LEFT] get_link_view[OF f(1), of TRB_LEFT] f(2) by (simp add: view_def)
  have ne: "l \<noteq> Tip \<Longrightarrow> inord l \<noteq> []" by (cases l) auto
  show ?case
  proof (cases "l = Tip")
    case False
    then show ?thesis using go Bin.IH(1)[OF p(2) False fu(2) p(3)] ne by simp
  qed (use go in simp)
qed simp

text \<open>The step to the successor, in a memory that still has the node and those after it.\<close>

definition next_node :: "nat \<Rightarrow> addr \<Rightarrow> ('k, 'v) mem \<Rightarrow> addr res" where
  "next_node fuel p h = bind_res (get_link p TRB_RIGHT h) (\<lambda>n. bind_res (get_trail_tag p TRB_RIGHT h) (\<lambda>t.
     if t = TRB_CHILD then leftmost False fuel n h else Inr n))"

lemma next_node_run:
  assumes "rep h b T" and "inord T = xs @ p # ys" and "\<forall>q \<in> set (p # ys). links h' q = links h q" and "height T < fuel"
    and "0 \<notin> set (inord T)"
  shows "next_node fuel p h' = Inr (hd (ys @ [b TRB_RIGHT]))"
  using assms
proof (induction T arbitrary: b xs ys)
  case (Bin l q r)
  have rp: "rep h (b(TRB_RIGHT := q)) l" "rep h (b(TRB_LEFT := q)) r" using Bin.prems(1) by simp_all
  have lists: "inord l @ q # inord r = xs @ p # ys" using Bin.prems(2) by simp
  then consider zs where "inord l = xs @ p # zs" "ys = zs @ q # inord r" | "xs = inord l" "p = q" "ys = inord r"
    | zs where "inord r = zs @ p # ys"
    by (auto simp: append_eq_append_conv2 append_eq_Cons_conv Cons_eq_append_conv)
  then show ?case
  proof cases
    case (1 zs)
    have "next_node fuel p h' = Inr (hd (zs @ [(b(TRB_RIGHT := q)) TRB_RIGHT]))"
      by (rule Bin.IH(1)[OF rp(1) 1(1)]) (use Bin.prems(3-5) 1(2) in auto)
    then show ?thesis using 1(2) by (cases zs) auto
  next
    case 2
    obtain f where "links h q = Some f" "f TRB_RIGHT = view (b TRB_RIGHT) r" using Bin.prems(1) by (auto simp: node_ok_def)
    then have f: "links h' q = Some f" "f TRB_RIGHT = view (b TRB_RIGHT) r" using Bin.prems(3) 2(2) by auto
    have "rep h' (b(TRB_LEFT := q)) r" using rp(2) rep_cong[of r h' h] Bin.prems(3) 2(3) by auto
    moreover have "r \<noteq> Tip \<Longrightarrow> inord r \<noteq> []" by (cases r) auto
    ultimately show ?thesis using leftmost_run[of h' _ r fuel False "b TRB_RIGHT"] 2 f Bin.prems(4,5)
        get_tag_view[OF f(1), of TRB_RIGHT] get_link_view[OF f(1), of TRB_RIGHT]
      by (auto simp: next_node_def view_def)
  next
    case (3 zs)
    have "next_node fuel p h' = Inr (hd (ys @ [(b(TRB_LEFT := q)) TRB_RIGHT]))"
      by (rule Bin.IH(2)[OF rp(2) 3]) (use Bin.prems(3-5) in auto)
    then show ?thesis by simp
  qed
qed simp

lemma destroy_loop_run:
  assumes "rep h (\<lambda>_. 0) T" and "inord T = xs @ ps" and "\<forall>q \<in> set ps. h' q = h q" and "length ps + height T + 1 < fuel"
    and "0 \<notin> set (inord T)" and "distinct (inord T)"
  shows "destroy_loop fuel (hd (ps @ [0])) h' = Inr (ps, h' |` (- set ps))"
  using assms(2-4)
proof (induction ps arbitrary: xs fuel h')
  case Nil
  then show ?case by (cases fuel) auto
next
  case (Cons p ps)
  obtain fu where fu: "fuel = Suc fu" "length ps + height T + 1 < fu" using Cons.prems(3) by (cases fuel) auto
  have "next_node fu p h' = Inr (hd (ps @ [0]))"
    using next_node_run[OF assms(1) Cons.prems(1), of h' fu] Cons.prems(2) fu(2) assms(5) by (simp add: links_def)
  moreover have "p \<noteq> 0" "p \<notin> set ps" using assms(5,6) Cons.prems(1) by auto
  moreover have "destroy_loop fu (hd (ps @ [0])) (h'(p := None)) = Inr (ps, (h'(p := None)) |` (- set ps))"
    by (rule Cons.IH[of "xs @ [p]"]) (use Cons.prems(1,2) fu(2) \<open>p \<notin> set ps\<close> in auto)
  moreover have "(h'(p := None)) |` (- set ps) = h' |` (- set (p # ps))" by (auto simp: restrict_map_def fun_eq_iff)
  moreover have "destroy_loop fuel p h' = bind_res (next_node fu p h') (\<lambda>n. bind_res (destroy_loop fu n (h'(p := None))) (\<lambda>(ps, h). Inr (p # ps, h)))"
    using \<open>p \<noteq> 0\<close> by (simp add: fu(1) next_node_def bind_res_assoc)
  ultimately show ?case by simp
qed

lemma destroy_tree_run:
  assumes t: "tree_at this T h" and fuel: "2 * length (inord T) + 1 < fuel"
  shows "destroy_tree fuel this h = Inr (inord T, h |` (- set (inord T)))"
proof -
  obtain ob where ob: "node h this = Inr ob" "pLeft ob = root_or 0 T" using t by (auto simp: tree_at_def elim!: tree_root)
  have r: "rep h (\<lambda>_. 0) T" "0 \<notin> set (inord T)" "distinct (inord T)" using t by (auto simp: tree_at_def hangs_def)
  have ht: "height T \<le> length (inord T)" by (induction T) auto
  have "leftmost True fuel (root_or 0 T) h = Inr (hd (inord T @ [0]))"
  proof (cases T)
    case Tip
    then show ?thesis using fuel by (cases fuel) auto
  next
    case (Bin l p q)
    then have "hd (inord T @ [0]) = hd (inord T)" "T \<noteq> Tip" by (simp_all add: hd_append)
    moreover have "height T < fuel" using ht fuel by linarith
    ultimately show ?thesis using leftmost_run[OF r(1) _ _ r(2), of fuel True 0] by simp
  qed
  then show ?thesis using ob destroy_loop_run[OF r(1) _ _ _ r(2,3), of "[]" "inord T" h fuel] ht fuel by (simp add: destroy_tree_def)
qed

end
