(* ===== verification/Trb_Run.thy ===== *)
theory Trb_Run
  imports Trb_Balance Trb_Destroy
begin

text \<open>
  What the threaded tree promises: the fields packed into its words are independent, search finds exactly the keys, insertion
  keeps a threaded red-black search tree, the stack of ancestors suffices, and the destructor deletes every node once.
\<close>

section \<open>Heights\<close>

lemma bh_height:
  assumes "bh col T m" and "rr col T"
  shows "height T \<le> 2 * m + (if red_root col T then 1 else 0) \<and> 2 ^ m \<le> length (inord T) + 1"
  using assms
proof (induction T arbitrary: m)
  case (Bin l p r)
  obtain i where i: "bh col l i" "bh col r i" "m = (if red col p then i else Suc i)" using Bin.prems(1) by auto
  have h: "height l \<le> 2 * i + (if red_root col l then 1 else 0)" "2 ^ i \<le> length (inord l) + 1"
      "height r \<le> 2 * i + (if red_root col r then 1 else 0)" "2 ^ i \<le> length (inord r) + 1"
    using Bin.IH(1)[OF i(1)] Bin.IH(2)[OF i(2)] Bin.prems(2) by auto
  show ?case
  proof (cases "red col p")
    case True
    then show ?thesis using h i(3) Bin.prems(2) by auto
  next
    case False
    have "height l \<le> 2 * i + 1" "height r \<le> 2 * i + 1" using h(1,3) by (auto split: if_splits)
    then show ?thesis using h(2,4) i(3) False by auto
  qed
qed simp

text \<open>The stack of 48 ancestors suffices for 16 million elements.\<close>

lemma red_black_height:
  assumes "red_black col T"
  shows "length (inord T) + 1 < 2 ^ 24 \<Longrightarrow> height T < maxHeight" "length (inord T) + 1 \<le> 2 ^ 24 \<Longrightarrow> height T \<le> maxHeight"
    "2 ^ height T \<le> (length (inord T) + 1)\<^sup>2" "length (inord T) + 1 < 2 ^ 24 \<Longrightarrow> Suc (height T) < maxHeight"
proof -
  obtain m where m: "bh col T m" "rr col T" "\<not> red_root col T" using assms by (auto simp: red_black_def)
  have b: "height T \<le> 2 * m" "2 ^ m \<le> length (inord T) + 1" using bh_height[OF m(1,2)] m(3) by simp_all
  show "Suc (height T) < maxHeight" if "length (inord T) + 1 < 2 ^ 24"
  proof -
    have "(2 :: nat) ^ m < 2 ^ 24" using b(2) that by linarith
    then have "m < 24" by (rule power_less_imp_less_exp[rotated]) simp
    then show ?thesis using b(1) by (simp add: maxHeight_def)
  qed
  then show "height T < maxHeight" if "length (inord T) + 1 < 2 ^ 24" using that by simp
  show "height T \<le> maxHeight" if "length (inord T) + 1 \<le> 2 ^ 24"
  proof -
    have "(2 :: nat) ^ m \<le> 2 ^ 24" using b(2) that by linarith
    then have "m \<le> 24" by (rule power_le_imp_le_exp[rotated]) simp
    then show ?thesis using b(1) by (simp add: maxHeight_def)
  qed
  have "(2 :: nat) ^ height T \<le> 2 ^ (2 * m)" by (rule power_increasing[OF b(1)]) simp
  also have "\<dots> = (2 ^ m)\<^sup>2" by (simp add: power_mult[symmetric] mult.commute)
  also have "\<dots> \<le> (length (inord T) + 1)\<^sup>2" by (rule power_mono[OF b(2)]) simp
  finally show "2 ^ height T \<le> (length (inord T) + 1)\<^sup>2" .
qed

section \<open>Insertion\<close>

lemma blacken_root:
  assumes "half_black (colors h) T" and "hangs h this [] T" and "colors h this = Some TRB_BLACK" and "distinct (this # inord T)"
  shows "\<exists>h'. bind_res (node h this) (\<lambda>ob. set_color (pLeft ob) TRB_BLACK h) = Inr h' \<and> links h' = links h \<and> entries h' = entries h \<and>
    colors h' this = Some TRB_BLACK \<and> red_black (colors h') T"
proof -
  obtain l p r where T: "T = Bin l p r" "rr (colors h) l" "rr (colors h) r" using assms(1) by (auto simp: half_black_def)
  obtain m where m: "bh (colors h) T m" using assms(1) by (auto simp: half_black_def)
  obtain ob where ob: "node h this = Inr ob" "pLeft ob = p" using tree_root[OF assms(2,3)] T(1) by auto
  have "\<exists>f. links h p = Some f" using hangs_dom[OF assms(2), of p] T(1) by simp
  then obtain h' where h': "set_color p TRB_BLACK h = Inr h'" "links h' = links h" "colors h' = (colors h)(p \<mapsto> TRB_BLACK)" "entries h' = entries h"
    using set_color_view[of h p _ TRB_BLACK] by auto
  have s: "(colors h') x = colors h x" if "x \<in> set (inord l) \<union> set (inord r)" for x using that h'(3) assms(4) T(1) by auto
  have l: "bh (colors h') l i = bh (colors h) l i" "rr (colors h') l = rr (colors h) l" for i by (rule color_cong; use s in auto)+
  have r: "bh (colors h') r i = bh (colors h) r i" "rr (colors h') r = rr (colors h) r" for i by (rule color_cong; use s in auto)+
  have "red_black (colors h') T" using T m l r h'(3) by (auto simp: red_black_def)
  then show ?thesis using ob h' assms(3,4) T(1) by auto
qed

lemma sorted_insert:
  assumes "sorted_wrt (<) (map f (xs @ ys))" and "\<forall>q \<in> set xs. f q < k" and "\<forall>q \<in> set ys. k < f q" and "f n = (k :: 'k :: linorder)"
  shows "sorted_wrt (<) (map f (xs @ n # ys))"
  using assms by (auto simp: sorted_wrt_append)

text \<open>The node is attached below the context that the way down ended in, and the colours are restored.\<close>

lemma insert_at:
  fixes k :: "'k :: linorder"
  assumes t: "tree_at this (plug c Tip) h" and rb: "red_black (colors h) (plug c Tip)" and n: "h n = None" "aligned n" "n \<noteq> 0"
    and srt: "sorted_tree h (plug c Tip)" and k: "\<forall>q \<in> set (lft c). key_at_node h q < k" "\<forall>q \<in> set (rgt c). k < key_at_node h q"
  shows "\<exists>h' T'. bind_res (attach_node (c \<noteq> []) n (fst (hd (stack this c))) (snd (hd (stack this c)))
        (h(n \<mapsto> \<lparr>pLeft = 0, pRight = 0, first = k, second = v\<rparr>))) (\<lambda>h. bind_res (fixup (stack this c) h) (\<lambda>h.
      bind_res (node h this) (\<lambda>ob. set_color (pLeft ob) TRB_BLACK h))) = Inr h' \<and>
    tree_at this T' h' \<and> inord T' = lft c @ n # rgt c \<and> entries h' = (entries h)(n \<mapsto> (k, v)) \<and> sorted_tree h' T' \<and> red_black (colors h') T'"
proof -
  have hg: "hangs h this c Tip" using t hangs_plug[of h this c Tip] by (simp add: tree_at_def)
  have d: "distinct (this # lft c @ rgt c)" and al: "\<forall>q \<in> set (lft c @ rgt c). aligned q \<and> q \<noteq> 0" using t by (auto simp: tree_at_def inord_plug)
  have nn: "n \<notin> insert this (set (lft c @ rgt c))" using hangs_dom[OF hg, of n] n(1) by (auto simp: inord_plug links_def)
  obtain h1 where h1: "attach_node (c \<noteq> []) n (fst (hd (stack this c))) (snd (hd (stack this c))) (h(n \<mapsto> \<lparr>pLeft = 0, pRight = 0, first = k, second = v\<rparr>)) = Inr h1"
      "hangs h1 this c (Bin Tip n Tip)" "colors h1 = (colors h)(n \<mapsto> TRB_RED)" "entries h1 = (entries h)(n \<mapsto> (k, v))"
    using attach_run[OF hg _ n(1,2), of "fst (hd (stack this c))" "snd (hd (stack this c))" k v] d al by (auto simp: inord_plug)
  have "ctx_bh (colors h) c 0" "ctx_rr (colors h) c" using rb bh_plug[of "colors h" c Tip] rr_plug[of "colors h" c Tip] by (auto simp: red_black_def)
  moreover have "colors h1 q = colors h q" if "q \<in> set (lft c) \<union> set (rgt c)" for q using that nn h1(3) by auto
  ultimately have cx: "ctx_bh (colors h1) c 0" "ctx_rr (colors h1) c" using ctx_color_cong[of c "colors h1" "colors h" 0] by blast+
  have X: "red_root (colors h1) (Bin Tip n Tip)" "rr (colors h1) (Bin Tip n Tip)" "bh (colors h1) (Bin Tip n Tip) 0" using h1(3) by simp_all
  have dx: "distinct (this # inord (plug c (Bin Tip n Tip)))" "\<forall>x \<in> set (inord (plug c (Bin Tip n Tip))). aligned x" using d nn al n(2) by (auto simp: inord_plug)
  obtain h2 T' where h2: "fixup (stack this c) h1 = Inr h2" "hangs h2 this [] T'" "inord T' = lft c @ n # rgt c" "entries h2 = entries h1"
      "colors h2 this = Some TRB_BLACK" "half_black (colors h2) T'"
    using fixup_run[OF h1(2) X(1,2) cx(2) X(3) cx(1) dx] h1(3) nn t by (auto simp: inord_plug tree_at_def)
  have dT: "distinct (this # inord T')" using dx(1) h2(3) by (simp add: inord_plug)
  obtain h3 where h3: "bind_res (node h2 this) (\<lambda>ob. set_color (pLeft ob) TRB_BLACK h2) = Inr h3" "links h3 = links h2" "entries h3 = entries h2"
      "colors h3 this = Some TRB_BLACK" "red_black (colors h3) T'"
    using blacken_root[OF h2(6,2,5) dT] by blast
  have e: "entries h3 = (entries h)(n \<mapsto> (k, v))" using h3(3) h2(4) h1(4) by simp
  have key: "key_at_node h3 q = (if q = n then k else key_at_node h q)" for q by (simp add: key_at_node_def e)
  have m: "map (key_at_node h3) (lft c @ rgt c) = map (key_at_node h) (lft c @ rgt c)" by (rule map_cong) (use nn key in auto)
  have "sorted_wrt (<) (map (key_at_node h3) (lft c @ rgt c))" unfolding m using srt by (simp add: sorted_tree_def inord_plug)
  then have "sorted_tree h3 T'" unfolding sorted_tree_def h2(3)
    by (rule sorted_insert) (use k nn key in auto)
  moreover have "tree_at this T' h3" using h2(2) hangs_cong[OF h3(2)] h3(4) dT h2(3) al n by (auto simp: tree_at_def)
  ultimately show ?thesis using h1(1) h2(1,3) h3(1,5) e by (intro exI[of _ h3] exI[of _ T']) simp
qed

lemma try_insert_run:
  fixes k :: "'k :: linorder"
  assumes t: "tree_at this T h" and srt: "sorted_tree h T" and rb: "red_black (colors h) T" and fuel: "height T \<le> fuel" and hT: "height T < maxHeight"
    and n: "h n = None" "aligned n" "n \<noteq> 0"
  shows "if \<exists>q \<in> set (inord T). key_at_node h q = k
    then \<exists>q \<in> set (inord T). key_at_node h q = k \<and> try_insert fuel (<) k v n this num h = Inr (q, num, h)
    else \<exists>h' T' xs ys. try_insert fuel (<) k v n this num h = Inr (n, (num + 1) mod 2 ^ 64, h') \<and> tree_at this T' h' \<and>
      inord T = xs @ ys \<and> inord T' = xs @ n # ys \<and> entries h' = (entries h)(n \<mapsto> (k, v)) \<and> sorted_tree h' T' \<and> red_black (colors h') T'"
proof -
  have hg: "hangs h this [] T" and cb: "colors h this = Some TRB_BLACK" using t by (simp_all add: tree_at_def)
  obtain ob where ob: "node h this = Inr ob" "pLeft ob = root_or 0 T" by (rule tree_root[OF hg cb])
  have fin: "\<exists>h' T' xs ys. try_insert fuel (<) k v n this num h = Inr (n, (num + 1) mod 2 ^ 64, h') \<and> tree_at this T' h' \<and>
      inord T = xs @ ys \<and> inord T' = xs @ n # ys \<and> entries h' = (entries h)(n \<mapsto> (k, v)) \<and> sorted_tree h' T' \<and> red_black (colors h') T'"
    if c: "plug c Tip = T" "\<forall>q \<in> set (lft c). key_at_node h q < k" "\<forall>q \<in> set (rgt c). k < key_at_node h q"
      and st: "(if root_or 0 T \<noteq> 0 then descend fuel (<) k (root_or 0 T) [(this, TRB_LEFT)] h else Inr (None, [(this, TRB_LEFT)])) = Inr (None, stack this c)" for c
  proof -
    have ne: "(root_or 0 T \<noteq> 0) = (c \<noteq> [])"
    proof (cases "T = Tip")
      case True
      then show ?thesis using c(1) by (cases c) (auto dest: arg_cong[of _ _ inord] simp: inord_plug inord_mk split: if_splits)
    next
      case False
      then show ?thesis using c(1) root_zero[OF t] by auto
    qed
    obtain h' T' where r: "bind_res (attach_node (c \<noteq> []) n (fst (hd (stack this c))) (snd (hd (stack this c)))
        (h(n \<mapsto> \<lparr>pLeft = 0, pRight = 0, first = k, second = v\<rparr>))) (\<lambda>h. bind_res (fixup (stack this c) h) (\<lambda>h.
        bind_res (node h this) (\<lambda>ob. set_color (pLeft ob) TRB_BLACK h))) = Inr h'"
      "tree_at this T' h'" "inord T' = lft c @ n # rgt c" "entries h' = (entries h)(n \<mapsto> (k, v))" "sorted_tree h' T'" "red_black (colors h') T'"
      using insert_at[of this c h n k v] t srt rb n c by auto
    have "try_insert fuel (<) k v n this num h = bind_res (bind_res (attach_node (c \<noteq> []) n (fst (hd (stack this c))) (snd (hd (stack this c)))
        (h(n \<mapsto> \<lparr>pLeft = 0, pRight = 0, first = k, second = v\<rparr>))) (\<lambda>h. bind_res (fixup (stack this c) h) (\<lambda>h.
        bind_res (node h this) (\<lambda>ob. set_color (pLeft ob) TRB_BLACK h)))) (\<lambda>h. Inr (n, (num + 1) mod 2 ^ 64, h))"
      unfolding try_insert_def ob(1) bind_res_simps Let_def ob(2) st by (simp only: ne bind_res_simps prod.case option.case bind_res_assoc)
    then have "try_insert fuel (<) k v n this num h = Inr (n, (num + 1) mod 2 ^ 64, h')" using r(1) by simp
    moreover have "inord T = lft c @ rgt c" using c(1) by (auto simp: inord_plug)
    ultimately show ?thesis using r(2-6) by blast
  qed
  show ?thesis
  proof (cases "T = Tip")
    case True
    then show ?thesis using fin[of "[]"] by simp
  next
    case False
    have rz: "root_or 0 T \<noteq> 0" using root_zero[OF t] False by simp
    have "rep h (bnd []) T" using hg by (simp add: hangs_def)
    from descend_run[OF this srt False fuel, of k this] hT
    consider q st where "descend fuel (<) k (root_or 0 T) [(this, TRB_LEFT)] h = Inr (Some q, st)" "q \<in> set (inord T)" "key_at_node h q = k"
      | c where "descend fuel (<) k (root_or 0 T) [(this, TRB_LEFT)] h = Inr (None, stack this c)" "plug c Tip = T"
        "\<forall>q \<in> set (lft c). key_at_node h q < k" "\<forall>q \<in> set (rgt c). k < key_at_node h q" by auto
    then show ?thesis
    proof cases
      case (1 q st)
      then have "try_insert fuel (<) k v n this num h = Inr (q, num, h)" using ob rz by (simp add: try_insert_def)
      then show ?thesis using 1 by auto
    next
      case (2 c)
      then have "inord T = lft c @ rgt c" by (auto simp: inord_plug)
      then have "\<not> (\<exists>q \<in> set (inord T). key_at_node h q = k)" using 2(3,4) by auto
      then show ?thesis using fin[OF 2(2-4)] 2(1) rz by simp
    qed
  qed
qed

end
