(* ===== verification/Trb_Map.thy ===== *)
theory Trb_Map
  imports Trb_Run
begin

text \<open>
  The threaded tree as a map: the keys with their values that a well-formed tree holds, what search and insertion do to them,
  and the laws of a store of keys that follow.
\<close>

section \<open>Well-formed trees and their contents\<close>

definition wf_tree :: "addr \<Rightarrow> ptree \<Rightarrow> ('k :: linorder, 'v) mem \<Rightarrow> bool" where
  "wf_tree this T h \<longleftrightarrow> tree_at this T h \<and> sorted_tree h T \<and> red_black (colors h) T"

definition tree_contents :: "('k, 'v) mem \<Rightarrow> ptree \<Rightarrow> 'k \<rightharpoonup> 'v" where
  "tree_contents h T = map_of (map (\<lambda>p. the (entries h p)) (inord T))"

lemma tree_entries: "tree_at this T h \<Longrightarrow> q \<in> set (inord T) \<Longrightarrow> entries h q = Some (the (entries h q))"
  using hangs_dom[of h this "[]" T q] by (auto simp: tree_at_def links_def entries_def)

lemma distinct_keys: "sorted_tree h T \<Longrightarrow> distinct (map fst (map (\<lambda>p. the (entries h p)) (inord T)))"
  by (simp add: sorted_tree_def strict_sorted_iff key_at_node_def[abs_def] comp_def)

lemma contents_iff:
  assumes "tree_at this T h" and "sorted_tree h T"
  shows "tree_contents h T k = Some v \<longleftrightarrow> (\<exists>q \<in> set (inord T). entries h q = Some (k, v))"
proof -
  have "tree_contents h T k = Some v \<longleftrightarrow> (\<exists>q \<in> set (inord T). the (entries h q) = (k, v))"
    unfolding tree_contents_def map_of_eq_Some_iff[OF distinct_keys[OF assms(2)]] by (auto simp: image_iff eq_commute[of "(k, v)"])
  then show ?thesis using tree_entries[OF assms(1)] by (metis option.sel)
qed

lemma contents_key: "k \<in> dom (tree_contents h T) \<longleftrightarrow> (\<exists>q \<in> set (inord T). key_at_node h q = k)"
  by (auto simp: tree_contents_def dom_map_of_conv_image_fst image_image key_at_node_def)

lemma card_contents: "sorted_tree h T \<Longrightarrow> card (dom (tree_contents h T)) = length (inord T)"
  using distinct_card[OF distinct_keys[of h T]] by (simp add: tree_contents_def dom_map_of_conv_image_fst image_image)

lemma contents_insert:
  assumes "inord T = xs @ ys" and "inord T' = xs @ n # ys" and "entries h' = (entries h)(n \<mapsto> (k, v))" and "n \<notin> set (inord T)"
    and "k \<notin> dom (tree_contents h T)"
  shows "tree_contents h' T' = (tree_contents h T)(k \<mapsto> v)"
proof -
  let ?e = "\<lambda>p. the (entries h p)"
  have m: "map (\<lambda>p. the (entries h' p)) xs = map ?e xs" "map (\<lambda>p. the (entries h' p)) ys = map ?e ys" "the (entries h' n) = (k, v)"
    using assms(1,3,4) by auto
  have "tree_contents h' T' = (map_of (map ?e ys))(k \<mapsto> v) ++ map_of (map ?e xs)"
    unfolding tree_contents_def assms(2) map_append list.map m by simp
  moreover have "tree_contents h T = map_of (map ?e ys) ++ map_of (map ?e xs)" using assms(1) by (simp add: tree_contents_def)
  moreover have "k \<notin> dom (map_of (map ?e xs))" using assms(5) calculation(2) by auto
  ultimately show ?thesis by (simp add: map_add_upd_left)
qed

section \<open>Search and insertion\<close>

text \<open>What a caller of \<open>try_find\<close> reads.\<close>

definition tree_get :: "nat \<Rightarrow> addr \<Rightarrow> 'k :: linorder \<Rightarrow> ('k, 'v) mem \<Rightarrow> 'v option res" where
  "tree_get fuel this k h = bind_res (try_find fuel (<) k this h) (\<lambda>r. if r = 0 then Inr None else bind_res (node h r) (\<lambda>n. Inr (Some (second n))))"

lemma find_contents:
  assumes "wf_tree this T h" and "height T \<le> fuel"
  shows "case tree_contents h T k of None \<Rightarrow> try_find fuel (<) k this h = Inr 0
    | Some v \<Rightarrow> \<exists>r \<in> set (inord T). r \<noteq> 0 \<and> try_find fuel (<) k this h = Inr r \<and> entries h r = Some (k, v)"
proof -
  have t: "tree_at this T h" "sorted_tree h T" using assms(1) by (simp_all add: wf_tree_def)
  obtain r where r: "try_find fuel (<) k this h = Inr r"
      "if \<exists>q \<in> set (inord T). key_at_node h q = k then r \<in> set (inord T) \<and> key_at_node h r = k else r = 0"
    using try_find_run[OF t assms(2)] by blast
  show ?thesis
  proof (cases "tree_contents h T k")
    case None
    then show ?thesis using r contents_key[of k h T] by (auto split: if_splits)
  next
    case (Some v)
    then have m: "r \<in> set (inord T)" "key_at_node h r = k" using r(2) contents_key[of k h T] by (auto split: if_splits)
    obtain v' where v': "entries h r = Some (k, v')" using tree_entries[OF t(1) m(1)] m(2) by (cases "the (entries h r)") (auto simp: key_at_node_def)
    then have "tree_contents h T k = Some v'" using contents_iff[OF t] m(1) by blast
    then show ?thesis using Some r(1) m(1) v' t(1) by (auto simp: tree_at_def)
  qed
qed

lemma get_contents:
  assumes "wf_tree this T h" and "height T \<le> fuel"
  shows "tree_get fuel this k h = Inr (tree_contents h T k)"
  using find_contents[OF assms, of k] by (auto simp: tree_get_def node_def entries_def split: option.splits)

lemma insert_contents:
  assumes wf: "wf_tree this T h" and fuel: "height T \<le> fuel" and "height T < maxHeight" and n: "h n = None" "aligned n" "n \<noteq> 0"
  shows "if k \<in> dom (tree_contents h T)
    then \<exists>q \<in> set (inord T). key_at_node h q = k \<and> try_insert fuel (<) k v n this num h = Inr (q, num, h)
    else \<exists>h' T'. try_insert fuel (<) k v n this num h = Inr (n, (num + 1) mod 2 ^ 64, h') \<and> wf_tree this T' h' \<and>
      set (inord T') = insert n (set (inord T)) \<and> length (inord T') = Suc (length (inord T)) \<and>
      tree_contents h' T' = (tree_contents h T)(k \<mapsto> v) \<and> entries h' = (entries h)(n \<mapsto> (k, v))"
proof -
  have t: "tree_at this T h" "sorted_tree h T" "red_black (colors h) T" using wf by (simp_all add: wf_tree_def)
  note run = try_insert_run[OF t fuel assms(3) n, of k v num]
  have nn: "n \<notin> set (inord T)" using tree_entries[OF t(1), of n] n(1) by (auto simp: entries_def)
  show ?thesis
  proof (cases "k \<in> dom (tree_contents h T)")
    case True
    then show ?thesis using run contents_key[of k h T] by simp
  next
    case False
    then have "\<not> (\<exists>q \<in> set (inord T). key_at_node h q = k)" using contents_key[of k h T] by simp
    from run[unfolded if_not_P[OF this]] obtain h' T' xs ys where r: "try_insert fuel (<) k v n this num h = Inr (n, (num + 1) mod 2 ^ 64, h')" "tree_at this T' h'"
        "inord T = xs @ ys" "inord T' = xs @ n # ys" "entries h' = (entries h)(n \<mapsto> (k, v))" "sorted_tree h' T'" "red_black (colors h') T'"
      by blast
    have "tree_contents h' T' = (tree_contents h T)(k \<mapsto> v)" by (rule contents_insert[OF r(3-5) nn False])
    moreover have "wf_tree this T' h'" using r(2,6,7) by (simp add: wf_tree_def)
    moreover have "set (inord T') = insert n (set (inord T))" "length (inord T') = Suc (length (inord T))" using r(3,4) by auto
    ultimately show ?thesis unfolding if_not_P[OF False] using r(1,5) by blast
  qed
qed

section \<open>Stores of keys\<close>

text \<open>
  What a store promises that keeps the first value of every key: each \<open>put\<close> takes a fresh cell, and there is room for
  \<open>room\<close> keys.
\<close>

locale keyed_store =
  fixes models :: "'s \<Rightarrow> ('k \<rightharpoonup> 'v) \<Rightarrow> bool"
    and fresh :: "'a \<Rightarrow> 's \<Rightarrow> bool"
    and room :: nat
    and put :: "'a \<times> 'k \<times> 'v \<Rightarrow> 's \<Rightarrow> 's res"
    and get :: "'k \<Rightarrow> 's \<Rightarrow> 'v option res"
  assumes get_models: "models s m \<Longrightarrow> get k s = Inr (m k)"
    and finite_models: "models s m \<Longrightarrow> finite (dom m)"
    and put_models: "models s m \<Longrightarrow> fresh a s \<Longrightarrow> card (dom m) < room \<Longrightarrow>
      \<exists>s'. put (a, k, v) s = Inr s' \<and> models s' (if k \<in> dom m then m else m(k \<mapsto> v)) \<and> (\<forall>b. b \<noteq> a \<longrightarrow> fresh b s \<longrightarrow> fresh b s')"
begin

lemma put_all_models:
  assumes "models s m" and "distinct (map fst es)" and "\<forall>a \<in> set (map fst es). fresh a s" and "card (dom m) + length es \<le> room"
  shows "\<exists>s'. fold_res put es s = Inr s' \<and> models s' (map_of (map snd es) ++ m)"
  using assms
proof (induction es arbitrary: s m)
  case (Cons e es)
  obtain a k v where e: "e = (a, k, v)" by (cases e)
  let ?m = "if k \<in> dom m then m else m(k \<mapsto> v)"
  obtain s' where s': "put (a, k, v) s = Inr s'" "models s' ?m" "\<forall>b. b \<noteq> a \<longrightarrow> fresh b s \<longrightarrow> fresh b s'"
    using put_models[of s m a k v] Cons.prems e by auto
  have "card (dom ?m) \<le> Suc (card (dom m))" using finite_models[OF Cons.prems(1)] by (auto simp: card_insert_if)
  then have c: "card (dom ?m) + length es \<le> room" using Cons.prems(4) by simp
  have f: "distinct (map fst es)" "\<forall>b \<in> set (map fst es). fresh b s'" using Cons.prems(2,3) s'(3) e by auto
  have "map_of (map snd es) ++ ?m = map_of (map snd (e # es)) ++ m" using e by (auto simp: fun_eq_iff map_add_def split: option.splits)
  moreover have "fold_res put (e # es) s = fold_res put es s'" by (simp add: e s'(1))
  ultimately show ?case using Cons.IH[OF s'(2) f c] by (simp only:)
qed simp

theorem put_all_get:
  assumes "models s m" and "distinct (map fst es)" and "\<forall>a \<in> set (map fst es). fresh a s" and "card (dom m) + length es \<le> room"
  shows "\<exists>s'. fold_res put es s = Inr s' \<and> (\<forall>k. get k s' = Inr ((map_of (map snd es) ++ m) k))"
  using put_all_models[OF assms] get_models by blast

end

text \<open>The threaded tree is one, with the number of elements as the code counts them.\<close>

definition tree_models :: "addr \<Rightarrow> nat \<times> ('k :: linorder, 'v) mem \<Rightarrow> ('k \<rightharpoonup> 'v) \<Rightarrow> bool" where
  "tree_models this s m \<longleftrightarrow> (\<exists>T. wf_tree this T (snd s) \<and> tree_contents (snd s) T = m \<and> fst s = length (inord T) \<and> length (inord T) < 2 ^ 24)"

definition tree_fresh :: "addr \<Rightarrow> nat \<times> ('k, 'v) mem \<Rightarrow> bool" where
  "tree_fresh n s \<longleftrightarrow> snd s n = None \<and> aligned n \<and> n \<noteq> 0"

definition tree_put :: "addr \<Rightarrow> addr \<times> 'k :: linorder \<times> 'v \<Rightarrow> nat \<times> ('k, 'v) mem \<Rightarrow> (nat \<times> ('k, 'v) mem) res" where
  "tree_put this e s = (case e of (n, k, v) \<Rightarrow>
     bind_res (try_insert maxHeight (<) k v n this (fst s) (snd s)) (\<lambda>(p, num, h). Inr (num, h)))"

lemma tree_get_models:
  assumes "tree_models this s m"
  shows "tree_get maxHeight this k (snd s) = Inr (m k)"
proof -
  obtain T where T: "wf_tree this T (snd s)" "tree_contents (snd s) T = m" "length (inord T) + 1 \<le> 2 ^ 24" using assms by (auto simp: tree_models_def)
  then have "height T \<le> maxHeight" using red_black_height(2)[of "colors (snd s)" T] by (simp add: wf_tree_def)
  then show ?thesis using get_contents[OF T(1)] T(2) by simp
qed

lemma tree_put_run:
  assumes "tree_models this s m" and "tree_fresh n s" and "card (dom m) < 2 ^ 24 - 1"
  shows "\<exists>s'. tree_put this (n, k, v) s = Inr s' \<and> tree_models this s' (if k \<in> dom m then m else m(k \<mapsto> v)) \<and>
    (\<forall>b. b \<noteq> n \<longrightarrow> tree_fresh b s \<longrightarrow> tree_fresh b s') \<and> (\<forall>b. b \<noteq> n \<longrightarrow> entries (snd s') b = entries (snd s) b)"
proof -
  obtain T where T: "wf_tree this T (snd s)" "tree_contents (snd s) T = m" "fst s = length (inord T)" using assms(1) by (auto simp: tree_models_def)
  have l: "length (inord T) + 1 < 2 ^ 24" using card_contents[of "snd s" T] T assms(3) by (simp add: wf_tree_def)
  then have ht: "height T < maxHeight" using red_black_height(1)[of "colors (snd s)" T] T(1) by (simp add: wf_tree_def)
  note run = insert_contents[OF T(1) less_imp_le[OF ht] ht, of n k v "fst s"]
  have n: "snd s n = None" "aligned n" "n \<noteq> 0" using assms(2) by (simp_all add: tree_fresh_def)
  show ?thesis
  proof (cases "k \<in> dom m")
    case True
    then have "tree_put this (n, k, v) s = Inr s" using run[OF n] T(2) by (auto simp: tree_put_def)
    then show ?thesis using True assms(1) by auto
  next
    case False
    then have "k \<notin> dom (tree_contents (snd s) T)" using T(2) by simp
    from run[OF n, unfolded if_not_P[OF this]] obtain h' T' where
      r: "try_insert maxHeight (<) k v n this (fst s) (snd s) = Inr (n, (fst s + 1) mod 2 ^ 64, h')" "wf_tree this T' h'"
        "length (inord T') = Suc (length (inord T))" "tree_contents h' T' = (tree_contents (snd s) T)(k \<mapsto> v)" "entries h' = (entries (snd s))(n \<mapsto> (k, v))" by blast
    have "(fst s + 1) mod 2 ^ 64 = length (inord T')" using l T(3) r(3) by simp
    then have "tree_put this (n, k, v) s = Inr (length (inord T'), h')" using r(1) by (simp add: tree_put_def)
    moreover have "tree_models this (length (inord T'), h') (m(k \<mapsto> v))" using r(2-4) T(2) l by (auto simp: tree_models_def)
    moreover have "tree_fresh b (length (inord T'), h')" if "b \<noteq> n" "tree_fresh b s" for b
      using that r(5) links_dom(3)[of h' b] links_dom(3)[of "snd s" b] by (simp add: tree_fresh_def)
    moreover have "entries h' b = entries (snd s) b" if "b \<noteq> n" for b using that r(5) by simp
    ultimately show ?thesis using False by auto
  qed
qed

lemma tree_put_models:
  assumes "tree_models this s m" and "tree_fresh n s" and "card (dom m) < 2 ^ 24 - 1"
  shows "\<exists>s'. tree_put this (n, k, v) s = Inr s' \<and> tree_models this s' (if k \<in> dom m then m else m(k \<mapsto> v)) \<and>
    (\<forall>b. b \<noteq> n \<longrightarrow> tree_fresh b s \<longrightarrow> tree_fresh b s')"
  using tree_put_run[OF assms, of k v] by blast

lemma tree_finite_models: "tree_models this s m \<Longrightarrow> finite (dom m)"
  by (auto simp: tree_models_def tree_contents_def finite_dom_map_of)

interpretation trb: keyed_store "tree_models this" tree_fresh "2 ^ 24 - 1" "tree_put this" "\<lambda>k s. tree_get maxHeight this k (snd s)"
  for this :: addr
  by unfold_locales (fact tree_get_models tree_finite_models tree_put_models)+

end
