(* ===== verification/Trb_Remove.thy ===== *)
theory Trb_Remove
  imports Trb_Tree
begin

text \<open>
  Removal from the threaded tree (\<open>try_remove\<close>). The search starts at the tree object, which it takes for a node: what lies where
  a node has its key decides the first step.
\<close>

section \<open>Finding the node\<close>

fun remove_search ::
    "nat \<Rightarrow> ('k \<Rightarrow> 'k \<Rightarrow> bool) \<Rightarrow> 'k \<Rightarrow> addr \<Rightarrow> (addr \<times> TRBTreeNodeChildSide) list \<Rightarrow> ('k, 'v) mem \<Rightarrow>
     (addr option \<times> (addr \<times> TRBTreeNodeChildSide) list) res" where
  "remove_search 0 lt key p st h = Inl Spins"
| "remove_search (Suc fuel) lt key p st h =
     bind_res (node h p) (\<lambda>n.
       let itemLessThan = lt key (first n); itemGreaterThan = lt (first n) key in
       if itemLessThan \<or> itemGreaterThan then
         if maxHeight \<le> length st then Inl OutOfBounds
         else
           let dir = (if itemLessThan then TRB_LEFT else TRB_RIGHT); st = (p, dir) # st in
           if tag_of dir n = TRB_TRAIL then Inr (None, st) else remove_search fuel lt key (link_of dir n) st h
       else Inr (Some p, st))"

section \<open>Unlinking it\<close>

fun rightmost :: "nat \<Rightarrow> addr \<Rightarrow> ('k, 'v) mem \<Rightarrow> addr res" where
  "rightmost 0 t h = Inl Spins"
| "rightmost (Suc fuel) t h =
     bind_res (get_trail_tag t TRB_RIGHT h) (\<lambda>g.
     if g = TRB_CHILD then bind_res (get_link t TRB_RIGHT h) (\<lambda>t. rightmost fuel t h) else Inr t)"

text \<open>The node has no right child; \<open>q\<close> is its parent.\<close>

definition unlink_outer :: "nat \<Rightarrow> addr \<Rightarrow> addr \<Rightarrow> addr \<Rightarrow> TRBTreeNodeChildSide \<Rightarrow> ('k, 'v) mem \<Rightarrow> ('k, 'v) mem res" where
  "unlink_outer fuel this p q ds h =
     bind_res (get_trail_tag p TRB_LEFT h) (\<lambda>g.
     if g = TRB_CHILD then
       bind_res (get_link p TRB_LEFT h) (\<lambda>t.
       bind_res (rightmost fuel t h) (\<lambda>t.
       bind_res (get_link p TRB_RIGHT h) (\<lambda>r.
       bind_res (set_link t r TRB_RIGHT TRB_TAG_MAX h) (\<lambda>h.
       bind_res (get_link p TRB_LEFT h) (\<lambda>l.
       set_link q l ds TRB_TAG_MAX h)))))
     else
       bind_res (get_link p ds h) (\<lambda>l.
       bind_res (set_link q l ds TRB_TAG_MAX h) (\<lambda>h.
       if q \<noteq> this then set_trail_tag q ds TRB_TRAIL h else Inr h)))"

text \<open>The node that takes its place also takes its colour.\<close>

definition swap_colors :: "addr \<Rightarrow> addr \<Rightarrow> ('k, 'v) mem \<Rightarrow> ('k, 'v) mem res" where
  "swap_colors p r h =
     bind_res (get_color r h) (\<lambda>t.
     bind_res (get_color p h) (\<lambda>c.
     bind_res (set_color r c h)
     (set_color p t)))"

text \<open>The right child \<open>r\<close> is the successor.\<close>

definition unlink_next :: "nat \<Rightarrow> addr \<Rightarrow> addr \<Rightarrow> addr \<Rightarrow> TRBTreeNodeChildSide \<Rightarrow> ('k, 'v) mem \<Rightarrow> ('k, 'v) mem res" where
  "unlink_next fuel p r q ds h =
     bind_res (get_link p TRB_LEFT h) (\<lambda>l.
     bind_res (set_link r l TRB_LEFT TRB_TAG_MAX h) (\<lambda>h.
     bind_res (get_trail_tag p TRB_LEFT h) (\<lambda>g.
     bind_res (set_trail_tag r TRB_LEFT g h) (\<lambda>h.
     bind_res (get_trail_tag r TRB_LEFT h) (\<lambda>g.
     bind_res (if g = TRB_CHILD
               then bind_res (get_link r TRB_LEFT h) (\<lambda>t.
                    bind_res (rightmost fuel t h) (\<lambda>t.
                    set_link t r TRB_RIGHT TRB_TAG_MAX h))
               else Inr h) (\<lambda>h.
     bind_res (set_link q r ds TRB_TAG_MAX h)
     (swap_colors p r)))))))"

text \<open>
  The successor \<open>s\<close> is further down to the left, below the parent \<open>r\<close> that the way ends with. \<open>k\<close> is where the
  stack is written; the entry of \<open>s\<close> below the way is filled in at the end.
\<close>

fun left_path :: "nat \<Rightarrow> nat \<Rightarrow> addr \<Rightarrow> (addr \<times> TRBTreeNodeChildSide) list \<Rightarrow> ('k, 'v) mem \<Rightarrow>
     (addr \<times> addr \<times> (addr \<times> TRBTreeNodeChildSide) list) res" where
  "left_path 0 k r rs h = Inl Spins"
| "left_path (Suc fuel) k r rs h =
     (if maxHeight \<le> k then Inl OutOfBounds
      else bind_res (get_link r TRB_LEFT h) (\<lambda>s.
           bind_res (get_trail_tag s TRB_LEFT h) (\<lambda>g.
           if g = TRB_TRAIL then Inr (s, r, (r, TRB_LEFT) # rs) else left_path fuel (Suc k) s ((r, TRB_LEFT) # rs) h)))"

text \<open>The right child of \<open>s\<close>, or a trail to \<open>s\<close>, takes its place below \<open>r\<close>.\<close>

definition detach_min :: "addr \<Rightarrow> addr \<Rightarrow> ('k, 'v) mem \<Rightarrow> ('k, 'v) mem res" where
  "detach_min s r h =
     bind_res (get_trail_tag s TRB_RIGHT h) (\<lambda>g.
     if g = TRB_CHILD then bind_res (get_link s TRB_RIGHT h) (\<lambda>l. set_link r l TRB_LEFT TRB_TAG_MAX h)
     else bind_res (set_link r s TRB_LEFT TRB_TAG_MAX h) (set_trail_tag r TRB_LEFT TRB_TRAIL))"

text \<open>The left subtree of \<open>p\<close> goes to \<open>s\<close>.\<close>

definition adopt_left :: "nat \<Rightarrow> addr \<Rightarrow> addr \<Rightarrow> ('k, 'v) mem \<Rightarrow> ('k, 'v) mem res" where
  "adopt_left fuel p s h =
     bind_res (get_link p TRB_LEFT h) (\<lambda>l.
     bind_res (set_link s l TRB_LEFT TRB_TAG_MAX h) (\<lambda>h.
     bind_res (get_trail_tag p TRB_LEFT h) (\<lambda>g.
     if g = TRB_CHILD then
       bind_res (get_link p TRB_LEFT h) (\<lambda>t.
       bind_res (rightmost fuel t h) (\<lambda>t.
       bind_res (set_link t s TRB_RIGHT TRB_TAG_MAX h)
       (set_trail_tag s TRB_LEFT TRB_CHILD)))
     else Inr h)))"

definition unlink_far :: "nat \<Rightarrow> addr \<Rightarrow> addr \<Rightarrow> addr \<Rightarrow> addr \<Rightarrow> TRBTreeNodeChildSide \<Rightarrow> ('k, 'v) mem \<Rightarrow> ('k, 'v) mem res" where
  "unlink_far fuel p s r q ds h =
     bind_res (detach_min s r h) (\<lambda>h.
     bind_res (adopt_left fuel p s h) (\<lambda>h.
     bind_res (get_link p TRB_RIGHT h) (\<lambda>l.
     bind_res (set_link s l TRB_RIGHT TRB_TAG_MAX h) (\<lambda>h.
     bind_res (set_trail_tag s TRB_RIGHT TRB_CHILD h) (\<lambda>h.
     bind_res (swap_colors p s h)
     (set_link q s ds TRB_TAG_MAX))))))"

text \<open>The node \<open>p\<close> with the stack \<open>st\<close>; the stack then leads to what took the place of the removed position.\<close>

definition unlink_node ::
    "nat \<Rightarrow> addr \<Rightarrow> addr \<Rightarrow> (addr \<times> TRBTreeNodeChildSide) list \<Rightarrow> ('k, 'v) mem \<Rightarrow>
     ((addr \<times> TRBTreeNodeChildSide) list \<times> ('k, 'v) mem) res" where
  "unlink_node fuel this p st h =
     (case st of
        [] \<Rightarrow> Inl OutOfBounds
      | (q, ds) # _ \<Rightarrow>
          bind_res (get_trail_tag p TRB_RIGHT h) (\<lambda>g.
          if g = TRB_TRAIL then bind_res (unlink_outer fuel this p q ds h) (\<lambda>h. Inr (st, h))
          else
            bind_res (get_link p TRB_RIGHT h) (\<lambda>r.
            bind_res (get_trail_tag r TRB_LEFT h) (\<lambda>g.
            if g = TRB_TRAIL then
              bind_res (unlink_next fuel p r q ds h) (\<lambda>h.
              if maxHeight \<le> length st then Inl OutOfBounds else Inr ((r, TRB_RIGHT) # st, h))
            else
              bind_res (left_path fuel (Suc (length st)) r [] h) (\<lambda>(s, r, rs).
              bind_res (unlink_far fuel p s r q ds h) (\<lambda>h. Inr (rs @ (s, TRB_RIGHT) # st, h)))))))"

section \<open>Restoring the colours\<close>

definition black_link :: "addr \<Rightarrow> TRBTreeNodeChildSide \<Rightarrow> ('k, 'v) mem \<Rightarrow> bool res" where
  "black_link w s h =
     bind_res (get_trail_tag w s h) (\<lambda>g.
     if g = TRB_TRAIL then Inr True
     else bind_res (get_link w s h) (\<lambda>x. bind_res (get_color x h) (\<lambda>c. Inr (c = TRB_BLACK))))"

text \<open>The sibling \<open>w\<close> of the short side \<open>d\<close> of \<open>p\<close> is red: it is rotated above \<open>p\<close>, which gets a black sibling.\<close>

definition red_sibling ::
    "addr \<Rightarrow> TRBTreeNodeChildSide \<Rightarrow> addr \<Rightarrow> addr \<Rightarrow> TRBTreeNodeChildSide \<Rightarrow> nat \<Rightarrow> ('k, 'v) mem \<Rightarrow> (addr \<times> ('k, 'v) mem) res" where
  "red_sibling p d w q ds k h =
     bind_res (set_color w TRB_BLACK h) (\<lambda>h.
     bind_res (set_color p TRB_RED h) (\<lambda>h.
     bind_res (get_link w d h) (\<lambda>l.
     bind_res (set_link p l (otherSide d) TRB_TAG_MAX h) (\<lambda>h.
     bind_res (set_link w p d TRB_TAG_MAX h) (\<lambda>h.
     bind_res (set_link q w ds TRB_TAG_MAX h) (\<lambda>h.
     if maxHeight \<le> k then Inl OutOfBounds
     else bind_res (get_link p (otherSide d) h) (\<lambda>w. Inr (w, h))))))))"

text \<open>
  The red child of \<open>w\<close> is on the inner side: it is rotated above \<open>w\<close>. Both halves of the code test the right
  link of the new sibling, although the mirrored one means the left link.
\<close>

definition inner_child :: "addr \<Rightarrow> TRBTreeNodeChildSide \<Rightarrow> addr \<Rightarrow> ('k, 'v) mem \<Rightarrow> (addr \<times> ('k, 'v) mem) res" where
  "inner_child p d w h =
     bind_res (get_link w d h) (\<lambda>y.
     bind_res (set_color y TRB_BLACK h) (\<lambda>h.
     bind_res (set_color w TRB_RED h) (\<lambda>h.
     bind_res (get_link y (otherSide d) h) (\<lambda>l.
     bind_res (set_link w l d TRB_TAG_MAX h) (\<lambda>h.
     bind_res (set_link y w (otherSide d) TRB_TAG_MAX h) (\<lambda>h.
     bind_res (set_link p y (otherSide d) TRB_TAG_MAX h) (\<lambda>h.
     bind_res (get_trail_tag y TRB_RIGHT h) (\<lambda>g.
     if g = TRB_TRAIL then
       bind_res (set_trail_tag y (otherSide d) TRB_CHILD h) (\<lambda>h.
       bind_res (get_link y (otherSide d) h) (\<lambda>z.
       bind_res (set_trail_tag z d TRB_TRAIL h) (\<lambda>h.
       bind_res (get_link y (otherSide d) h) (\<lambda>z.
       bind_res (set_link z y d TRB_TAG_MAX h) (\<lambda>h. Inr (y, h))))))
     else Inr (y, h)))))))))"

text \<open>The red child of \<open>w\<close> is on the outer side: \<open>w\<close> is rotated above \<open>p\<close> and takes its colour.\<close>

definition outer_child :: "addr \<Rightarrow> TRBTreeNodeChildSide \<Rightarrow> addr \<Rightarrow> addr \<Rightarrow> TRBTreeNodeChildSide \<Rightarrow> ('k, 'v) mem \<Rightarrow> ('k, 'v) mem res" where
  "outer_child p d w q ds h =
     bind_res (get_color p h) (\<lambda>c.
     bind_res (set_color w c h) (\<lambda>h.
     bind_res (set_color p TRB_BLACK h) (\<lambda>h.
     bind_res (get_link w (otherSide d) h) (\<lambda>x.
     bind_res (set_color x TRB_BLACK h)
     (rotate_up p w (otherSide d) q ds)))))"

fun remove_fixup :: "nat \<Rightarrow> (addr \<times> TRBTreeNodeChildSide) list \<Rightarrow> ('k, 'v) mem \<Rightarrow> ('k, 'v) mem res" where
  "remove_fixup 0 st h = Inl Spins"
| "remove_fixup (Suc fuel) stk h = (case stk of (p, d) # (q, ds) # st \<Rightarrow>
     bind_res (get_trail_tag p d h) (\<lambda>g.
     bind_res (if g = TRB_CHILD
               then bind_res (get_link p d h) (\<lambda>x. bind_res (get_color x h) (\<lambda>c. Inr (if c = TRB_RED then Some x else None)))
               else Inr None) (\<lambda>x.
     (case x of
       Some x \<Rightarrow> set_color x TRB_BLACK h
     | None \<Rightarrow>
         bind_res (get_link p (otherSide d) h) (\<lambda>w.
         bind_res (get_color w h) (\<lambda>c.
         bind_res (if c = TRB_RED
                   then bind_res (red_sibling p d w q ds (length stk) h) (\<lambda>(w', h). Inr (w', (w, d), (q, ds) # st, h))
                   else Inr (w, (q, ds), st, h)) (\<lambda>(w, (q, ds), st, h).
         bind_res (black_link w TRB_LEFT h) (\<lambda>b.
         bind_res (if b then black_link w TRB_RIGHT h else Inr False) (\<lambda>b.
         if b then bind_res (set_color w TRB_RED h) (remove_fixup fuel ((q, ds) # st))
         else
           bind_res (black_link w (otherSide d) h) (\<lambda>b.
           bind_res (if b then inner_child p d w h else Inr (w, h)) (\<lambda>(w, h).
           outer_child p d w q ds h))))))))))
   | _ \<Rightarrow> Inr h)"

section \<open>Removal\<close>

text \<open>The value returned is always null.\<close>

definition try_remove ::
    "nat \<Rightarrow> ('k \<Rightarrow> 'k \<Rightarrow> bool) \<Rightarrow> 'k \<Rightarrow> addr \<Rightarrow> nat \<Rightarrow> ('k, 'v) mem \<Rightarrow> (addr \<times> nat \<times> ('k, 'v) mem) res" where
  "try_remove fuel lt key this numElements h =
     bind_res (node h this) (\<lambda>ob.
     if pLeft ob = 0 then Inr (0, numElements, h)
     else
       bind_res (remove_search fuel lt key this [] h) (\<lambda>(found, st).
       case found of
         None \<Rightarrow> Inr (0, numElements, h)
       | Some p \<Rightarrow>
           bind_res (unlink_node fuel this p st h) (\<lambda>(st, h).
           bind_res (get_color p h) (\<lambda>c.
           bind_res (if c = TRB_BLACK
                     then bind_res (remove_fixup fuel st h) (\<lambda>h.
                          bind_res (node h this) (\<lambda>ob.
                          if pLeft ob \<noteq> 0 then set_color (pLeft ob) TRB_BLACK h else Inr h))
                     else Inr h) (\<lambda>h.
           Inr (0, (numElements + (2 ^ 64 - 1)) mod 2 ^ 64, h(p := None)))))))"

end
