(* ===== verification/Trb_Unlink.thy ===== *)
theory Trb_Unlink
  imports Trb_Map Trb_Remove
begin

text \<open>
  Unlinking a node from the threaded tree: its place is taken by its only child, or by its successor, whose own
  place is taken by the right child of that. The links and trails of the rest stay in order.
\<close>

section \<open>Trails\<close>

text \<open>What the top of the stack says of the subtree below it.\<close>

definition top_view :: "ctx \<Rightarrow> TRBTreeNodeChildSide \<Rightarrow> ptree \<Rightarrow> TRBTreeNodeTrailTag \<times> addr" where
  "top_view c ds T = (if c = [] then (TRB_CHILD, root_or 0 T) else view (bnd c ds) T)"

lemma ctx_ok_top:
  assumes "ctx_ok h this c T" and "(q, ds) = hd (stack this c)"
  obtains f where "links h q = Some f" "f ds = top_view c ds T"
  using assms by (cases c) (auto simp: node_ok_def top_view_def)

lemma ctx_ok_change:
  assumes "ctx_ok h this c T" and "(q, ds) = hd (stack this c)" and "links h q = Some f"
    and "links h' q = Some (f(ds := top_view c ds T'))"
    and "\<forall>p \<in> cset this c - {q}. links h' p = links h p" and "distinct (this # inord (plug c Tip))"
  shows "ctx_ok h' this c T'"
proof (cases c)
  case (Cons e c')
  obtain p s y where e: "e = (p, s, y)" by (cases e)
  have q: "q = p" "ds = s" using assms(2) Cons e by simp_all
  have d: "distinct (this # inord (plug c' (mk s Tip p y)))" using assms(6) Cons e by simp
  have "p \<notin> set (inord y)" "p \<notin> cset this c'" using d by (cases s; auto simp: inord_plug cset_eq)+
  then have same: "\<And>a. a \<in> set (inord y) \<Longrightarrow> links h' a = links h a" "\<And>a. a \<in> cset this c' \<Longrightarrow> links h' a = links h a"
    using assms(5) Cons e q by auto
  then show ?thesis using assms(1,3,4) Cons e q rep_cong[OF same(1)] ctx_ok_cong[OF same(2)] by (auto simp: node_ok_def top_view_def)
qed (use assms(2-4) in \<open>auto simp: top_view_def\<close>)

lemma rep_same: "rep h b T \<Longrightarrow> \<forall>p \<in> set (inord T). links h' p = links h p \<Longrightarrow> rep h' b T"
  using rep_cong[of T h' h b] by blast

text \<open>The greatest node of a subtree, whose trail leads to the inorder successor.\<close>

lemma last_inord: "T \<noteq> Tip \<Longrightarrow> inord T \<noteq> []" "inord (Bin l p r) \<noteq> []"
  by (cases T) auto

lemma rightmost_run:
  assumes "rep h b T" and "T \<noteq> Tip" and "height T \<le> fuel"
  shows "rightmost fuel (root_or d T) h = Inr (last (inord T)) \<and>
    (\<exists>f. links h (last (inord T)) = Some f \<and> f TRB_RIGHT = (TRB_TRAIL, b TRB_RIGHT))"
  using assms
proof (induction T arbitrary: b fuel d)
  case (Bin l p r)
  obtain f where f: "links h p = Some f" "f TRB_RIGHT = view (b TRB_RIGHT) r" using Bin.prems(1) by (auto simp: node_ok_def)
  obtain fu where fu: "fuel = Suc fu" "height r \<le> fu" using Bin.prems(3) by (cases fuel) auto
  have go: "rightmost fuel p h = (if r = Tip then Inr p else rightmost fu (root_or (b TRB_RIGHT) r) h)"
    using fu(1) get_tag_view[OF f(1), of TRB_RIGHT] get_link_view[OF f(1), of TRB_RIGHT] f(2) by (simp add: view_def)
  show ?case
  proof (cases "r = Tip")
    case False
    have "rep h (b(TRB_LEFT := p)) r" using Bin.prems(1) by simp
    from Bin.IH(2)[OF this False fu(2)] show ?thesis using go False last_inord(1)[OF False] by simp
  qed (use go f in \<open>simp add: view_def\<close>)
qed simp

lemma rep_rethread:
  assumes "rep h b T" and "T \<noteq> Tip" and "distinct (inord T)" and "links h (last (inord T)) = Some f"
    and "links h' (last (inord T)) = Some (f(TRB_RIGHT := (TRB_TRAIL, q)))" and "\<forall>p \<in> set (inord T) - {last (inord T)}. links h' p = links h p"
  shows "rep h' (b(TRB_RIGHT := q)) T"
  using assms
proof (induction T arbitrary: b)
  case (Bin l p r)
  have rp: "rep h (b(TRB_RIGHT := p)) l" "rep h (b(TRB_LEFT := p)) r" using Bin.prems(1) by simp_all
  have lst: "last (inord (Bin l p r)) = (if r = Tip then p else last (inord r))" by (cases r) auto
  have "last (inord r) \<in> set (inord r)" if "r \<noteq> Tip" using last_inord(1)[OF that] by simp
  then have "last (inord (Bin l p r)) \<notin> set (inord l)" using lst Bin.prems(3) by auto
  then have l: "rep h' (b(TRB_RIGHT := p)) l" using rp(1) rep_cong[of l h' h] Bin.prems(6) by auto
  show ?case
  proof (cases "r = Tip")
    case True
    then have "node_ok h' p TRB_LEFT (view (b TRB_LEFT) l) (TRB_TRAIL, q)" using Bin.prems(1,4,5) lst by (auto simp: node_ok_def)
    moreover have "rep h' (b(TRB_RIGHT := q, TRB_RIGHT := p)) l" using l by simp
    ultimately show ?thesis unfolding True rep.simps by (intro conjI TrueI) (simp_all add: view_def)
  next
    case False
    then have "p \<noteq> last (inord r)" using last_inord(1)[OF False] Bin.prems(3) by (metis disjoint_insert(1) distinct.simps(2) distinct_append inord.simps(2) last_in_set)
    then have "links h' p = links h p" using Bin.prems(6) lst False by auto
    moreover have "rep h' (b(TRB_LEFT := p, TRB_RIGHT := q)) r"
      by (rule Bin.IH(2)[OF rp(2) False]) (use Bin.prems(3-6) lst False in auto)
    moreover have "view (b TRB_RIGHT) r = view q r" using False by (cases r) (simp_all add: view_def)
    moreover have "rep h' (b(TRB_RIGHT := q, TRB_RIGHT := p)) l" using l by simp
    moreover have "node_ok h p TRB_LEFT (view (b TRB_LEFT) l) (view (b TRB_RIGHT) r)" using Bin.prems(1) by simp
    ultimately show ?thesis unfolding rep.simps by (intro conjI) (simp_all add: node_ok_def fun_upd_twist)
  qed
qed simp

text \<open>Leading the last trail of a subtree to the node that takes the place of its successor.\<close>

lemma rethread_run:
  assumes "rep h (b(TRB_RIGHT := p)) T" and "T \<noteq> Tip" and "distinct (inord T)" and "height T \<le> fuel" and "aligned q"
  obtains t h' where "rightmost fuel (root_or d T) h = Inr t" "set_link t q TRB_RIGHT TRB_TAG_MAX h = Inr h'" "rep h' (b(TRB_RIGHT := q)) T"
    "\<And>x. x \<notin> set (inord T) \<Longrightarrow> links h' x = links h x" "colors h' = colors h" "entries h' = entries h"
proof -
  let ?t = "last (inord T)"
  have tT: "?t \<in> set (inord T)" using last_inord(1)[OF assms(2)] by simp
  obtain f where f: "rightmost fuel (root_or d T) h = Inr ?t" "links h ?t = Some f" "f TRB_RIGHT = (TRB_TRAIL, p)"
    using rightmost_run[OF assms(1,2,4), of d] by auto
  obtain h' where h': "set_link ?t q TRB_RIGHT TRB_TAG_MAX h = Inr h'" "links h' = (links h)(?t \<mapsto> f(TRB_RIGHT := (TRB_TRAIL, q)))" "colors h' = colors h" "entries h' = entries h"
    using set_link_view[OF f(2) assms(5), of TRB_RIGHT] f(3) by auto
  have "rep h' (b(TRB_RIGHT := p, TRB_RIGHT := q)) T" by (rule rep_rethread[OF assms(1-3) f(2)]) (use h'(2) in auto)
  moreover have "links h' x = links h x" if "x \<notin> set (inord T)" for x using that tT h'(2) by auto
  ultimately show ?thesis using that f(1) h'(1,3,4) by simp
qed

section \<open>A node without right child\<close>

text \<open>The parts of a tree have no address in common.\<close>

lemma parts_distinct:
  assumes "distinct (this # inord (plug c (Bin l p r)))"
  shows "distinct (inord l)" "distinct (inord r)" "distinct (this # inord (plug c Tip))" "p \<notin> cset this c" "p \<notin> set (inord l) \<union> set (inord r)"
    "cset this c \<inter> (set (inord l) \<union> set (inord r)) = {}" "set (inord l) \<inter> set (inord r) = {}"
  using assms by (auto simp: inord_plug cset_eq)

lemma top_not_this: "(q, ds) = hd (stack this c) \<Longrightarrow> distinct (this # inord (plug c Tip)) \<Longrightarrow> q = this \<longleftrightarrow> c = []"
  by (cases c; cases ds) (auto simp: inord_plug inord_mk)

lemma root_any: "T \<noteq> Tip \<Longrightarrow> root_or d T = root_or 0 T"
  by (cases T) auto

text \<open>A leaf leaves a trail behind, or the null pointer at the root.\<close>

lemma unlink_leaf:
  assumes hg: "hangs h this c (Bin Tip p Tip)" and st: "(q, ds) = hd (stack this c)" and dist: "distinct (this # inord (plug c (Bin Tip p Tip)))"
  shows "\<exists>h'. unlink_outer fuel this p q ds h = Inr h' \<and> hangs h' this c Tip \<and> colors h' = colors h \<and> entries h' = entries h"
proof -
  have pd: "distinct (this # inord (plug c Tip))" by (rule parts_distinct(3)[OF dist])
  have ctx: "ctx_ok h this c (Bin Tip p Tip)" and rp: "rep h (bnd c) (Bin Tip p Tip)" using hg by (simp_all add: hangs_def)
  obtain fq where fq: "links h q = Some fq" "fq ds = top_view c ds (Bin Tip p Tip)" by (rule ctx_ok_top[OF ctx st])
  obtain fp where fp: "links h p = Some fp" "fp TRB_LEFT = (TRB_TRAIL, bnd c TRB_LEFT)" "fp TRB_RIGHT = (TRB_TRAIL, bnd c TRB_RIGHT)"
    using rp by (auto simp: node_ok_def view_def)
  have g: "get_trail_tag p TRB_LEFT h = Inr TRB_TRAIL" "get_link p ds h = Inr (bnd c ds)" "aligned (bnd c ds)"
    using get_tag_view[OF fp(1), of TRB_LEFT] get_link_view[OF fp(1), of ds] links_aligned[OF fp(1), of ds] fp(2,3) by (cases ds; simp)+
  obtain h1 where h1: "set_link q (bnd c ds) ds TRB_TAG_MAX h = Inr h1" "links h1 = (links h)(q \<mapsto> fq(ds := (fst (fq ds), bnd c ds)))" "colors h1 = colors h" "entries h1 = entries h"
    using set_link_view[OF fq(1) g(3), of ds] by blast
  have "\<exists>h2. (if q \<noteq> this then set_trail_tag q ds TRB_TRAIL h1 else Inr h1) = Inr h2 \<and> links h2 = (links h)(q \<mapsto> fq(ds := top_view c ds Tip)) \<and>
      colors h2 = colors h \<and> entries h2 = entries h"
    using top_not_this[OF st pd] h1 fq(2) set_tag_view[of h1 q _ TRB_TRAIL ds] by (cases "c = []") (simp_all add: top_view_def view_def)
  then obtain h2 where h2: "unlink_outer fuel this p q ds h = Inr h2" "links h2 = (links h)(q \<mapsto> fq(ds := top_view c ds Tip))" "colors h2 = colors h" "entries h2 = entries h"
    using g h1(1) by (auto simp: unlink_outer_def)
  have "ctx_ok h2 this c Tip" by (rule ctx_ok_change[OF ctx st fq(1)]) (use h2(2) pd in auto)
  then show ?thesis using h2 by (auto simp: hangs_def)
qed

text \<open>A left child moves up.\<close>

lemma unlink_left:
  assumes hg: "hangs h this c (Bin l p Tip)" and st: "(q, ds) = hd (stack this c)" and dist: "distinct (this # inord (plug c (Bin l p Tip)))"
    and al: "\<forall>x \<in> set (inord (plug c (Bin l p Tip))). aligned x" and fuel: "height l \<le> fuel" and l: "l \<noteq> Tip"
  shows "\<exists>h'. unlink_outer fuel this p q ds h = Inr h' \<and> hangs h' this c l \<and> colors h' = colors h \<and> entries h' = entries h"
proof -
  note pd = parts_distinct[OF dist]
  have ctx: "ctx_ok h this c (Bin l p Tip)" and rp: "rep h (bnd c) (Bin l p Tip)" using hg by (simp_all add: hangs_def)
  obtain fq where fq: "links h q = Some fq" "fq ds = top_view c ds (Bin l p Tip)" by (rule ctx_ok_top[OF ctx st])
  obtain fp where fp: "links h p = Some fp" "fp TRB_LEFT = view (bnd c TRB_LEFT) l" "fp TRB_RIGHT = (TRB_TRAIL, bnd c TRB_RIGHT)"
    using rp by (auto simp: node_ok_def view_def)
  have qc: "q \<in> cset this c" by (rule stack_top[OF st])
  have rl: "rep h ((bnd c)(TRB_RIGHT := p)) l" using rp by simp
  have g: "get_trail_tag p TRB_LEFT h = Inr TRB_CHILD" "get_link p TRB_LEFT h = Inr (root_or 0 l)" "get_link p TRB_RIGHT h = Inr (bnd c TRB_RIGHT)" "aligned (bnd c TRB_RIGHT)"
    using get_tag_view[OF fp(1), of TRB_LEFT] get_link_view[OF fp(1)] links_aligned[OF fp(1), of TRB_RIGHT] fp(2,3) l root_any[OF l] by (simp_all add: view_def)
  obtain t h1 where h1: "rightmost fuel (root_or 0 l) h = Inr t" "set_link t (bnd c TRB_RIGHT) TRB_RIGHT TRB_TAG_MAX h = Inr h1" "rep h1 ((bnd c)(TRB_RIGHT := bnd c TRB_RIGHT)) l"
      "\<And>x. x \<notin> set (inord l) \<Longrightarrow> links h1 x = links h x" "colors h1 = colors h" "entries h1 = entries h"
    using rethread_run[OF rl l pd(1) fuel g(4), of 0] by metis
  have ne: "p \<notin> set (inord l)" "q \<notin> set (inord l)" using pd(5,6) qc by auto
  have "get_link p TRB_LEFT h1 = Inr (root_or 0 l)" using get_link_view[of h1 p fp TRB_LEFT] h1(4)[OF ne(1)] fp(1,2) l root_any[OF l] by (simp add: view_def)
  moreover have "aligned (root_or 0 l)" using al l by (cases l) (auto simp: inord_plug)
  moreover have "top_view c ds l = (fst (fq ds), root_or 0 l)" using fq(2) l root_any[OF l] by (simp add: top_view_def view_def)
  ultimately obtain h2 where h2: "unlink_outer fuel this p q ds h = Inr h2" "links h2 = (links h1)(q \<mapsto> fq(ds := top_view c ds l))" "colors h2 = colors h" "entries h2 = entries h"
    using set_link_view[of h1 q fq "root_or 0 l" ds] h1 fq(1) ne g by (auto simp: unlink_outer_def)
  have "ctx_ok h2 this c l" by (rule ctx_ok_change[OF ctx st fq(1)]) (use h1(4) h2(2) pd(3,6) in auto)
  moreover have "rep h2 (bnd c) l = rep h1 (bnd c) l" by (rule rep_cong) (use h2(2) ne(2) in auto)
  ultimately show ?thesis using h1(3) h2 by (auto simp: hangs_def)
qed

section \<open>A node whose right child is its successor\<close>

lemma swap_colors_run:
  assumes "h p = Some n" and "h r = Some m" and "p \<noteq> r"
  shows "\<exists>h'. swap_colors p r h = Inr h' \<and> links h' = links h \<and> colors h' = (colors h)(r := colors h p, p := colors h r) \<and> entries h' = entries h"
proof -
  obtain fp fr where f: "links h p = Some fp" "links h r = Some fr" and c: "colors h p = Some (color_of n)" "colors h r = Some (color_of m)"
    using assms by (auto simp: links_def colors_def)
  obtain h1 where h1: "set_color r (color_of n) h = Inr h1" "links h1 = links h" "colors h1 = (colors h)(r \<mapsto> color_of n)" "entries h1 = entries h"
    using set_color_view[OF f(2), of "color_of n"] by blast
  obtain h2 where h2: "set_color p (color_of m) h1 = Inr h2" "links h2 = links h1" "colors h2 = (colors h1)(p \<mapsto> color_of m)" "entries h2 = entries h1"
    using set_color_view[of h1 p fp "color_of m"] f(1) h1(2) by auto
  then show ?thesis using h1 c get_color_view[OF c(1)] get_color_view[OF c(2)] by (auto simp: swap_colors_def)
qed

lemma unlink_next_run:
  assumes hg: "hangs h this c (Bin l p (Bin Tip r y))" and st: "(q, ds) = hd (stack this c)" and dist: "distinct (this # inord (plug c (Bin l p (Bin Tip r y))))"
    and al: "\<forall>x \<in> set (inord (plug c (Bin l p (Bin Tip r y)))). aligned x" and fuel: "height l \<le> fuel"
  shows "\<exists>h'. unlink_next fuel p r q ds h = Inr h' \<and> hangs h' this c (Bin l r y) \<and> colors h' = (colors h)(r := colors h p, p := colors h r) \<and> entries h' = entries h"
proof -
  note pd = parts_distinct[OF dist]
  have ctx: "ctx_ok h this c (Bin l p (Bin Tip r y))" and rp: "rep h (bnd c) (Bin l p (Bin Tip r y))" using hg by (simp_all add: hangs_def)
  obtain fq where fq: "links h q = Some fq" "fq ds = top_view c ds (Bin l p (Bin Tip r y))" by (rule ctx_ok_top[OF ctx st])
  obtain fp where fp: "links h p = Some fp" "fp TRB_LEFT = view (bnd c TRB_LEFT) l" using rp by (auto simp: node_ok_def)
  obtain fr where fr: "links h r = Some fr" "fr TRB_LEFT = (TRB_TRAIL, p)" "fr TRB_RIGHT = view (bnd c TRB_RIGHT) y" using rp by (auto simp: node_ok_def view_def)
  have qc: "q \<in> cset this c" by (rule stack_top[OF st])
  have ne: "r \<noteq> p" "r \<noteq> q" "p \<noteq> q" "r \<notin> set (inord l)" "q \<notin> set (inord l) \<union> set (inord y)" "r \<notin> set (inord y)" "set (inord l) \<inter> set (inord y) = {}"
    using pd qc by auto
  let ?l = "root_or (bnd c TRB_LEFT) l"
  have g: "get_link p TRB_LEFT h = Inr ?l" "aligned ?l" using get_link_view[OF fp(1), of TRB_LEFT] links_aligned[OF fp(1), of TRB_LEFT] fp(2) by (simp_all add: view_def)
  obtain h1 where h1: "set_link r ?l TRB_LEFT TRB_TAG_MAX h = Inr h1" "links h1 = (links h)(r \<mapsto> fr(TRB_LEFT := (TRB_TRAIL, ?l)))" "colors h1 = colors h" "entries h1 = entries h"
    using set_link_view[OF fr(1) g(2), of TRB_LEFT] fr(2) by auto
  let ?g = "if l = Tip then TRB_TRAIL else TRB_CHILD"
  have gm: "?g \<noteq> TRB_TAG_MAX" by simp
  have g1: "get_trail_tag p TRB_LEFT h1 = Inr ?g" using get_tag_view[of h1 p fp TRB_LEFT] h1(2) fp ne(1) by (simp add: view_def)
  obtain h2 where h2: "set_trail_tag r TRB_LEFT ?g h1 = Inr h2" "links h2 = (links h)(r \<mapsto> fr(TRB_LEFT := view (bnd c TRB_LEFT) l))" "colors h2 = colors h" "entries h2 = entries h"
    using set_tag_view[of h1 r "fr(TRB_LEFT := (TRB_TRAIL, ?l))" ?g TRB_LEFT, OF _ gm] h1 by (auto simp: view_def)
  have g2: "get_trail_tag r TRB_LEFT h2 = Inr ?g" "get_link r TRB_LEFT h2 = Inr ?l"
    using get_tag_view[of h2 r _ TRB_LEFT] get_link_view[of h2 r _ TRB_LEFT] h2(2) by (simp_all add: view_def)
  have rl: "rep h2 ((bnd c)(TRB_RIGHT := p)) l" by (rule rep_same[of h]) (use rp h2(2) ne(4) in auto)
  have ar: "aligned r" using al by (simp add: inord_plug)
  have "\<exists>h3. (if ?g = TRB_CHILD then bind_res (get_link r TRB_LEFT h2) (\<lambda>t. bind_res (rightmost fuel t h2) (\<lambda>t. set_link t r TRB_RIGHT TRB_TAG_MAX h2)) else Inr h2) = Inr h3 \<and>
      rep h3 ((bnd c)(TRB_RIGHT := r)) l \<and> (\<forall>x. x \<notin> set (inord l) \<longrightarrow> links h3 x = links h2 x) \<and> colors h3 = colors h \<and> entries h3 = entries h"
  proof (cases "l = Tip")
    case False
    show ?thesis by (rule rethread_run[OF rl False pd(1) fuel ar, of "bnd c TRB_LEFT"]) (use False g2 h2 in auto)
  qed (use h2 in auto)
  then obtain h3 where h3: "(if ?g = TRB_CHILD then bind_res (get_link r TRB_LEFT h2) (\<lambda>t. bind_res (rightmost fuel t h2) (\<lambda>t. set_link t r TRB_RIGHT TRB_TAG_MAX h2)) else Inr h2) = Inr h3"
      "rep h3 ((bnd c)(TRB_RIGHT := r)) l" "\<And>x. x \<notin> set (inord l) \<Longrightarrow> links h3 x = links h2 x" "colors h3 = colors h" "entries h3 = entries h" by blast
  have tv: "top_view c ds (Bin l r y) = (fst (fq ds), r)" using fq(2) by (simp add: top_view_def view_def)
  have q3: "links h3 q = Some fq" using h3(3) h2(2) ne(2,5) fq(1) by simp
  obtain h4 where h4: "set_link q r ds TRB_TAG_MAX h3 = Inr h4" "links h4 = (links h3)(q \<mapsto> fq(ds := top_view c ds (Bin l r y)))" "colors h4 = colors h" "entries h4 = entries h"
    using set_link_view[OF q3 ar, of ds] h3(4,5) tv by auto
  have "links h4 p \<noteq> None" "links h4 r \<noteq> None" using h4(2) h3(3)[of p] h3(3)[of r] h2(2) fp(1) pd(5) ne by auto
  then obtain n m where nm: "h4 p = Some n" "h4 r = Some m" by (auto simp: links_def)
  obtain h5 where h5: "swap_colors p r h4 = Inr h5" "links h5 = links h4" "colors h5 = (colors h)(r := colors h p, p := colors h r)" "entries h5 = entries h"
    using swap_colors_run[OF nm] ne(1) h4(3,4) by auto
  have out: "links h5 x = links h x" if "x \<notin> insert r (insert q (set (inord l)))" for x using that h5(2) h4(2) h3(3)[of x] h2(2) by auto
  have "\<forall>x \<in> cset this c - {q}. links h5 x = links h x" by (intro ballI out) (use pd(6) in auto)
  then have "ctx_ok h5 this c (Bin l r y)" by (intro ctx_ok_change[OF ctx st fq(1) _ _ pd(3)]) (use h4(2) h5(2) in auto)
  moreover have "rep h5 (bnd c) (Bin l r y)"
  proof -
    have "rep h5 ((bnd c)(TRB_RIGHT := r)) l" by (rule rep_same[OF h3(2)]) (use h5(2) h4(2) ne(5) in auto)
    moreover have ry: "rep h ((bnd c)(TRB_LEFT := r)) y" using rp by simp
    moreover have "rep h5 ((bnd c)(TRB_LEFT := r)) y" by (rule rep_same[OF ry], intro ballI out) (use ne in auto)
    moreover have "node_ok h5 r TRB_LEFT (view (bnd c TRB_LEFT) l) (view (bnd c TRB_RIGHT) y)"
      using h5(2) h4(2) h3(3)[OF ne(4)] h2(2) ne(2) fr(3) by (simp add: node_ok_def)
    ultimately show ?thesis by simp
  qed
  ultimately show ?thesis using g(1) h1(1) g1 h2(1) g2(1) h3(1) h4(1) h5 by (auto simp: unlink_next_def hangs_def)
qed

section \<open>A node whose successor is further down\<close>

definition left_only :: "ctx \<Rightarrow> bool" where
  "left_only cs \<longleftrightarrow> (\<forall>e \<in> set cs. fst (snd e) = TRB_LEFT)"

definition pstack :: "ctx \<Rightarrow> (addr \<times> TRBTreeNodeChildSide) list" where
  "pstack cs = map (\<lambda>(p, s, y). (p, s)) cs"

lemma stack_append: "stack this (cs @ c) = pstack cs @ stack this c"
  unfolding pstack_def by (induction cs) auto

lemma plug_append: "plug (cs @ c) T = plug c (plug cs T)"
  by (induction cs T rule: plug.induct) auto

lemma plug_snoc: "left_only (cs @ [(x, s, y)]) \<Longrightarrow> plug (cs @ [(x, s, y)]) T = Bin (plug cs T) x y \<and> left_only cs"
  by (auto simp: plug_append left_only_def)

lemma left_only_lft: "left_only cs \<Longrightarrow> lft cs = []"
  by (induction cs rule: lft.induct) (auto simp: left_only_def)

lemma left_path_run:
  assumes "rep h b (Bin L x R)" and "L \<noteq> Tip" and "height L \<le> fuel" and "k + height L \<le> maxHeight"
  shows "\<exists>s sr cs r y. left_path fuel k x rs h = Inr (s, r, pstack cs @ rs) \<and> Bin L x R = plug cs (Bin Tip s sr) \<and> left_only cs \<and> cs \<noteq> [] \<and>
    hd cs = (r, TRB_LEFT, y) \<and> length cs \<le> height L"
  using assms
proof (induction L arbitrary: b fuel k x R rs)
  case (Bin L' s sr)
  obtain f where f: "links h x = Some f" "f TRB_LEFT = (TRB_CHILD, s)" using Bin.prems(1) by (auto simp: node_ok_def view_def)
  have rl: "rep h (b(TRB_RIGHT := x)) (Bin L' s sr)" using Bin.prems(1) by simp
  then obtain g where g: "links h s = Some g" "fst (g TRB_LEFT) = (if L' = Tip then TRB_TRAIL else TRB_CHILD)" by (auto simp: node_ok_def view_def)
  obtain fu where fu: "fuel = Suc fu" "height L' \<le> fu" "\<not> maxHeight \<le> k" "Suc k + height L' \<le> maxHeight" using Bin.prems(3,4) by (cases fuel) auto
  have go: "left_path fuel k x rs h = (if L' = Tip then Inr (s, x, (x, TRB_LEFT) # rs) else left_path fu (Suc k) s ((x, TRB_LEFT) # rs) h)"
    using fu get_link_view[OF f(1), of TRB_LEFT] get_tag_view[OF g(1), of TRB_LEFT] f(2) g(2) by simp
  show ?case
  proof (cases "L' = Tip")
    case True
    then show ?thesis using go by (intro exI[of _ s] exI[of _ sr] exI[of _ "[(x, TRB_LEFT, R)]"] exI[of _ x] exI[of _ R]) (simp add: pstack_def left_only_def)
  next
    case False
    obtain s' sr' cs r y where c: "left_path fu (Suc k) s ((x, TRB_LEFT) # rs) h = Inr (s', r, pstack cs @ (x, TRB_LEFT) # rs)" "Bin L' s sr = plug cs (Bin Tip s' sr')"
        "left_only cs" "cs \<noteq> []" "hd cs = (r, TRB_LEFT, y)" "length cs \<le> height L'"
      using Bin.IH(1)[OF rl False fu(2,4), of "(x, TRB_LEFT) # rs"] by blast
    let ?cs = "cs @ [(x, TRB_LEFT, R)]"
    have "left_path fuel k x rs h = Inr (s', r, pstack ?cs @ rs)" using go False c(1) by (simp add: pstack_def)
    moreover have "Bin (Bin L' s sr) x R = plug ?cs (Bin Tip s' sr')" "left_only ?cs" "hd ?cs = (r, TRB_LEFT, y)"
      using c(2-5) by (auto simp: plug_append left_only_def)
    moreover have "length ?cs \<le> height (Bin L' s sr)" "?cs \<noteq> []" using c(6) by simp_all
    ultimately show ?thesis by blast
  qed
qed simp

text \<open>The successor leaves its place below \<open>r\<close> and becomes the left neighbour of what is there.\<close>

lemma rep_del_min:
  assumes "rep h (b(TRB_LEFT := p)) (plug cs (Bin Tip s sr))" and "left_only cs" and "cs \<noteq> []" and "hd cs = (r, TRB_LEFT, y)"
    and "distinct (inord (plug cs (Bin Tip s sr)))" and "links h r = Some fr" and "links h' r = Some (fr(TRB_LEFT := view s sr))"
    and "\<forall>x \<in> set (inord (plug cs sr)) - {r}. links h' x = links h x"
  shows "rep h' (b(TRB_LEFT := s)) (plug cs sr)"
  using assms
proof (induction cs arbitrary: b rule: rev_induct)
  case (snoc e cs)
  obtain x z where e: "e = (x, TRB_LEFT, z)" using snoc.prems(2) by (cases e) (auto simp: left_only_def)
  have pl: "plug (cs @ [e]) T = Bin (plug cs T) x z" "left_only cs" for T using plug_snoc[of cs x TRB_LEFT z] snoc.prems(2) e by auto
  have rp: "node_ok h x TRB_LEFT (view p (plug cs (Bin Tip s sr))) (view (b TRB_RIGHT) z)" "rep h (b(TRB_RIGHT := x, TRB_LEFT := p)) (plug cs (Bin Tip s sr))"
      "rep h (b(TRB_LEFT := x)) z"
    using snoc.prems(1) unfolding pl rep.simps by (simp_all add: fun_upd_twist)
  have io: "set (inord (plug cs sr)) \<subseteq> set (inord (plug cs (Bin Tip s sr)))" by (auto simp: inord_plug)
  have d: "x \<notin> set (inord (plug cs sr)) \<union> set (inord z)" "distinct (inord (plug cs (Bin Tip s sr)))" using snoc.prems(5) io unfolding pl by auto
  show ?case
  proof (cases "cs = []")
    case True
    then have r: "r = x" using snoc.prems(4) e by simp
    have "rep h' (b(TRB_LEFT := x)) z" by (rule rep_same[OF rp(3)]) (use snoc.prems(8) pl d(1) r in auto)
    moreover have "rep h (b(TRB_RIGHT := x, TRB_LEFT := s)) sr" using rp(2) True by simp
    then have "rep h' (b(TRB_RIGHT := x, TRB_LEFT := s)) sr" by (rule rep_same) (use snoc.prems(8) pl d(1) r True in auto)
    moreover have "node_ok h' x TRB_LEFT (view s sr) (view (b TRB_RIGHT) z)" using rp(1) snoc.prems(6,7) r by (auto simp: node_ok_def)
    ultimately show ?thesis unfolding pl rep.simps using True by (simp add: fun_upd_twist)
  next
    case False
    then have hd: "hd cs = (r, TRB_LEFT, y)" using snoc.prems(4) by simp
    then have rc: "r \<in> set (inord (plug cs sr))" using False by (cases cs) (auto simp: inord_plug)
    then have rz: "r \<noteq> x" "r \<notin> set (inord z)" using d(1) snoc.prems(5) io unfolding pl by auto
    have "rep h' (b(TRB_RIGHT := x, TRB_LEFT := s)) (plug cs sr)"
      by (rule snoc.IH[OF rp(2) pl(2) False hd d(2) snoc.prems(6,7)]) (use snoc.prems(8) pl in auto)
    moreover have "rep h' (b(TRB_LEFT := x)) z" by (rule rep_same[OF rp(3)]) (use snoc.prems(8) pl rz in auto)
    moreover have "view p (plug cs (Bin Tip s sr)) = view s (plug cs sr)"
    proof -
      obtain e' cs' where cs: "cs = cs' @ [e']" using False by (metis rev_exhaust)
      obtain x' z' where "e' = (x', TRB_LEFT, z')" using pl(2) cs by (cases e') (auto simp: left_only_def)
      then show ?thesis using plug_snoc[of cs' x' TRB_LEFT z'] pl(2) cs by (simp add: view_def)
    qed
    then have "node_ok h' x TRB_LEFT (view s (plug cs sr)) (view (b TRB_RIGHT) z)" using rp(1) snoc.prems(8) pl rz by (auto simp: node_ok_def)
    ultimately show ?thesis unfolding pl rep.simps by (simp add: fun_upd_twist)
  qed
qed simp

text \<open>Where the successor and its parent are.\<close>

lemma min_links:
  assumes "rep h b (plug cs (Bin Tip s sr))" and "left_only cs" and "cs \<noteq> []" and "hd cs = (r, TRB_LEFT, y)"
  shows "\<exists>fs fr. links h s = Some fs \<and> fs TRB_LEFT = (TRB_TRAIL, b TRB_LEFT) \<and> fs TRB_RIGHT = view r sr \<and> links h r = Some fr \<and> fr TRB_LEFT = (TRB_CHILD, s)"
  using assms
proof (induction cs arbitrary: b rule: rev_induct)
  case (snoc e cs)
  obtain x z where e: "e = (x, TRB_LEFT, z)" using snoc.prems(2) by (cases e) (auto simp: left_only_def)
  have pl: "plug (cs @ [e]) T = Bin (plug cs T) x z" "left_only cs" for T using plug_snoc[of cs x TRB_LEFT z] snoc.prems(2) e by auto
  have rp: "node_ok h x TRB_LEFT (view (b TRB_LEFT) (plug cs (Bin Tip s sr))) (view (b TRB_RIGHT) z)" "rep h (b(TRB_RIGHT := x)) (plug cs (Bin Tip s sr))"
    using snoc.prems(1) unfolding pl rep.simps by simp_all
  show ?case
  proof (cases "cs = []")
    case True
    then show ?thesis using rp snoc.prems(4) e by (auto simp: node_ok_def view_def)
  next
    case False
    then have "hd cs = (r, TRB_LEFT, y)" using snoc.prems(4) by simp
    from snoc.IH[OF rp(2) pl(2) False this] show ?thesis by simp
  qed
qed simp

lemma detach_min_run:
  assumes "rep h (b(TRB_LEFT := p)) (plug cs (Bin Tip s sr))" and "left_only cs" and "cs \<noteq> []" and "hd cs = (r, TRB_LEFT, y)"
    and "distinct (inord (plug cs (Bin Tip s sr)))" and "\<forall>x \<in> set (inord (plug cs (Bin Tip s sr))). aligned x"
  shows "\<exists>h'. detach_min s r h = Inr h' \<and> rep h' (b(TRB_LEFT := s)) (plug cs sr) \<and> (\<forall>x. x \<noteq> r \<longrightarrow> links h' x = links h x) \<and>
    colors h' = colors h \<and> entries h' = entries h"
proof -
  obtain fs fr where f: "links h s = Some fs" "fs TRB_RIGHT = view r sr" "links h r = Some fr" "fr TRB_LEFT = (TRB_CHILD, s)"
    using min_links[OF assms(1-4)] by blast
  have al: "aligned s" using assms(6) by (simp add: inord_plug)
  have "\<exists>h'. detach_min s r h = Inr h' \<and> links h' = (links h)(r \<mapsto> fr(TRB_LEFT := view s sr)) \<and> colors h' = colors h \<and> entries h' = entries h"
  proof (cases "sr = Tip")
    case True
    obtain h1 where h1: "set_link r s TRB_LEFT TRB_TAG_MAX h = Inr h1" "links h1 = (links h)(r \<mapsto> fr(TRB_LEFT := (TRB_CHILD, s)))" "colors h1 = colors h" "entries h1 = entries h"
      using set_link_view[OF f(3) al, of TRB_LEFT] f(4) by auto
    then show ?thesis using True get_tag_view[OF f(1), of TRB_RIGHT] f(2) set_tag_view[of h1 r _ TRB_TRAIL TRB_LEFT] by (simp add: detach_min_def view_def)
  next
    case False
    have "aligned (root_or r sr)" using links_aligned[OF f(1), of TRB_RIGHT] f(2) by (simp add: view_def)
    from set_link_view[OF f(3) this, of TRB_LEFT] show ?thesis
      using False get_tag_view[OF f(1), of TRB_RIGHT] get_link_view[OF f(1), of TRB_RIGHT] f(2,4) root_any[OF False, of s] root_any[OF False, of r]
      by (simp add: detach_min_def view_def)
  qed
  then obtain h' where h': "detach_min s r h = Inr h'" "links h' = (links h)(r \<mapsto> fr(TRB_LEFT := view s sr))" "colors h' = colors h" "entries h' = entries h" by blast
  have "rep h' (b(TRB_LEFT := s)) (plug cs sr)" by (rule rep_del_min[OF assms(1-5) f(3)]) (use h'(2) in auto)
  then show ?thesis using h' by auto
qed

lemma adopt_left_run:
  assumes fs: "links h s = Some fs" "fst (fs TRB_LEFT) = TRB_TRAIL" and fp: "links h p = Some fp" "fp TRB_LEFT = view (b TRB_LEFT) l"
    and rl: "rep h (b(TRB_RIGHT := p)) l" and ne: "p \<noteq> s" "p \<notin> set (inord l)" "s \<notin> set (inord l)"
    and l: "distinct (inord l)" "height l \<le> fuel" "aligned s"
  shows "\<exists>h'. adopt_left fuel p s h = Inr h' \<and> rep h' (b(TRB_RIGHT := s)) l \<and> links h' s = Some (fs(TRB_LEFT := view (b TRB_LEFT) l)) \<and>
    (\<forall>x. x \<notin> insert s (set (inord l)) \<longrightarrow> links h' x = links h x) \<and> colors h' = colors h \<and> entries h' = entries h"
proof -
  let ?l = "root_or (b TRB_LEFT) l"
  have g: "get_link p TRB_LEFT h = Inr ?l" "aligned ?l" using get_link_view[OF fp(1), of TRB_LEFT] links_aligned[OF fp(1), of TRB_LEFT] fp(2) by (simp_all add: view_def)
  obtain h1 where h1: "set_link s ?l TRB_LEFT TRB_TAG_MAX h = Inr h1" "links h1 = (links h)(s \<mapsto> fs(TRB_LEFT := (TRB_TRAIL, ?l)))" "colors h1 = colors h" "entries h1 = entries h"
    using set_link_view[OF fs(1) g(2), of TRB_LEFT] fs(2) by auto
  have p1: "links h1 p = Some fp" using h1(2) fp(1) ne(1) by simp
  have g1: "get_trail_tag p TRB_LEFT h1 = Inr (if l = Tip then TRB_TRAIL else TRB_CHILD)" "get_link p TRB_LEFT h1 = Inr ?l"
    using get_tag_view[OF p1, of TRB_LEFT] get_link_view[OF p1, of TRB_LEFT] fp(2) by (simp_all add: view_def)
  show ?thesis
  proof (cases "l = Tip")
    case True
    then show ?thesis using g h1 g1 by (simp add: adopt_left_def view_def)
  next
    case False
    have "rep h1 (b(TRB_RIGHT := p)) l" by (rule rep_same[OF rl]) (use h1(2) ne(3) in auto)
    then obtain t h2 where h2: "rightmost fuel ?l h1 = Inr t" "set_link t s TRB_RIGHT TRB_TAG_MAX h1 = Inr h2" "rep h2 (b(TRB_RIGHT := s)) l"
        "\<And>x. x \<notin> set (inord l) \<Longrightarrow> links h2 x = links h1 x" "colors h2 = colors h" "entries h2 = entries h"
      using rethread_run[OF _ False l, of h1 b p "b TRB_LEFT"] h1(3,4) by metis
    have s2: "links h2 s = Some (fs(TRB_LEFT := (TRB_TRAIL, ?l)))" using h2(4)[OF ne(3)] h1(2) by simp
    obtain h3 where h3: "set_trail_tag s TRB_LEFT TRB_CHILD h2 = Inr h3" "links h3 = (links h2)(s \<mapsto> fs(TRB_LEFT := view (b TRB_LEFT) l))" "colors h3 = colors h" "entries h3 = entries h"
      using set_tag_view[OF s2, of TRB_CHILD TRB_LEFT] h2(5,6) False by (auto simp: view_def)
    have "rep h3 (b(TRB_RIGHT := s)) l" by (rule rep_same[OF h2(3)]) (use h3(2) ne(3) in auto)
    moreover have "links h3 x = links h x" if "x \<notin> insert s (set (inord l))" for x using that h3(2) h2(4)[of x] h1(2) by auto
    ultimately show ?thesis using g(1) h1(1) g1 h2(1,2) h3 False by (simp add: adopt_left_def)
  qed
qed

lemma take_place_run:
  assumes s: "links h s = Some f" and p: "links h p = Some fp" and q: "links h q = Some fq" and ne: "s \<noteq> p" "s \<noteq> q" and al: "aligned s"
  shows "\<exists>h'. bind_res (get_link p TRB_RIGHT h) (\<lambda>l. bind_res (set_link s l TRB_RIGHT TRB_TAG_MAX h) (\<lambda>h.
      bind_res (set_trail_tag s TRB_RIGHT TRB_CHILD h) (\<lambda>h. bind_res (swap_colors p s h) (set_link q s ds TRB_TAG_MAX)))) = Inr h' \<and>
    links h' = (links h)(s \<mapsto> f(TRB_RIGHT := (TRB_CHILD, snd (fp TRB_RIGHT))), q \<mapsto> fq(ds := (fst (fq ds), s))) \<and>
    colors h' = (colors h)(s := colors h p, p := colors h s) \<and> entries h' = entries h"
proof -
  let ?w = "snd (fp TRB_RIGHT)"
  have g: "get_link p TRB_RIGHT h = Inr ?w" "aligned ?w" using get_link_view[OF p, of TRB_RIGHT] links_aligned[OF p, of TRB_RIGHT] by simp_all
  obtain h1 where h1: "set_link s ?w TRB_RIGHT TRB_TAG_MAX h = Inr h1" "links h1 = (links h)(s \<mapsto> f(TRB_RIGHT := (fst (f TRB_RIGHT), ?w)))" "colors h1 = colors h" "entries h1 = entries h"
    using set_link_view[OF s g(2), of TRB_RIGHT] by blast
  obtain h2 where h2: "set_trail_tag s TRB_RIGHT TRB_CHILD h1 = Inr h2" "links h2 = (links h)(s \<mapsto> f(TRB_RIGHT := (TRB_CHILD, ?w)))" "colors h2 = colors h" "entries h2 = entries h"
    using set_tag_view[of h1 s _ TRB_CHILD TRB_RIGHT] h1 by auto
  have "links h2 p \<noteq> None" "links h2 s \<noteq> None" using h2(2) p by auto
  then obtain n m where nm: "h2 p = Some n" "h2 s = Some m" by (auto simp: links_def)
  obtain h3 where h3: "swap_colors p s h2 = Inr h3" "links h3 = links h2" "colors h3 = (colors h)(s := colors h p, p := colors h s)" "entries h3 = entries h"
    using swap_colors_run[OF nm] ne(1) h2(3,4) by auto
  have "links h3 q = Some fq" using h3(2) h2(2) q ne(2) by simp
  from set_link_view[OF this al, of ds] show ?thesis using g(1) h1(1) h2(1,2) h3 by auto
qed

lemma unlink_far_run:
  assumes hg: "hangs h this c (Bin l p (plug cs (Bin Tip s sr)))" and cs: "left_only cs" "cs \<noteq> []" "hd cs = (r, TRB_LEFT, y)" and st: "(q, ds) = hd (stack this c)"
    and dist: "distinct (this # inord (plug c (Bin l p (plug cs (Bin Tip s sr)))))"
    and al: "\<forall>x \<in> set (inord (plug c (Bin l p (plug cs (Bin Tip s sr))))). aligned x" and fuel: "height l \<le> fuel"
  shows "\<exists>h'. unlink_far fuel p s r q ds h = Inr h' \<and> hangs h' this c (Bin l s (plug cs sr)) \<and>
    colors h' = (colors h)(s := colors h p, p := colors h s) \<and> entries h' = entries h"
proof -
  let ?R = "plug cs (Bin Tip s sr)" and ?b = "bnd c"
  note pd = parts_distinct[OF dist]
  have ctx: "ctx_ok h this c (Bin l p ?R)" and rp: "rep h ?b (Bin l p ?R)" using hg by (simp_all add: hangs_def)
  obtain fq where fq: "links h q = Some fq" "fq ds = top_view c ds (Bin l p ?R)" by (rule ctx_ok_top[OF ctx st])
  have RT: "?R \<noteq> Tip" by (rule plug_not_Tip) simp
  have rR: "root_or d ?R = root_or 0 (plug cs sr)" "plug cs sr \<noteq> Tip" for d
    using cs(2) by (cases cs rule: rev_cases; auto simp: plug_append)+
  obtain fp where fp: "links h p = Some fp" "fp TRB_LEFT = view (?b TRB_LEFT) l" "fp TRB_RIGHT = (TRB_CHILD, root_or 0 (plug cs sr))"
    using rp RT rR(1) by (auto simp: node_ok_def view_def)
  have rep: "rep h (?b(TRB_LEFT := p)) ?R" "rep h (?b(TRB_RIGHT := p)) l" using rp by simp_all
  obtain fs where fs: "links h s = Some fs" "fs TRB_LEFT = (TRB_TRAIL, p)" using min_links[OF rep(1) cs] by auto
  have qc: "q \<in> cset this c" by (rule stack_top[OF st])
  have sR: "s \<in> set (inord ?R)" "r \<in> set (inord ?R)" "r \<in> set (inord (plug cs sr))" "set (inord (plug cs sr)) \<subseteq> set (inord ?R)" "s \<notin> set (inord (plug cs sr))"
    using cs(2,3) pd(2) by (cases cs; auto simp: inord_plug)+
  have ne: "r \<noteq> p" "r \<noteq> q" "p \<noteq> q" "s \<noteq> p" "s \<noteq> q" "r \<noteq> s" "p \<notin> set (inord l)" "q \<notin> set (inord l)" "r \<notin> set (inord l)" "s \<notin> set (inord l)" "q \<notin> set (inord ?R)" "p \<notin> set (inord ?R)"
    "set (inord l) \<inter> set (inord ?R) = {}"
    using pd qc sR by auto
  have as: "aligned s" using al sR(1) by (simp add: inord_plug)
  obtain h1 where h1: "detach_min s r h = Inr h1" "rep h1 (?b(TRB_LEFT := s)) (plug cs sr)" "\<forall>x. x \<noteq> r \<longrightarrow> links h1 x = links h x" "colors h1 = colors h" "entries h1 = entries h"
    using detach_min_run[OF rep(1) cs pd(2)] al by (auto simp: inord_plug[of c])
  have l1: "rep h1 (?b(TRB_RIGHT := p)) l" by (rule rep_same[OF rep(2)]) (use h1(3) ne(9) in auto)
  obtain h2 where h2: "adopt_left fuel p s h1 = Inr h2" "rep h2 (?b(TRB_RIGHT := s)) l" "links h2 s = Some (fs(TRB_LEFT := view (?b TRB_LEFT) l))"
      "\<forall>x. x \<notin> insert s (set (inord l)) \<longrightarrow> links h2 x = links h1 x" "colors h2 = colors h" "entries h2 = entries h"
    using adopt_left_run[of h1 s fs p fp ?b l fuel] h1 fs fp l1 ne pd(1) fuel as by auto
  have p2: "links h2 p = Some fp" "links h2 q = Some fq" using h2(4) h1(3) fp(1) fq(1) ne by auto
  let ?f = "fs(TRB_LEFT := view (?b TRB_LEFT) l, TRB_RIGHT := (TRB_CHILD, root_or 0 (plug cs sr)))"
  have tv: "top_view c ds (Bin l s (plug cs sr)) = (fst (fq ds), s)" using fq(2) by (simp add: top_view_def view_def)
  obtain h6 where h6: "unlink_far fuel p s r q ds h = Inr h6" "links h6 = (links h2)(s \<mapsto> ?f, q \<mapsto> fq(ds := top_view c ds (Bin l s (plug cs sr))))"
      "colors h6 = (colors h)(s := colors h p, p := colors h s)" "entries h6 = entries h"
    using take_place_run[OF h2(3) p2 ne(4,5) as, of ds] h1(1) h2(1,5,6) fp(3) tv by (auto simp: unlink_far_def)
  have out: "links h6 x = links h1 x" if "x \<notin> insert s (insert q (set (inord l)))" for x using that h6(2) h2(4) by auto
  have "ctx_ok h6 this c (Bin l s (plug cs sr))"
  proof (rule ctx_ok_change[OF ctx st fq(1) _ _ pd(3)])
    show "\<forall>x \<in> cset this c - {q}. links h6 x = links h x"
    proof
      fix x assume x: "x \<in> cset this c - {q}"
      then have "x \<notin> insert s (insert q (set (inord l)))" "x \<noteq> r" using pd(6) sR by auto
      then show "links h6 x = links h x" using out h1(3) by simp
    qed
  qed (use h6(2) in simp)
  moreover have "rep h6 (?b(TRB_RIGHT := s)) l" by (rule rep_same[OF h2(2)]) (use h6(2) ne in auto)
  moreover have "rep h6 (?b(TRB_LEFT := s)) (plug cs sr)" by (rule rep_same[OF h1(2)], intro ballI out) (use sR ne in auto)
  moreover have "node_ok h6 s TRB_LEFT (view (?b TRB_LEFT) l) (view (?b TRB_RIGHT) (plug cs sr))"
    using h6(2) ne(5) rR(2) root_any[OF rR(2), of "?b TRB_RIGHT"] by (simp add: node_ok_def view_def)
  ultimately show ?thesis using h6 by (auto simp: hangs_def)
qed

end
