(* ===== verification/Trb_Detach.thy ===== *)
theory Trb_Detach
  imports Trb_Unlink
begin

text \<open>
  Unlinking leaves a tree that is coloured like the one before, with the node that goes in the place that became free.
\<close>

section \<open>Trees with the same colours\<close>

fun alike :: "coloring \<Rightarrow> ptree \<Rightarrow> coloring \<Rightarrow> ptree \<Rightarrow> bool" where
  "alike col Tip col' Tip = True"
| "alike col (Bin l p r) col' (Bin l' p' r') \<longleftrightarrow> alike col l col' l' \<and> (red col p = red col' p') \<and> alike col r col' r'"
| "alike col T col' T' = False"

lemma alike_colors: "alike col T col' T' \<Longrightarrow> red_root col' T' = red_root col T \<and> bh col' T' m = bh col T m \<and> rr col' T' = rr col T"
proof (induction T arbitrary: T' m)
  case Tip
  then show ?case by (cases T') auto
next
  case (Bin l p r)
  then obtain l' p' r' where T': "T' = Bin l' p' r'" by (cases T') auto
  then show ?case using Bin.IH(1)[of l'] Bin.IH(2)[of r'] Bin.prems by auto
qed

lemma alike_same: "\<forall>q \<in> set (inord T). col' q = col q \<Longrightarrow> alike col T col' T"
  by (induction T) auto

lemma alike_plug:
  assumes "alike col T col' T'" and "\<forall>q \<in> set (lft c) \<union> set (rgt c). col' q = col q"
  shows "alike col (plug c T) col' (plug c T')"
  using assms
proof (induction c arbitrary: T T')
  case (Cons e c)
  obtain p s y where e: "e = (p, s, y)" by (cases e)
  have "alike col y col' y" "red col p = red col' p" by (rule alike_same; use Cons.prems(2) e in \<open>cases s; auto\<close>) (use Cons.prems(2) e in \<open>cases s; auto\<close>)
  then have "alike col (mk s T p y) col' (mk s T' p y)" using Cons.prems(1) by (cases s) auto
  moreover have "\<forall>q \<in> set (lft c) \<union> set (rgt c). col' q = col q" using Cons.prems(2) e by (cases s) auto
  ultimately show ?case using Cons.IH e by simp
qed simp

lemma alike_red_black: "alike col T col' T' \<Longrightarrow> red_black col T \<Longrightarrow> red_black col' T'"
  using alike_colors[of col T col' T'] by (simp add: red_black_def)

text \<open>The successor \<open>s\<close> of \<open>p\<close> and \<open>p\<close> change places and colours.\<close>

lemma alike_swap:
  assumes "distinct (inord (plug c (Bin l p (plug cs (Bin Tip s sr)))))"
  shows "alike col (plug c (Bin l p (plug cs (Bin Tip s sr)))) (col(s := col p, p := col s)) (plug c (Bin l s (plug cs (Bin Tip p sr))))"
proof -
  let ?col = "col(s := col p, p := col s)"
  have same: "?col q = col q" if "q \<noteq> p" "q \<noteq> s" for q using that by simp
  have ps: "p \<noteq> s" using assms by (auto simp: inord_plug)
  have "alike col sr ?col sr" by (intro alike_same ballI same) (use assms in \<open>auto simp: inord_plug\<close>)
  then have "alike col (Bin Tip s sr) ?col (Bin Tip p sr)" by simp
  then have "alike col (plug cs (Bin Tip s sr)) ?col (plug cs (Bin Tip p sr))"
    by (rule alike_plug, intro ballI same) (use assms in \<open>auto simp: inord_plug\<close>)
  moreover have "alike col l ?col l" by (intro alike_same ballI same) (use assms in \<open>auto simp: inord_plug\<close>)
  ultimately have "alike col (Bin l p (plug cs (Bin Tip s sr))) ?col (Bin l s (plug cs (Bin Tip p sr)))" using ps by simp
  then show ?thesis by (rule alike_plug, intro ballI same) (use assms in \<open>auto simp: inord_plug\<close>)
qed

lemma height_plug: "length c + height T \<le> height (plug c T)"
proof (induction c arbitrary: T)
  case (Cons e c)
  obtain p s y where e: "e = (p, s, y)" by (cases e)
  have "Suc (height T) \<le> height (mk s T p y)" by (cases s) auto
  then show ?case using Cons.IH[of "mk s T p y"] e by simp
qed simp

section \<open>Unlinking\<close>

text \<open>
  What unlinking \<open>p\<close> hands to the loop: a context with the subtree that moved up, whose missing node was coloured as \<open>p\<close> now is.
\<close>

definition detached :: "('k, 'v) mem \<Rightarrow> ('k, 'v) mem \<Rightarrow> addr \<Rightarrow> addr \<Rightarrow> ctx \<Rightarrow> ptree \<Rightarrow> bool" where
  "detached h h' this p C X \<longleftrightarrow> hangs h' this C X \<and> colors h' this = colors h this \<and> entries h' = entries h \<and>
     (\<exists>sd. red_black (colors h') (plug C (mk sd X p Tip)))"

lemma detach_outer:
  assumes t: "tree_at this (plug c (Bin l p Tip)) h" and rb: "red_black (colors h) (plug c (Bin l p Tip))" and fuel: "height l \<le> fuel"
  shows "\<exists>h'. unlink_node fuel this p (stack this c) h = Inr (stack this c, h') \<and> detached h h' this p c l"
proof -
  have hg: "hangs h this c (Bin l p Tip)" and d: "distinct (this # inord (plug c (Bin l p Tip)))" and al: "\<forall>x \<in> set (inord (plug c (Bin l p Tip))). aligned x"
    using t hangs_plug[of h this c "Bin l p Tip"] by (auto simp: tree_at_def)
  obtain q ds st where st: "stack this c = (q, ds) # st" by (cases c) auto
  then have top: "(q, ds) = hd (stack this c)" by simp
  obtain h' where h': "unlink_outer fuel this p q ds h = Inr h'" "hangs h' this c l" "colors h' = colors h" "entries h' = entries h"
    using unlink_leaf[of h this c p q ds fuel] unlink_left[OF hg top d al fuel] hg top d by (cases "l = Tip") auto
  obtain f where f: "links h p = Some f" "f TRB_RIGHT = (TRB_TRAIL, bnd c TRB_RIGHT)" using hg by (auto simp: hangs_def node_ok_def view_def)
  have "unlink_node fuel this p (stack this c) h = Inr (stack this c, h')" using st h'(1) get_tag_view[OF f(1), of TRB_RIGHT] f(2) by (simp add: unlink_node_def)
  moreover have "mk TRB_LEFT l p Tip = Bin l p Tip" by simp
  ultimately show ?thesis using h'(2-4) rb unfolding detached_def by metis
qed

lemma detach_next:
  assumes t: "tree_at this (plug c (Bin l p (Bin Tip r y))) h" and rb: "red_black (colors h) (plug c (Bin l p (Bin Tip r y)))" and fuel: "height l \<le> fuel"
    and len: "length c + 1 < maxHeight"
  shows "\<exists>h'. unlink_node fuel this p (stack this c) h = Inr (stack this ((r, TRB_RIGHT, l) # c), h') \<and> detached h h' this p ((r, TRB_RIGHT, l) # c) y"
proof -
  let ?T = "Bin l p (Bin Tip r y)"
  have hg: "hangs h this c ?T" and d: "distinct (this # inord (plug c ?T))" and al: "\<forall>x \<in> set (inord (plug c ?T)). aligned x"
    using t hangs_plug[of h this c ?T] by (auto simp: tree_at_def)
  obtain q ds st where st: "stack this c = (q, ds) # st" by (cases c) auto
  then have top: "(q, ds) = hd (stack this c)" by simp
  obtain h' where h': "unlink_next fuel p r q ds h = Inr h'" "hangs h' this c (Bin l r y)" "colors h' = (colors h)(r := colors h p, p := colors h r)" "entries h' = entries h"
    using unlink_next_run[OF hg top d al fuel] by blast
  obtain f g where f: "links h p = Some f" "f TRB_RIGHT = (TRB_CHILD, r)" "links h r = Some g" "g TRB_LEFT = (TRB_TRAIL, p)"
    using hg by (auto simp: hangs_def node_ok_def view_def)
  have "unlink_node fuel this p (stack this c) h = Inr (stack this ((r, TRB_RIGHT, l) # c), h')"
    using st h'(1) get_tag_view[OF f(1), of TRB_RIGHT] get_link_view[OF f(1), of TRB_RIGHT] get_tag_view[OF f(3), of TRB_LEFT] f(2,4) len length_stack[of this c]
    by (simp add: unlink_node_def)
  moreover have "hangs h' this ((r, TRB_RIGHT, l) # c) y" using h'(2) by (simp add: hangs_up)
  moreover have "alike (colors h) (plug c ?T) (colors h') (plug ((r, TRB_RIGHT, l) # c) (mk TRB_RIGHT y p Tip))"
    using alike_swap[of c l p "[]" r y "colors h"] d h'(3) by simp
  then have "red_black (colors h') (plug ((r, TRB_RIGHT, l) # c) (mk TRB_RIGHT y p Tip))" by (rule alike_red_black[OF _ rb])
  moreover have "colors h' this = colors h this" using h'(3) d by (auto simp: inord_plug)
  ultimately show ?thesis using h'(4) unfolding detached_def by blast
qed

lemma detach_far:
  assumes t: "tree_at this (plug c (Bin l p (Bin L x R))) h" and rb: "red_black (colors h) (plug c (Bin l p (Bin L x R)))" and L: "L \<noteq> Tip"
    and fuel: "height l \<le> fuel" "height L \<le> fuel" and len: "length c + 2 + height L \<le> maxHeight"
  shows "\<exists>h' C X. unlink_node fuel this p (stack this c) h = Inr (stack this C, h') \<and> detached h h' this p C X \<and>
    inord (plug C X) = lft c @ inord l @ inord (Bin L x R) @ rgt c \<and> length C \<le> length c + 1 + height L"
proof -
  let ?T = "Bin l p (Bin L x R)"
  have hg: "hangs h this c ?T" and d: "distinct (this # inord (plug c ?T))" and al: "\<forall>x \<in> set (inord (plug c ?T)). aligned x"
    using t hangs_plug[of h this c ?T] by (auto simp: tree_at_def)
  obtain q ds st where st: "stack this c = (q, ds) # st" by (cases c) auto
  then have top: "(q, ds) = hd (stack this c)" by simp
  have rx: "rep h ((bnd c)(TRB_LEFT := p)) (Bin L x R)" using hg unfolding hangs_def rep.simps by simp
  have k: "Suc (length (stack this c)) + height L \<le> maxHeight" using len by (simp add: length_stack)
  obtain s sr cs r y where c: "left_path fuel (Suc (length (stack this c))) x [] h = Inr (s, r, pstack cs)" "Bin L x R = plug cs (Bin Tip s sr)"
      "left_only cs" "cs \<noteq> []" "hd cs = (r, TRB_LEFT, y)" "length cs \<le> height L"
    using left_path_run[OF rx L fuel(2) k, of "[]"] by auto
  obtain h' where h': "unlink_far fuel p s r q ds h = Inr h'" "hangs h' this c (Bin l s (plug cs sr))" "colors h' = (colors h)(s := colors h p, p := colors h s)" "entries h' = entries h"
    using unlink_far_run[of h this c l p cs s sr r y q ds fuel] hg d al c(2-5) top fuel(1) by auto
  obtain f g where f: "links h p = Some f" "f TRB_RIGHT = (TRB_CHILD, x)" "links h x = Some g" "fst (g TRB_LEFT) = TRB_CHILD"
    using hg L by (auto simp: hangs_def node_ok_def view_def)
  let ?C = "cs @ (s, TRB_RIGHT, l) # c"
  have "unlink_node fuel this p (stack this c) h = Inr (stack this ?C, h')"
    using st h'(1) get_tag_view[OF f(1), of TRB_RIGHT] get_link_view[OF f(1), of TRB_RIGHT] get_tag_view[OF f(3), of TRB_LEFT] f(2,4) c(1)
    by (simp add: unlink_node_def stack_append)
  moreover have "hangs h' this ?C sr" using h'(2) hangs_plug[of h' this ?C sr] hangs_plug[of h' this c "Bin l s (plug cs sr)"] by (simp add: plug_append)
  moreover have "alike (colors h) (plug c ?T) (colors h') (plug ?C (mk TRB_RIGHT sr p Tip))"
    using alike_swap[of c l p cs s sr "colors h"] d h'(3) c(2) by (simp add: plug_append)
  then have "red_black (colors h') (plug ?C (mk TRB_RIGHT sr p Tip))" by (rule alike_red_black[OF _ rb])
  moreover have "colors h' this = colors h this" using h'(3) d c(2) by (auto simp: inord_plug)
  moreover have "inord (plug ?C sr) = lft c @ inord l @ inord (Bin L x R) @ rgt c" unfolding c(2) using c(3) by (simp add: plug_append inord_plug left_only_lft)
  moreover have "length ?C \<le> length c + 1 + height L" using c(6) by simp
  ultimately show ?thesis using h'(4) unfolding detached_def by blast
qed

lemma unlink_run:
  assumes t: "tree_at this (plug c (Bin l p r)) h" and rb: "red_black (colors h) (plug c (Bin l p r))"
    and fuel: "height (plug c (Bin l p r)) \<le> fuel" and hT: "height (plug c (Bin l p r)) < maxHeight"
  shows "\<exists>h' C X. unlink_node fuel this p (stack this c) h = Inr (stack this C, h') \<and> detached h h' this p C X \<and>
    inord (plug C X) = lft c @ inord l @ inord r @ rgt c \<and> length C < height (plug c (Bin l p r))"
proof -
  have hl: "length c + Suc (max (height l) (height r)) \<le> height (plug c (Bin l p r))" using height_plug[of c "Bin l p r"] by simp
  have fl: "height l \<le> fuel" using hl fuel by linarith
  consider "r = Tip" | r' y where "r = Bin Tip r' y" | L x R where "r = Bin L x R" "L \<noteq> Tip" by (metis ptree.exhaust)
  then show ?thesis
  proof cases
    case 1
    obtain h' where "unlink_node fuel this p (stack this c) h = Inr (stack this c, h')" "detached h h' this p c l"
      using detach_outer[of this c l p h fuel] t rb fl 1 by auto
    moreover have "inord (plug c l) = lft c @ inord l @ inord r @ rgt c" using 1 by (simp add: inord_plug)
    ultimately show ?thesis using hl by (intro exI[of _ h'] exI[of _ c] exI[of _ l]) simp
  next
    case (2 r' y)
    have "length c + 1 < maxHeight" using hl hT 2 by simp
    then obtain h' where "unlink_node fuel this p (stack this c) h = Inr (stack this ((r', TRB_RIGHT, l) # c), h')" "detached h h' this p ((r', TRB_RIGHT, l) # c) y"
      using detach_next[of this c l p r' y h fuel] t rb fl 2 by auto
    moreover have "inord (plug ((r', TRB_RIGHT, l) # c) y) = lft c @ inord l @ inord r @ rgt c" using 2 by (simp add: inord_plug)
    moreover have "length ((r', TRB_RIGHT, l) # c) < height (plug c (Bin l p r))" using hl 2 by simp
    ultimately show ?thesis by blast
  next
    case (3 L x R)
    have "height L \<le> fuel" "length c + 2 + height L \<le> maxHeight" "length c + 1 + height L < height (plug c (Bin l p r))" using hl hT fuel 3 by auto
    then show ?thesis using detach_far[of this c l p L x R h fuel] t rb fl 3 le_less_trans by blast
  qed
qed

end
