(* ===== verification/Trb_Rebalance.thy ===== *)
theory Trb_Rebalance
  imports Trb_Detach
begin

text \<open>
  The loop that restores the colours after a removal. One side of a node is a black node short; depending on the colours
  around its sibling the loop recolours and goes up, or rotates and ends.
\<close>

section \<open>Rotations of the loop\<close>

text \<open>A rotation up to the trails.\<close>

definition move_links :: "addr \<Rightarrow> addr \<Rightarrow> TRBTreeNodeChildSide \<Rightarrow> addr \<Rightarrow> TRBTreeNodeChildSide \<Rightarrow> ('k, 'v) mem \<Rightarrow> ('k, 'v) mem res" where
  "move_links x y s q ds h =
     bind_res (get_link y (otherSide s) h) (\<lambda>l.
     bind_res (set_link x l s TRB_TAG_MAX h) (\<lambda>h.
     bind_res (set_link y x (otherSide s) TRB_TAG_MAX h)
     (set_link q y ds TRB_TAG_MAX)))"

lemma rotate_up_moves:
  "rotate_up x y s q ds h = bind_res (move_links x y s q ds h) (\<lambda>h. bind_res (get_trail_tag y (otherSide s) h) (\<lambda>t.
     if t = TRB_TRAIL then bind_res (set_trail_tag y (otherSide s) TRB_CHILD h) (\<lambda>h. bind_res (set_trail_tag x s TRB_TRAIL h) (set_link x y s TRB_TAG_MAX)) else Inr h))"
  by (simp add: rotate_up_def move_links_def bind_res_assoc)

lemma move_view:
  assumes x: "links h x = Some fx" and y: "links h y = Some fy" and q: "links h q = Some fq"
    and ne: "x \<noteq> y" "q \<noteq> x" "q \<noteq> y" and al: "aligned x" "aligned y"
  shows "\<exists>h'. move_links x y s q ds h = Inr h' \<and> links h' = (links h)(x \<mapsto> fx(s := (fst (fx s), snd (fy (otherSide s)))),
    y \<mapsto> fy(otherSide s := (fst (fy (otherSide s)), x)), q \<mapsto> fq(ds := (fst (fq ds), y)))"
proof -
  let ?s = "otherSide s"
  have g: "get_link y ?s h = Inr (snd (fy ?s))" "aligned (snd (fy ?s))" using get_link_view[OF y] links_aligned[OF y] by simp_all
  obtain h1 where h1: "set_link x (snd (fy ?s)) s TRB_TAG_MAX h = Inr h1" "links h1 = (links h)(x \<mapsto> fx(s := (fst (fx s), snd (fy ?s))))"
    using set_link_view[OF x g(2), of s] by blast
  have "links h1 y = Some fy" using h1(2) y ne by simp
  from set_link_view[OF this al(1), of ?s] obtain h2 where h2: "set_link y x ?s TRB_TAG_MAX h1 = Inr h2" "links h2 = (links h1)(y \<mapsto> fy(?s := (fst (fy ?s), x)))" by blast
  have "links h2 q = Some fq" using h1(2) h2(2) q ne by simp
  from set_link_view[OF this al(2), of ds] show ?thesis using g(1) h1 h2 by (auto simp: move_links_def)
qed

text \<open>What the nodes of a rotation say before it.\<close>

lemma rotation_links:
  assumes hg: "hangs h this c (mk s (mk s A y B) x C)" and st: "(q, ds) = hd (stack this c)" and dist: "distinct (this # inord (plug c (mk s (mk s A y B) x C)))"
  obtains fx fy fq where "links h x = Some fx" "fx s = (TRB_CHILD, y)" "links h y = Some fy" "fy s = view (bnd c s) A" "fy (otherSide s) = view x B"
    "links h q = Some fq" "x \<noteq> y" "q \<noteq> x" "q \<noteq> y"
proof -
  have ctx: "ctx_ok h this c (mk s (mk s A y B) x C)" and rp: "rep h (bnd c) (mk s (mk s A y B) x C)" using hg by (simp_all add: hangs_def)
  have qc: "q \<in> cset this c" by (rule stack_top[OF st])
  then obtain fq where "links h q = Some fq" using ctx_dom[OF ctx] by blast
  moreover have "x \<noteq> y" "x \<notin> cset this c" "y \<notin> cset this c" using dist by (auto simp: inord_plug cset_eq inord_mk split: if_splits)
  moreover obtain fx where "links h x = Some fx" "fx s = (TRB_CHILD, y)" using rp by (auto simp: rep_mk node_ok_def)
  moreover obtain fy where "links h y = Some fy" "fy s = view (bnd c s) A" "fy (otherSide s) = view x B" using rp by (auto simp: rep_mk node_ok_def)
  ultimately show ?thesis using that qc by metis
qed

text \<open>When the inner subtree is not empty the trails need no care.\<close>

lemma move_run:
  assumes hg: "hangs h this c (mk s (mk s A y B) x C)" and st: "(q, ds) = hd (stack this c)"
    and dist: "distinct (this # inord (plug c (mk s (mk s A y B) x C)))" and al: "aligned x" "aligned y" and B: "B \<noteq> Tip"
  shows "\<exists>h'. move_links x y s q ds h = Inr h' \<and> colors h' = colors h \<and> entries h' = entries h \<and>
    hangs h' this c (mk s A y (mk s B x C)) \<and> get_link x s h' = Inr (root_or 0 B)"
proof -
  obtain fx fy fq where f: "links h x = Some fx" "fx s = (TRB_CHILD, y)" "links h y = Some fy" "fy s = view (bnd c s) A" "fy (otherSide s) = view x B"
    "links h q = Some fq" "x \<noteq> y" "q \<noteq> x" "q \<noteq> y" by (rule rotation_links[OF hg st dist])
  obtain h1 where h1: "move_links x y s q ds h = Inr h1" "links h1 = (links h)(x \<mapsto> fx(s := (fst (fx s), snd (fy (otherSide s)))),
    y \<mapsto> fy(otherSide s := (fst (fy (otherSide s)), x)), q \<mapsto> fq(ds := (fst (fq ds), y)))"
    using move_view[OF f(1,3,6-9) al] by blast
  have "links h1 y = Some (fy(otherSide s := (TRB_CHILD, x)))" "links h1 x = Some (fx(s := (TRB_CHILD, root_or 0 B)))"
    using h1(2) f(2,5,7-9) B root_any[OF B, of x] by (simp_all add: view_def)
  then have "get_trail_tag y (otherSide s) h1 = Inr TRB_CHILD" "get_link x s h1 = Inr (root_or 0 B)" using get_tag_view get_link_view by fastforce+
  then have "rotate_up x y s q ds h = Inr h1" "get_link x s h1 = Inr (root_or 0 B)" using h1(1) by (simp_all add: rotate_up_moves)
  then show ?thesis using rotate_run[OF hg st dist al] h1(1) by auto
qed

lemma recolor2:
  assumes "links h a = Some f" and "links h b = Some g"
  obtains h' where "bind_res (set_color a ca h) (set_color b cb) = Inr h'" "links h' = links h" "colors h' = (colors h)(a \<mapsto> ca, b \<mapsto> cb)" "entries h' = entries h"
proof -
  obtain h1 where h1: "set_color a ca h = Inr h1" "links h1 = links h" "colors h1 = (colors h)(a \<mapsto> ca)" "entries h1 = entries h"
    using set_color_view[OF assms(1)] by blast
  then obtain h2 where "set_color b cb h1 = Inr h2" "links h2 = links h" "colors h2 = (colors h)(a \<mapsto> ca, b \<mapsto> cb)" "entries h2 = entries h"
    using set_color_view[of h1 b g cb] assms(2) by auto
  then show ?thesis using that h1(1) by simp
qed

lemma red_sibling_run:
  assumes hg: "hangs h this c (mk s (mk s A w B) p X)" and st: "(q, ds) = hd (stack this c)"
    and dist: "distinct (this # inord (plug c (mk s (mk s A w B) p X)))" and al: "aligned p" "aligned w" and B: "B \<noteq> Tip" and k: "k < maxHeight"
  shows "\<exists>h'. red_sibling p (otherSide s) w q ds k h = Inr (root_or 0 B, h') \<and> hangs h' this c (mk s A w (mk s B p X)) \<and>
    colors h' = (colors h)(w \<mapsto> TRB_BLACK, p \<mapsto> TRB_RED) \<and> entries h' = entries h"
proof -
  obtain fx fy fq where f: "links h p = Some fx" "links h w = Some fy" by (rule rotation_links[OF hg st dist])
  obtain h1 where h1: "bind_res (set_color w TRB_BLACK h) (set_color p TRB_RED) = Inr h1" "links h1 = links h" "colors h1 = (colors h)(w \<mapsto> TRB_BLACK, p \<mapsto> TRB_RED)" "entries h1 = entries h"
    by (rule recolor2[OF f(2,1)])
  have "hangs h1 this c (mk s (mk s A w B) p X)" using hg hangs_cong[OF h1(2)] by simp
  then obtain h2 where h2: "move_links p w s q ds h1 = Inr h2" "colors h2 = colors h1" "entries h2 = entries h1" "hangs h2 this c (mk s A w (mk s B p X))" "get_link p s h2 = Inr (root_or 0 B)"
    using move_run[OF _ st dist al B] by blast
  have "red_sibling p (otherSide s) w q ds k h = bind_res (bind_res (set_color w TRB_BLACK h) (set_color p TRB_RED)) (\<lambda>h. bind_res (move_links p w s q ds h) (\<lambda>h.
      if maxHeight \<le> k then Inl OutOfBounds else bind_res (get_link p s h) (\<lambda>w. Inr (w, h))))"
    by (simp add: red_sibling_def move_links_def bind_res_assoc cong: if_cong)
  then show ?thesis using h1 h2 k by simp
qed

text \<open>
  The inner child with its trails: the code tests the right link of \<open>y\<close>, which has the same mark as the link that a rotation
  tests, since a red node has two children or none.
\<close>

lemma inner_trails:
  assumes y: "links h y = Some g" "g s = (t, w)" "fst (g TRB_RIGHT) = t" and w: "links h w = Some f" "w \<noteq> y"
  shows "bind_res (get_trail_tag y TRB_RIGHT h) (\<lambda>g. if g = TRB_TRAIL
        then bind_res (set_trail_tag y s TRB_CHILD h) (\<lambda>h. bind_res (get_link y s h) (\<lambda>z. bind_res (set_trail_tag z d TRB_TRAIL h) (\<lambda>h.
             bind_res (get_link y s h) (\<lambda>z. bind_res (set_link z y d TRB_TAG_MAX h) (\<lambda>h. Inr (y, h))))))
        else Inr (y, h)) =
    bind_res (bind_res (get_trail_tag y s h) (\<lambda>g. if g = TRB_TRAIL
        then bind_res (set_trail_tag y s TRB_CHILD h) (\<lambda>h. bind_res (set_trail_tag w d TRB_TRAIL h) (set_link w y d TRB_TAG_MAX)) else Inr h)) (\<lambda>h. Inr (y, h))"
proof -
  have tags: "get_trail_tag y TRB_RIGHT h = Inr t" "get_trail_tag y s h = Inr t" using get_tag_view[OF y(1)] y(2,3) by simp_all
  obtain h1 where h1: "set_trail_tag y s TRB_CHILD h = Inr h1" "links h1 = (links h)(y \<mapsto> g(s := (TRB_CHILD, w)))"
    using set_tag_view[OF y(1), of TRB_CHILD s] y(2) by auto
  have "links h1 w = Some f" using h1(2) w by simp
  then obtain h2 where h2: "set_trail_tag w d TRB_TRAIL h1 = Inr h2" "links h2 = (links h1)(w \<mapsto> f(d := (TRB_TRAIL, snd (f d))))"
    using set_tag_view[of h1 w f TRB_TRAIL d] by auto
  have "get_link y s h1 = Inr w" "get_link y s h2 = Inr w" using get_link_view[of h1 y _ s] get_link_view[of h2 y _ s] h1(2) h2(2) w(2) by simp_all
  then show ?thesis using tags h1(1) h2(1) by simp
qed

lemma inner_child_run:
  assumes hg: "hangs h this c (mk s (mk s A w (mk s B1 y B2)) p X)" and dist: "distinct (this # inord (plug c (mk s (mk s A w (mk s B1 y B2)) p X)))"
    and al: "aligned w" "aligned y" and B: "(B1 = Tip) = (B2 = Tip)"
  shows "\<exists>h'. inner_child p (otherSide s) w h = Inr (y, h') \<and> hangs h' this c (mk s (mk s (mk s A w B1) y B2) p X) \<and>
    colors h' = (colors h)(y \<mapsto> TRB_BLACK, w \<mapsto> TRB_RED) \<and> entries h' = entries h"
proof -
  let ?d = "otherSide s" and ?c = "(p, s, X) # c"
  have st: "(p, s) = hd (stack this ?c)" by simp
  have form: "mk ?d (mk ?d B2 y B1) w A = mk s A w (mk s B1 y B2)" by (simp add: mk_other)
  have hg': "hangs h this ?c (mk ?d (mk ?d B2 y B1) w A)" and dist': "distinct (this # inord (plug ?c (mk ?d (mk ?d B2 y B1) w A)))"
    using hg dist unfolding form by (simp_all add: hangs_up)
  obtain fx fy fq where f: "links h w = Some fx" "fx ?d = (TRB_CHILD, y)" "links h y = Some fy" "fy ?d = view (bnd ?c ?d) B2" "fy (otherSide ?d) = view w B1"
    "links h p = Some fq" "w \<noteq> y" "p \<noteq> w" "p \<noteq> y" by (rule rotation_links[OF hg' st dist'])
  obtain h1 where h1: "bind_res (set_color y TRB_BLACK h) (set_color w TRB_RED) = Inr h1" "links h1 = links h" "colors h1 = (colors h)(y \<mapsto> TRB_BLACK, w \<mapsto> TRB_RED)" "entries h1 = entries h"
    by (rule recolor2[OF f(3,1)])
  have "hangs h1 this ?c (mk ?d (mk ?d B2 y B1) w A)" using hg' hangs_cong[OF h1(2)] by simp
  then obtain h' where h': "rotate_up w y ?d p s h1 = Inr h'" "colors h' = colors h1" "entries h' = entries h1" "hangs h' this ?c (mk ?d B2 y (mk ?d B1 w A))"
    using rotate_run[OF _ st dist' al] by blast
  have f1: "links h1 w = Some fx" "links h1 y = Some fy" "links h1 p = Some fq" using f(1,3,6) h1(2) by simp_all
  obtain h2 where h2: "move_links w y ?d p s h1 = Inr h2" "links h2 = (links h1)(w \<mapsto> fx(?d := (fst (fx ?d), snd (fy (otherSide ?d)))),
      y \<mapsto> fy(otherSide ?d := (fst (fy (otherSide ?d)), w)), p \<mapsto> fq(s := (fst (fq s), y)))"
    using move_view[OF f1 f(7-9) al, of ?d s] by blast
  let ?t = "if B1 = Tip then TRB_TRAIL else TRB_CHILD" and ?g = "fy(s := (if B1 = Tip then TRB_TRAIL else TRB_CHILD, w))"
  have y2: "links h2 y = Some ?g" "?g s = (?t, w)" "fst (?g TRB_RIGHT) = ?t" using h2(2) f(4,5,7,9) B by (cases s; simp add: view_def)+
  obtain g where w2: "links h2 w = Some g" using h2(2) f(7,8) by auto
  have gl: "get_link w ?d h = Inr y" using get_link_view[OF f(1), of ?d] f(2) by simp
  have "inner_child p ?d w h = bind_res (get_link w ?d h) (\<lambda>y. bind_res (bind_res (set_color y TRB_BLACK h) (set_color w TRB_RED)) (\<lambda>h. bind_res (move_links w y ?d p s h) (\<lambda>h.
      bind_res (get_trail_tag y TRB_RIGHT h) (\<lambda>g. if g = TRB_TRAIL
        then bind_res (set_trail_tag y s TRB_CHILD h) (\<lambda>h. bind_res (get_link y s h) (\<lambda>z. bind_res (set_trail_tag z ?d TRB_TRAIL h) (\<lambda>h.
             bind_res (get_link y s h) (\<lambda>z. bind_res (set_link z y ?d TRB_TAG_MAX h) (\<lambda>h. Inr (y, h))))))
        else Inr (y, h)))))"
    by (simp add: inner_child_def move_links_def bind_res_assoc cong: if_cong)
  also have "\<dots> = bind_res (rotate_up w y ?d p s h1) (\<lambda>h. Inr (y, h))"
    unfolding gl bind_res_simps h1(1) h2(1) inner_trails[OF y2 w2 f(7)] rotate_up_moves otherSide_simps ..
  finally have "inner_child p ?d w h = Inr (y, h')" using h'(1) by simp
  moreover have "hangs h' this c (mk s (mk s (mk s A w B1) y B2) p X)" using h'(4) by (simp add: hangs_up mk_other)
  ultimately show ?thesis using h'(2,3) h1(3,4) by simp
qed

lemma outer_child_run:
  assumes hg: "hangs h this c (mk s (mk s (Bin A1 a A2) w B) p X)" and st: "(q, ds) = hd (stack this c)"
    and dist: "distinct (this # inord (plug c (mk s (mk s (Bin A1 a A2) w B) p X)))" and al: "aligned p" "aligned w" and cp: "colors h p = Some cp"
  shows "\<exists>h'. outer_child p (otherSide s) w q ds h = Inr h' \<and> hangs h' this c (mk s (Bin A1 a A2) w (mk s B p X)) \<and>
    colors h' = (colors h)(w \<mapsto> cp, p \<mapsto> TRB_BLACK, a \<mapsto> TRB_BLACK) \<and> entries h' = entries h"
proof -
  obtain fx fy fq where f: "links h p = Some fx" "links h w = Some fy" "fy s = view (bnd c s) (Bin A1 a A2)" by (rule rotation_links[OF hg st dist])
  obtain h1 where h1: "bind_res (set_color w cp h) (set_color p TRB_BLACK) = Inr h1" "links h1 = links h" "colors h1 = (colors h)(w \<mapsto> cp, p \<mapsto> TRB_BLACK)" "entries h1 = entries h"
    by (rule recolor2[OF f(2,1)])
  have "\<exists>g. links h a = Some g" by (rule hangs_dom[OF hg]) (simp add: inord_plug)
  then obtain h2 where h2: "set_color a TRB_BLACK h1 = Inr h2" "links h2 = links h" "colors h2 = (colors h)(w \<mapsto> cp, p \<mapsto> TRB_BLACK, a \<mapsto> TRB_BLACK)" "entries h2 = entries h"
    using set_color_view[of h1 a _ TRB_BLACK] h1 by auto
  have "hangs h2 this c (mk s (mk s (Bin A1 a A2) w B) p X)" using hg hangs_cong[OF h2(2)] by simp
  then obtain h3 where h3: "rotate_up p w s q ds h2 = Inr h3" "colors h3 = colors h2" "entries h3 = entries h2" "hangs h3 this c (mk s (Bin A1 a A2) w (mk s B p X))"
    using rotate_run[OF _ st dist al] by blast
  have "get_link w s h1 = Inr a" using get_link_view[of h1 w fy s] f(2,3) h1(2) by (simp add: view_def)
  moreover have "outer_child p (otherSide s) w q ds h = bind_res (get_color p h) (\<lambda>c. bind_res (bind_res (set_color w c h) (set_color p TRB_BLACK)) (\<lambda>h.
      bind_res (get_link w s h) (\<lambda>x. bind_res (set_color x TRB_BLACK h) (rotate_up p w s q ds))))"
    by (simp add: outer_child_def bind_res_assoc)
  ultimately show ?thesis using get_color_view[OF cp] h1(1) h2 h3 by simp
qed

section \<open>Cases of the loop\<close>

text \<open>What a rotation that ends the loop leaves: a subtree in order, \<open>m\<close> black nodes high, and nothing changed above it.\<close>

definition settled :: "('k, 'v) mem \<Rightarrow> ('k, 'v) mem \<Rightarrow> addr \<Rightarrow> ctx \<Rightarrow> ptree \<Rightarrow> nat \<Rightarrow> bool" where
  "settled h h' this c Z m \<longleftrightarrow> entries h' = entries h \<and> (\<forall>x \<in> cset this c. colors h' x = colors h x) \<and> hangs h' this c Z \<and>
     rr (colors h') Z \<and> bh (colors h') Z m"

lemma colors_kept:
  assumes "\<And>x. x \<in> set (inord T) \<Longrightarrow> col' x = col x" and "rr col T" and "bh col T m"
  shows "rr col' T" "bh col' T m" "red_root col' T = red_root col T"
  using assms color_cong[of T col' col] by auto

lemma outer_settled:
  assumes hg: "hangs h this c (mk s (mk s A w B) p X)" and st: "(q, ds) = hd (stack this c)"
    and dist: "distinct (this # inord (plug c (mk s (mk s A w B) p X)))" and al: "aligned p" "aligned w" and cp: "colors h p = Some cp"
    and A: "red_root (colors h) A" "rr (colors h) A" "bh (colors h) A m" and B: "rr (colors h) B" "bh (colors h) B m"
    and X: "rr (colors h) X" "bh (colors h) X m"
  shows "\<exists>h' Z. outer_child p (otherSide s) w q ds h = Inr h' \<and> inord Z = inord (mk s (mk s A w B) p X) \<and>
    settled h h' this c Z (if cp = TRB_RED then Suc m else Suc (Suc m)) \<and> red_root (colors h') Z = (cp = TRB_RED)"
proof -
  obtain A1 a A2 where a: "A = Bin A1 a A2" using A(1) by (cases A) auto
  let ?Z = "mk s A w (mk s B p X)"
  obtain h' where h': "outer_child p (otherSide s) w q ds h = Inr h'" "hangs h' this c ?Z" "colors h' = (colors h)(w \<mapsto> cp, p \<mapsto> TRB_BLACK, a \<mapsto> TRB_BLACK)" "entries h' = entries h"
    using outer_child_run[OF _ st _ al cp, of s A1 a A2 B X] hg dist a by blast
  have d: "w \<noteq> p" "a \<noteq> p" "a \<noteq> w" "{w, p, a} \<inter> (set (inord A1) \<union> set (inord A2) \<union> set (inord B) \<union> set (inord X) \<union> cset this c) = {}"
    using dist a by (auto simp: inord_plug inord_mk cset_eq split: if_splits)
  have same: "colors h' x = colors h x" if "x \<notin> {w, p, a}" for x using that h'(3) by auto
  have subs: "rr (colors h) A1" "rr (colors h) A2" "bh (colors h) A1 m" "bh (colors h) A2 m" using A a by auto
  have keep: "rr (colors h') T \<and> bh (colors h') T m" if "T \<in> {A1, A2, B, X}" for T
  proof -
    have "colors h' x = colors h x" if "x \<in> set (inord T)" for x by (rule same) (use that \<open>T \<in> {A1, A2, B, X}\<close> d(4) in auto)
    then show ?thesis using colors_kept[of T "colors h'" "colors h" m] subs B X that by auto
  qed
  have "rr (colors h') ?Z" "bh (colors h') ?Z (if cp = TRB_RED then Suc m else Suc (Suc m))" "red_root (colors h') ?Z = (cp = TRB_RED)"
    using keep d(1-3) h'(3) a by auto
  moreover have "\<forall>x \<in> cset this c. colors h' x = colors h x" by (intro ballI same) (use d(4) in auto)
  ultimately have "settled h h' this c ?Z (if cp = TRB_RED then Suc m else Suc (Suc m)) \<and> red_root (colors h') ?Z = (cp = TRB_RED)"
    using h'(2,4) by (simp add: settled_def)
  moreover have "inord ?Z = inord (mk s (mk s A w B) p X)" by (simp add: inord_mk)
  ultimately show ?thesis using h'(1) by blast
qed

lemma red_both: "bh col B1 m \<Longrightarrow> bh col B2 m \<Longrightarrow> \<not> red_root col B1 \<Longrightarrow> \<not> red_root col B2 \<Longrightarrow> (B1 = Tip) = (B2 = Tip)"
  by (cases B1; cases B2) auto

lemma inner_settled:
  assumes hg: "hangs h this c (mk s (mk s A w (mk s B1 y B2)) p X)" and st: "(q, ds) = hd (stack this c)"
    and dist: "distinct (this # inord (plug c (mk s (mk s A w (mk s B1 y B2)) p X)))" and al: "aligned p" "aligned w" "aligned y" and cp: "colors h p = Some cp"
    and A: "\<not> red_root (colors h) A" "rr (colors h) A" "bh (colors h) A m" and B: "red (colors h) y" "rr (colors h) (mk s B1 y B2)" "bh (colors h) (mk s B1 y B2) m"
    and X: "rr (colors h) X" "bh (colors h) X m"
  shows "\<exists>h' Z. bind_res (inner_child p (otherSide s) w h) (\<lambda>(w, h). outer_child p (otherSide s) w q ds h) = Inr h' \<and>
    inord Z = inord (mk s (mk s A w (mk s B1 y B2)) p X) \<and>
    settled h h' this c Z (if cp = TRB_RED then Suc m else Suc (Suc m)) \<and> red_root (colors h') Z = (cp = TRB_RED)"
proof -
  have b: "bh (colors h) B1 m" "bh (colors h) B2 m" "rr (colors h) B1" "rr (colors h) B2" "\<not> red_root (colors h) B1" "\<not> red_root (colors h) B2" using B by auto
  let ?A = "mk s A w B1" and ?T = "mk s (mk s (mk s A w B1) y B2) p X"
  obtain h1 where h1: "inner_child p (otherSide s) w h = Inr (y, h1)" "hangs h1 this c ?T" "colors h1 = (colors h)(y \<mapsto> TRB_BLACK, w \<mapsto> TRB_RED)" "entries h1 = entries h"
    using inner_child_run[OF hg dist al(2,3) red_both[OF b(1,2,5,6)]] by blast
  have io: "inord ?T = inord (mk s (mk s A w (mk s B1 y B2)) p X)" by (simp add: inord_mk)
  have d1: "distinct (this # inord (plug c ?T))" using dist io by (simp add: inord_plug)
  have d: "w \<noteq> p" "y \<noteq> p" "y \<noteq> w" "{w, y} \<inter> (set (inord A) \<union> set (inord B1) \<union> set (inord B2) \<union> set (inord X) \<union> cset this c) = {}"
    using dist by (auto simp: inord_plug inord_mk cset_eq split: if_splits)
  have same: "colors h1 x = colors h x" if "x \<notin> {w, y}" for x using that h1(3) by auto
  have keep: "rr (colors h1) T \<and> bh (colors h1) T m \<and> red_root (colors h1) T = red_root (colors h) T" if "T \<in> {A, B1, B2, X}" for T
  proof -
    have "colors h1 x = colors h x" if "x \<in> set (inord T)" for x by (rule same) (use that \<open>T \<in> {A, B1, B2, X}\<close> d(4) in auto)
    then show ?thesis using colors_kept[of T "colors h1" "colors h" m] A b X that by auto
  qed
  have "red_root (colors h1) ?A" "rr (colors h1) ?A" "bh (colors h1) ?A m" using keep A(1) b(5) h1(3) by auto
  then obtain h' Z where h': "outer_child p (otherSide s) y q ds h1 = Inr h'" "inord Z = inord ?T" "settled h1 h' this c Z (if cp = TRB_RED then Suc m else Suc (Suc m))"
      "red_root (colors h') Z = (cp = TRB_RED)"
    using outer_settled[OF h1(2) st d1 al(1,3) _ _ _ _ _ _ _ _, of cp m] keep cp h1(3) d by auto
  have "\<forall>x \<in> cset this c. colors h1 x = colors h x" by (intro ballI same) (use d(4) in auto)
  then have "settled h h' this c Z (if cp = TRB_RED then Suc m else Suc (Suc m))" using h'(3) h1(4) by (simp add: settled_def)
  then show ?thesis using h1(1) h'(1,2,4) io by auto
qed

lemma black_link_run:
  assumes "links h w = Some f" and "f s = view b T" and "rep h b' T"
  shows "black_link w s h = Inr (\<not> red_root (colors h) T)"
proof (cases T)
  case Tip
  then show ?thesis using get_tag_view[OF assms(1), of s] assms(2) by (simp add: black_link_def view_def)
next
  case (Bin l x r)
  obtain c where "colors h x = Some c" using rep_colored[OF assms(3), of x] Bin by auto
  then show ?thesis using get_tag_view[OF assms(1), of s] get_link_view[OF assms(1), of s] get_color_view[of h x c] assms(2) Bin
    by (cases c) (simp_all add: black_link_def view_def)
qed

text \<open>
  The sibling \<open>w\<close> is black. With two black children it turns red and the loop goes on above; otherwise a rotation ends it.
\<close>

lemma black_sibling_run:
  fixes s A w B h c p X q ds k
  defines "col \<equiv> colors h"
  assumes hg: "hangs h this c (mk s (mk s A w B) p X)" and st: "(q, ds) = hd (stack this c)"
    and dist: "distinct (this # inord (plug c (mk s (mk s A w B) p X)))" and al: "\<forall>x \<in> set (inord (plug c (mk s (mk s A w B) p X))). aligned x"
    and cp: "col p = Some cp" and A: "rr col A" "bh col A m" and B: "rr col B" "bh col B m" and X: "rr col X" "bh col X m"
  defines "run \<equiv> bind_res (black_link w TRB_LEFT h) (\<lambda>b. bind_res (if b then black_link w TRB_RIGHT h else Inr False) (\<lambda>b.
      if b then bind_res (set_color w TRB_RED h) k
      else bind_res (black_link w s h) (\<lambda>b. bind_res (if b then inner_child p (otherSide s) w h else Inr (w, h)) (\<lambda>(w, h). outer_child p (otherSide s) w q ds h))))"
  shows "(\<not> red_root col A \<and> \<not> red_root col B \<and> (\<exists>h'. run = k h' \<and> links h' = links h \<and> entries h' = entries h \<and> colors h' = col(w \<mapsto> TRB_RED))) \<or>
    (\<exists>h' Z. run = Inr h' \<and> inord Z = inord (mk s (mk s A w B) p X) \<and> settled h h' this c Z (if cp = TRB_RED then Suc m else Suc (Suc m)) \<and>
       red_root (colors h') Z = (cp = TRB_RED))"
proof -
  have "rep h (bnd c) (mk s (mk s A w B) p X)" using hg by (simp add: hangs_def)
  then obtain f bA bB bA' bB' where f: "links h w = Some f" "f s = view bA A" "f (otherSide s) = view bB B" "rep h bA' A" "rep h bB' B" by (auto simp: rep_mk node_ok_def)
  have bl: "black_link w s h = Inr (\<not> red_root col A)" "black_link w (otherSide s) h = Inr (\<not> red_root col B)"
    using black_link_run[OF f(1,2,4)] black_link_run[OF f(1,3,5)] by (simp_all add: col_def)
  have both: "bind_res (black_link w TRB_LEFT h) (\<lambda>b. if b then black_link w TRB_RIGHT h else Inr False) = Inr (\<not> red_root col A \<and> \<not> red_root col B)"
    using bl by (cases s) auto
  have run: "run = (if \<not> red_root col A \<and> \<not> red_root col B then bind_res (set_color w TRB_RED h) k
      else bind_res (if \<not> red_root col A then inner_child p (otherSide s) w h else Inr (w, h)) (\<lambda>(w, h). outer_child p (otherSide s) w q ds h))"
    unfolding run_def bind_res_assoc[symmetric] both using bl(1) by simp
  have ap: "aligned p" "aligned w" using al by (simp_all add: inord_plug)
  consider "\<not> red_root col A" "\<not> red_root col B" | "red_root col A" | "\<not> red_root col A" "red_root col B" by blast
  then show ?thesis
  proof cases
    case 1
    obtain h' where "set_color w TRB_RED h = Inr h'" "links h' = links h" "colors h' = col(w \<mapsto> TRB_RED)" "entries h' = entries h"
      using set_color_view[OF f(1), of TRB_RED] by (auto simp: col_def)
    then show ?thesis using 1 run by auto
  next
    case 2
    then show ?thesis using outer_settled[of h this c s A w B p X q ds cp m] hg st dist ap cp A B X unfolding run col_def by simp
  next
    case 3
    then obtain B1 y B2 where y: "B = mk s B1 y B2" using mk_cases[of B s] by auto
    have "aligned y" "red col y" using al y 3(2) by (simp_all add: inord_plug)
    then show ?thesis using inner_settled[of h this c s A w B1 y B2 p X q ds cp m] hg st dist ap cp A B X 3 y unfolding run col_def by simp
  qed
qed

end
