(* ===== verification/Trb_Removal.thy ===== *)
theory Trb_Removal
  imports Trb_Rebalance
begin

text \<open>
  The whole loop of a removal, and removal on well-formed trees.
\<close>

section \<open>The loop\<close>

definition sibling_step ::
    "(('k, 'v) mem \<Rightarrow> ('k, 'v) mem res) \<Rightarrow> addr \<Rightarrow> TRBTreeNodeChildSide \<Rightarrow> addr \<Rightarrow> addr \<Rightarrow> TRBTreeNodeChildSide \<Rightarrow> ('k, 'v) mem \<Rightarrow> ('k, 'v) mem res" where
  "sibling_step k p d w q ds h = bind_res (black_link w TRB_LEFT h) (\<lambda>b. bind_res (if b then black_link w TRB_RIGHT h else Inr False) (\<lambda>b.
      if b then bind_res (set_color w TRB_RED h) k
      else bind_res (black_link w (otherSide d) h) (\<lambda>b. bind_res (if b then inner_child p d w h else Inr (w, h)) (\<lambda>(w, h). outer_child p d w q ds h))))"

text \<open>One pass of the loop on a tree in memory.\<close>

lemma remove_fixup_eq:
  assumes hg: "hangs h this ((p, d, mk (otherSide d) A w B) # c) X" and st: "stack this c = (q, ds) # st"
  shows "remove_fixup (Suc fuel) (stack this ((p, d, mk (otherSide d) A w B) # c)) h =
    (if red_root (colors h) X then set_color (root_or 0 X) TRB_BLACK h
     else if red (colors h) w
     then bind_res (red_sibling p d w q ds (length c + 2) h) (\<lambda>(w', h). sibling_step (remove_fixup fuel (stack this ((w, d, A) # c))) p d w' w d h)
     else sibling_step (remove_fixup fuel (stack this c)) p d w q ds h)"
proof -
  have ok: "node_ok h p d (view (bnd c d) X) (TRB_CHILD, w)" "rep h (bnd ((p, d, mk (otherSide d) A w B) # c)) X" using hg by (simp_all add: hangs_def)
  obtain f where f: "links h p = Some f" "f d = view (bnd c d) X" "f (otherSide d) = (TRB_CHILD, w)" using ok(1) by (auto simp: node_ok_def)
  have "\<exists>g. links h w = Some g" by (rule hangs_dom[OF hg]) (simp add: inord_plug inord_mk)
  then obtain cw where cw: "colors h w = Some cw" by (auto simp: links_def colors_def)
  have short: "bind_res (get_trail_tag p d h) (\<lambda>g. if g = TRB_CHILD
      then bind_res (get_link p d h) (\<lambda>x. bind_res (get_color x h) (\<lambda>c. Inr (if c = TRB_RED then Some x else None))) else Inr None) =
    Inr (if red_root (colors h) X then Some (root_or 0 X) else None)"
  proof (cases X)
    case Tip
    then show ?thesis using get_tag_view[OF f(1), of d] f(2) by (simp add: view_def)
  next
    case (Bin l x r)
    obtain cx where "colors h x = Some cx" using rep_colored[OF ok(2), of x] Bin by auto
    then show ?thesis using get_tag_view[OF f(1), of d] get_link_view[OF f(1), of d] get_color_view[of h x cx] f(2) Bin by (simp add: view_def)
  qed
  have len: "length (stack this ((p, d, mk (otherSide d) A w B) # c)) = length c + 2" by (simp add: length_stack)
  have "remove_fixup (Suc fuel) (stack this ((p, d, mk (otherSide d) A w B) # c)) h = bind_res (bind_res (get_trail_tag p d h) (\<lambda>g. if g = TRB_CHILD
      then bind_res (get_link p d h) (\<lambda>x. bind_res (get_color x h) (\<lambda>c. Inr (if c = TRB_RED then Some x else None))) else Inr None)) (\<lambda>x. case x of
        Some x \<Rightarrow> set_color x TRB_BLACK h
      | None \<Rightarrow> bind_res (get_link p (otherSide d) h) (\<lambda>w. bind_res (get_color w h) (\<lambda>cw.
          if cw = TRB_RED then bind_res (red_sibling p d w q ds (length c + 2) h) (\<lambda>(w', h). sibling_step (remove_fixup fuel ((w, d) # (q, ds) # st)) p d w' w d h)
          else sibling_step (remove_fixup fuel ((q, ds) # st)) p d w q ds h)))"
    unfolding remove_fixup.simps len unfolding stack.simps st sibling_step_def
    by (auto simp: bind_res_assoc intro!: bind_res_cong split: option.split)
  then show ?thesis unfolding short using get_link_view[OF f(1), of "otherSide d"] get_color_view[OF cw] f(3) cw st by simp
qed

text \<open>The tree when the loop ends: in order but for the colour of its root.\<close>

definition restored :: "('k, 'v) mem \<Rightarrow> ('k, 'v) mem \<Rightarrow> addr \<Rightarrow> addr list \<Rightarrow> bool" where
  "restored h h' this xs \<longleftrightarrow> entries h' = entries h \<and> colors h' this = colors h this \<and>
     (\<exists>T. hangs h' this [] T \<and> inord T = xs \<and> (T = Tip \<or> half_black (colors h') T))"

definition rr_below :: "coloring \<Rightarrow> ptree \<Rightarrow> bool" where
  "rr_below col X \<longleftrightarrow> (case X of Tip \<Rightarrow> True | Bin l p r \<Rightarrow> rr col l \<and> rr col r)"

lemma rr_below_black: "rr_below col X \<Longrightarrow> \<not> red_root col X \<Longrightarrow> rr col X"
  by (cases X) (auto simp: rr_below_def)

lemma rr_below_mk: "rr_below col (mk s x p y) \<longleftrightarrow> rr col x \<and> rr col y"
  by (cases s) (auto simp: rr_below_def)

lemma settled_restored:
  assumes "settled h h' this c Z i" and "Z \<noteq> Tip" and "ctx_bh (colors h) c i" and "ctx_rr (colors h) c" and "red_root (colors h') Z \<Longrightarrow> \<not> red_top (colors h) c"
  shows "restored h h' this (inord (plug c Z))"
proof -
  have s: "entries h' = entries h" "\<forall>x \<in> cset this c. colors h' x = colors h x" "hangs h' this c Z" "rr (colors h') Z" "bh (colors h') Z i"
    using assms(1) by (simp_all add: settled_def)
  have "\<And>p. p \<in> set (lft c) \<union> set (rgt c) \<Longrightarrow> colors h' p = colors h p" using s(2) by (simp add: cset_eq)
  then have "ctx_bh (colors h') c i = ctx_bh (colors h) c i \<and> ctx_rr (colors h') c = ctx_rr (colors h) c \<and> red_top (colors h') c = red_top (colors h) c"
    by (rule ctx_color_cong)
  then have c: "ctx_bh (colors h') c i" "ctx_rr (colors h') c" "red_top (colors h') c = red_top (colors h) c" using assms(3,4) by simp_all
  obtain j where "bh (colors h') (plug c Z) j" using bh_plug[of "colors h'" c Z] s(5) c(1) by blast
  moreover have "rr (colors h') (plug c Z)" using rr_plug[of "colors h'" c Z] s(4) c(2,3) assms(5) by blast
  ultimately have "half_black (colors h') (plug c Z)" using half_blackI plug_not_Tip[OF assms(2)] by blast
  moreover have "hangs h' this [] (plug c Z)" using s(3) hangs_plug[of h' this c Z] by simp
  moreover have "colors h' this = colors h this" using s(2) by (simp add: cset_eq)
  ultimately show ?thesis using s(1) by (auto simp: restored_def)
qed

text \<open>The subtree that is short has a red root: it turns black.\<close>

lemma fixup_red_run:
  assumes hg: "hangs h this ((p, d, mk (otherSide d) A w B) # c) X" and X: "red_root (colors h) X" "rr_below (colors h) X" "bh (colors h) X m"
    and cx: "ctx_rr (colors h) ((p, d, mk (otherSide d) A w B) # c)" "ctx_bh (colors h) ((p, d, mk (otherSide d) A w B) # c) (Suc m)"
    and dist: "distinct (this # inord (plug ((p, d, mk (otherSide d) A w B) # c) X))"
  shows "\<exists>h'. remove_fixup (Suc fuel) (stack this ((p, d, mk (otherSide d) A w B) # c)) h = Inr h' \<and>
    restored h h' this (inord (plug ((p, d, mk (otherSide d) A w B) # c) X))"
proof -
  let ?c = "(p, d, mk (otherSide d) A w B) # c"
  obtain X1 x X2 where x: "X = Bin X1 x X2" using X(1) by (cases X) auto
  obtain q ds st where st: "stack this c = (q, ds) # st" by (cases c) auto
  have "\<exists>f. links h x = Some f" by (rule hangs_dom[OF hg]) (simp add: inord_plug inord_mk x)
  then obtain h' where h': "set_color x TRB_BLACK h = Inr h'" "links h' = links h" "colors h' = (colors h)(x \<mapsto> TRB_BLACK)" "entries h' = entries h"
    using set_color_view[of h x _ TRB_BLACK] by blast
  have d: "x \<notin> set (inord X1) \<union> set (inord X2) \<union> cset this ?c"
    using dist unfolding cset_eq inord_plug x by (auto simp del: lft.simps rgt.simps)
  have same: "colors h' z = colors h z" if "z \<noteq> x" for z using that h'(3) by simp
  have sub: "rr (colors h) X1" "rr (colors h) X2" "bh (colors h) X1 m" "bh (colors h) X2 m" using X x by (auto simp: rr_below_def)
  have keep: "rr (colors h') T \<and> bh (colors h') T m" if "T \<in> {X1, X2}" for T
  proof -
    have "colors h' z = colors h z" if "z \<in> set (inord T)" for z by (rule same) (use that \<open>T \<in> {X1, X2}\<close> d in auto)
    then show ?thesis using colors_kept[of T "colors h'" "colors h" m] sub that by auto
  qed
  then have "rr (colors h') X" "bh (colors h') X (Suc m)" "\<not> red_root (colors h') X" using x h'(3) by auto
  moreover have "hangs h' this ?c X" using hg hangs_cong[OF h'(2)] by simp
  moreover have "\<forall>z \<in> cset this ?c. colors h' z = colors h z" by (intro ballI same) (use d in blast)
  ultimately have "settled h h' this ?c X (Suc m)" "\<not> red_root (colors h') X" using h'(4) by (simp_all add: settled_def)
  from settled_restored[OF this(1) _ cx(2,1)] this(2) have "restored h h' this (inord (plug ?c X))" using x by blast
  moreover have "remove_fixup (Suc fuel) (stack this ?c) h = Inr h'" using remove_fixup_eq[OF hg st] X(1) h'(1) x by simp
  ultimately show ?thesis by blast
qed

text \<open>A subtree that is a black node short below its context.\<close>

definition short :: "('k, 'v) mem \<Rightarrow> addr \<Rightarrow> ctx \<Rightarrow> ptree \<Rightarrow> nat \<Rightarrow> bool" where
  "short h this c X m \<longleftrightarrow> hangs h this c X \<and> rr_below (colors h) X \<and> bh (colors h) X m \<and> ctx_rr (colors h) c \<and> ctx_bh (colors h) c (Suc m) \<and>
     distinct (this # inord (plug c X)) \<and> (\<forall>x \<in> set (inord (plug c X)). aligned x)"

lemma sibling_run:
  fixes k d A w B h
  defines "y \<equiv> mk (otherSide d) A w B"
  assumes sh: "short h this ((p, d, y) # c) X m" and st: "(q, ds) = hd (stack this c)" and w: "\<not> red (colors h) w" and X: "\<not> red_root (colors h) X"
  shows "(\<exists>h' i. sibling_step k p d w q ds h = k h' \<and> entries h' = entries h \<and> colors h' this = colors h this \<and> short h' this c (mk d X p y) i \<and>
      (red (colors h) p \<longrightarrow> red (colors h') p)) \<or>
    (\<exists>h'. sibling_step k p d w q ds h = Inr h' \<and> restored h h' this (inord (plug ((p, d, y) # c) X)))"
proof -
  let ?s = "otherSide d" and ?col = "colors h"
  have form: "mk d X p y = mk ?s y p X" by (cases d) simp_all
  have hg: "hangs h this c (mk ?s (mk ?s A w B) p X)" and dist: "distinct (this # inord (plug c (mk ?s (mk ?s A w B) p X)))"
      and al: "\<forall>x \<in> set (inord (plug c (mk ?s (mk ?s A w B) p X))). aligned x"
    using sh form by (simp_all add: short_def hangs_up y_def)
  have "\<exists>f. links h p = Some f" by (rule hangs_dom[OF hg]) (simp add: inord_plug inord_mk)
  then obtain cp where cp: "?col p = Some cp" by (auto simp: links_def colors_def)
  have cx: "rr ?col y" "bh ?col y (Suc m)" "ctx_rr ?col c" "ctx_bh ?col c (if red ?col p then Suc m else Suc (Suc m))" "red ?col p \<longrightarrow> \<not> red_top ?col c"
      "bh ?col X m" "rr ?col X"
    using sh X rr_below_black[of ?col X] by (auto simp: short_def)
  have AB: "rr ?col A" "rr ?col B" "bh ?col A m" "bh ?col B m" using cx(1,2) w by (auto simp: y_def)
  have d: "w \<noteq> p" "w \<notin> set (inord A) \<union> set (inord B) \<union> set (inord X) \<union> cset this c" using dist by (auto simp: inord_plug inord_mk cset_eq split: if_splits)
  consider (up) h' where "\<not> red_root ?col A" "\<not> red_root ?col B" "sibling_step k p d w q ds h = k h'" "links h' = links h" "entries h' = entries h" "colors h' = ?col(w \<mapsto> TRB_RED)"
    | (ends) h' Z where "sibling_step k p d w q ds h = Inr h'" "inord Z = inord (mk ?s (mk ?s A w B) p X)"
        "settled h h' this c Z (if cp = TRB_RED then Suc m else Suc (Suc m))" "red_root (colors h') Z = (cp = TRB_RED)"
    using black_sibling_run[OF hg st dist al cp AB(1,3,2,4) cx(7,6), of k, unfolded otherSide_simps(3), folded sibling_step_def] by blast
  then show ?thesis
  proof cases
    case up
    have keep: "rr (colors h') T \<and> bh (colors h') T m \<and> red_root (colors h') T = red_root ?col T" if "T \<in> {A, B, X}" for T
    proof -
      have "colors h' x = ?col x" if "x \<in> set (inord T)" for x using that \<open>T \<in> {A, B, X}\<close> d(2) up(6) by auto
      then show ?thesis using colors_kept[of T "colors h'" ?col m] AB cx(6,7) that by auto
    qed
    have c': "ctx_bh (colors h') c i = ctx_bh ?col c i \<and> ctx_rr (colors h') c = ctx_rr ?col c \<and> red_top (colors h') c = red_top ?col c" for i
      by (rule ctx_color_cong) (use d(2) up(6) in \<open>auto simp: cset_eq\<close>)
    have "rr (colors h') y" "bh (colors h') y m" using keep up(1,2,6) by (auto simp: y_def)
    moreover have "bh (colors h') (mk d X p y) (if red ?col p then m else Suc m)" using keep calculation(2) d(1) up(6) by auto
    moreover have "hangs h' this c (mk d X p y)" using hg hangs_cong[OF up(4)] form by (simp add: y_def)
    ultimately have "short h' this c (mk d X p y) (if red ?col p then m else Suc m)"
      using keep c' cx(3,4) dist al form by (simp add: short_def rr_below_mk y_def split: if_splits)
    moreover have "colors h' this = ?col this" "red ?col p \<longrightarrow> red (colors h') p" using d up(6) by (auto simp: cset_eq)
    ultimately show ?thesis using up(3,5) by blast
  next
    case ends
    have cb: "ctx_bh ?col c (if cp = TRB_RED then Suc m else Suc (Suc m))" using cx(4) cp by simp
    have "restored h h' this (inord (plug c Z))"
      by (rule settled_restored[OF ends(3) _ cb cx(3)]) (use ends(2,4) cx(5) cp in \<open>auto simp: inord_mk split: if_splits\<close>)
    moreover have "inord (plug c Z) = inord (plug ((p, d, y) # c) X)" using ends(2) form by (simp add: inord_plug y_def)
    ultimately show ?thesis using ends(1) by auto
  qed
qed

lemma restored_trans: "restored h1 h' this xs \<Longrightarrow> entries h1 = entries h \<Longrightarrow> colors h1 this = colors h this \<Longrightarrow> restored h h' this xs"
  by (auto simp: restored_def)

text \<open>The sibling \<open>w\<close> is red. It is rotated above \<open>p\<close>; then the new sibling is black, and when the loop goes on it ends at \<open>p\<close>.\<close>

lemma red_sibling_step:
  fixes d A w B h
  defines "y \<equiv> mk (otherSide d) A w B"
  assumes sh: "short h this ((p, d, y) # c) X m" and st: "(q, ds) = hd (stack this c)" and w: "red (colors h) w" and X: "\<not> red_root (colors h) X"
    and k: "length c + 2 < maxHeight"
  shows "\<exists>h'. bind_res (red_sibling p d w q ds (length c + 2) h) (\<lambda>(w', h). sibling_step (remove_fixup (Suc fuel) (stack this ((w, d, A) # c))) p d w' w d h) = Inr h' \<and>
    restored h h' this (inord (plug ((p, d, y) # c) X))"
proof -
  let ?s = "otherSide d" and ?col = "colors h"
  have form: "mk d X p y = mk ?s y p X" "mk ?s T x T' = mk d T' x T" for T T' x by (cases d; simp)+
  have hg: "hangs h this c (mk ?s (mk ?s A w B) p X)" and dist: "distinct (this # inord (plug c (mk ?s (mk ?s A w B) p X)))"
      and al: "\<forall>x \<in> set (inord (plug c (mk ?s (mk ?s A w B) p X))). aligned x"
    using sh form(1) by (simp_all add: short_def hangs_up y_def)
  have cx: "rr ?col y" "bh ?col y (Suc m)" "ctx_rr ?col c" "\<not> red ?col p" "ctx_bh ?col c (Suc (Suc m))" "bh ?col X m" "rr ?col X"
    using sh X w rr_below_black[of ?col X] by (auto simp: short_def y_def)
  have AB: "rr ?col A" "rr ?col B" "bh ?col A (Suc m)" "bh ?col B (Suc m)" "\<not> red_root ?col A" "\<not> red_root ?col B" using cx(1,2) w by (auto simp: y_def)
  then obtain B1 w' B2 where B: "B = mk ?s B1 w' B2" using mk_cases[of B ?s] by auto
  have ap: "aligned p" "aligned w" using al by (simp_all add: inord_plug)
  obtain h1 where h1: "red_sibling p d w q ds (length c + 2) h = Inr (w', h1)" "hangs h1 this c (mk ?s A w (mk ?s B p X))"
      "colors h1 = ?col(w \<mapsto> TRB_BLACK, p \<mapsto> TRB_RED)" "entries h1 = entries h"
    using red_sibling_run[OF hg st dist ap _ k] B by auto
  have d: "w \<noteq> p" "{w, p} \<inter> (set (inord A) \<union> set (inord B) \<union> set (inord X) \<union> cset this c) = {}" using dist by (auto simp: inord_plug inord_mk cset_eq split: if_splits)
  have same: "colors h1 x = ?col x" if "x \<notin> {w, p}" for x using that h1(3) by auto
  have T: "rr (colors h1) T = rr ?col T" "bh (colors h1) T i = bh ?col T i" "red_root (colors h1) T = red_root ?col T" if "T \<in> {A, B, X}" for T i
  proof -
    have "colors h1 x = ?col x" if "x \<in> set (inord T)" for x by (rule same) (use that \<open>T \<in> {A, B, X}\<close> d(2) in auto)
    then show "rr (colors h1) T = rr ?col T" "bh (colors h1) T i = bh ?col T i" "red_root (colors h1) T = red_root ?col T" using color_cong[of T "colors h1" ?col] by auto
  qed
  have C: "ctx_bh (colors h1) c i = ctx_bh ?col c i \<and> ctx_rr (colors h1) c = ctx_rr ?col c \<and> red_top (colors h1) c = red_top ?col c" for i
    by (rule ctx_color_cong, rule same) (use d(2) in \<open>auto simp: cset_eq\<close>)
  have io: "inord (plug ((w, d, A) # c) (mk d X p B)) = inord (plug ((p, d, y) # c) X)" "inord (plug c (mk ?s A w (mk ?s B p X))) = inord (plug ((p, d, y) # c) X)"
    by (cases d; simp add: inord_plug y_def)+
  have sh1: "short h1 this ((p, d, mk ?s B1 w' B2) # (w, d, A) # c) X m"
  proof -
    have "ctx_rr (colors h1) ((p, d, B) # (w, d, A) # c)" "ctx_bh (colors h1) ((p, d, B) # (w, d, A) # c) (Suc m)"
      using T AB C cx(3,5) h1(3) d(1) by auto
    moreover have "rr_below (colors h1) X" "bh (colors h1) X m" using T[of X] cx(6) cx(7) by (cases X; auto simp: rr_below_def)+
    moreover have "hangs h1 this ((p, d, B) # (w, d, A) # c) X" using h1(2) by (simp add: hangs_up form(2))
    ultimately show ?thesis using sh io(1) B by (simp add: short_def)
  qed
  have w1: "\<not> red (colors h1) w'" "\<not> red_root (colors h1) X" "red (colors h1) p" using T[of B] T[of X] AB(6) X B h1(3) by auto
  have top: "(w, d) = hd (stack this ((w, d, A) # c))" by simp
  have th: "colors h1 this = ?col this" by (rule same) (use d(2) in \<open>auto simp: cset_eq\<close>)
  let ?k = "remove_fixup (Suc fuel) (stack this ((w, d, A) # c))"
  consider (up) h2 i where "sibling_step ?k p d w' w d h1 = ?k h2" "entries h2 = entries h1" "colors h2 this = colors h1 this"
      "short h2 this ((w, d, A) # c) (mk d X p B) i" "red (colors h2) p"
    | (ends) h2 where "sibling_step ?k p d w' w d h1 = Inr h2" "restored h1 h2 this (inord (plug ((p, d, B) # (w, d, A) # c) X))"
    using sibling_run[OF sh1 top w1(1,2), of ?k] w1(3) B by auto
  then show ?thesis
  proof cases
    case up
    have "A \<noteq> Tip" using AB(3) by auto
    then obtain A1 a A2 where A: "A = mk ?s A1 a A2" using mk_cases[of A ?s] by auto
    obtain h3 where h3: "?k h2 = Inr h3" "restored h2 h3 this (inord (plug ((w, d, A) # c) (mk d X p B)))"
      using fixup_red_run[of h2 this w d A1 a A2 c "mk d X p B" i fuel] up(4,5) A by (auto simp: short_def)
    have "restored h h3 this (inord (plug ((p, d, y) # c) X))" using restored_trans[OF h3(2), of h] up(2,3) h1(4) th io(1) by simp
    then show ?thesis using h1(1) up(1) h3(1) by auto
  next
    case ends
    have "restored h h2 this (inord (plug ((p, d, y) # c) X))" using restored_trans[OF ends(2), of h] h1(4) th io(1) by simp
    then show ?thesis using h1(1) ends(1) by auto
  qed
qed

lemma remove_fixup_run:
  assumes "short h this c X m" and "length c < fuel" and "length c + 1 < maxHeight"
  shows "\<exists>h'. remove_fixup fuel (stack this c) h = Inr h' \<and> restored h h' this (inord (plug c X))"
  using assms
proof (induction c arbitrary: h X m fuel)
  case Nil
  obtain fu where "fuel = Suc fu" using Nil.prems(2) by (cases fuel) auto
  moreover have "X = Tip \<or> half_black (colors h) X" using Nil.prems(1) by (cases X) (auto simp: short_def rr_below_def half_black_def)
  ultimately show ?case using Nil.prems(1) by (auto simp: short_def restored_def)
next
  case (Cons e c)
  obtain p d y where e: "e = (p, d, y)" by (cases e)
  have sh: "short h this ((p, d, y) # c) X m" using Cons.prems(1) e by simp
  then have "y \<noteq> Tip" by (auto simp: short_def)
  then obtain A w B where y: "y = mk (otherSide d) A w B" using mk_cases[of y "otherSide d"] by auto
  obtain fu where fu: "fuel = Suc (Suc fu)" "length c < Suc fu" using Cons.prems(2) by (cases fuel; cases "fuel - 1") auto
  obtain q ds st where st: "stack this c = (q, ds) # st" by (cases c) auto
  then have top: "(q, ds) = hd (stack this c)" by simp
  have hg: "hangs h this ((p, d, mk (otherSide d) A w B) # c) X" using sh y by (simp add: short_def)
  note eq = remove_fixup_eq[OF hg st, of "Suc fu"]
  consider "red_root (colors h) X" | "\<not> red_root (colors h) X" "red (colors h) w" | "\<not> red_root (colors h) X" "\<not> red (colors h) w" by blast
  then show ?case
  proof cases
    case 1
    then show ?thesis using fixup_red_run[OF hg, of m "Suc fu"] sh y e fu(1) by (simp add: short_def)
  next
    case 2
    have "length c + 2 < maxHeight" using Cons.prems(3) by simp
    from red_sibling_step[OF sh[unfolded y] top 2(2,1) this, of fu] show ?thesis using eq 2 e y fu(1) by simp
  next
    case 3
    note step = sibling_run[OF sh[unfolded y] top 3(2,1), of "remove_fixup (Suc fu) (stack this c)"]
    then consider (up) h1 i where "remove_fixup fuel (stack this (e # c)) h = remove_fixup (Suc fu) (stack this c) h1" "entries h1 = entries h"
        "colors h1 this = colors h this" "short h1 this c (mk d X p y) i"
      | (ends) h1 where "remove_fixup fuel (stack this (e # c)) h = Inr h1" "restored h h1 this (inord (plug (e # c) X))"
      using eq 3 e y fu(1) by auto
    then show ?thesis
    proof cases
      case up
      obtain h' where "remove_fixup (Suc fu) (stack this c) h1 = Inr h'" "restored h1 h' this (inord (plug c (mk d X p y)))"
        using Cons.IH[OF up(4) fu(2)] Cons.prems(3) by auto
      then show ?thesis using up(1-3) restored_trans e by fastforce
    qed blast
  qed
qed

end
