(* ===== verification/Trb_Erase.thy ===== *)
theory Trb_Erase
  imports Trb_Removal
begin

text \<open>
  Removal on well-formed trees: when the word that the search takes for the key of the tree object is greater than the key, exactly
  the node of the key is unlinked and deleted, and the tree is well-formed again.
\<close>

section \<open>The search\<close>

lemma remove_search_run:
  fixes k :: "'k :: linorder"
  assumes "rep h (bnd c) T" and "sorted_tree h T" and "T \<noteq> Tip" and "height T \<le> fuel" and "length c + height T < maxHeight"
  shows "if \<exists>q \<in> set (inord T). key_at_node h q = k
    then \<exists>c' l q r. remove_search fuel (<) k (root_or 0 T) (stack this c) h = Inr (Some q, stack this c') \<and> plug c' (Bin l q r) = plug c T \<and> key_at_node h q = k
    else \<exists>st. remove_search fuel (<) k (root_or 0 T) (stack this c) h = Inr (None, st)"
  using assms
proof (induction T arbitrary: c fuel)
  case (Bin l p r)
  obtain n where n: "h p = Some n" "first n = key_at_node h p" "tag_of TRB_LEFT n = (if l = Tip then TRB_TRAIL else TRB_CHILD)"
    "tag_of TRB_RIGHT n = (if r = Tip then TRB_TRAIL else TRB_CHILD)" "link_of TRB_LEFT n = root_or (bnd c TRB_LEFT) l"
    "link_of TRB_RIGHT n = root_or (bnd c TRB_RIGHT) r" by (rule rep_node[OF Bin.prems(1)])
  obtain fu where fu: "fuel = Suc fu" "height l \<le> fu" "height r \<le> fu" using Bin.prems(4) by (cases fuel) auto
  have s: "sorted_tree h l" "sorted_tree h r" "\<forall>q \<in> set (inord l). key_at_node h q < key_at_node h p" "\<forall>q \<in> set (inord r). key_at_node h p < key_at_node h q"
    using Bin.prems(2) by (simp_all add: sorted_tree_Bin)
  have nd: "node h p = Inr n" using n(1) by (simp add: node_def)
  have len: "\<not> maxHeight \<le> length (stack this c)" using Bin.prems(5) by (simp add: length_stack)
  consider "k < key_at_node h p" | "key_at_node h p < k" | "k = key_at_node h p" by fastforce
  then show ?case
  proof cases
    case 1
    let ?c = "(p, TRB_LEFT, r) # c"
    have "key_at_node h q \<noteq> k" if "q \<in> set (inord r)" for q using s(4) that 1 by fastforce
    then have ex: "(\<exists>q \<in> set (inord (Bin l p r)). key_at_node h q = k) \<longleftrightarrow> (\<exists>q \<in> set (inord l). key_at_node h q = k)" using 1 by auto
    show ?thesis
    proof (cases "l = Tip")
      case False
      have eq: "remove_search fuel (<) k (root_or 0 (Bin l p r)) (stack this c) h = remove_search fu (<) k (root_or 0 l) (stack this ?c) h"
        using 1 n nd fu len False root_any[OF False, of "bnd c TRB_LEFT"] by (simp add: Let_def)
      have "rep h (bnd ?c) l" "length ?c + height l < maxHeight" using Bin.prems(1,5) by simp_all
      moreover have pc: "plug ?c l = plug c (Bin l p r)" by simp
      ultimately show ?thesis using Bin.IH(1)[of ?c fu, OF _ s(1) False fu(2)] unfolding ex eq pc by blast
    qed (use 1 n nd fu len ex in \<open>simp add: Let_def\<close>)
  next
    case 2
    let ?c = "(p, TRB_RIGHT, l) # c"
    have "key_at_node h q \<noteq> k" if "q \<in> set (inord l)" for q using s(3) that 2 by fastforce
    then have ex: "(\<exists>q \<in> set (inord (Bin l p r)). key_at_node h q = k) \<longleftrightarrow> (\<exists>q \<in> set (inord r). key_at_node h q = k)" using 2 by auto
    show ?thesis
    proof (cases "r = Tip")
      case False
      have eq: "remove_search fuel (<) k (root_or 0 (Bin l p r)) (stack this c) h = remove_search fu (<) k (root_or 0 r) (stack this ?c) h"
        using 2 n nd fu len False root_any[OF False, of "bnd c TRB_RIGHT"] by (auto simp: Let_def)
      have "rep h (bnd ?c) r" "length ?c + height r < maxHeight" using Bin.prems(1,5) by simp_all
      moreover have pc: "plug ?c r = plug c (Bin l p r)" by simp
      ultimately show ?thesis using Bin.IH(2)[of ?c fu, OF _ s(2) False fu(3)] unfolding ex eq pc by blast
    qed (use 2 n nd fu len ex in \<open>auto simp: Let_def\<close>)
  next
    case 3
    then have "remove_search fuel (<) k (root_or 0 (Bin l p r)) (stack this c) h = Inr (Some p, stack this c)" using n nd fu by (simp add: Let_def)
    then show ?thesis using 3 by auto
  qed
qed simp

section \<open>Without the node\<close>

lemma red_root_plug: "c \<noteq> [] \<Longrightarrow> red_root col (plug c T) = red_root col (plug c T')"
proof (induction c arbitrary: T T')
  case (Cons e c)
  then show ?case by (cases e; cases "c = []") auto
qed simp

lemma tree_at_delete:
  assumes "hangs h this [] T" and "q \<notin> insert this (set (inord T))"
  shows "hangs (h(q := None)) this [] T" "x \<in> insert this (set (inord T)) \<Longrightarrow> colors (h(q := None)) x = colors h x"
    "entries (h(q := None)) = (entries h)(q := None)"
proof -
  have l: "links (h(q := None)) x = links h x" if "x \<noteq> q" for x using that by (simp add: links_def)
  have "rep h (bnd []) T" using assms(1) by (simp add: hangs_def)
  then have "rep (h(q := None)) (bnd []) T" by (rule rep_same, intro ballI l) (use assms(2) in auto)
  then show "hangs (h(q := None)) this [] T" using assms l[of this] by (auto simp: hangs_def)
  show "colors (h(q := None)) x = colors h x" if "x \<in> insert this (set (inord T))" using that assms(2) by (auto simp: colors_def)
  show "entries (h(q := None)) = (entries h)(q := None)" by (auto simp: entries_def)
qed

text \<open>The node that goes was red: nothing is short.\<close>

lemma red_gone:
  assumes "red_black col (plug C (mk sd X p Tip))" and "red col p"
  shows "red_black col (plug C X)"
proof -
  obtain i where i: "bh col (mk sd X p Tip) i" "ctx_bh col C i" using assms(1) bh_plug[of col C "mk sd X p Tip"] by (auto simp: red_black_def)
  have r: "rr col (mk sd X p Tip)" "ctx_rr col C" "\<not> red_top col C" using assms rr_plug[of col C "mk sd X p Tip"] by (auto simp: red_black_def)
  have "bh col X i" using i(1) assms(2) by auto
  then have "\<exists>m. bh col (plug C X) m" using i(2) bh_plug[of col C X] by blast
  moreover have "rr col (plug C X)" using r assms(2) rr_plug[of col C X] by auto
  moreover have "\<not> red_root col (plug C X)"
  proof (cases "C = []")
    case True
    then show ?thesis using assms by (simp add: red_black_def)
  next
    case False
    then show ?thesis using assms(1) red_root_plug[OF False, of col X "mk sd X p Tip"] by (simp add: red_black_def)
  qed
  ultimately show ?thesis by (simp add: red_black_def)
qed

lemma black_gone:
  assumes "red_black col (plug C (mk sd X p Tip))" and "\<not> red col p"
  shows "\<exists>m. rr_below col X \<and> bh col X m \<and> ctx_rr col C \<and> ctx_bh col C (Suc m)"
proof -
  obtain i where i: "bh col (mk sd X p Tip) i" "ctx_bh col C i" using assms(1) bh_plug[of col C "mk sd X p Tip"] by (auto simp: red_black_def)
  have r: "rr col (mk sd X p Tip)" "ctx_rr col C" using assms rr_plug[of col C "mk sd X p Tip"] by (auto simp: red_black_def)
  have "rr_below col X" using r(1) by (cases X) (auto simp: rr_below_def)
  then show ?thesis using i r(2) assms(2) by auto
qed

section \<open>Removal\<close>

lemma detached_color:
  assumes "detached h h' this p C X" and "colors h p \<noteq> None"
  obtains cp where "colors h' p = Some cp"
proof -
  have e: "entries h' = entries h" using assms(1) by (simp add: detached_def)
  have "entries h p \<noteq> None" using assms(2) unfolding links_dom .
  then have "h' p \<noteq> None" unfolding e[symmetric] links_dom .
  then show ?thesis using that by (auto simp: colors_def)
qed

text \<open>From the unlinked tree to a red-black tree.\<close>

lemma rebalance_run:
  assumes dt: "detached h0 h this p C X" and len: "length C < fuel" "length C + 1 < maxHeight" and cp: "colors h p = Some cp" and b: "colors h this = Some TRB_BLACK"
    and dist: "distinct (this # inord (plug C X))" and al: "\<forall>x \<in> set (inord (plug C X)). aligned x \<and> x \<noteq> 0"
  shows "\<exists>h' T. bind_res (get_color p h) (\<lambda>c. if c = TRB_BLACK
      then bind_res (remove_fixup fuel (stack this C) h) (\<lambda>h. bind_res (node h this) (\<lambda>ob. if pLeft ob \<noteq> 0 then set_color (pLeft ob) TRB_BLACK h else Inr h))
      else Inr h) = Inr h' \<and> hangs h' this [] T \<and> inord T = inord (plug C X) \<and> entries h' = entries h \<and> colors h' this = Some TRB_BLACK \<and> red_black (colors h') T"
proof -
  obtain sd where hg: "hangs h this C X" and rb: "red_black (colors h) (plug C (mk sd X p Tip))" using dt by (auto simp: detached_def)
  show ?thesis
  proof (cases "cp = TRB_RED")
    case True
    then have "red_black (colors h) (plug C X)" using red_gone[OF rb] cp by simp
    then show ?thesis using hg hangs_plug[of h this C X] True get_color_view[OF cp] b by (intro exI[of _ h] exI[of _ "plug C X"]) simp
  next
    case False
    then have cb: "cp = TRB_BLACK" by (cases cp) auto
    obtain m where "rr_below (colors h) X" "bh (colors h) X m" "ctx_rr (colors h) C" "ctx_bh (colors h) C (Suc m)" using black_gone[OF rb] cp False by auto
    then have sh: "short h this C X m" using hg dist al by (simp add: short_def)
    obtain h1 T where h1: "remove_fixup fuel (stack this C) h = Inr h1" "entries h1 = entries h" "colors h1 this = Some TRB_BLACK" "hangs h1 this [] T"
        "inord T = inord (plug C X)" "T = Tip \<or> half_black (colors h1) T"
      using remove_fixup_run[OF sh len] b by (auto simp: restored_def)
    obtain ob where ob: "node h1 this = Inr ob" "pLeft ob = root_or 0 T" by (rule tree_root[OF h1(4,3)])
    show ?thesis
    proof (cases "T = Tip")
      case True
      then have "red_black (colors h1) T" by (simp add: red_black_def)
      then show ?thesis using h1 ob True get_color_view[OF cp] cb by (intro exI[of _ h1] exI[of _ T]) simp
    next
      case nt: False
      obtain h2 where h2: "bind_res (node h1 this) (\<lambda>ob. set_color (pLeft ob) TRB_BLACK h1) = Inr h2" "links h2 = links h1" "entries h2 = entries h1"
          "colors h2 this = Some TRB_BLACK" "red_black (colors h2) T"
        using blacken_root[OF _ h1(4,3)] h1(5,6) dist nt by auto
      have "root_or 0 T \<in> set (inord T)" using nt by (cases T) auto
      then have "root_or 0 T \<noteq> 0" using al h1(5) by auto
      then show ?thesis using h1 h2 ob get_color_view[OF cp] cb hangs_cong[OF h2(2)] by (intro exI[of _ h2] exI[of _ T]) simp
    qed
  qed
qed

lemma contents_delete:
  assumes t: "tree_at this T h" "sorted_tree h T" and io: "inord T = xs @ p # ys" "inord T' = xs @ ys" and e: "entries h' = (entries h)(p := None)"
    and t': "tree_at this T' h'" "sorted_tree h' T'"
  shows "tree_contents h' T' = (tree_contents h T)(key_at_node h p := None)"
proof -
  have same: "entries h' q = entries h q" if "q \<in> set (inord T')" for q using that io t(1) e by (auto simp: tree_at_def)
  have "tree_contents h' T' k = Some v \<longleftrightarrow> tree_contents h T k = Some v \<and> k \<noteq> key_at_node h p" for k v
  proof -
    have d: "distinct (map (key_at_node h) (inord T))" using t(2) by (simp add: sorted_tree_def strict_sorted_iff)
    have "key_at_node h q \<noteq> key_at_node h p" if "q \<in> set (inord T')" for q using d that unfolding io by (auto simp: image_iff)
    then show ?thesis using contents_iff[OF t, of k v] contents_iff[OF t', of k v] same io by (fastforce simp: key_at_node_def)
  qed
  then show ?thesis by (auto simp: fun_eq_iff) (metis option.exhaust)+
qed

text \<open>The node is found, unlinked and deleted.\<close>

lemma erase_node:
  fixes h :: "('k :: linorder, 'v) mem"
  assumes wf: "wf_tree this (plug c (Bin l p r)) h" and fuel: "height (plug c (Bin l p r)) < fuel" and hT: "height (plug c (Bin l p r)) < maxHeight"
  shows "\<exists>h' T. bind_res (unlink_node fuel this p (stack this c) h) (\<lambda>(st, h). bind_res (get_color p h) (\<lambda>c.
      bind_res (if c = TRB_BLACK then bind_res (remove_fixup fuel st h) (\<lambda>h. bind_res (node h this) (\<lambda>ob. if pLeft ob \<noteq> 0 then set_color (pLeft ob) TRB_BLACK h else Inr h))
                else Inr h) (\<lambda>h. Inr (0, num, h(p := None))))) = Inr (0 :: addr, num, h') \<and>
    wf_tree this T h' \<and> inord T = lft c @ inord l @ inord r @ rgt c \<and> entries h' = (entries h)(p := None) \<and>
    tree_contents h' T = (tree_contents h (plug c (Bin l p r)))(key_at_node h p := None)"
proof -
  let ?T = "plug c (Bin l p r)" and ?xs = "lft c @ inord l" and ?ys = "inord r @ rgt c"
  have t: "tree_at this ?T h" "sorted_tree h ?T" "red_black (colors h) ?T" using wf by (simp_all add: wf_tree_def)
  have io: "inord ?T = ?xs @ p # ?ys" by (simp add: inord_plug)
  have d: "distinct (this # ?xs @ p # ?ys)" and al: "\<forall>x \<in> set (?xs @ p # ?ys). aligned x \<and> x \<noteq> 0" and b: "colors h this = Some TRB_BLACK"
    using t(1) unfolding tree_at_def io by blast+
  obtain h1 C X where u: "unlink_node fuel this p (stack this c) h = Inr (stack this C, h1)" "detached h h1 this p C X" "inord (plug C X) = ?xs @ ?ys" "length C < height ?T"
    using unlink_run[OF t(1,3) less_imp_le[OF fuel] hT] by auto
  have "colors h p \<noteq> None" using tree_entries[OF t(1), of p] io links_dom[of h p] by auto
  then obtain cp where cp: "colors h1 p = Some cp" by (rule detached_color[OF u(2)])
  have e1: "entries h1 = entries h" "colors h1 this = Some TRB_BLACK" using u(2) b by (simp_all add: detached_def)
  have C: "length C < fuel" "length C + 1 < maxHeight" using u(4) fuel hT by linarith+
  have dist: "distinct (this # inord (plug C X))" "\<forall>x \<in> set (inord (plug C X)). aligned x \<and> x \<noteq> 0" using d al unfolding u(3) by auto
  obtain h2 T where r: "bind_res (get_color p h1) (\<lambda>c. if c = TRB_BLACK
      then bind_res (remove_fixup fuel (stack this C) h1) (\<lambda>h. bind_res (node h this) (\<lambda>ob. if pLeft ob \<noteq> 0 then set_color (pLeft ob) TRB_BLACK h else Inr h))
      else Inr h1) = Inr h2" "hangs h2 this [] T" "inord T = inord (plug C X)" "entries h2 = entries h1" "colors h2 this = Some TRB_BLACK" "red_black (colors h2) T"
    using rebalance_run[OF u(2) C cp e1(2) dist] by blast
  have pT: "p \<notin> insert this (set (inord T))" using d unfolding r(3) u(3) by auto
  note del = tree_at_delete[OF r(2) pT]
  let ?h = "h2(p := None)"
  have e: "entries ?h = (entries h)(p := None)" using del(3) r(4) e1(1) by simp
  have ta: "tree_at this T ?h" using del(1,2) r(3,5) dist by (simp add: tree_at_def)
  have "key_at_node ?h q = key_at_node h q" if "q \<in> set (inord T)" for q using that pT by (auto simp: key_at_node_def e)
  then have m: "map (key_at_node ?h) (inord T) = map (key_at_node h) (inord T)" by (rule map_cong[OF refl])
  have "sorted_wrt (<) (map (key_at_node h) (inord T))" using t(2) unfolding sorted_tree_def io r(3) u(3) by (auto simp: sorted_wrt_append)
  then have so: "sorted_tree ?h T" by (simp only: sorted_tree_def m)
  have "red_black (colors ?h) T" using r(6) color_cong[of T "colors ?h" "colors h2"] del(2) by (auto simp: red_black_def)
  then have "wf_tree this T ?h" using ta so by (simp add: wf_tree_def)
  moreover have iT: "inord T = ?xs @ ?ys" using r(3) u(3) by simp
  moreover note contents_delete[OF t(1,2) io iT e ta so]
  moreover have "bind_res (unlink_node fuel this p (stack this c) h) (\<lambda>(st, h). bind_res (get_color p h) (\<lambda>c.
      bind_res (if c = TRB_BLACK then bind_res (remove_fixup fuel st h) (\<lambda>h. bind_res (node h this) (\<lambda>ob. if pLeft ob \<noteq> 0 then set_color (pLeft ob) TRB_BLACK h else Inr h))
                else Inr h) (\<lambda>h. Inr (0, num, h(p := None))))) = Inr (0, num, ?h)"
    unfolding u(1) bind_res_simps prod.case bind_res_assoc[symmetric] r(1) ..
  ultimately show ?thesis using e by auto
qed

lemma erase_run:
  fixes h :: "('k :: linorder, 'v) mem"
  assumes wf: "wf_tree this T h" and fuel: "Suc (height T) < fuel" and hT: "height T < maxHeight" and k: "k < key_at_node h this"
  shows "if k \<in> dom (tree_contents h T)
    then \<exists>q \<in> set (inord T). key_at_node h q = k \<and> (\<exists>h' T'. try_remove fuel (<) k this num h = Inr (0, (num + (2 ^ 64 - 1)) mod 2 ^ 64, h') \<and> wf_tree this T' h' \<and>
      set (inord T') = set (inord T) - {q} \<and> entries h' = (entries h)(q := None) \<and> tree_contents h' T' = (tree_contents h T)(k := None))
    else try_remove fuel (<) k this num h = Inr (0, num, h)"
proof -
  have t: "tree_at this T h" "sorted_tree h T" using wf by (simp_all add: wf_tree_def)
  have hg: "hangs h this [] T" and b: "colors h this = Some TRB_BLACK" using t(1) by (simp_all add: tree_at_def)
  obtain ob where ob: "node h this = Inr ob" "pLeft ob = root_or 0 T" by (rule tree_root[OF hg b])
  obtain fu where fu: "fuel = Suc fu" "height T \<le> fu" using fuel by (cases fuel) auto
  show ?thesis
  proof (cases "T = Tip")
    case True
    then show ?thesis using ob by (simp add: tree_contents_def try_remove_def)
  next
    case False
    have ob': "h this = Some ob" using ob(1) by (simp add: node_def split: option.splits)
    have f: "first ob = key_at_node h this" using ob' by (simp add: key_at_node_def entries_def)
    have l: "tag_of TRB_LEFT ob = TRB_CHILD" "link_of TRB_LEFT ob = root_or 0 T" using hg ob' by (auto simp: hangs_def links_def)
    have start: "remove_search fuel (<) k this [] h = remove_search fu (<) k (root_or 0 T) (stack this []) h"
      using fu(1) ob(1) f l k by (simp add: Let_def maxHeight_def)
    have rt: "root_or 0 T \<noteq> 0" using root_zero[OF t(1)] False by simp
    have "rep h (bnd []) T" using hg by (simp add: hangs_def)
    from remove_search_run[OF this t(2) False fu(2), of k this] hT
    consider c l p r where "\<exists>q \<in> set (inord T). key_at_node h q = k" "remove_search fuel (<) k this [] h = Inr (Some p, stack this c)" "plug c (Bin l p r) = T" "key_at_node h p = k"
      | st where "\<not> (\<exists>q \<in> set (inord T). key_at_node h q = k)" "remove_search fuel (<) k this [] h = Inr (None, st)"
      unfolding start by (auto split: if_splits)
    then show ?thesis
    proof cases
      case (1 c l p r)
      have io: "inord T = lft c @ inord l @ p # inord r @ rgt c" using 1(3) by (auto simp: inord_plug)
      obtain h' T' where r: "try_remove fuel (<) k this num h = Inr (0, (num + (2 ^ 64 - 1)) mod 2 ^ 64, h')" "wf_tree this T' h'"
          "inord T' = lft c @ inord l @ inord r @ rgt c" "entries h' = (entries h)(p := None)" "tree_contents h' T' = (tree_contents h T)(k := None)"
        using erase_node[of this c l p r h fuel "(num + (2 ^ 64 - 1)) mod 2 ^ 64"] wf fuel hT 1(2-4) ob rt by (auto simp: try_remove_def)
      have "set (inord T') = set (inord T) - {p}" using t(1) unfolding tree_at_def io r(3) by auto
      moreover have "p \<in> set (inord T)" using io by simp
      moreover have "k \<in> dom (tree_contents h T)" using 1(1) contents_key[of k h T] by blast
      ultimately show ?thesis unfolding if_P[OF \<open>k \<in> dom (tree_contents h T)\<close>] using 1(4) r(1,2,4,5) by blast
    next
      case (2 st)
      then have "k \<notin> dom (tree_contents h T)" using contents_key[of k h T] by simp
      then show ?thesis using 2(2) ob rt by (simp add: try_remove_def)
    qed
  qed
qed

end
