(* ===== verification/Trb_Store.thy ===== *)
theory Trb_Store
  imports Trb_Erase
begin

text \<open>
  Sequences of insertions and removals: the laws of a store of keys that can also be erased, and that the threaded tree has them for
  the keys below the word that the search for a removal takes for the key of the tree object.
\<close>

section \<open>Stores with removal\<close>

datatype ('a, 'k, 'v) tree_op = Put 'a 'k 'v | Erase 'k

fun run_op :: "('a \<times> 'k \<times> 'v \<Rightarrow> 's \<Rightarrow> 's res) \<Rightarrow> ('k \<Rightarrow> 's \<Rightarrow> 's res) \<Rightarrow> ('a, 'k, 'v) tree_op \<Rightarrow> 's \<Rightarrow> 's res" where
  "run_op put erase (Put a k v) s = put (a, k, v) s"
| "run_op put erase (Erase k) s = erase k s"

text \<open>The operation on the map: the first value of a key stays until it is erased.\<close>

fun map_op :: "('k \<rightharpoonup> 'v) \<Rightarrow> ('a, 'k, 'v) tree_op \<Rightarrow> 'k \<rightharpoonup> 'v" where
  "map_op m (Put a k v) = (if k \<in> dom m then m else m(k \<mapsto> v))"
| "map_op m (Erase k) = m(k := None)"

fun cells :: "('a, 'k, 'v) tree_op list \<Rightarrow> 'a list" where
  "cells [] = []"
| "cells (Put a k v # ops) = a # cells ops"
| "cells (Erase k # ops) = cells ops"

fun erased :: "('a, 'k, 'v) tree_op list \<Rightarrow> 'k list" where
  "erased [] = []"
| "erased (Put a k v # ops) = erased ops"
| "erased (Erase k # ops) = k # erased ops"

locale erasable_store = keyed_store models fresh room put get
  for models :: "'s \<Rightarrow> ('k \<rightharpoonup> 'v) \<Rightarrow> bool" and fresh :: "'a \<Rightarrow> 's \<Rightarrow> bool" and room put get +
  fixes allowed :: "'k \<Rightarrow> bool"
    and erase :: "'k \<Rightarrow> 's \<Rightarrow> 's res"
  assumes erase_models: "models s m \<Longrightarrow> allowed k \<Longrightarrow> \<exists>s'. erase k s = Inr s' \<and> models s' (m(k := None)) \<and> (\<forall>b. fresh b s \<longrightarrow> fresh b s')"
begin

lemma runs_models:
  assumes "models s m" and "distinct (cells ops)" and "\<forall>a \<in> set (cells ops). fresh a s" and "\<forall>k \<in> set (erased ops). allowed k"
    and "card (dom m) + length ops \<le> room"
  shows "\<exists>s'. fold_res (run_op put erase) ops s = Inr s' \<and> models s' (foldl map_op m ops)"
  using assms
proof (induction ops arbitrary: s m)
  case (Cons e ops)
  show ?case
  proof (cases e)
    case (Put a k v)
    let ?m = "if k \<in> dom m then m else m(k \<mapsto> v)"
    obtain s' where s': "put (a, k, v) s = Inr s'" "models s' ?m" "\<forall>b. b \<noteq> a \<longrightarrow> fresh b s \<longrightarrow> fresh b s'"
      using put_models[of s m a k v] Cons.prems Put by auto
    have "card (dom ?m) \<le> Suc (card (dom m))" using finite_models[OF Cons.prems(1)] by (auto simp: card_insert_if)
    then have "card (dom ?m) + length ops \<le> room" using Cons.prems(5) by simp
    moreover have "distinct (cells ops)" "\<forall>a \<in> set (cells ops). fresh a s'" "\<forall>k \<in> set (erased ops). allowed k" using Cons.prems(2-4) s'(3) Put by auto
    moreover have "fold_res (run_op put erase) (e # ops) s = fold_res (run_op put erase) ops s'" "foldl map_op m (e # ops) = foldl map_op ?m ops"
      by (simp_all only: Put fold_res.simps run_op.simps s'(1) bind_res_simps foldl.simps map_op.simps)
    ultimately show ?thesis using Cons.IH[OF s'(2)] by (simp only:)
  next
    case (Erase k)
    obtain s' where s': "erase k s = Inr s'" "models s' (m(k := None))" "\<forall>b. fresh b s \<longrightarrow> fresh b s'"
      using erase_models[OF Cons.prems(1), of k] Cons.prems(4) Erase by auto
    have "card (dom (m(k := None))) \<le> card (dom m)" using finite_models[OF Cons.prems(1)] by (auto intro: card_mono)
    then have "card (dom (m(k := None))) + length ops \<le> room" using Cons.prems(5) by simp
    moreover have "distinct (cells ops)" "\<forall>a \<in> set (cells ops). fresh a s'" "\<forall>k \<in> set (erased ops). allowed k" using Cons.prems(2-4) s'(3) Erase by auto
    moreover have "fold_res (run_op put erase) (e # ops) s = fold_res (run_op put erase) ops s'" "foldl map_op m (e # ops) = foldl map_op (m(k := None)) ops"
      by (simp_all only: Erase fold_res.simps run_op.simps s'(1) bind_res_simps foldl.simps map_op.simps)
    ultimately show ?thesis using Cons.IH[OF s'(2)] by (simp only:)
  qed
qed simp

end

section \<open>The threaded tree\<close>

definition tree_erase :: "addr \<Rightarrow> 'k :: linorder \<Rightarrow> nat \<times> ('k, 'v) mem \<Rightarrow> (nat \<times> ('k, 'v) mem) res" where
  "tree_erase this k s = bind_res (try_remove maxHeight (<) k this (fst s) (snd s)) (\<lambda>(p, num, h). Inr (num, h))"

definition tree_below :: "'k :: linorder \<Rightarrow> addr \<Rightarrow> nat \<times> ('k, 'v) mem \<Rightarrow> ('k \<rightharpoonup> 'v) \<Rightarrow> bool" where
  "tree_below lim this s m \<longleftrightarrow> tree_models this s m \<and> key_at_node (snd s) this = lim \<and> card (dom m) + 1 < 2 ^ 24"

lemma tree_below_get: "tree_below lim this s m \<Longrightarrow> tree_get maxHeight this k (snd s) = Inr (m k)"
  by (simp add: tree_below_def tree_get_models)

lemma tree_below_finite: "tree_below lim this s m \<Longrightarrow> finite (dom m)"
  by (auto simp: tree_below_def dest: tree_finite_models)

lemma tree_below_put:
  assumes "tree_below lim this s m" and "tree_fresh n s" and "card (dom m) < 2 ^ 24 - 2"
  shows "\<exists>s'. tree_put this (n, k, v) s = Inr s' \<and> tree_below lim this s' (if k \<in> dom m then m else m(k \<mapsto> v)) \<and>
    (\<forall>b. b \<noteq> n \<longrightarrow> tree_fresh b s \<longrightarrow> tree_fresh b s')"
proof -
  let ?m = "if k \<in> dom m then m else m(k \<mapsto> v)"
  have t: "tree_models this s m" "key_at_node (snd s) this = lim" using assms(1) by (simp_all add: tree_below_def)
  obtain s' where s': "tree_put this (n, k, v) s = Inr s'" "tree_models this s' ?m" "\<forall>b. b \<noteq> n \<longrightarrow> tree_fresh b s \<longrightarrow> tree_fresh b s'"
      "\<forall>b. b \<noteq> n \<longrightarrow> entries (snd s') b = entries (snd s) b"
    using tree_put_run[OF t(1) assms(2), of k v] assms(3) by auto
  have "n \<noteq> this"
  proof
    assume "n = this"
    moreover have "links (snd s) this \<noteq> None" using t(1) by (auto simp: tree_models_def wf_tree_def tree_at_def hangs_def)
    ultimately show False using assms(2) by (simp add: tree_fresh_def links_def)
  qed
  then have "key_at_node (snd s') this = lim" using s'(4) t(2) by (simp add: key_at_node_def)
  moreover have "card (dom ?m) + 1 < 2 ^ 24" using assms(3) tree_below_finite[OF assms(1)] by (auto simp: card_insert_if)
  ultimately have "tree_below lim this s' ?m" using s'(2) by (simp only: tree_below_def)
  then show ?thesis using s'(1,3) by blast
qed

lemma tree_below_erase:
  assumes "tree_below lim this s m" and "k < lim"
  shows "\<exists>s'. tree_erase this k s = Inr s' \<and> tree_below lim this s' (m(k := None)) \<and> (\<forall>b. tree_fresh b s \<longrightarrow> tree_fresh b s')"
proof -
  obtain T where T: "wf_tree this T (snd s)" "tree_contents (snd s) T = m" "fst s = length (inord T)" and key: "key_at_node (snd s) this = lim"
    using assms(1) by (auto simp: tree_below_def tree_models_def)
  have l: "length (inord T) + 1 < 2 ^ 24" using card_contents[of "snd s" T] T assms(1) by (simp add: wf_tree_def tree_below_def)
  then have ht: "Suc (height T) < maxHeight" using red_black_height(4)[of "colors (snd s)" T] T(1) by (simp add: wf_tree_def)
  have d: "distinct (this # inord T)" using T(1) by (simp add: wf_tree_def tree_at_def)
  note run = erase_run[OF T(1) ht Suc_lessD[OF ht], of k "fst s"]
  show ?thesis
  proof (cases "k \<in> dom m")
    case True
    then obtain q h' T' where r: "q \<in> set (inord T)" "try_remove maxHeight (<) k this (fst s) (snd s) = Inr (0, (fst s + (2 ^ 64 - 1)) mod 2 ^ 64, h')" "wf_tree this T' h'"
        "set (inord T') = set (inord T) - {q}" "entries h' = (entries (snd s))(q := None)" "tree_contents h' T' = m(k := None)"
      using run assms(2) key T(2) by auto
    have "distinct (inord T')" using r(3) by (simp add: wf_tree_def tree_at_def)
    then have lT: "length (inord T') = length (inord T) - 1" using r(1,4) d distinct_card[of "inord T'"] distinct_card[of "inord T"] by simp
    have pos: "0 < length (inord T)" using r(1) by (cases "inord T") auto
    then have "(fst s + (2 ^ 64 - 1)) mod 2 ^ 64 = length (inord T')" using T(3) l lT by (simp add: mod_if)
    then have e: "tree_erase this k s = Inr (length (inord T'), h')" using r(2) by (simp add: tree_erase_def)
    have "card (dom (m(k := None))) = length (inord T')" using card_contents[of h' T'] r(3,6) by (simp add: wf_tree_def)
    moreover have "q \<noteq> this" using r(1) d by auto
    then have "key_at_node h' this = lim" using key r(5) by (simp add: key_at_node_def)
    ultimately have "tree_below lim this (length (inord T'), h') (m(k := None))" using r(3,6) l lT by (auto simp: tree_below_def tree_models_def)
    moreover have "tree_fresh b (length (inord T'), h')" if "tree_fresh b s" for b
    proof -
      have "entries h' b = None" using that r(5) by (simp add: tree_fresh_def links_dom)
      then show ?thesis using that by (simp add: tree_fresh_def links_dom)
    qed
    ultimately show ?thesis using e by blast
  next
    case False
    then have "tree_erase this k s = Inr s" using run assms(2) key T(2) by (simp add: tree_erase_def)
    moreover have "m(k := None) = m" using False by auto
    ultimately show ?thesis using assms(1) by simp
  qed
qed

interpretation trb_below: erasable_store "tree_below lim this" tree_fresh "2 ^ 24 - 2" "tree_put this" "\<lambda>k s. tree_get maxHeight this k (snd s)"
    "\<lambda>k. k < lim" "tree_erase this"
  for lim :: "'k :: linorder" and this :: addr
  by unfold_locales (fact tree_below_get tree_below_finite tree_below_put tree_below_erase)+

end
