(* ===== verification/Trb_Props.thy ===== *)
theory Trb_Props
  imports Trb_Store
begin

text \<open>
  What the threaded tree promises: search finds exactly the keys, insertion keeps a
  threaded red-black search tree and its stack of ancestors suffices, the destructor deletes every node once, and a tree
  filled from empty is the map of the first value of every key.
\<close>

section \<open>A tree of one element\<close>

definition demo_object :: "(int, string) TRBTreeNode" where
  "demo_object = \<lparr>pLeft = 8, pRight = 4096, first = 1000, second = []\<rparr>"

definition demo_mem :: "(int, string) mem" where
  "demo_mem = [32 \<mapsto> demo_object, 8 \<mapsto> \<lparr>pLeft = 2, pRight = 2, first = 5, second = ''five''\<rparr>]"

lemma demo_views:
  "tag_of s \<lparr>pLeft = 2, pRight = 2, first = k, second = v\<rparr> = TRB_TRAIL" "link_of s \<lparr>pLeft = 2, pRight = 2, first = k, second = v\<rparr> = 0"
  "color_of \<lparr>pLeft = 2, pRight = 2, first = k, second = v\<rparr> = TRB_BLACK"
  "tag_of TRB_LEFT demo_object = TRB_CHILD" "link_of TRB_LEFT demo_object = 8" "color_of demo_object = TRB_BLACK"
  by (cases s; simp add: tag_of_def link_of_def color_of_def demo_object_def)+

lemma demo_wf: "wf_tree 32 (Bin Tip 8 Tip) demo_mem"
proof -
  have "red_black (colors demo_mem) (Bin Tip 8 Tip)" by (simp add: red_black_def colors_def demo_mem_def demo_views)
  moreover have "tree_at 32 (Bin Tip 8 Tip) demo_mem"
    by (simp add: tree_at_def hangs_def node_ok_def links_def colors_def demo_mem_def demo_views view_def aligned_def)
  ultimately show ?thesis by (simp add: wf_tree_def sorted_tree_def)
qed

lemma demo_contents: "tree_contents demo_mem (Bin Tip 8 Tip) = [5 \<mapsto> ''five'']"
  by (simp add: tree_contents_def entries_def demo_mem_def)

section \<open>Search\<close>

text \<open>
  \<open>try_find\<close> on a well-formed tree returns, within one step for each level of the tree, the node that
  holds the key with its value when the tree has the key, and the null pointer when it has not.
\<close>

theorem trb_find_contents:
  assumes "wf_tree this T h" and "height T \<le> fuel"
  shows "case tree_contents h T k of None \<Rightarrow> try_find fuel (<) k this h = Inr 0
    | Some v \<Rightarrow> \<exists>r \<in> set (inord T). r \<noteq> 0 \<and> try_find fuel (<) k this h = Inr r \<and> entries h r = Some (k, v)"
  by (rule find_contents[OF assms])

theorem trb_find_contents_witness:
  "try_find 1 (<) 5 32 demo_mem = Inr 8 \<and> try_find 1 (<) 6 32 demo_mem = Inr 0"
  using trb_find_contents[OF demo_wf, of 1 5] trb_find_contents[OF demo_wf, of 1 6] by (auto simp: demo_contents)

section \<open>Insertion\<close>

text \<open>
  \<open>try_insert\<close> on a well-formed tree of fewer than 2 to the 24, less one, elements never overruns its stack of 48
  ancestors. When the tree has the key, the node of the key is returned and nothing changes. Otherwise the new node is
  returned, the count goes up by one, and the tree is well-formed again (links and trails in order, keys sorted, no red node with a
  red child, black nodes balanced, its height at most twice the logarithm of the size): it holds what it held and the new key with its value, and no
  other node has lost its data.
\<close>

theorem trb_insert_contents:
  assumes "wf_tree this T h" and "length (inord T) + 1 < 2 ^ 24" and "h n = None" and "aligned n" and "n \<noteq> 0"
  shows "if k \<in> dom (tree_contents h T)
    then \<exists>q \<in> set (inord T). key_at_node h q = k \<and> try_insert maxHeight (<) k v n this num h = Inr (q, num, h)
    else \<exists>h' T'. try_insert maxHeight (<) k v n this num h = Inr (n, (num + 1) mod 2 ^ 64, h') \<and> wf_tree this T' h' \<and>
      set (inord T') = insert n (set (inord T)) \<and> tree_contents h' T' = (tree_contents h T)(k \<mapsto> v) \<and>
      entries h' = (entries h)(n \<mapsto> (k, v)) \<and> 2 ^ height T' \<le> (length (inord T) + 2)\<^sup>2"
proof -
  have "height T < maxHeight" using red_black_height(1)[of "colors h" T] assms(1,2) by (simp add: wf_tree_def)
  note run = insert_contents[OF assms(1) less_imp_le[OF this] this assms(3-5), of k v num]
  show ?thesis
  proof (cases "k \<in> dom (tree_contents h T)")
    case False
    from run[unfolded if_not_P[OF this]] obtain h' T' where
      r: "try_insert maxHeight (<) k v n this num h = Inr (n, (num + 1) mod 2 ^ 64, h')" "wf_tree this T' h'" "set (inord T') = insert n (set (inord T))"
        "length (inord T') = Suc (length (inord T))" "tree_contents h' T' = (tree_contents h T)(k \<mapsto> v)" "entries h' = (entries h)(n \<mapsto> (k, v))" by blast
    have "2 ^ height T' \<le> (length (inord T) + 2)\<^sup>2" using red_black_height(3)[of "colors h'" T'] r(2,4) by (simp add: wf_tree_def)
    then show ?thesis unfolding if_not_P[OF False] using r by blast
  qed (use run in simp)
qed

theorem trb_insert_contents_witness:
  "(\<exists>h' T'. try_insert maxHeight (<) 3 ''three'' 16 32 1 demo_mem = Inr (16, 2, h') \<and> wf_tree 32 T' h' \<and> set (inord T') = {16, 8} \<and>
      tree_contents h' T' = [5 \<mapsto> ''five'', 3 \<mapsto> ''three'']) \<and>
   try_insert maxHeight (<) 5 ''cinq'' 16 32 1 demo_mem = Inr (8, 1, demo_mem)"
proof -
  have n: "demo_mem 16 = None" "aligned 16" "(16 :: addr) \<noteq> 0" by (simp_all add: demo_mem_def aligned_def)
  have s: "length (inord (Bin Tip 8 Tip)) + 1 < 2 ^ 24" by simp
  show ?thesis
    using trb_insert_contents[OF demo_wf s n, of 3 "''three''" 1] trb_insert_contents[OF demo_wf s n, of 5 "''cinq''" 1] by (auto simp: demo_contents)
qed

section \<open>Destruction\<close>

text \<open>
  The destructor returns after deleting every node of the tree exactly once, in the order of the keys, and deletes
  nothing else; it never looks at a node after it has deleted it.
\<close>

theorem trb_destroy_deletes_all:
  assumes "wf_tree this T h" and "2 * length (inord T) + 1 < fuel"
  shows "destroy_tree fuel this h = Inr (inord T, h |` (- set (inord T))) \<and> distinct (inord T)"
  using destroy_tree_run[of this T h fuel] assms by (auto simp: wf_tree_def tree_at_def)

theorem trb_destroy_deletes_all_witness: "destroy_tree 4 32 demo_mem = Inr ([8], [32 \<mapsto> demo_object])"
proof -
  have "demo_mem |` (- {8}) = [32 \<mapsto> demo_object]" by (auto simp: demo_mem_def restrict_map_def fun_eq_iff)
  then show ?thesis using trb_destroy_deletes_all[OF demo_wf, of 4] by simp
qed

section \<open>Filling a tree\<close>

lemma construct_models: "tree_models this (construct_tree this ob h) Map.empty"
proof -
  have "wf_tree this Tip (h(this \<mapsto> ob\<lparr>pLeft := 0\<rparr>))"
    by (simp add: wf_tree_def tree_at_def hangs_def links_def colors_def tag_of_def link_of_def color_of_def sorted_tree_def red_black_def)
  then show ?thesis unfolding tree_models_def construct_tree_def by (intro exI[of _ Tip]) (simp add: tree_contents_def)
qed

text \<open>
  A tree that starts empty and takes fewer than 2 to the 24 insertions, each with the fresh aligned address that the allocator gives,
  goes through all of them without a fault; then a search returns the first value that was inserted for a
  key, and nothing for any other key, and the count is the number of different keys.
\<close>

theorem trb_builds_map:
  assumes "distinct (map fst es)" and "\<forall>a \<in> set (map fst es). h a = None \<and> a \<noteq> this \<and> aligned a \<and> a \<noteq> 0" and "length es < 2 ^ 24"
  shows "\<exists>num h'. fold_res (tree_put this) es (construct_tree this ob h) = Inr (num, h') \<and> num = card (dom (map_of (map snd es))) \<and>
    (\<forall>k. tree_get maxHeight this k h' = Inr (map_of (map snd es) k))"
proof -
  have "\<forall>a \<in> set (map fst es). tree_fresh a (construct_tree this ob h)" using assms(2) by (auto simp: tree_fresh_def construct_tree_def)
  moreover have "card (dom (Map.empty :: 'a \<rightharpoonup> 'b)) + length es \<le> 2 ^ 24 - 1" using assms(3) by simp
  ultimately obtain s where s: "fold_res (tree_put this) es (construct_tree this ob h) = Inr s" "tree_models this s (map_of (map snd es))"
    using trb.put_all_models[OF construct_models assms(1)] by fastforce
  then have "fst s = card (dom (map_of (map snd es)))" using card_contents by (fastforce simp: tree_models_def wf_tree_def)
  then show ?thesis using s trb.get_models[OF s(2)] by (intro exI[of _ "fst s"] exI[of _ "snd s"]) (simp add: prod_eq_iff)
qed

theorem trb_builds_map_witness:
  "\<exists>h'. fold_res (tree_put 32) [(8, 5, ''a''), (16, 3, ''b''), (24, 5, ''c'')] (construct_tree 32 demo_object Map.empty) = Inr (2, h') \<and>
     tree_get maxHeight 32 5 h' = Inr (Some ''a'') \<and> tree_get maxHeight 32 4 h' = Inr None"
proof -
  let ?es = "[(8 :: addr, 5 :: int, ''a''), (16, 3, ''b''), (24, 5, ''c'')]"
  have d: "dom (map_of (map snd ?es)) = {5, 3}" by (auto simp: dom_def)
  then have "card (dom (map_of (map snd ?es))) = 2" by simp
  then show ?thesis using trb_builds_map[of ?es Map.empty 32 demo_object] by (auto simp: aligned_def)
qed

end
