(* ===== verification/Trb_Remove_Props.thy ===== *)
theory Trb_Remove_Props
  imports Trb_Props
begin

text \<open>
  Removal from the threaded tree: what it does when the word that its search begins with is greater than the key, what it does
  otherwise, and that every mixture of insertions and removals acts as on a map.
\<close>

section \<open>Removal\<close>

text \<open>
  C39: \<open>try_remove\<close> on a well-formed tree of fewer than 2 to the 24, less one, elements, when the word behind the tree object that its
  search takes for a key is greater than the key: without the key in the tree nothing happens. Otherwise exactly the
  node of the key is unlinked and deleted, the count goes down by one, no other node loses its data, and the tree is
  well-formed again: links and trails in order, keys sorted, no red node with a red child, black nodes balanced.
\<close>

theorem trb_remove_contents:
  assumes "wf_tree this T h" and "length (inord T) + 1 < 2 ^ 24" and "k < key_at_node h this"
  shows "if k \<in> dom (tree_contents h T)
    then \<exists>q \<in> set (inord T). key_at_node h q = k \<and> (\<exists>h' T'. try_remove maxHeight (<) k this num h = Inr (0, (num + (2 ^ 64 - 1)) mod 2 ^ 64, h') \<and> wf_tree this T' h' \<and>
      set (inord T') = set (inord T) - {q} \<and> entries h' = (entries h)(q := None) \<and> tree_contents h' T' = (tree_contents h T)(k := None))
    else try_remove maxHeight (<) k this num h = Inr (0, num, h)"
proof -
  have ht: "Suc (height T) < maxHeight" using red_black_height(4)[of "colors h" T] assms(1,2) by (simp add: wf_tree_def)
  show ?thesis by (rule erase_run[OF assms(1) ht Suc_lessD[OF ht] assms(3)])
qed

theorem trb_remove_contents_witness:
  "(\<exists>h' T'. try_remove maxHeight (<) 5 32 1 demo_mem = Inr (0, 0, h') \<and> wf_tree 32 T' h' \<and> inord T' = [] \<and> tree_contents h' T' = Map.empty) \<and>
   try_remove maxHeight (<) 6 32 1 demo_mem = Inr (0, 1, demo_mem)"
proof -
  have s: "length (inord (Bin Tip 8 Tip)) + 1 < 2 ^ 24" by simp
  have k: "5 < key_at_node demo_mem 32" "6 < key_at_node demo_mem 32" by (simp_all add: key_at_node_def entries_def demo_mem_def demo_object_def)
  show ?thesis
    using trb_remove_contents[OF demo_wf s k(1), of 1] trb_remove_contents[OF demo_wf s k(2), of 1] by (auto simp: demo_contents)
qed

section \<open>A search that is led astray\<close>

text \<open>
  C40: \<open>try_remove\<close> on a tree that is not empty compares the key with what lies behind the tree object, which is no key. When that
  word is not greater than the key, the search does not enter the tree, whether it holds the key or not. When the word equals the key, the
  object is taken for the node to remove, and when the right word of the object, the address of the comparator, has bit 1 clear
  (the tag of a child), the search follows it: both access memory outside every node and array. When that bit is set, which the address
  of an object of alignment 1 such as \<open>std::less\<close> may have, the object looks like a leaf, and \<open>try_remove\<close> removes nothing and returns null.
\<close>

theorem trb_remove_misled:
  assumes "wf_tree this T h" and "T \<noteq> Tip" and "\<not> k < key_at_node h this"
    and "get_link this TRB_RIGHT h = Inr p" and "h p = None"
  shows "try_remove maxHeight (<) k this num h =
    (if k = key_at_node h this \<or> get_trail_tag this TRB_RIGHT h = Inr TRB_CHILD then Inl OutOfBounds else Inr (0, num, h))"
proof -
  have t: "tree_at this T h" using assms(1) by (simp add: wf_tree_def)
  obtain ob where ob: "node h this = Inr ob" "pLeft ob = root_or 0 T" using t by (auto simp: tree_at_def elim!: tree_root)
  have rt: "pLeft ob \<noteq> 0" using root_zero[OF t] assms(2) ob(2) by simp
  have f: "first ob = key_at_node h this" using ob(1) by (simp add: key_at_node_def entries_def node_def split: option.splits)
  have r: "link_of TRB_RIGHT ob = p" "get_trail_tag this TRB_RIGHT h = Inr (tag_of TRB_RIGHT ob)"
    using assms(4) ob(1) by (simp_all add: get_trail_tag_def get_link_def)
  obtain fu where n: "maxHeight = Suc (Suc fu)" by (rule that[of 46]) (simp add: maxHeight_def)
  show ?thesis
  proof (cases "k = key_at_node h this")
    case True
    then have "remove_search maxHeight (<) k this [] h = Inr (Some this, [])" unfolding n using ob(1) f by simp
    then show ?thesis using ob(1) rt True by (simp add: try_remove_def unlink_node_def)
  next
    case False
    then have less: "key_at_node h this < k" using assms(3) by simp
    have out: "node h p = Inl OutOfBounds" using assms(5) by (simp add: node_def)
    have "remove_search (Suc (Suc fu)) (<) k this [] h =
        (if tag_of TRB_RIGHT ob = TRB_TRAIL then Inr (None, [(this, TRB_RIGHT)]) else Inl OutOfBounds)"
      using ob(1) f r(1) out less assms(3) by (simp add: Let_def maxHeight_def)
    then show ?thesis using ob(1) rt False unfolding n r(2) by (auto simp: try_remove_def tag_of_def)
  qed
qed

definition demo_low :: "(int, string) mem" where
  "demo_low = demo_mem(32 \<mapsto> demo_object\<lparr>first := 0\<rparr>)"

lemma demo_low_wf: "wf_tree 32 (Bin Tip 8 Tip) demo_low"
proof -
  have w: "tag_of s (n\<lparr>first := w\<rparr>) = tag_of s n" "link_of s (n\<lparr>first := w\<rparr>) = link_of s n" "color_of (n\<lparr>first := w\<rparr>) = color_of n"
    for s w and n :: "(int, string) TRBTreeNode" by (cases s; simp add: tag_of_def link_of_def color_of_def)+
  have v: "links demo_low = links demo_mem" "colors demo_low = colors demo_mem" "entries demo_low 8 = entries demo_mem 8"
    by (auto simp: fun_eq_iff links_def colors_def entries_def demo_low_def demo_mem_def w)
  have "hangs demo_low 32 [] (Bin Tip 8 Tip)" using hangs_cong[OF v(1)] demo_wf by (simp add: wf_tree_def tree_at_def)
  then show ?thesis using demo_wf v by (simp add: wf_tree_def tree_at_def sorted_tree_def)
qed

theorem trb_remove_misled_witness:
  "tree_contents demo_low (Bin Tip 8 Tip) 5 = Some ''five'' \<and> try_remove maxHeight (<) 5 32 1 demo_low = Inl OutOfBounds"
proof -
  have k: "\<not> 5 < key_at_node demo_low 32" by (simp add: key_at_node_def entries_def demo_low_def)
  have g: "get_trail_tag 32 TRB_RIGHT demo_low = Inr TRB_CHILD" "get_link 32 TRB_RIGHT demo_low = Inr 4096" "demo_low 4096 = None"
    by (simp_all add: get_trail_tag_def get_link_def node_def demo_low_def demo_mem_def demo_object_def tag_of_def link_of_def)
  have "tree_contents demo_low (Bin Tip 8 Tip) 5 = Some ''five''" by (simp add: tree_contents_def entries_def demo_low_def demo_mem_def)
  then show ?thesis using trb_remove_misled[OF demo_low_wf _ k g(2,3), of 1] g(1) by simp
qed

section \<open>Insertions and removals\<close>

text \<open>
  C38: a tree that starts empty and takes fewer than 2 to the 24, less one, insertions and removals in any order, each insertion with a fresh
  aligned address, goes through all of them without a fault and acts as a map in which the first value of a key stays until it is
  removed; the count is the number of its keys. This holds when every key to be removed is less than the word behind the tree
  object, with which \<open>try_remove\<close> compares it first; the removal of other keys is what the property on misled removals is about.
\<close>

theorem trb_runs_refine_map:
  assumes "distinct (cells ops)" and "\<forall>a \<in> set (cells ops). h a = None \<and> a \<noteq> this \<and> aligned a \<and> a \<noteq> 0" and "\<forall>k \<in> set (erased ops). k < first ob"
    and "length ops + 1 < 2 ^ 24"
  shows "\<exists>num h'. fold_res (run_op (tree_put this) (tree_erase this)) ops (construct_tree this ob h) = Inr (num, h') \<and>
    num = card (dom (foldl map_op Map.empty ops)) \<and> (\<forall>k. tree_get maxHeight this k h' = Inr (foldl map_op Map.empty ops k))"
proof -
  let ?m = "foldl map_op Map.empty ops"
  have "tree_below (first ob) this (construct_tree this ob h) Map.empty"
    using construct_models[of this ob h] by (simp add: tree_below_def construct_tree_def key_at_node_def entries_def)
  moreover have "\<forall>a \<in> set (cells ops). tree_fresh a (construct_tree this ob h)" using assms(2) by (auto simp: tree_fresh_def construct_tree_def)
  moreover have "card (dom (Map.empty :: 'a \<rightharpoonup> 'b)) + length ops \<le> 2 ^ 24 - 2" using assms(4) by simp
  ultimately obtain s where s: "fold_res (run_op (tree_put this) (tree_erase this)) ops (construct_tree this ob h) = Inr s" "tree_below (first ob) this s ?m"
    using trb_below.runs_models[OF _ assms(1) _ assms(3)] by blast
  obtain T where "wf_tree this T (snd s)" "tree_contents (snd s) T = ?m" "fst s = length (inord T)" using s(2) by (auto simp: tree_below_def tree_models_def)
  then have "fst s = card (dom ?m)" using card_contents[of "snd s" T] by (simp add: wf_tree_def)
  then show ?thesis using s trb_below.get_models[OF s(2)] by (intro exI[of _ "fst s"] exI[of _ "snd s"]) (simp add: prod_eq_iff)
qed

theorem trb_runs_refine_map_witness:
  "\<exists>h'. fold_res (run_op (tree_put 32) (tree_erase 32)) [Put 8 5 ''a'', Put 16 3 ''b'', Erase 5, Put 24 5 ''c'', Put 40 3 ''d'']
      (construct_tree 32 demo_object Map.empty) = Inr (2, h') \<and>
     tree_get maxHeight 32 5 h' = Inr (Some ''c'') \<and> tree_get maxHeight 32 3 h' = Inr (Some ''b'') \<and> tree_get maxHeight 32 4 h' = Inr None"
proof -
  let ?ops = "[Put (8 :: addr) (5 :: int) ''a'', Put 16 3 ''b'', Erase 5, Put 24 5 ''c'', Put 40 3 ''d'']"
  have m: "foldl map_op Map.empty ?ops = [3 \<mapsto> ''b'', 5 \<mapsto> ''c'']" by (auto simp: fun_eq_iff)
  have "dom [3 :: int \<mapsto> ''b'', 5 \<mapsto> ''c''] = {3, 5}" by auto
  then have "card (dom [3 :: int \<mapsto> ''b'', 5 \<mapsto> ''c'']) = 2" by simp
  then show ?thesis using trb_runs_refine_map[of ?ops Map.empty 32 demo_object] unfolding m by (auto simp: aligned_def demo_object_def)
qed

end
