(* ===== verification/Spec2Isabelle.thy ===== *)
theory Spec2Isabelle
  imports Cache_Props2 Cache_Faults Slot_Props Lane_Queue_Conc Matcher_Copy Session_Props Binary_Props Thread_Props Server_Props Trb_Remove_Props
begin

text \<open>
  A verification development for YAMemcached, a multi-threaded memcached-compatible cache server
  written in C++ (sources under \<open>src/src\<close>).

  \<^bold>\<open>The program.\<close> \<open>main\<close> (\<open>YAMemcached.cpp\<close>) parses the options, creates the cache and starts the \<open>Server\<close>
  (\<open>Server.cpp\<close>): one \<open>ServerThread\<close> per processor and an acceptor that gives connections to the threads in
  turn. A thread (\<open>ServerThread.cpp\<close>) takes a \<open>Session\<close> for each client from a pool, the two-lane queue of \<open>LFSPSCQueue.h\<close>,
  and runs it when \<open>epoll\<close> reports its socket. A session (\<open>Session.cpp\<close>) reads into its buffer, lets \<open>processRequest\<close>
  (\<open>RequestProcessor.cpp\<close>, with the command matcher of \<open>FastSubstringMatcher.cpp\<close> and the helpers of \<open>Common.cpp\<close>) run the
  requests of the text protocol, and sends the replies. Datagrams go to the binary protocol
  (\<open>YAMBinaryProtocolProcessor.cpp\<close>). Both act on one \<open>LFLRUHashTable\<close>, a hash index with linear probing over
  preallocated elements that are linked into an LRU list and a free list per thread; its keys are the small strings of
  \<open>string.hpp\<close>, hashed by \<open>xxhash.c\<close>.

  \<^bold>\<open>The model.\<close> Operations are functions on explicit state. \<open>YAM_Prelude\<close> has the result type: an \<open>abort()\<close>, an access outside an array, a
  division by zero, the overflow of a signed sum and a loop that cannot end are values of \<open>fault\<close>, so that "does not fault" is part of every
  theorem that gives a result. Pointers are offsets or element numbers, \<open>size_t\<close> is a number with its wrap-around written out, and
  the other integers are words of their width. A group of theories stands for each part:

  \<^item> \<open>LRU_Table\<close>, \<open>LRU_Table_Ops\<close>: the table class with its lists, locks, index and public operations.
    \<open>LRU_Links\<close> relates the link words to lists, \<open>Hash_Probe\<close> and \<open>Hash_Shift\<close> treat probing, locking and the backward shift,
    \<open>Table_Inv\<close> has the invariant \<open>table_inv\<close>, the map \<open>contents\<close> and the locale \<open>key_ops\<close> (a key type with a hash and an equality
    test), \<open>Table_Map\<close>, \<open>Table_Index\<close>, \<open>Table_Write\<close>, \<open>Table_Evict\<close>, \<open>Table_Init\<close>, \<open>Table_Remove\<close>, \<open>Table_Cas\<close>, \<open>Table_Wrap\<close> the
    operations against that map.
  \<^item> \<open>Cache\<close>: the cache of the server, the interpretation \<open>yam\<close> of \<open>key_ops\<close> on its strings and hash. \<open>Cache_Spec\<close>: a
    map that forgets, and that runs of operations refine it. \<open>Cache_Props\<close>, \<open>Cache_Props2\<close>, \<open>Cache_Faults\<close>: the theorems.
  \<^item> \<open>Slot_Threads\<close>: the slot locks of the table with any number of threads, interleaved at every access to \<open>elementLinks\<close>;
    \<open>Slot_Conc\<close> has their invariant and the argument against waiting in a circle, \<open>Slot_Props\<close> the theorems.
  \<^item> \<open>XXHash\<close> (the locale \<open>stripe_hash\<close>, interpreted for both widths; byte order and alignment are parameters), \<open>SSO_String\<close>,
    \<open>Server_Common\<close>, \<open>Keyword_Matcher\<close>: the libraries. \<open>Matcher_Copy\<close>: copies of the matcher, with its pointers.
  \<^item> \<open>Lane_Queue\<close>: the queue, and the locale \<open>bounded_bag\<close> of what the pool relies on. \<open>Lane_Queue_Conc\<close>: pusher and popper
    interleaved at every shared access.
  \<^item> \<open>Text_Protocol\<close>: parser, replies and state machine of the text protocol; \<open>Text_Output\<close>, \<open>Text_Requests\<close>, \<open>Text_Get\<close>, \<open>Text_Faults\<close>.
  \<^item> \<open>Session\<close>: the session; \<open>Session_Requests\<close>, \<open>Session_Keep\<close>, \<open>Session_Props\<close>.
  \<^item> \<open>Binary_Protocol\<close>, \<open>Binary_Props\<close>: the binary protocol and one datagram.
  \<^item> \<open>Server_Thread\<close>: worker threads, acceptor, options, start and signals; \<open>Thread_Props\<close>, \<open>Server_Props\<close>.
  \<^item> \<open>Trb_Tree\<close>: the threaded red-black tree of \<open>trbtree.hh\<close> on a memory of nodes with packed words, which no other part uses yet.
    \<open>Trb_Shape\<close> has the shapes of trees in memory, \<open>Trb_Ops\<close>, \<open>Trb_Insert\<close>, \<open>Trb_Balance\<close>, \<open>Trb_Run\<close> search and insertion on them,
    \<open>Trb_Destroy\<close> the destructor, \<open>Trb_Map\<close> the tree as a map with the locale \<open>keyed_store\<close> and its interpretation \<open>trb\<close>. \<open>Trb_Remove\<close> is
    the model of \<open>try_remove\<close>: \<open>Trb_Unlink\<close> and \<open>Trb_Detach\<close> take a node out, \<open>Trb_Rebalance\<close> and \<open>Trb_Removal\<close> restore the colours,
    \<open>Trb_Erase\<close> puts them together, and \<open>Trb_Store\<close> has the locale \<open>erasable_store\<close>, an extension of \<open>keyed_store\<close>, with its interpretation
    \<open>trb_below\<close>. \<open>Trb_Props\<close> and \<open>Trb_Remove_Props\<close> are the theorems.

  \<^bold>\<open>What is shown.\<close>

  \<^item> The cache: the constructor establishes the invariant, and lookups, insertions, overwrites and
    evictions act on \<open>contents\<close> as they should, keep the invariant and never fault, as long as the probe window of the key has a free slot
    (\<open>window_ok\<close>) and an eviction does not shift records round the end of the index (\<open>evict_room\<close>). Any sequence of them refines the
    map that forgets. Outside these conditions the code fails, and \<open>Cache_Faults\<close> shows where: \<open>remove\<close>, compare-and-swap, the wrap of the
    shift, counting and expiry.
  \<^item> Threads in the table: for calls of \<open>get\<close> and \<open>set\<close> without a lock array, \<open>insert\<close>, \<open>insertOrSet\<close> and the removals by element, under every
    interleaving a slot is locked by one thread at most, no element is indexed twice or lost, every index is in range; and since the table
    has more slots than elements, all these calls can always run to their ends, unless a probe is longer than the array of locks. \<open>remove\<close> with
    \<open>removeFromHashKey\<close>, the operations with a lock array, \<open>lockElement\<close> and \<open>processHash\<close> are no part of this: \<open>Cache_Faults\<close> shows a removal that
    spins and a lookup that leaves slots locked.
  \<^item> The libraries: streaming and one-shot hashes agree, on every byte order, strings hold their bytes and pack their sizes (a string of less than 23 bytes that was
    moved from has size 0 but keeps its bytes), numbers round trip through text and digits are read at their value, where the signed sum of \<open>atoui\<close> does
    not overflow, the matcher recognises the commands and its construction ends, the queue is a bounded bag sequentially and when interleaved,
    and its concurrent accesses are within the rings and never at the same index of one.
  \<^item> Requests: a complete store without \<open>noreply\<close>, with an expiry time below $2^{31}$, and a complete lookup are served with exactly their
    replies, where their cache operations are safe; a store consumes its bytes, except that an empty value leaves the last CR LF in the
    input. A session serves a batch of lookups and of stores of values of at least one byte that arrives in any pieces; such a batch over the read
    threshold, read into a buffer that it does not fill and ending with a request, is postponed; lookups by datagram are answered. Stores
    of non-empty values with \<open>noreply\<close>, unknown commands, a line that arrives split between CR and LF and binary stores (with room
    for the probe, \<open>store_room\<close>) are not served, and it is shown what they do instead.
  \<^item> Threads: the pool hands out ready sessions, a round of the loop in which no event is for a pooled or postponed session keeps every
    session in one place, the program starts with distinct thread ids within the cache, the acceptor takes turns; an event upon which a postponed
    session fails breaks the pool.
  \<^item> The threaded tree: search, insertion, removal and destruction are correct on every well-formed tree of fewer than $2^{24}$ elements, and
    any sequence of insertions and removals acts as on a map when the keys removed are below the word behind the tree object, with which the
    search of a removal begins (a constant for keys of at most 8 bytes). For the other keys, in a tree that is not empty, the search goes
    outside every node when the key equals that word or the address of the comparator, which lies in the right word of the object, has
    bit 1 clear, and otherwise ends without removing anything.

  \<^bold>\<open>Bounds and fuel.\<close> The recursion of the model is structural or has a measure, except for the loops that
  wait for the socket or run requests, which take \<open>fuel\<close>: the theorems state that more fuel than pieces received, requests and portions sent gives the
  result. Spinning on a lock that nobody releases is the value \<open>Spins\<close>; the table operations are functions of one thread, so a lock that is taken stays
  taken there. The tree takes fuel for the steps down (the height suffices, and 48 for $2^{24}$ elements) and for the
  destructor (more than twice the size). \<open>thread_rounds\<close> runs the loop of a thread for a given number of rounds.

  \<^bold>\<open>Not modelled.\<close> Concurrent updates of the linked lists of the table (whole operations are modelled for one thread; their slot locks, and the
  queue, are interleaved), and weak memory order; copying and swapping of tables, which do not compile when used, since
  atomic members can be neither copied nor swapped; log output and the debug build (\<open>NDEBUG\<close> selects logging only, but for \<open>EINTR\<close>); and of
  \<open>trbtree.hh\<close> copying (which does not compile), the iterators and the public operations, which are
  declared and not defined. The operating system is the record \<open>os\<close> of functions,
  \<open>recv\<close> and \<open>send\<close> are arguments.
\<close>

end
